(* ===== verification/Magpie_Prelude.thy ===== *)
theory Magpie_Prelude
  imports Complex_Main "HOL-Library.Word"
begin

text \<open>
  Shared ground of the development: names for the machine types the Go sources use,
  the result type of fallible operations, the fragment of package \<open>strings\<close> the
  components call, and the list and word lemmas more than one component needs.
\<close>

unbundle bit_operations_syntax

subsection \<open>Machine types and results\<close>

type_synonym u8 = "8 word"
type_synonym u16 = "16 word"
type_synonym u32 = "32 word"
type_synonym u64 = "64 word"

text \<open>
  A Go function that returns \<open>(T, error)\<close> is a function into \<open>'e + 'a\<close>: \<open>Inl\<close> carries
  the error, \<open>Inr\<close> the value of the call that returned a nil error.
\<close>

type_synonym ('e, 'a) result = "'e + 'a"

definition is_ok :: "('e, 'a) result \<Rightarrow> bool" where
  "is_ok r = (case r of Inl _ \<Rightarrow> False | Inr _ \<Rightarrow> True)"

lemma is_ok_simps [simp]: "is_ok (Inl e) = False" "is_ok (Inr a) = True"
  by (simp_all add: is_ok_def)

lemma is_okE:
  assumes "is_ok r" obtains a where "r = Inr a"
  using assms by (cases r) simp_all

text \<open>
  Collections: \<open>inv_intro\<close> gathers the preservation lemmas of the components' invariants,
  \<open>op_defs\<close> the definitions that a proof unfolds to reach the code of an operation.
\<close>

named_theorems inv_intro "operations preserve the component's invariant"
named_theorems op_defs "definitions of operations"

subsection \<open>Package strings\<close>

text \<open>
  A Go string is a list of bytes, as \<^typ>\<open>string\<close> is. \<open>TrimSpace\<close> and \<open>ToLower\<close> are
  exact on ASCII input, the only input the modelled callers compare against literals.
\<close>

definition is_space :: "char \<Rightarrow> bool" where
  "is_space c = (let n = of_char c :: nat in n = 32 \<or> (9 \<le> n \<and> n \<le> 13))"

definition TrimSpace :: "string \<Rightarrow> string" where
  "TrimSpace s = rev (dropWhile is_space (rev (dropWhile is_space s)))"

definition lower_char :: "char \<Rightarrow> char" where
  "lower_char c = (let n = of_char c :: nat in if 65 \<le> n \<and> n \<le> 90 then char_of (n + 32) else c)"

definition ToLower :: "string \<Rightarrow> string" where
  "ToLower s = map lower_char s"

lemma lower_char_idem [simp]: "lower_char (lower_char c) = lower_char c"
proof -
  have "(of_char c :: nat) < 256" by simp
  then show ?thesis by (auto simp: lower_char_def Let_def)
qed

lemma ToLower_idem [simp]: "ToLower (ToLower s) = ToLower s"
  by (simp add: ToLower_def comp_def)

lemma dropWhile_idem' [simp]: "dropWhile P (dropWhile P xs) = dropWhile P xs"
  by (induction xs) auto

lemma dropWhile_fix: "xs = [] \<or> \<not> P (hd xs) \<Longrightarrow> dropWhile P xs = xs"
  by (cases xs) auto

lemma hd_rev_dropWhile_rev:
  "rev (dropWhile P (rev xs)) \<noteq> [] \<Longrightarrow> hd (rev (dropWhile P (rev xs))) = hd xs"
  by (metis append_Nil hd_append2 rev_append rev_rev_ident takeWhile_dropWhile_id)

lemma dropWhile_rev_dropWhile:
  "dropWhile P (rev (dropWhile P (rev (dropWhile P xs)))) = rev (dropWhile P (rev (dropWhile P xs)))"
proof (rule dropWhile_fix, rule disjCI)
  assume "\<not> \<not> P (hd (rev (dropWhile P (rev (dropWhile P xs)))))"
  show "rev (dropWhile P (rev (dropWhile P xs))) = []"
  proof (rule ccontr)
    assume ne: "rev (dropWhile P (rev (dropWhile P xs))) \<noteq> []"
    then have "dropWhile P xs \<noteq> []" by (metis dropWhile.simps(1) rev.simps(1))
    with hd_dropWhile [of P xs] hd_rev_dropWhile_rev [OF ne] \<open>\<not> \<not> P _\<close> show False by simp
  qed
qed

lemma TrimSpace_idem [simp]: "TrimSpace (TrimSpace s) = TrimSpace s"
  by (simp add: TrimSpace_def dropWhile_rev_dropWhile)

subsection \<open>Package time\<close>

text \<open>
  An instant (\<open>time.Time\<close>) is its number of nanoseconds since a fixed epoch, an unbounded
  integer. A \<open>time.Duration\<close> is a signed 64-bit count of nanoseconds; \<open>Sub\<close> saturates at its ends.
\<close>

type_synonym instant = int
type_synonym duration = int

definition max_duration :: duration where "max_duration = 2 ^ 63 - 1"
definition min_duration :: duration where "min_duration = - (2 ^ 63)"

definition time_Sub :: "instant \<Rightarrow> instant \<Rightarrow> duration" where
  "time_Sub t u = max min_duration (min max_duration (t - u))"

lemma time_Sub_mono: "t \<le> t' \<Longrightarrow> u' \<le> u \<Longrightarrow> time_Sub t u \<le> time_Sub t' u'"
  by (simp add: time_Sub_def)

abbreviation (input) nanosecond :: duration where "nanosecond \<equiv> 1"
abbreviation (input) millisecond :: duration where "millisecond \<equiv> 1000000"
abbreviation (input) second :: duration where "second \<equiv> 1000000000"
abbreviation (input) minute :: duration where "minute \<equiv> 60000000000"
abbreviation (input) hour :: duration where "hour \<equiv> 3600000000000"

subsection \<open>Lists\<close>

text \<open>Order-preserving removal of duplicates, first occurrence kept: the Go idiom of a slice built beside a seen-map.\<close>

fun dedup_onto :: "'a list \<Rightarrow> 'a list \<Rightarrow> 'a list" where
  "dedup_onto out [] = out"
| "dedup_onto out (x # xs) = (if x \<in> set out then dedup_onto out xs else dedup_onto (out @ [x]) xs)"

lemma set_dedup_onto [simp]: "set (dedup_onto out xs) = set out \<union> set xs"
  by (induction xs arbitrary: out) auto

lemma distinct_dedup_onto [simp]: "distinct out \<Longrightarrow> distinct (dedup_onto out xs)"
  by (induction xs arbitrary: out) auto

lemma dedup_onto_distinct:
  "distinct (out @ xs) \<Longrightarrow> dedup_onto out xs = out @ xs"
  by (induction xs arbitrary: out) auto

end
