(* ===== verification/Checker_Settings.thy ===== *)
theory Checker_Settings
  imports Magpie_Prelude
begin

text \<open>
  Checker settings of a workspace (\<open>internal/domain/checker_settings.go\<close>,
  \<open>internal/api/dto/checker_settings.go\<close>): a default profile, tag rules ordered from the
  highest priority to the lowest, validation on settings writes, and resolution of the
  settings of one proxy from the tags it carries. The results: validation accepts exactly
  the settings under which no set of tags ever selects a SOCKS protocol over a transport
  other than TCP, and the conversion of legacy settings keeps what it can.
\<close>

subsection \<open>Data\<close>

record CheckerProfileSettings =
  prof_protocols :: "string list"
  prof_transport :: string
  prof_timeout :: u16
  prof_retries :: u8

record TagCheckerRule =
  rule_tagID :: u64
  rule_mode :: string
  rule_protocols :: "string list"
  rule_transport :: "string option"
  rule_timeout :: "u16 option"
  rule_retries :: "u8 option"

record CheckerSettings =
  cs_defaults :: CheckerProfileSettings
  cs_rules :: "TagCheckerRule list"
  cs_legacy :: bool

record ProtocolCheckSettings =
  pcs_enabled :: bool
  pcs_transport :: string
  pcs_timeout :: u16
  pcs_retries :: u8

text \<open>One constructor per message \<open>invalidCheckerSettings\<close> is called with.\<close>

datatype CheckerSettingsError =
    TimeoutOutOfRange
  | UnsupportedTransport string
  | UnsupportedProtocol string
  | DuplicateProtocol string
  | RuleTagIDs
  | RuleMode
  | RemoveWithOverrides
  | SocksRequiresTCP

definition CheckerProtocols :: "string list" where
  "CheckerProtocols = [''http'', ''https'', ''socks4'', ''socks5'']"

subsection \<open>Operations\<close>

definition profile_Enabled :: "CheckerProfileSettings \<Rightarrow> string \<Rightarrow> bool" where
  "profile_Enabled profile protocol = list_ex (\<lambda>name. name = protocol) (prof_protocols profile)"

text \<open>The inner loop of \<open>checkerProtocolMask\<close>: the bit of the first name that matches, 0 when none does.\<close>

fun protocol_bit :: "nat \<Rightarrow> string list \<Rightarrow> string \<Rightarrow> u8" where
  "protocol_bit i [] protocol = 0"
| "protocol_bit i (name # names) protocol =
     (if name = protocol then push_bit i 1 else protocol_bit (Suc i) names protocol)"

fun protocol_mask_loop :: "u8 \<Rightarrow> string list \<Rightarrow> (CheckerSettingsError, u8) result" where
  "protocol_mask_loop msk [] = Inr msk"
| "protocol_mask_loop msk (protocol # rest) =
     (let b = protocol_bit 0 CheckerProtocols protocol in
      if b = 0 then Inl (UnsupportedProtocol protocol)
      else if msk AND b \<noteq> 0 then Inl (DuplicateProtocol protocol)
      else protocol_mask_loop (msk OR b) rest)"

definition checkerProtocolMask :: "string list \<Rightarrow> (CheckerSettingsError, u8) result" where
  "checkerProtocolMask protocols = protocol_mask_loop 0 protocols"

text \<open>A caller that drops the error (\<open>mask, _ := checkerProtocolMask(...)\<close>) sees mask 0 on failure.\<close>

definition protocol_mask_value :: "string list \<Rightarrow> u8" where
  "protocol_mask_value protocols = (case checkerProtocolMask protocols of Inl _ \<Rightarrow> 0 | Inr m \<Rightarrow> m)"

definition validateCheckerTransport :: "string \<Rightarrow> (CheckerSettingsError, unit) result" where
  "validateCheckerTransport t =
     (if t \<noteq> ''tcp'' \<and> t \<noteq> ''quic'' \<and> t \<noteq> ''http3'' then Inl (UnsupportedTransport t) else Inr ())"

text \<open>A \<open>selection\<close> of \<open>ValidateCheckerSettings\<close>: the protocol mask and the transport.\<close>

type_synonym selection = "u8 \<times> string"

definition rule_select :: "TagCheckerRule \<Rightarrow> u8 \<Rightarrow> selection \<Rightarrow> selection" where
  "rule_select rule selected state =
     (let msk = fst state;
          msk = (if rule_mode rule = ''replace'' then selected else msk);
          msk = (if rule_mode rule = ''add'' then msk OR selected else msk);
          msk = (if rule_mode rule = ''remove'' then msk AND NOT selected else msk)
      in (msk, case rule_transport rule of None \<Rightarrow> snd state | Some t \<Rightarrow> t))"

text \<open>The checks one iteration of the rule loop makes before it extends the state set; the value is the rule's mask.\<close>

definition check_rule :: "u64 set \<Rightarrow> TagCheckerRule \<Rightarrow> (CheckerSettingsError, u8) result" where
  "check_rule seen rule =
     (if rule_tagID rule = 0 \<or> rule_tagID rule \<in> seen then Inl RuleTagIDs
      else if rule_mode rule \<noteq> ''replace'' \<and> rule_mode rule \<noteq> ''add'' \<and> rule_mode rule \<noteq> ''remove''
        then Inl RuleMode
      else case checkerProtocolMask (rule_protocols rule) of
        Inl e \<Rightarrow> Inl e
      | Inr selected \<Rightarrow>
          if rule_mode rule = ''remove'' \<and>
             (rule_transport rule \<noteq> None \<or> rule_timeout rule \<noteq> None \<or> rule_retries rule \<noteq> None)
            then Inl RemoveWithOverrides
          else if rule_timeout rule = Some 0 then Inl TimeoutOutOfRange
          else case rule_transport rule of
            None \<Rightarrow> Inr selected
          | Some t \<Rightarrow> (case validateCheckerTransport t of Inl e \<Rightarrow> Inl e | Inr _ \<Rightarrow> Inr selected))"

text \<open>The rule loop, over the rules in the order it visits them (last rule first).\<close>

fun validate_rules ::
  "u64 set \<Rightarrow> selection set \<Rightarrow> TagCheckerRule list \<Rightarrow> (CheckerSettingsError, selection set) result" where
  "validate_rules seen states [] = Inr states"
| "validate_rules seen states (rule # rest) =
     (case check_rule seen rule of
        Inl e \<Rightarrow> Inl e
      | Inr selected \<Rightarrow>
          validate_rules (insert (rule_tagID rule) seen) (states \<union> rule_select rule selected ` states) rest)"

definition unsupported_selection :: "selection \<Rightarrow> bool" where
  "unsupported_selection state = (fst state AND 12 \<noteq> 0 \<and> snd state \<noteq> ''tcp'')"

definition ValidateCheckerSettings :: "CheckerSettings option \<Rightarrow> (CheckerSettingsError, unit) result" where
  "ValidateCheckerSettings value =
     (case value of
        None \<Rightarrow> Inr ()
      | Some v \<Rightarrow>
          if prof_timeout (cs_defaults v) = 0 then Inl TimeoutOutOfRange
          else case validateCheckerTransport (prof_transport (cs_defaults v)) of
            Inl e \<Rightarrow> Inl e
          | Inr _ \<Rightarrow>
              (case checkerProtocolMask (prof_protocols (cs_defaults v)) of
                 Inl e \<Rightarrow> Inl e
               | Inr msk \<Rightarrow>
                   (case validate_rules {} {(msk, prof_transport (cs_defaults v))} (rev (cs_rules v)) of
                      Inl e \<Rightarrow> Inl e
                    | Inr states \<Rightarrow>
                        if \<exists>state\<in>states. unsupported_selection state then Inl SocksRequiresTCP else Inr ())))"

text \<open>Resolution: the profile with its mask after every matching rule, last rule first.\<close>

fun resolve_rules ::
  "u64 set \<Rightarrow> TagCheckerRule list \<Rightarrow> u8 \<times> CheckerProfileSettings \<Rightarrow> u8 \<times> CheckerProfileSettings" where
  "resolve_rules tagIDs [] st = st"
| "resolve_rules tagIDs (rule # rest) (msk, profile) =
     (if rule_tagID rule \<notin> tagIDs then resolve_rules tagIDs rest (msk, profile)
      else let selected = protocol_mask_value (rule_protocols rule) in
        if rule_mode rule = ''remove'' then resolve_rules tagIDs rest (msk AND NOT selected, profile)
        else
          let msk = (if rule_mode rule = ''replace'' then selected
                      else if rule_mode rule = ''add'' then msk OR selected else msk);
              profile = profile
                \<lparr>prof_transport := (case rule_transport rule of None \<Rightarrow> prof_transport profile | Some t \<Rightarrow> t),
                 prof_timeout := (case rule_timeout rule of None \<Rightarrow> prof_timeout profile | Some t \<Rightarrow> t),
                 prof_retries := (case rule_retries rule of None \<Rightarrow> prof_retries profile | Some r \<Rightarrow> r)\<rparr>
          in resolve_rules tagIDs rest (msk, profile))"

definition plan_of :: "u8 \<Rightarrow> CheckerProfileSettings \<Rightarrow> ProtocolCheckSettings list" where
  "plan_of msk profile =
     map (\<lambda>i. \<lparr>pcs_enabled = (msk AND push_bit i 1 \<noteq> 0), pcs_transport = prof_transport profile,
               pcs_timeout = prof_timeout profile, pcs_retries = prof_retries profile\<rparr>) [0..<4]"

definition ResolveCheckerSettings :: "CheckerSettings \<Rightarrow> u64 set \<Rightarrow> ProtocolCheckSettings list" where
  "ResolveCheckerSettings value tagIDs =
     (let (msk, profile) =
        resolve_rules tagIDs (rev (cs_rules value))
          (protocol_mask_value (prof_protocols (cs_defaults value)), cs_defaults value)
      in plan_of msk profile)"


text \<open>
  The workspace fields the checker reads (\<open>internal/domain/workspace_model.go\<close>); columns that
  only relate it to other tables are left out.
\<close>

record Workspace =
  ws_ID :: u64
  ws_HTTPProtocol :: bool
  ws_HTTPSProtocol :: bool
  ws_SOCKS4Protocol :: bool
  ws_SOCKS5Protocol :: bool
  ws_Timeout :: u16
  ws_Retries :: u8
  ws_UseHttpsForSocks :: bool
  ws_TransportProtocol :: string
  ws_AutoRemoveFailingProxies :: bool
  ws_AutoRemoveFailureThreshold :: u8
  ws_FailureAction :: string
  ws_CheckerConfig :: "CheckerSettings option"
  ws_CheckerGeneration :: u64

definition EffectiveFailureAction :: "Workspace \<Rightarrow> string" where
  "EffectiveFailureAction workspace =
     (if ws_FailureAction workspace = ''delete'' then ''delete'' else ''pause'')"

definition GetProtocolMap :: "Workspace \<Rightarrow> (string \<rightharpoonup> int)" where
  "GetProtocolMap workspace =
     (let protocols = Map.empty;
          protocols = (if ws_HTTPProtocol workspace then protocols(''http'' \<mapsto> 1) else protocols);
          protocols = (if ws_HTTPSProtocol workspace then protocols(''https'' \<mapsto> 2) else protocols);
          protocols = (if ws_SOCKS4Protocol workspace then protocols(''socks4'' \<mapsto> 3) else protocols);
          protocols = (if ws_SOCKS5Protocol workspace then protocols(''socks5'' \<mapsto> 4) else protocols)
      in protocols)"

definition tcp_only :: "CheckerSettings \<Rightarrow> CheckerSettings" where
  "tcp_only value = value
     \<lparr>cs_legacy := False,
      cs_defaults := (cs_defaults value)\<lparr>prof_transport := ''tcp''\<rparr>,
      cs_rules := map (\<lambda>r. if rule_transport r \<noteq> None then r\<lparr>rule_transport := Some ''tcp''\<rparr> else r)
        (cs_rules value)\<rparr>"

definition DefaultCheckerSettings :: "Workspace \<Rightarrow> CheckerSettings" where
  "DefaultCheckerSettings workspace =
     (case ws_CheckerConfig workspace of
        Some value \<Rightarrow>
          if cs_legacy value \<and> ValidateCheckerSettings (Some value) \<noteq> Inr () \<and>
             ValidateCheckerSettings (Some (tcp_only value)) = Inr ()
          then tcp_only value else value
      | None \<Rightarrow>
          let transport = (if ws_TransportProtocol workspace = [] then ''tcp'' else ws_TransportProtocol workspace);
              enabled = [ws_HTTPProtocol workspace, ws_HTTPSProtocol workspace,
                         ws_SOCKS4Protocol workspace, ws_SOCKS5Protocol workspace]
          in \<lparr>cs_defaults = \<lparr>prof_protocols = map snd (filter fst (zip enabled CheckerProtocols)),
                             prof_transport = transport, prof_timeout = ws_Timeout workspace,
                             prof_retries = ws_Retries workspace\<rparr>,
              cs_rules = [], cs_legacy = False\<rparr>)"

subsection \<open>Validation against resolution\<close>

text \<open>
  What resolution does to the mask and the transport alone, written over the selections of
  the validator. On rules the validator accepts, the two agree.
\<close>

definition rule_ok :: "TagCheckerRule \<Rightarrow> bool" where
  "rule_ok rule \<longleftrightarrow>
     is_ok (checkerProtocolMask (rule_protocols rule)) \<and>
     (rule_mode rule = ''replace'' \<or> rule_mode rule = ''add'' \<or>
      rule_mode rule = ''remove'' \<and> rule_transport rule = None)"

definition select_by_tags :: "u64 set \<Rightarrow> TagCheckerRule \<Rightarrow> selection \<Rightarrow> selection" where
  "select_by_tags tagIDs rule state =
     (if rule_tagID rule \<in> tagIDs then rule_select rule (protocol_mask_value (rule_protocols rule)) state
      else state)"

lemma check_rule_ok:
  assumes "check_rule seen rule = Inr selected"
  shows "rule_ok rule" "selected = protocol_mask_value (rule_protocols rule)"
    "rule_tagID rule \<notin> seen" "rule_tagID rule \<noteq> 0"
  using assms
  by (auto simp: check_rule_def rule_ok_def protocol_mask_value_def
      split: if_splits sum.splits option.splits)

lemma resolve_rules_select:
  assumes "list_all rule_ok rules"
  shows "map_prod id prof_transport (resolve_rules tagIDs rules (msk, profile)) =
         fold (select_by_tags tagIDs) rules (msk, prof_transport profile)"
  using assms
  by (induction tagIDs rules "(msk, profile)" arbitrary: msk profile rule: resolve_rules.induct)
     (auto simp: Let_def select_by_tags_def rule_select_def rule_ok_def cong: option.case_cong)

text \<open>The state set of the validator holds the selection of every set of tags.\<close>

lemma validate_rules_ok:
  "validate_rules seen states rules = Inr out \<Longrightarrow>
     list_all rule_ok rules \<and> distinct (map rule_tagID rules) \<and> set (map rule_tagID rules) \<inter> seen = {}"
  by (induction rules arbitrary: seen states)
     (fastforce split: sum.splits dest: check_rule_ok)+

lemma validate_rules_sound:
  "validate_rules seen states rules = Inr out \<Longrightarrow> state \<in> states \<Longrightarrow>
     fold (select_by_tags tagIDs) rules state \<in> out"
proof (induction rules arbitrary: seen states state)
  case Nil
  then show ?case by simp
next
  case (Cons rule rules)
  then obtain selected where selected: "check_rule seen rule = Inr selected"
    by (auto split: sum.splits)
  then have "select_by_tags tagIDs rule state \<in> states \<union> rule_select rule selected ` states"
    using Cons.prems(2) check_rule_ok(2) [OF selected] by (auto simp: select_by_tags_def)
  with Cons selected show ?case by simp
qed

lemma fold_select_cong:
  "set (map rule_tagID rules) \<inter> (A - B \<union> (B - A)) = {} \<Longrightarrow>
     fold (select_by_tags A) rules state = fold (select_by_tags B) rules state"
proof (induction rules arbitrary: state)
  case (Cons rule rules)
  then have "select_by_tags A rule state = select_by_tags B rule state"
    by (auto simp: select_by_tags_def)
  with Cons show ?case by auto
qed simp

lemma validate_rules_complete:
  "validate_rules seen states rules = Inr out \<Longrightarrow> state' \<in> out \<Longrightarrow>
     \<exists>state\<in>states. \<exists>tagIDs \<subseteq> set (map rule_tagID rules).
       state' = fold (select_by_tags tagIDs) rules state"
proof (induction rules arbitrary: seen states)
  case Nil
  then show ?case by auto
next
  case (Cons rule rules)
  then obtain selected where selected: "check_rule seen rule = Inr selected"
    and rest: "validate_rules (insert (rule_tagID rule) seen)
        (states \<union> rule_select rule selected ` states) rules = Inr out"
    by (auto split: sum.splits)
  from Cons.IH [OF rest Cons.prems(2)] obtain state tagIDs
    where state: "state \<in> states \<union> rule_select rule selected ` states"
      and tagIDs: "tagIDs \<subseteq> set (map rule_tagID rules)"
      and eq: "state' = fold (select_by_tags tagIDs) rules state" by blast
  have fresh: "rule_tagID rule \<notin> set (map rule_tagID rules)"
    using validate_rules_ok [OF rest] by blast
  consider "state \<in> states" | s where "s \<in> states" "state = rule_select rule selected s"
    using state by blast
  then show ?case
  proof cases
    case 1
    with tagIDs fresh eq have "state' = fold (select_by_tags tagIDs) (rule # rules) state"
      by (auto simp: select_by_tags_def)
    with 1 tagIDs show ?thesis by (intro bexI exI conjI) auto
  next
    case 2
    let ?tags = "insert (rule_tagID rule) tagIDs"
    have "fold (select_by_tags ?tags) rules state = fold (select_by_tags tagIDs) rules state"
      using fresh by (intro fold_select_cong) blast
    with 2 eq check_rule_ok(2) [OF selected] have "state' = fold (select_by_tags ?tags) (rule # rules) s"
      by (simp add: select_by_tags_def)
    with 2 tagIDs show ?thesis by (intro bexI [of _ s] exI [of _ ?tags] conjI) auto
  qed
qed

subsection \<open>Masks\<close>

lemma mask_socks_bits:
  fixes m :: u8
  shows "m AND 12 \<noteq> 0 \<longleftrightarrow> m AND push_bit 2 1 \<noteq> 0 \<or> m AND push_bit 3 1 \<noteq> 0"
proof -
  have "(12 :: u8) = push_bit 2 1 OR push_bit 3 1" by simp
  then have "m AND 12 = (m AND push_bit 2 1) OR (m AND push_bit 3 1)"
    by (simp only: bit.conj_disj_distrib)
  then show ?thesis by (simp only: or_eq_0_iff) blast
qed

lemma ResolveCheckerSettings_nth:
  assumes "i < 4"
    and "resolve_rules tagIDs (rev (cs_rules value))
           (protocol_mask_value (prof_protocols (cs_defaults value)), cs_defaults value) = (msk, profile)"
  shows "ResolveCheckerSettings value tagIDs ! i =
     \<lparr>pcs_enabled = (msk AND push_bit i 1 \<noteq> 0), pcs_transport = prof_transport profile,
      pcs_timeout = prof_timeout profile, pcs_retries = prof_retries profile\<rparr>"
  using assms by (simp add: ResolveCheckerSettings_def plan_of_def)

lemma length_ResolveCheckerSettings [simp]: "length (ResolveCheckerSettings value tagIDs) = 4"
  by (simp add: ResolveCheckerSettings_def plan_of_def split: prod.splits)

definition socks_over_tcp :: "ProtocolCheckSettings list \<Rightarrow> bool" where
  "socks_over_tcp plan \<longleftrightarrow> (\<forall>i \<in> {2, 3}. pcs_enabled (plan ! i) \<longrightarrow> pcs_transport (plan ! i) = ''tcp'')"

lemma resolve_socks_iff:
  assumes "list_all rule_ok (cs_rules value)"
  shows "socks_over_tcp (ResolveCheckerSettings value tagIDs) \<longleftrightarrow>
     \<not> unsupported_selection (fold (select_by_tags tagIDs) (rev (cs_rules value))
         (protocol_mask_value (prof_protocols (cs_defaults value)), prof_transport (cs_defaults value)))"
proof -
  obtain msk profile where r: "resolve_rules tagIDs (rev (cs_rules value))
      (protocol_mask_value (prof_protocols (cs_defaults value)), cs_defaults value) = (msk, profile)"
    by fastforce
  have "fold (select_by_tags tagIDs) (rev (cs_rules value))
      (protocol_mask_value (prof_protocols (cs_defaults value)), prof_transport (cs_defaults value))
      = (msk, prof_transport profile)"
    using resolve_rules_select [of "rev (cs_rules value)" tagIDs
        "protocol_mask_value (prof_protocols (cs_defaults value))" "cs_defaults value"] assms r
    by (simp add: list_all_iff)
  then show ?thesis
    using mask_socks_bits [of msk]
    by (auto simp: socks_over_tcp_def unsupported_selection_def ResolveCheckerSettings_nth [OF _ r])
qed

text \<open>The checks validation makes apart from the exploration of tag combinations.\<close>

definition settings_well_formed :: "CheckerSettings \<Rightarrow> bool" where
  "settings_well_formed v \<longleftrightarrow>
     prof_timeout (cs_defaults v) \<noteq> 0 \<and> is_ok (validateCheckerTransport (prof_transport (cs_defaults v))) \<and>
     is_ok (checkerProtocolMask (prof_protocols (cs_defaults v))) \<and>
     is_ok (validate_rules {} {} (rev (cs_rules v)))"

lemma settings_rules_ok: "settings_well_formed v \<Longrightarrow> list_all rule_ok (cs_rules v)"
  using validate_rules_ok [of "{}" "{}" "rev (cs_rules v)"]
  by (auto simp: settings_well_formed_def list_all_iff elim!: is_okE)

lemma validate_rules_states_irrelevant:
  "is_ok (validate_rules seen states rules) \<longleftrightarrow> is_ok (validate_rules seen states' rules)"
  by (induction rules arbitrary: seen states states') (auto split: sum.splits)

lemma validate_iff_selections:
  assumes "settings_well_formed v"
  obtains states where
    "validate_rules {} {(protocol_mask_value (prof_protocols (cs_defaults v)), prof_transport (cs_defaults v))}
       (rev (cs_rules v)) = Inr states"
    "ValidateCheckerSettings (Some v) = Inr () \<longleftrightarrow> (\<forall>state\<in>states. \<not> unsupported_selection state)"
    "ValidateCheckerSettings (Some v) \<noteq> Inr () \<Longrightarrow> ValidateCheckerSettings (Some v) = Inl SocksRequiresTCP"
proof -
  obtain msk where msk: "checkerProtocolMask (prof_protocols (cs_defaults v)) = Inr msk"
    using assms by (auto simp: settings_well_formed_def elim: is_okE)
  then have val: "protocol_mask_value (prof_protocols (cs_defaults v)) = msk"
    by (simp add: protocol_mask_value_def)
  obtain states where "validate_rules {} {(msk, prof_transport (cs_defaults v))} (rev (cs_rules v)) = Inr states"
    using assms validate_rules_states_irrelevant [of "{}" "{}" "rev (cs_rules v)"]
    by (metis is_okE settings_well_formed_def)
  with that [of states] assms msk val show thesis
    by (auto simp: ValidateCheckerSettings_def settings_well_formed_def elim: is_okE split: if_splits)
qed

lemma validation_characterised:
  assumes "settings_well_formed v"
  shows "ValidateCheckerSettings (Some v) = Inr () \<longleftrightarrow>
     (\<forall>tagIDs. socks_over_tcp (ResolveCheckerSettings v tagIDs))"
proof -
  obtain states where states:
    "validate_rules {} {(protocol_mask_value (prof_protocols (cs_defaults v)), prof_transport (cs_defaults v))}
       (rev (cs_rules v)) = Inr states"
    and ok: "ValidateCheckerSettings (Some v) = Inr () \<longleftrightarrow> (\<forall>state\<in>states. \<not> unsupported_selection state)"
    using validate_iff_selections [OF assms] by metis
  have rules: "list_all rule_ok (cs_rules v)"
    using validate_rules_ok [OF states] by (simp add: list_all_iff)
  have "states = range (\<lambda>tagIDs. fold (select_by_tags tagIDs) (rev (cs_rules v))
      (protocol_mask_value (prof_protocols (cs_defaults v)), prof_transport (cs_defaults v)))"
    using validate_rules_sound [OF states] validate_rules_complete [OF states] by blast
  with ok resolve_socks_iff [OF rules] show ?thesis by auto
qed

text \<open>
  C35. Settings that pass the field checks are accepted exactly when, for every set of tags a
  proxy can carry, resolution never enables SOCKS4 or SOCKS5 over a transport other than
  TCP. The 48-state exploration of the validator is therefore neither too lax nor too strict.
\<close>

theorem validate_exact:
  assumes "settings_well_formed v"
  shows "ValidateCheckerSettings (Some v) = Inr () \<longleftrightarrow>
     (\<forall>tagIDs. socks_over_tcp (ResolveCheckerSettings v tagIDs))"
  using assms by (rule validation_characterised)

text \<open>Concrete settings: HTTPS by default; one tag adds SOCKS5, a higher-priority tag replaces the protocols by HTTP over QUIC.\<close>

definition example_settings :: CheckerSettings where
  "example_settings =
     \<lparr>cs_defaults = \<lparr>prof_protocols = [''https''], prof_transport = ''tcp'', prof_timeout = 7500, prof_retries = 2\<rparr>,
      cs_rules =
        [\<lparr>rule_tagID = 9, rule_mode = ''replace'', rule_protocols = [''http''], rule_transport = Some ''quic'',
           rule_timeout = None, rule_retries = Some 0\<rparr>,
         \<lparr>rule_tagID = 4, rule_mode = ''add'', rule_protocols = [''socks5''], rule_transport = None,
           rule_timeout = Some 900, rule_retries = None\<rparr>],
      cs_legacy = False\<rparr>"

lemma example_settings_well_formed: "settings_well_formed example_settings"
  by code_simp

lemma example_settings_valid: "ValidateCheckerSettings (Some example_settings) = Inr ()"
  by code_simp

theorem validate_exact_witness:
  "settings_well_formed example_settings \<and>
   (\<forall>tagIDs. socks_over_tcp (ResolveCheckerSettings example_settings tagIDs))"
  using validate_exact [OF example_settings_well_formed] example_settings_valid
    example_settings_well_formed by simp

subsection \<open>Protocol sets\<close>

text \<open>
  The abstract meaning of the rules: a set of protocol names, replaced, extended or reduced
  by each matching rule from the lowest priority to the highest.
\<close>

fun apply_mode :: "string \<Rightarrow> string set \<Rightarrow> string set \<Rightarrow> string set" where
  "apply_mode m S P = (if m = ''replace'' then P else if m = ''add'' then S \<union> P else S - P)"

definition spec_protocols :: "CheckerSettings \<Rightarrow> u64 set \<Rightarrow> string set" where
  "spec_protocols v tagIDs =
     fold (\<lambda>r S. if rule_tagID r \<in> tagIDs then apply_mode (rule_mode r) S (set (rule_protocols r)) else S)
       (rev (cs_rules v)) (set (prof_protocols (cs_defaults v)))"

text \<open>A mask represents a set of names when bit \<open>i\<close> is set for exactly the names of the set.\<close>

definition mask_of_set :: "u8 \<Rightarrow> string set \<Rightarrow> bool" where
  "mask_of_set m S \<longleftrightarrow> (\<forall>i<4. bit m i \<longleftrightarrow> CheckerProtocols ! i \<in> S)"

lemma less_four_cases: "i < (4::nat) \<longleftrightarrow> i = 0 \<or> i = 1 \<or> i = 2 \<or> i = 3"
  by auto

lemma protocol_bit_nth:
  assumes "protocol_bit 0 CheckerProtocols p \<noteq> 0"
  shows "\<forall>i<4. bit (protocol_bit 0 CheckerProtocols p) i \<longleftrightarrow> CheckerProtocols ! i = p"
  using assms
  by (auto simp: CheckerProtocols_def less_four_cases bit_push_bit_iff bit_1_iff split: if_splits)

lemma protocol_mask_loop_bits:
  "protocol_mask_loop m ps = Inr m' \<Longrightarrow> mask_of_set m S \<Longrightarrow> mask_of_set m' (S \<union> set ps)"
proof (induction m ps arbitrary: S rule: protocol_mask_loop.induct)
  case (1 m)
  then show ?case by simp
next
  case (2 m p ps)
  let ?b = "protocol_bit 0 CheckerProtocols p"
  from 2(2) have b: "?b \<noteq> 0" "m AND ?b = 0" and rest: "protocol_mask_loop (m OR ?b) ps = Inr m'"
    by (auto simp: Let_def split: if_splits)
  have "mask_of_set (m OR ?b) (insert p S)"
    using 2(3) protocol_bit_nth [OF b(1)] by (auto simp: mask_of_set_def bit_or_iff)
  with 2(1) [of ?b, OF refl] b rest have "mask_of_set m' (insert p S \<union> set ps)" by blast
  then show ?case by simp
qed

lemma mask_of_protocols:
  "is_ok (checkerProtocolMask ps) \<Longrightarrow> mask_of_set (protocol_mask_value ps) (set ps)"
  using protocol_mask_loop_bits [of 0 ps _ "{}"]
  by (auto simp: checkerProtocolMask_def protocol_mask_value_def mask_of_set_def elim!: is_okE)

lemma mask_of_set_ops:
  assumes "mask_of_set m S" "mask_of_set n P"
  shows "mask_of_set (m OR n) (S \<union> P)" "mask_of_set (m AND NOT n) (S - P)"
  using assms by (auto simp: mask_of_set_def bit_or_iff bit_and_iff bit_not_iff)

lemma resolve_rules_sets:
  assumes "list_all rule_ok rules" "mask_of_set msk S"
  shows "mask_of_set (fst (resolve_rules tagIDs rules (msk, profile)))
     (fold (\<lambda>r S. if rule_tagID r \<in> tagIDs then apply_mode (rule_mode r) S (set (rule_protocols r)) else S)
        rules S)"
  using assms
proof (induction rules arbitrary: msk profile S)
  case (Cons r rules)
  then have "mask_of_set (protocol_mask_value (rule_protocols r)) (set (rule_protocols r))"
    by (simp add: rule_ok_def mask_of_protocols)
  with Cons show ?case
    by (auto simp: Let_def rule_ok_def mask_of_set_ops)
qed simp

lemma and_power_iff: "(m :: u8) AND 2 ^ i = 0 \<longleftrightarrow> \<not> bit m i"
  by (simp add: bit_iff_and_push_bit_not_eq_0)

lemma resolve_enabled_iff:
  assumes "settings_well_formed v" "i < 4"
  shows "pcs_enabled (ResolveCheckerSettings v tagIDs ! i) \<longleftrightarrow>
     CheckerProtocols ! i \<in> spec_protocols v tagIDs"
proof -
  have ok: "list_all rule_ok (rev (cs_rules v))"
    using settings_rules_ok [OF assms(1)] by (simp add: list_all_iff)
  obtain msk profile where r: "resolve_rules tagIDs (rev (cs_rules v))
      (protocol_mask_value (prof_protocols (cs_defaults v)), cs_defaults v) = (msk, profile)"
    by fastforce
  have "mask_of_set msk (spec_protocols v tagIDs)"
    using resolve_rules_sets [OF ok mask_of_protocols, of "prof_protocols (cs_defaults v)" tagIDs "cs_defaults v"]
      assms(1) r by (simp add: settings_well_formed_def spec_protocols_def)
  with assms(2) show ?thesis
    by (simp add: ResolveCheckerSettings_nth [OF assms(2) r] mask_of_set_def and_power_iff)
qed

text \<open>
  Resolution refines the abstract rule semantics: a protocol is enabled for a proxy
  exactly when it is in the set obtained by applying the matching rules, from the lowest
  priority to the highest, to the default protocols.
\<close>

lemma resolve_protocols:
  assumes "settings_well_formed v" "i < 4"
  shows "pcs_enabled (ResolveCheckerSettings v tagIDs ! i) \<longleftrightarrow>
     CheckerProtocols ! i \<in> spec_protocols v tagIDs"
  using assms by (rule resolve_enabled_iff)

theorem resolve_protocols_witness:
  "settings_well_formed example_settings \<and>
   pcs_enabled (ResolveCheckerSettings example_settings {4} ! 3) \<and>
   CheckerProtocols ! 3 \<in> spec_protocols example_settings {4}"
proof -
  have "CheckerProtocols ! 3 \<in> spec_protocols example_settings {4}" by code_simp
  with resolve_protocols [OF example_settings_well_formed, of 3 "{4}"] example_settings_well_formed
  show ?thesis by simp
qed

subsection \<open>Budgets\<close>

text \<open>
  The value of an optional field that a set of tags selects: that of the first rule in list
  order which matches, is no remove rule and sets the field; the default when there is none.
\<close>

definition winning :: "(TagCheckerRule \<Rightarrow> 'a option) \<Rightarrow> u64 set \<Rightarrow> TagCheckerRule list \<Rightarrow> 'a \<Rightarrow> 'a" where
  "winning get tagIDs rules base =
     (case find (\<lambda>r. rule_tagID r \<in> tagIDs \<and> rule_mode r \<noteq> ''remove'' \<and> get r \<noteq> None) rules of
        None \<Rightarrow> base
      | Some r \<Rightarrow> the (get r))"

lemma winning_append:
  "winning get tagIDs (rules @ [r]) base =
     winning get tagIDs rules (winning get tagIDs [r] base)"
  by (induction rules) (auto simp: winning_def)

lemma winning_Nil: "winning get tagIDs [] base = base"
  by (simp add: winning_def)

lemma winning_single:
  "winning get tagIDs [r] base =
     (if rule_tagID r \<in> tagIDs \<and> rule_mode r \<noteq> ''remove''
      then case get r of None \<Rightarrow> base | Some x \<Rightarrow> x else base)"
  by (auto simp: winning_def)

lemma resolve_rules_winning:
  "prof_transport (snd (resolve_rules tagIDs rules (msk, profile))) =
     winning rule_transport tagIDs (rev rules) (prof_transport profile)"
  "prof_timeout (snd (resolve_rules tagIDs rules (msk, profile))) =
     winning rule_timeout tagIDs (rev rules) (prof_timeout profile)"
  "prof_retries (snd (resolve_rules tagIDs rules (msk, profile))) =
     winning rule_retries tagIDs (rev rules) (prof_retries profile)"
  by (induction rules arbitrary: msk profile)
     (auto simp: Let_def winning_append winning_single winning_Nil)

lemma ResolveCheckerSettings_budget:
  assumes "i < 4"
  shows "pcs_transport (ResolveCheckerSettings v tagIDs ! i) =
      winning rule_transport tagIDs (cs_rules v) (prof_transport (cs_defaults v))"
    and "pcs_timeout (ResolveCheckerSettings v tagIDs ! i) =
      winning rule_timeout tagIDs (cs_rules v) (prof_timeout (cs_defaults v))"
    and "pcs_retries (ResolveCheckerSettings v tagIDs ! i) =
      winning rule_retries tagIDs (cs_rules v) (prof_retries (cs_defaults v))"
proof -
  obtain msk profile where r: "resolve_rules tagIDs (rev (cs_rules v))
      (protocol_mask_value (prof_protocols (cs_defaults v)), cs_defaults v) = (msk, profile)"
    by fastforce
  note w = resolve_rules_winning [of tagIDs "rev (cs_rules v)"
      "protocol_mask_value (prof_protocols (cs_defaults v))" "cs_defaults v"]
  show "pcs_transport (ResolveCheckerSettings v tagIDs ! i) =
      winning rule_transport tagIDs (cs_rules v) (prof_transport (cs_defaults v))"
    and "pcs_timeout (ResolveCheckerSettings v tagIDs ! i) =
      winning rule_timeout tagIDs (cs_rules v) (prof_timeout (cs_defaults v))"
    and "pcs_retries (ResolveCheckerSettings v tagIDs ! i) =
      winning rule_retries tagIDs (cs_rules v) (prof_retries (cs_defaults v))"
    using w r by (simp_all add: ResolveCheckerSettings_nth [OF assms r])
qed

text \<open>
  All protocols of a proxy share one transport, timeout and retry budget, and each of
  the three is the value of the highest-priority matching rule that sets it.
\<close>

lemma resolve_priority:
  assumes "i < 4"
  shows "pcs_transport (ResolveCheckerSettings v tagIDs ! i) =
       winning rule_transport tagIDs (cs_rules v) (prof_transport (cs_defaults v)) \<and>
     pcs_timeout (ResolveCheckerSettings v tagIDs ! i) =
       winning rule_timeout tagIDs (cs_rules v) (prof_timeout (cs_defaults v)) \<and>
     pcs_retries (ResolveCheckerSettings v tagIDs ! i) =
       winning rule_retries tagIDs (cs_rules v) (prof_retries (cs_defaults v))"
  using assms by (simp add: ResolveCheckerSettings_budget)

theorem resolve_priority_witness:
  "pcs_transport (ResolveCheckerSettings example_settings {4, 9} ! 0) = ''quic'' \<and>
   pcs_timeout (ResolveCheckerSettings example_settings {4, 9} ! 0) = 900 \<and>
   pcs_retries (ResolveCheckerSettings example_settings {4, 9} ! 0) = 0"
  using resolve_priority [of 0 example_settings "{4, 9}"]
  by (simp add: winning_def example_settings_def)

subsection \<open>Legacy settings\<close>

lemma tcp_only_fields [simp]:
  "prof_transport (cs_defaults (tcp_only v)) = ''tcp''"
  "prof_timeout (cs_defaults (tcp_only v)) = prof_timeout (cs_defaults v)"
  "prof_retries (cs_defaults (tcp_only v)) = prof_retries (cs_defaults v)"
  "prof_protocols (cs_defaults (tcp_only v)) = prof_protocols (cs_defaults v)"
  by (simp_all add: tcp_only_def)

lemma check_rule_tcp:
  "is_ok (check_rule seen r) \<Longrightarrow>
     is_ok (check_rule seen (if rule_transport r \<noteq> None then r\<lparr>rule_transport := Some ''tcp''\<rparr> else r))"
  by (auto simp: check_rule_def validateCheckerTransport_def split: if_splits sum.splits option.splits)

lemma validate_rules_tcp:
  "is_ok (validate_rules seen {} rules) \<Longrightarrow>
     is_ok (validate_rules seen {} (map (\<lambda>r. if rule_transport r \<noteq> None then r\<lparr>rule_transport := Some ''tcp''\<rparr> else r) rules))"
proof (induction rules arbitrary: seen)
  case (Cons r rules)
  then have "is_ok (check_rule seen r)" by (auto split: sum.splits)
  from check_rule_tcp [OF this] Cons show ?case
    by (auto split: sum.splits if_splits elim!: is_okE)
qed simp

lemma tcp_only_well_formed: "settings_well_formed v \<Longrightarrow> settings_well_formed (tcp_only v)"
  using validate_rules_tcp [of "{}" "rev (cs_rules v)"]
  by (simp add: settings_well_formed_def validateCheckerTransport_def tcp_only_def rev_map)

lemma winning_tcp_only:
  "winning rule_transport tagIDs (cs_rules (tcp_only v)) ''tcp'' = ''tcp''"
  by (auto simp: winning_def tcp_only_def find_Some_iff split: option.splits if_splits)

lemma winning_tcp_only_other:
  "winning rule_timeout tagIDs (cs_rules (tcp_only v)) b = winning rule_timeout tagIDs (cs_rules v) b"
  "winning rule_retries tagIDs (cs_rules (tcp_only v)) c = winning rule_retries tagIDs (cs_rules v) c"
proof -
  have "winning rule_timeout tagIDs (map f rules) b = winning rule_timeout tagIDs rules b"
    and "winning rule_retries tagIDs (map f rules) c = winning rule_retries tagIDs rules c"
    if "f = (\<lambda>r. if rule_transport r \<noteq> None then r\<lparr>rule_transport := Some ''tcp''\<rparr> else r)" for f rules
    unfolding that by (induction rules) (auto simp: winning_def)
  then show "winning rule_timeout tagIDs (cs_rules (tcp_only v)) b = winning rule_timeout tagIDs (cs_rules v) b"
    and "winning rule_retries tagIDs (cs_rules (tcp_only v)) c = winning rule_retries tagIDs (cs_rules v) c"
    by (simp_all add: tcp_only_def)
qed

lemma tcp_only_valid:
  assumes "settings_well_formed v" shows "ValidateCheckerSettings (Some (tcp_only v)) = Inr ()"
  unfolding validation_characterised [OF tcp_only_well_formed [OF assms]]
  by (auto simp: socks_over_tcp_def ResolveCheckerSettings_budget winning_tcp_only)

lemma spec_protocols_tcp_only: "spec_protocols (tcp_only v) tagIDs = spec_protocols v tagIDs"
  unfolding spec_protocols_def
  by (simp add: tcp_only_def rev_map fold_map, rule fold_cong) (auto simp: fun_eq_iff)

lemma four_list_eqI: "length xs = 4 \<Longrightarrow> length ys = 4 \<Longrightarrow> (\<And>i. i < 4 \<Longrightarrow> xs ! i = ys ! i) \<Longrightarrow> xs = ys"
  by (simp add: list_eq_iff_nth_eq)

lemma tcp_only_plan:
  assumes "settings_well_formed v"
  shows "map pcs_enabled (ResolveCheckerSettings (tcp_only v) tagIDs) =
      map pcs_enabled (ResolveCheckerSettings v tagIDs)"
    and "map pcs_timeout (ResolveCheckerSettings (tcp_only v) tagIDs) =
      map pcs_timeout (ResolveCheckerSettings v tagIDs)"
    and "map pcs_retries (ResolveCheckerSettings (tcp_only v) tagIDs) =
      map pcs_retries (ResolveCheckerSettings v tagIDs)"
  by (rule four_list_eqI; simp add: resolve_enabled_iff assms tcp_only_well_formed
      spec_protocols_tcp_only ResolveCheckerSettings_budget winning_tcp_only_other)+

text \<open>
  Reading a legacy configuration whose fields are well formed always yields settings the
  validator accepts, and the conversion to TCP changes neither which protocols are checked
  nor their budgets, whatever tags a proxy carries.
\<close>

lemma default_settings_valid:
  assumes "ws_CheckerConfig w = Some v" "cs_legacy v" "settings_well_formed v"
  shows "ValidateCheckerSettings (Some (DefaultCheckerSettings w)) = Inr () \<and>
    map pcs_enabled (ResolveCheckerSettings (DefaultCheckerSettings w) tagIDs) =
      map pcs_enabled (ResolveCheckerSettings v tagIDs) \<and>
    map pcs_timeout (ResolveCheckerSettings (DefaultCheckerSettings w) tagIDs) =
      map pcs_timeout (ResolveCheckerSettings v tagIDs) \<and>
    map pcs_retries (ResolveCheckerSettings (DefaultCheckerSettings w) tagIDs) =
      map pcs_retries (ResolveCheckerSettings v tagIDs)"
  using assms tcp_only_valid [OF assms(3)]
  by (simp add: DefaultCheckerSettings_def tcp_only_plan)

text \<open>A legacy draft that mixes HTTP over QUIC with SOCKS5: rejected as stored, usable once converted.\<close>

definition legacy_workspace :: Workspace where
  "legacy_workspace =
     \<lparr>ws_ID = 7, ws_HTTPProtocol = True, ws_HTTPSProtocol = False, ws_SOCKS4Protocol = False,
      ws_SOCKS5Protocol = True, ws_Timeout = 5000, ws_Retries = 1, ws_UseHttpsForSocks = True,
      ws_TransportProtocol = ''quic'', ws_AutoRemoveFailingProxies = True,
      ws_AutoRemoveFailureThreshold = 3, ws_FailureAction = [],
      ws_CheckerConfig = Some
        \<lparr>cs_defaults = \<lparr>prof_protocols = [''http'', ''socks5''], prof_transport = ''quic'',
                        prof_timeout = 5000, prof_retries = 1\<rparr>,
         cs_rules = [], cs_legacy = True\<rparr>,
      ws_CheckerGeneration = 1\<rparr>"

theorem default_settings_valid_witness:
  "ValidateCheckerSettings (ws_CheckerConfig legacy_workspace) = Inl SocksRequiresTCP \<and>
   ValidateCheckerSettings (Some (DefaultCheckerSettings legacy_workspace)) = Inr ()"
proof -
  let ?v = "the (ws_CheckerConfig legacy_workspace)"
  have "ws_CheckerConfig legacy_workspace = Some ?v" and "cs_legacy ?v"
    by (simp_all add: legacy_workspace_def)
  moreover have "settings_well_formed ?v" by code_simp
  moreover have "ValidateCheckerSettings (ws_CheckerConfig legacy_workspace) = Inl SocksRequiresTCP"
    by code_simp
  ultimately show ?thesis
    using default_settings_valid [of legacy_workspace ?v "{}"] by simp
qed

text \<open>
  A workspace without a stored configuration is checked by its protocol flags: exactly
  the flagged protocols are enabled, with the workspace's timeout and retries, over TCP when
  no transport is stored.
\<close>

lemma default_settings_flags:
  assumes "ws_CheckerConfig w = None"
  shows "ResolveCheckerSettings (DefaultCheckerSettings w) tagIDs =
     map (\<lambda>flag. \<lparr>pcs_enabled = flag,
                   pcs_transport = (if ws_TransportProtocol w = [] then ''tcp'' else ws_TransportProtocol w),
                   pcs_timeout = ws_Timeout w, pcs_retries = ws_Retries w\<rparr>)
       [ws_HTTPProtocol w, ws_HTTPSProtocol w, ws_SOCKS4Protocol w, ws_SOCKS5Protocol w]"
  using assms
  by (cases "ws_HTTPProtocol w"; cases "ws_HTTPSProtocol w"; cases "ws_SOCKS4Protocol w"; cases "ws_SOCKS5Protocol w")
     (simp_all add: DefaultCheckerSettings_def ResolveCheckerSettings_def plan_of_def Let_def
        CheckerProtocols_def protocol_mask_value_def checkerProtocolMask_def upt_rec)

theorem default_settings_flags_witness:
  "ResolveCheckerSettings (DefaultCheckerSettings (legacy_workspace\<lparr>ws_CheckerConfig := None\<rparr>)) {} ! 3 =
     \<lparr>pcs_enabled = True, pcs_transport = ''quic'', pcs_timeout = 5000, pcs_retries = 1\<rparr>"
  using default_settings_flags [of "legacy_workspace\<lparr>ws_CheckerConfig := None\<rparr>" "{}"]
  by (simp add: legacy_workspace_def)

end
