(* ===== verification/Reputation.thy ===== *)
theory Reputation
  imports Magpie_Prelude
begin

text \<open>
  Reputation scoring of a proxy route (\<open>internal/support/reputation/scorer.go\<close>). A
  \<open>float64\<close> is a rational: the model computes the real value of each expression and
  leaves IEEE rounding out. Integers keep their Go width, which matters for the median of
  the response times, whose middle pair is added as 16-bit vals.
\<close>

subsection \<open>Data\<close>

record Metrics =
  TotalChecks :: int
  SuccessfulChecks :: int
  ResponseTimesMS :: "u16 list"
  LatestCheck :: "instant option"
  LatestSuccess :: "instant option"
  BestAnonymity :: string
  EstimatedType :: string
  FailureStreak :: u16
  SampleWindowHours :: rat

record Weights =
  w_Uptime :: rat
  w_Recency :: rat
  w_Latency :: rat
  w_Anonymity :: rat
  w_Failures :: rat

datatype signal = SigFloat rat | SigInt int | SigText string

record ScoreResult =
  sr_Score :: rat
  sr_Label :: string
  sr_Signals :: "string \<rightharpoonup> signal"

definition defaultWeights :: Weights where
  "defaultWeights = \<lparr>w_Uptime = 45/100, w_Recency = 2/10, w_Latency = 15/100, w_Anonymity = 1/10, w_Failures = 1/10\<rparr>"

subsection \<open>Operations\<close>

definition clamp01 :: "rat \<Rightarrow> rat" where
  "clamp01 x = (if x < 0 then 0 else if x > 1 then 1 else x)"

definition ratio :: "int \<Rightarrow> int \<Rightarrow> rat" where
  "ratio success tot = (if tot = 0 then 0 else clamp01 (of_int success / of_int tot))"

definition median :: "u16 list \<Rightarrow> rat option" where
  "median vals =
     (if vals = [] then None
      else let sorted = sort vals; mid = length sorted div 2 in
        if length sorted mod 2 = 0 then Some (of_int (uint (sorted ! (mid - 1) + sorted ! mid)) / 2)
        else Some (of_int (uint (sorted ! mid))))"

definition sanitize :: "string \<Rightarrow> string" where
  "sanitize v = TrimSpace (ToLower v)"

definition minutesSince :: "instant option \<Rightarrow> instant \<Rightarrow> rat option" where
  "minutesSince ts now = map_option (\<lambda>t. of_int (time_Sub now t) / of_int minute) ts"

definition normaliseWeights :: "Weights \<Rightarrow> Weights" where
  "normaliseWeights w =
     (let tot = w_Uptime w + w_Recency w + w_Latency w + w_Anonymity w + w_Failures w in
      if tot \<le> 0 then defaultWeights
      else \<lparr>w_Uptime = w_Uptime w / tot, w_Recency = w_Recency w / tot, w_Latency = w_Latency w / tot,
            w_Anonymity = w_Anonymity w / tot, w_Failures = w_Failures w / tot\<rparr>)"

definition calculateUptimeScore :: "Metrics \<Rightarrow> rat" where
  "calculateUptimeScore m =
     (if TotalChecks m = 0 then 0 else ratio (SuccessfulChecks m) (TotalChecks m))"

definition calculateRecencyScore :: "Metrics \<Rightarrow> instant \<Rightarrow> rat" where
  "calculateRecencyScore m now =
     (case LatestSuccess m of
        None \<Rightarrow> 0
      | Some t \<Rightarrow>
          let age = time_Sub now t in
          if age \<le> 30 * minute then 1
          else if age \<ge> 6 * hour then 0
          else clamp01 (1 - (of_int age / of_int second) / (of_int (6 * hour) / of_int second)))"

definition calculateLatencyScore :: "Metrics \<Rightarrow> rat" where
  "calculateLatencyScore m =
     (case median (ResponseTimesMS m) of
        None \<Rightarrow> 0
      | Some medianMs \<Rightarrow>
          if medianMs \<le> 400 then 1
          else if medianMs \<ge> 3000 then 0
          else clamp01 (1 - (medianMs - 250) / 2750))"

text \<open>A Go map read of an absent key gives 0, which the code treats as the entry of the empty key.\<close>

definition anonymityScale :: "string \<Rightarrow> rat" where
  "anonymityScale k =
     (if k = ''elite'' then 1 else if k = ''anonymous'' then 8/10 else if k = ''transparent'' then 3/10
      else if k = [] then 5/10 else 0)"

definition typeScale :: "string \<Rightarrow> rat" where
  "typeScale k =
     (if k = ''residential'' then 1 else if k = ''isp'' then 9/10 else if k = ''mobile'' then 85/100
      else if k = ''datacenter'' then 4/10 else if k = [] then 6/10 else 0)"

definition calculateAnonymityScore :: "Metrics \<Rightarrow> rat" where
  "calculateAnonymityScore m =
     (let a = anonymityScale (ToLower (BestAnonymity m)); a = (if a = 0 then anonymityScale [] else a);
          t = typeScale (ToLower (EstimatedType m)); t = (if t = 0 then typeScale [] else t)
      in clamp01 ((a + t) / 2))"

definition calculateFailureScore :: "Metrics \<Rightarrow> rat" where
  "calculateFailureScore m =
     (if FailureStreak m = 0 then 1
      else if FailureStreak m \<ge> 5 then 0
      else clamp01 (1 - of_int (uint (FailureStreak m)) / 5))"

definition labelFromScore :: "rat \<Rightarrow> string" where
  "labelFromScore s = (if s \<ge> 80 then ''good'' else if s \<ge> 40 then ''neutral'' else ''poor'')"

definition Score :: "Metrics \<Rightarrow> instant \<Rightarrow> Weights option \<Rightarrow> ScoreResult" where
  "Score m now customWeights =
     (let w = (case customWeights of None \<Rightarrow> defaultWeights | Some c \<Rightarrow> normaliseWeights c);
          uptime = calculateUptimeScore m; recency = calculateRecencyScore m now;
          latency = calculateLatencyScore m; anonymity = calculateAnonymityScore m;
          failures = calculateFailureScore m;
          s = clamp01 (w_Uptime w * uptime + w_Recency w * recency + w_Latency w * latency
                       + w_Anonymity w * anonymity + w_Failures w * failures) * 100;
          signals = [''uptime_score'' \<mapsto> SigFloat uptime,
                     ''uptime_ratio'' \<mapsto> SigFloat (ratio (SuccessfulChecks m) (TotalChecks m)),
                     ''recency_score'' \<mapsto> SigFloat recency,
                     ''latency_score'' \<mapsto> SigFloat latency,
                     ''anonymity_score'' \<mapsto> SigFloat anonymity,
                     ''anonymity'' \<mapsto> SigText (sanitize (BestAnonymity m)),
                     ''estimated_type'' \<mapsto> SigText (sanitize (EstimatedType m)),
                     ''failures_score'' \<mapsto> SigFloat failures,
                     ''failure_streak'' \<mapsto> SigInt (uint (FailureStreak m)),
                     ''sample_checks'' \<mapsto> SigInt (TotalChecks m),
                     ''sample_successes'' \<mapsto> SigInt (SuccessfulChecks m),
                     ''sample_window_h'' \<mapsto> SigFloat (SampleWindowHours m)];
          signals = (case minutesSince (LatestSuccess m) now of
                       None \<Rightarrow> signals | Some x \<Rightarrow> signals(''recency_minutes'' \<mapsto> SigFloat x));
          signals = (case median (ResponseTimesMS m) of
                       None \<Rightarrow> signals | Some x \<Rightarrow> signals(''latency_median_ms'' \<mapsto> SigFloat x))
      in \<lparr>sr_Score = s, sr_Label = labelFromScore s, sr_Signals = signals\<rparr>)"

subsection \<open>Bounds and monotonicity\<close>

lemma clamp01_range: "0 \<le> clamp01 x" "clamp01 x \<le> 1"
  by (simp_all add: clamp01_def)

lemma clamp01_mono: "x \<le> y \<Longrightarrow> clamp01 x \<le> clamp01 y"
  by (simp add: clamp01_def)

lemma clamp01_id: "0 \<le> x \<Longrightarrow> x \<le> 1 \<Longrightarrow> clamp01 x = x"
  by (simp add: clamp01_def)

definition weights_total :: "Weights \<Rightarrow> rat" where
  "weights_total w = w_Uptime w + w_Recency w + w_Latency w + w_Anonymity w + w_Failures w"

definition weights_nonneg :: "Weights \<Rightarrow> bool" where
  "weights_nonneg w \<longleftrightarrow> 0 \<le> w_Uptime w \<and> 0 \<le> w_Recency w \<and> 0 \<le> w_Latency w \<and> 0 \<le> w_Anonymity w \<and> 0 \<le> w_Failures w"

definition effective_weights :: "Weights option \<Rightarrow> Weights" where
  "effective_weights c = (case c of None \<Rightarrow> defaultWeights | Some w \<Rightarrow> normaliseWeights w)"

lemma weights_total_normalised: "weights_total (effective_weights c) = 1"
proof (cases c)
  case None
  then show ?thesis by (simp add: effective_weights_def weights_total_def defaultWeights_def)
next
  case (Some w)
  show ?thesis
  proof (cases "weights_total w \<le> 0")
    case True
    then show ?thesis
      using Some by (simp add: effective_weights_def normaliseWeights_def weights_total_def defaultWeights_def Let_def)
  next
    case False
    define t where "t = weights_total w"
    have "weights_total (effective_weights c) =
        w_Uptime w / t + w_Recency w / t + w_Latency w / t + w_Anonymity w / t + w_Failures w / t"
      using Some False unfolding t_def
      by (simp add: effective_weights_def normaliseWeights_def weights_total_def Let_def)
    also have "\<dots> = weights_total w / t"
      by (simp add: weights_total_def add_divide_distrib)
    finally show ?thesis using False by (simp add: t_def)
  qed
qed

lemma weights_nonneg_effective:
  "(\<And>w. c = Some w \<Longrightarrow> weights_nonneg w) \<Longrightarrow> weights_nonneg (effective_weights c)"
  by (cases c) (auto simp: effective_weights_def weights_nonneg_def normaliseWeights_def defaultWeights_def Let_def)

lemma component_scores_range:
  "0 \<le> calculateUptimeScore m" "calculateUptimeScore m \<le> 1"
  "0 \<le> calculateRecencyScore m now" "calculateRecencyScore m now \<le> 1"
  "0 \<le> calculateLatencyScore m" "calculateLatencyScore m \<le> 1"
  "0 \<le> calculateAnonymityScore m" "calculateAnonymityScore m \<le> 1"
  "0 \<le> calculateFailureScore m" "calculateFailureScore m \<le> 1"
  by (auto simp: calculateUptimeScore_def ratio_def calculateRecencyScore_def calculateLatencyScore_def
      calculateAnonymityScore_def calculateFailureScore_def clamp01_range Let_def split: option.splits)

text \<open>The weighted mean of the component scores.\<close>

definition mean_score :: "Weights \<Rightarrow> Metrics \<Rightarrow> instant \<Rightarrow> rat" where
  "mean_score w m now =
     w_Uptime w * calculateUptimeScore m + w_Recency w * calculateRecencyScore m now
     + w_Latency w * calculateLatencyScore m + w_Anonymity w * calculateAnonymityScore m
     + w_Failures w * calculateFailureScore m"

lemma Score_eq: "sr_Score (Score m now c) = clamp01 (mean_score (effective_weights c) m now) * 100"
  by (simp add: Score_def effective_weights_def mean_score_def Let_def)

lemma Score_label: "sr_Label (Score m now c) = labelFromScore (sr_Score (Score m now c))"
  by (simp add: Score_def Let_def)

text \<open>With weights that are not negative the clamp never acts: the score is the weighted mean itself.\<close>

lemma mean_score_range:
  assumes "weights_nonneg w" "weights_total w = 1"
  shows "0 \<le> mean_score w m now" and "mean_score w m now \<le> 1"
proof -
  have le: "x * y \<le> x" if "0 \<le> x" "y \<le> 1" for x y :: rat
    using that mult_left_mono [of y 1 x] by simp
  show "0 \<le> mean_score w m now"
    using assms(1) component_scores_range [of m] by (simp add: mean_score_def weights_nonneg_def)
  have "mean_score w m now \<le> weights_total w"
    unfolding mean_score_def weights_total_def
    using assms(1) component_scores_range [of m] unfolding weights_nonneg_def
    by (intro add_mono le) auto
  then show "mean_score w m now \<le> 1" using assms(2) by simp
qed

text \<open>
  The score is the weighted mean of the five component scores on a scale of 100: it lies
  between 0 and 100, the weights in effect always sum to one, and the clamp never changes the
  value unless a caller supplies a negative weight.
\<close>

lemma score_is_weighted_mean:
  assumes "\<And>w. c = Some w \<Longrightarrow> weights_nonneg w"
  shows "sr_Score (Score m now c) = mean_score (effective_weights c) m now * 100 \<and>
    0 \<le> sr_Score (Score m now c) \<and> sr_Score (Score m now c) \<le> 100 \<and>
    weights_total (effective_weights c) = 1"
  using mean_score_range [OF weights_nonneg_effective [OF assms] weights_total_normalised [of c], of m now]
    weights_total_normalised [of c]
  by (simp add: Score_eq clamp01_id)

definition example_metrics :: Metrics where
  "example_metrics =
     \<lparr>TotalChecks = 10, SuccessfulChecks = 9, ResponseTimesMS = [300, 200, 4000], LatestCheck = Some 0,
      LatestSuccess = Some 0, BestAnonymity = ''Elite'', EstimatedType = ''isp'', FailureStreak = 1,
      SampleWindowHours = 24\<rparr>"

theorem score_is_weighted_mean_witness:
  "weights_nonneg defaultWeights \<and>
   sr_Score (Score example_metrics (10 * minute) (Some defaultWeights)) = 93 \<and>
   sr_Label (Score example_metrics (10 * minute) (Some defaultWeights)) = ''good''"
proof -
  have w: "weights_nonneg defaultWeights" by (simp add: weights_nonneg_def defaultWeights_def)
  have "sr_Score (Score example_metrics (10 * minute) (Some defaultWeights)) = 93" by code_simp
  with w score_is_weighted_mean [of "Some defaultWeights" example_metrics "10 * minute"] Score_label
  show ?thesis by (simp add: labelFromScore_def)
qed

subsection \<open>Better measurements never lower the score\<close>

lemma calculateUptimeScore_mono:
  "TotalChecks m = TotalChecks m' \<Longrightarrow> 0 \<le> TotalChecks m \<Longrightarrow> SuccessfulChecks m \<le> SuccessfulChecks m' \<Longrightarrow>
     calculateUptimeScore m \<le> calculateUptimeScore m'"
  by (auto simp: calculateUptimeScore_def ratio_def intro!: clamp01_mono divide_right_mono)

lemma calculateRecencyScore_mono:
  assumes "LatestSuccess m = Some t" "LatestSuccess m' = Some t'" "t \<le> t'"
  shows "calculateRecencyScore m now \<le> calculateRecencyScore m' now"
proof -
  have "time_Sub now t' \<le> time_Sub now t" using assms(3) by (simp add: time_Sub_mono)
  then show ?thesis
    using assms(1,2)
    by (auto simp: calculateRecencyScore_def Let_def clamp01_range intro!: clamp01_mono divide_right_mono)
qed

lemma calculateFailureScore_mono:
  assumes "FailureStreak m' \<le> FailureStreak m"
  shows "calculateFailureScore m \<le> calculateFailureScore m'"
proof -
  have "of_int (uint (FailureStreak m')) \<le> (of_int (uint (FailureStreak m)) :: rat)"
    using assms by (simp only: of_int_le_iff word_le_def)
  moreover have "FailureStreak m' = 0" if "FailureStreak m = 0" using assms that by simp
  moreover have "\<not> FailureStreak m' \<ge> 5" if "\<not> FailureStreak m \<ge> 5" using assms that by simp
  ultimately show ?thesis
    by (auto simp: calculateFailureScore_def clamp01_range simp del: of_int_uint
        intro!: clamp01_mono divide_right_mono)
qed

text \<open>
  With non-negative weights, a route whose latest success is no older, whose failure
  streak is no longer and which passed at least as many of the same number of checks never
  scores lower than another route with the same latencies and classification.
\<close>

lemma score_monotone:
  assumes "\<And>w. c = Some w \<Longrightarrow> weights_nonneg w"
    and "0 \<le> TotalChecks m" "SuccessfulChecks m \<le> s'" "LatestSuccess m = Some t" "t \<le> t'" "f' \<le> FailureStreak m"
  shows "sr_Score (Score m now c) \<le>
     sr_Score (Score (m\<lparr>SuccessfulChecks := s', LatestSuccess := Some t', FailureStreak := f'\<rparr>) now c)"
proof -
  let ?m' = "m\<lparr>SuccessfulChecks := s', LatestSuccess := Some t', FailureStreak := f'\<rparr>"
  let ?w = "effective_weights c"
  have "weights_nonneg ?w" using assms(1) by (rule weights_nonneg_effective)
  moreover have "calculateUptimeScore m \<le> calculateUptimeScore ?m'"
    using assms by (intro calculateUptimeScore_mono) auto
  moreover have "calculateRecencyScore m now \<le> calculateRecencyScore ?m' now"
    using assms by (intro calculateRecencyScore_mono [of m t _ t']) auto
  moreover have "calculateFailureScore m \<le> calculateFailureScore ?m'"
    using assms by (intro calculateFailureScore_mono) auto
  moreover have "calculateLatencyScore ?m' = calculateLatencyScore m"
    and "calculateAnonymityScore ?m' = calculateAnonymityScore m"
    by (simp_all add: calculateLatencyScore_def calculateAnonymityScore_def)
  ultimately have "mean_score ?w m now \<le> mean_score ?w ?m' now"
    by (auto simp: mean_score_def weights_nonneg_def intro!: add_mono mult_left_mono)
  then show ?thesis by (simp add: Score_eq clamp01_mono)
qed

theorem score_monotone_witness:
  "sr_Score (Score example_metrics (10 * hour) None) \<le>
   sr_Score (Score (example_metrics\<lparr>SuccessfulChecks := 10, LatestSuccess := Some (9 * hour), FailureStreak := 0\<rparr>)
     (10 * hour) None)"
  using score_monotone [of None example_metrics 10 0 "9 * hour" 0 "10 * hour"]
  by (simp add: example_metrics_def)

subsection \<open>The median of the response times\<close>

text \<open>The statistical median, computed without a width.\<close>

definition true_median :: "u16 list \<Rightarrow> rat option" where
  "true_median vals =
     (if vals = [] then None
      else let s = sort vals; mid = length s div 2 in
        if length s mod 2 = 0 then Some (of_int (uint (s ! (mid - 1)) + uint (s ! mid)) / 2)
        else Some (of_int (uint (s ! mid))))"

lemma uint_add_small_u16:
  fixes a b :: u16
  assumes "a < 32768" "b < 32768"
  shows "uint (a + b) = uint a + uint b"
proof -
  have "uint a < 32768" "uint b < 32768" using assms by (simp_all add: word_less_def)
  then show ?thesis by (simp add: uint_word_ariths)
qed

text \<open>
  The code's median is the statistical median as long as every response time is below
  32768 ms; above that the 16-bit sum of the two middle vals wraps.
\<close>

lemma median_correct_below_overflow:
  assumes "\<forall>v\<in>set vals. v < 32768"
  shows "median vals = true_median vals"
proof (cases "vals = []")
  case True
  then show ?thesis by (simp add: median_def true_median_def)
next
  case False
  let ?s = "sort vals"
  have small: "?s ! i < 32768" if "i < length vals" for i
    using assms that by (metis length_sort nth_mem set_sort)
  have "length vals div 2 < length vals" "length vals div 2 - 1 < length vals"
    using False by (cases vals; simp)+
  with small have "uint (?s ! (length vals div 2 - 1) + ?s ! (length vals div 2)) =
      uint (?s ! (length vals div 2 - 1)) + uint (?s ! (length vals div 2))"
    by (intro uint_add_small_u16) auto
  with False show ?thesis by (simp add: median_def true_median_def Let_def)
qed

theorem median_correct_below_overflow_witness:
  "median [400, 100] = true_median [400, 100] \<and> median [400, 100] = Some 250"
proof -
  have "median [400, 100] = Some 250" by code_simp
  with median_correct_below_overflow [of "[400, 100]"] show ?thesis by simp
qed

text \<open>
  The wrap-around is visible in the score: a route that answered twice in 33 seconds has
  the latency score of a route that answers within 400 ms, while an exact median gives 0.
\<close>

lemma median_overflow_latency:
  "true_median [33000, 33000] = Some 33000 \<and> median [33000, 33000] = Some 232 \<and>
   calculateLatencyScore (example_metrics\<lparr>ResponseTimesMS := [33000, 33000]\<rparr>) = 1"
  by code_simp

end
