(* ===== verification/Net_Addr.thy ===== *)
theory Net_Addr
  imports Magpie_Prelude "HOL-Library.Product_Lexorder" "HOL-Library.List_Lexorder" "HOL-Library.Char_ord"
begin

text \<open>
  The part of Go's \<open>net/netip\<close> that the blacklist and the egress guard compute with: addresses
  as 32-bit and 128-bit words (an IPv6 address with its zone), prefixes, \<open>Masked\<close>, \<open>Contains\<close>,
  \<open>Compare\<close>, \<open>Unmap\<close>, and the byte arrays of \<open>As4\<close>/\<open>As16\<close>. The parsers of addresses and prefixes
  are arguments of the definitions that use them.
\<close>

datatype Addr = V4 u32 | V6 "128 word" string

record Prefix =
  pfx_addr :: Addr
  pfx_bits :: nat

fun BitLen :: "Addr \<Rightarrow> nat" where
  "BitLen (V4 a) = 32"
| "BitLen (V6 a z) = 128"

fun addr_value :: "Addr \<Rightarrow> nat" where
  "addr_value (V4 a) = unat a"
| "addr_value (V6 a z) = unat a"

fun Zone :: "Addr \<Rightarrow> string" where
  "Zone (V4 a) = []"
| "Zone (V6 a z) = z"

fun Is4In6 :: "Addr \<Rightarrow> bool" where
  "Is4In6 (V4 a) = False"
| "Is4In6 (V6 a z) = (drop_bit 32 a = 0xffff)"

fun Unmap :: "Addr \<Rightarrow> Addr" where
  "Unmap (V4 a) = V4 a"
| "Unmap (V6 a z) = (if Is4In6 (V6 a z) then V4 (ucast a) else V6 a z)"

definition clear_low :: "nat \<Rightarrow> 'a::len word \<Rightarrow> 'a word" where
  "clear_low n a = push_bit n (drop_bit n a)"

fun Masked_addr :: "Addr \<Rightarrow> nat \<Rightarrow> Addr" where
  "Masked_addr (V4 a) b = V4 (clear_low (32 - b) a)"
| "Masked_addr (V6 a z) b = V6 (clear_low (128 - b) a) []"

definition Masked :: "Prefix \<Rightarrow> Prefix" where
  "Masked p = p\<lparr>pfx_addr := Masked_addr (pfx_addr p) (pfx_bits p)\<rparr>"

definition prefix_valid :: "Prefix \<Rightarrow> bool" where
  "prefix_valid p \<longleftrightarrow> pfx_bits p \<le> BitLen (pfx_addr p) \<and> Zone (pfx_addr p) = []"

definition Contains :: "Prefix \<Rightarrow> Addr \<Rightarrow> bool" where
  "Contains p ip =
     (case (pfx_addr p, ip) of
        (V4 b, V4 a) \<Rightarrow> drop_bit (32 - pfx_bits p) (a XOR b) = 0
      | (V6 b _, V6 a z) \<Rightarrow> z = [] \<and> drop_bit (128 - pfx_bits p) (a XOR b) = 0
      | _ \<Rightarrow> False)"

subsection \<open>The order of \<open>Addr.Compare\<close>\<close>

definition addr_key :: "Addr \<Rightarrow> nat \<times> nat \<times> string" where
  "addr_key a = (BitLen a, addr_value a, Zone a)"

lemma addr_key_inject: "addr_key a = addr_key b \<longleftrightarrow> a = b"
  by (cases a; cases b) (auto simp: addr_key_def word_unat_eq_iff)

instantiation Addr :: linorder
begin

definition less_eq_Addr :: "Addr \<Rightarrow> Addr \<Rightarrow> bool" where
  "less_eq_Addr a b \<longleftrightarrow> addr_key a \<le> addr_key b"

definition less_Addr :: "Addr \<Rightarrow> Addr \<Rightarrow> bool" where
  "less_Addr a b \<longleftrightarrow> addr_key a < addr_key b"

instance
  by standard (auto simp: less_eq_Addr_def less_Addr_def less_le addr_key_inject)

end

definition Compare :: "Addr \<Rightarrow> Addr \<Rightarrow> int" where
  "Compare a b = (if a < b then -1 else if a = b then 0 else 1)"

lemma Compare_simps [simp]:
  "0 < Compare a b \<longleftrightarrow> b < a" "Compare a b \<le> 0 \<longleftrightarrow> a \<le> b" "Compare a b < 0 \<longleftrightarrow> a < b"
  "Compare a b = 0 \<longleftrightarrow> a = b"
  by (auto simp: Compare_def not_less)

lemma addr_le_same_family:
  assumes "BitLen a = BitLen b" "Zone a = []" "Zone b = []"
  shows "a \<le> b \<longleftrightarrow> addr_value a \<le> addr_value b"
  using assms by (auto simp: less_eq_Addr_def addr_key_def)

lemma addr_less_family: "BitLen a < BitLen b \<Longrightarrow> a < b"
  by (simp add: less_Addr_def addr_key_def)

lemma addr_le_family: "a \<le> b \<Longrightarrow> BitLen a \<le> BitLen b"
  by (auto simp: less_eq_Addr_def addr_key_def)

subsection \<open>Prefixes are intervals\<close>

lemma nat_block_iff:
  fixes a b n :: nat
  shows "a div 2 ^ n = b div 2 ^ n \<longleftrightarrow> b div 2 ^ n * 2 ^ n \<le> a \<and> a \<le> b div 2 ^ n * 2 ^ n + (2 ^ n - 1)"
proof
  assume "a div 2 ^ n = b div 2 ^ n"
  moreover have "a = a div 2 ^ n * 2 ^ n + a mod 2 ^ n" by (simp only: div_mult_mod_eq)
  ultimately have "a = b div 2 ^ n * 2 ^ n + a mod 2 ^ n" by metis
  moreover have "a mod 2 ^ n < 2 ^ n" by simp
  ultimately show "b div 2 ^ n * 2 ^ n \<le> a \<and> a \<le> b div 2 ^ n * 2 ^ n + (2 ^ n - 1)" by linarith
next
  assume "b div 2 ^ n * 2 ^ n \<le> a \<and> a \<le> b div 2 ^ n * 2 ^ n + (2 ^ n - 1)"
  moreover have "0 < (2::nat) ^ n" by simp
  ultimately have "b div 2 ^ n * 2 ^ n \<le> a" "a < b div 2 ^ n * 2 ^ n + 2 ^ n" by linarith+
  then have "b div 2 ^ n * 2 ^ n \<le> a" "a < Suc (b div 2 ^ n) * 2 ^ n" by simp_all
  then show "a div 2 ^ n = b div 2 ^ n" by (metis div_nat_eqI mult.commute)
qed

lemma drop_xor_eq_0:
  fixes a b :: "'a::len word"
  shows "drop_bit n (a XOR b) = 0 \<longleftrightarrow> drop_bit n a = drop_bit n b"
  by (auto simp: bit_eq_iff bit_simps)

lemma unat_drop: "unat (drop_bit n (a::'a::len word)) = unat a div 2 ^ n"
  unfolding unsigned_drop_bit_eq by (simp add: drop_bit_eq_div take_bit_nat_eq_self)

lemma unat_clear_low:
  fixes a :: "'a::len word"
  shows "unat (clear_low n a) = unat a div 2 ^ n * 2 ^ n"
proof -
  have "unat a div 2 ^ n * 2 ^ n < 2 ^ LENGTH('a)"
    by (metis div_times_less_eq_dividend le_less_trans unsigned_less)
  then show ?thesis
    unfolding clear_low_def unsigned_push_bit_eq unat_drop
    by (simp add: push_bit_eq_mult take_bit_nat_eq_self)
qed

definition word_last :: "nat \<Rightarrow> 'a::len word \<Rightarrow> 'a word" where
  "word_last n a = clear_low n a OR Bit_Operations.mask n"

lemma unat_word_last:
  fixes a :: "'a::len word"
  assumes "n \<le> LENGTH('a)"
  shows "unat (word_last n a) = unat a div 2 ^ n * 2 ^ n + (2 ^ n - 1)"
proof -
  have "clear_low n a AND Bit_Operations.mask n = 0"
    by (rule bit_word_eqI) (auto simp: clear_low_def bit_simps)
  then have "word_last n a = clear_low n a + Bit_Operations.mask n"
    by (simp add: word_last_def disjunctive_add_eq_or)
  moreover have m: "unat (Bit_Operations.mask n :: 'a word) = 2 ^ n - 1"
  proof -
    have "unat (of_nat (Bit_Operations.mask n) :: 'a word) = take_bit LENGTH('a) (Bit_Operations.mask n)"
      by (simp only: unsigned_of_nat of_nat_id)
    also have "\<dots> = Bit_Operations.mask n" using assms by (simp only: take_bit_of_mask min_absorb2)
    finally show ?thesis by (simp only: of_nat_mask_eq) (simp only: mask_eq_exp_minus_1)
  qed
  moreover have "unat a div 2 ^ n * 2 ^ n + (2 ^ n - 1) < 2 ^ LENGTH('a)"
  proof -
    have "unat a div 2 ^ n < 2 ^ (LENGTH('a) - n)"
      using assms by (metis le_add_diff_inverse less_mult_imp_div_less mult.commute power_add unsigned_less)
    then have "Suc (unat a div 2 ^ n) * 2 ^ n \<le> 2 ^ (LENGTH('a) - n) * 2 ^ n"
      by (intro mult_le_mono1 Suc_leI)
    also have "\<dots> = 2 ^ LENGTH('a)" using assms by (simp add: power_add [symmetric])
    finally have "unat a div 2 ^ n * 2 ^ n + 2 ^ n \<le> 2 ^ LENGTH('a)" by simp
    moreover have "0 < (2::nat) ^ n" by simp
    ultimately show ?thesis by linarith
  qed
  ultimately show ?thesis
    by (simp add: unat_clear_low unat_word_ariths)
qed

lemma block_iff:
  fixes a b :: "'a::len word"
  assumes "n \<le> LENGTH('a)"
  shows "drop_bit n (a XOR b) = 0 \<longleftrightarrow> clear_low n b \<le> a \<and> a \<le> word_last n b"
proof -
  have "drop_bit n a = drop_bit n b \<longleftrightarrow> unat a div 2 ^ n = unat b div 2 ^ n"
    by (simp only: word_unat_eq_iff unat_drop)
  then show ?thesis
    unfolding drop_xor_eq_0 word_le_nat_alt unat_clear_low unat_word_last [OF assms] nat_block_iff [of "unat a"] by simp
qed

fun last_addr :: "Addr \<Rightarrow> nat \<Rightarrow> Addr" where
  "last_addr (V4 a) b = V4 (word_last (32 - b) a)"
| "last_addr (V6 a z) b = V6 (word_last (128 - b) a) []"

text \<open>A zone-free address lies in a valid prefix iff it is of the prefix's family and between its bounds.\<close>

lemma Contains_interval:
  assumes "prefix_valid p" "Zone a = []"
  shows "Contains p a \<longleftrightarrow> BitLen a = BitLen (pfx_addr p) \<and>
    pfx_addr (Masked p) \<le> a \<and> a \<le> last_addr (pfx_addr p) (pfx_bits p)"
proof (cases "pfx_addr p")
  case (V4 b)
  then show ?thesis
    using assms block_iff [of "32 - pfx_bits p" _ b]
    by (cases a) (auto simp: Contains_def Masked_def addr_le_same_family word_le_nat_alt)
next
  case (V6 b z)
  then show ?thesis
    using assms block_iff [of "128 - pfx_bits p" _ b]
    by (cases a) (auto simp: Contains_def Masked_def addr_le_same_family word_le_nat_alt)
qed

subsection \<open>Byte arrays\<close>

text \<open>\<open>As4\<close> and \<open>As16\<close> give the bytes of an address, most significant first; \<open>AddrFrom4\<close> and
  \<open>AddrFrom16\<close> read them back.\<close>

definition word_bytes :: "nat \<Rightarrow> 'a::len word \<Rightarrow> u8 list" where
  "word_bytes n w = map (\<lambda>k. ucast (drop_bit (8 * (n - 1 - k)) w)) [0..<n]"

definition word_of_bytes :: "u8 list \<Rightarrow> 'a::len word" where
  "word_of_bytes bs = foldl (\<lambda>acc b. push_bit 8 acc OR ucast b) 0 bs"

lemma length_word_bytes [simp]: "length (word_bytes n w) = n"
  by (simp add: word_bytes_def)

lemma bit_word_of_bytes:
  "i < LENGTH('a::len) \<Longrightarrow> bit (word_of_bytes bs :: 'a word) i \<longleftrightarrow>
     i div 8 < length bs \<and> bit (bs ! (length bs - 1 - i div 8)) (i mod 8)"
proof (induction bs arbitrary: i rule: rev_induct)
  case Nil
  then show ?case by (simp add: word_of_bytes_def)
next
  case (snoc b bs)
  have step: "word_of_bytes (bs @ [b]) = push_bit 8 (word_of_bytes bs) OR (ucast b :: 'a word)"
    by (simp add: word_of_bytes_def)
  show ?case
  proof (cases "i < 8")
    case True
    with snoc.prems show ?thesis by (simp add: step bit_simps nth_append)
  next
    case False
    then have "\<not> bit b i" using bit_imp_le_length [of b i] by auto
    moreover have "i div 8 = Suc ((i - 8) div 8)" "(i - 8) mod 8 = i mod 8"
      using False by (simp_all add: le_div_geq le_mod_geq)
    ultimately show ?thesis
      using False snoc.prems snoc.IH [of "i - 8"] by (auto simp: step bit_simps nth_append)
  qed
qed

lemma bit_word_bytes:
  "k < n \<Longrightarrow> j < 8 \<Longrightarrow> bit (word_bytes n w ! k) j \<longleftrightarrow> bit w (8 * (n - 1 - k) + j)"
  by (simp add: word_bytes_def bit_simps)

lemma word_bytes_roundtrip:
  assumes "LENGTH('a::len) = 8 * n"
  shows "word_of_bytes (word_bytes n w) = (w :: 'a word)"
proof (rule bit_word_eqI)
  fix i assume i: "i < LENGTH('a)"
  then have "i div 8 < n" using assms by (simp add: div_less_iff_less_mult mult.commute)
  then have "n - 1 - (n - 1 - i div 8) = i div 8" by linarith
  with i \<open>i div 8 < n\<close> show "bit (word_of_bytes (word_bytes n w) :: 'a word) i = bit w i"
    by (simp add: bit_word_of_bytes bit_word_bytes)
qed

end
