(* ===== verification/Blacklist.thy ===== *)
theory Blacklist
  imports Net_Addr
begin

text \<open>
  The IP blacklist of \<open>internal/blacklist/manager.go\<close>: the compiled range cache (sorting, merging
  and binary search over address spans), address normalisation, the split of proxies into allowed
  and blocked ones, the parsing of a downloaded list, and the differences that drive removals.
  \<open>netip.ParseAddr\<close>, \<open>ParsePrefix\<close>, the two \<open>String\<close> methods and \<open>regexp\<close> are arguments.
\<close>

subsection \<open>The last address of a prefix\<close>

definition set_bit_at :: "nat \<Rightarrow> u8 list \<Rightarrow> u8 list" where
  "set_bit_at b bs = bs[b div 8 := bs ! (b div 8) OR push_bit (7 - b mod 8) 1]"

definition fill_bits :: "nat \<Rightarrow> nat \<Rightarrow> u8 list \<Rightarrow> u8 list" where
  "fill_bits lo hi bs = fold set_bit_at [lo..<hi] bs"

definition lastAddressInPrefix :: "Prefix \<Rightarrow> Addr" where
  "lastAddressInPrefix p =
     (let p = Masked p in
      case pfx_addr p of
        V4 a \<Rightarrow> V4 (word_of_bytes (fill_bits (pfx_bits p) 32 (word_bytes 4 a)))
      | V6 a z \<Rightarrow> V6 (word_of_bytes (fill_bits (pfx_bits p) 128 (word_bytes 16 a))) [])"

lemma length_fill_bits [simp]: "length (fill_bits lo hi bs) = length bs"
proof -
  have "length (fold set_bit_at xs bs) = length bs" for xs
    by (induction xs arbitrary: bs) (simp_all add: set_bit_at_def)
  then show ?thesis by (simp add: fill_bits_def)
qed

lemma bit_set_bit_at:
  assumes "k < length bs" "j < 8" "b div 8 < length bs"
  shows "bit (set_bit_at b bs ! k) j \<longleftrightarrow> bit (bs ! k) j \<or> b = 8 * k + (7 - j)"
proof -
  have "b div 8 = k \<and> 7 - b mod 8 = j \<longleftrightarrow> b = 8 * k + (7 - j)"
  proof
    assume "b div 8 = k \<and> 7 - b mod 8 = j"
    moreover have "b = 8 * (b div 8) + b mod 8" "b mod 8 < 8" by simp_all
    ultimately show "b = 8 * k + (7 - j)" by linarith
  next
    assume "b = 8 * k + (7 - j)"
    then obtain r where "b = 8 * k + r" "r < 8" "7 - r = j" using assms(2) by fastforce
    then show "b div 8 = k \<and> 7 - b mod 8 = j" by simp
  qed
  with assms show ?thesis
    by (auto simp: set_bit_at_def nth_list_update bit_simps)
qed

lemma bit_fill_bits:
  assumes "k < length bs" "j < 8" "hi \<le> 8 * length bs"
  shows "bit (fill_bits lo hi bs ! k) j \<longleftrightarrow> bit (bs ! k) j \<or> (lo \<le> 8 * k + (7 - j) \<and> 8 * k + (7 - j) < hi)"
proof -
  have "bit (fold set_bit_at xs bs ! k) j \<longleftrightarrow> bit (bs ! k) j \<or> 8 * k + (7 - j) \<in> set xs"
    if "\<forall>x \<in> set xs. x < 8 * length bs" for xs
    using that assms(1)
  proof (induction xs arbitrary: bs)
    case (Cons x xs)
    then have "x div 8 < length bs" by (simp add: div_less_iff_less_mult mult.commute)
    with Cons bit_set_bit_at [of k bs j x] assms(2) show ?case
      by (auto simp: set_bit_at_def)
  qed simp
  from this [of "[lo..<hi]"] assms(3) show ?thesis by (auto simp: fill_bits_def)
qed

lemma fill_bits_word:
  fixes w :: "'a::len word"
  assumes "LENGTH('a) = 8 * n"
  shows "word_of_bytes (fill_bits b (8 * n) (word_bytes n (clear_low (8 * n - b) w))) = word_last (8 * n - b) w"
proof (rule bit_word_eqI)
  fix i assume i: "i < LENGTH('a)"
  define k where "k = n - 1 - i div 8"
  define j where "j = i mod 8"
  have ij: "i = 8 * (i div 8) + j" "j < 8" "i div 8 < n"
    using i assms by (simp_all add: j_def div_less_iff_less_mult mult.commute)
  then have k: "k < n" "8 * (n - 1 - k) + j = i" "8 * k + (7 - j) = 8 * n - 1 - i"
    unfolding k_def by linarith+
  have bytes: "bit (word_of_bytes bs :: 'a word) i \<longleftrightarrow> bit (bs ! k) j" if "length bs = n" for bs
    using bit_word_of_bytes [OF i, of bs] that ij(3) by (simp add: k_def j_def)
  have "bit (word_of_bytes (fill_bits b (8 * n) (word_bytes n (clear_low (8 * n - b) w))) :: 'a word) i \<longleftrightarrow>
      bit (clear_low (8 * n - b) w) i \<or> b \<le> 8 * n - 1 - i"
    using i assms k ij by (simp add: bytes bit_fill_bits bit_word_bytes k(2) k(3) del: One_nat_def)
  also have "\<dots> \<longleftrightarrow> bit (word_last (8 * n - b) w) i"
    using i assms by (auto simp: word_last_def bit_simps)
  finally show "bit (word_of_bytes (fill_bits b (8 * n) (word_bytes n (clear_low (8 * n - b) w))) :: 'a word) i
      = bit (word_last (8 * n - b) w) i" .
qed

lemma lastAddressInPrefix_last: "lastAddressInPrefix p = last_addr (pfx_addr p) (pfx_bits p)"
  using fill_bits_word [where 'a = 32 and n = 4 and b = "pfx_bits p"]
    fill_bits_word [where 'a = 128 and n = 16 and b = "pfx_bits p"]
  by (cases "pfx_addr p") (simp_all add: lastAddressInPrefix_def Masked_def)

subsection \<open>The range cache\<close>

record ipRange =
  r_start :: Addr
  r_end :: Addr

record BlacklistedRange =
  br_CIDR :: string
  br_Source :: string

record blacklistRangeCache =
  rc_spans :: "ipRange list"
  rc_entries :: "BlacklistedRange list"

text \<open>The comparison of \<open>sort.Slice\<close>: by start, a longer span first on equal starts. Spans that
  neither precedes are equal, so every sorting algorithm gives the same list.\<close>

definition span_less :: "ipRange \<Rightarrow> ipRange \<Rightarrow> bool" where
  "span_less s t = (if Compare (r_start s) (r_start t) \<noteq> 0 then Compare (r_start s) (r_start t) < 0
     else 0 < Compare (r_end s) (r_end t))"

fun span_insert :: "ipRange \<Rightarrow> ipRange list \<Rightarrow> ipRange list" where
  "span_insert s [] = [s]"
| "span_insert s (t # ts) = (if span_less t s then t # span_insert s ts else s # t # ts)"

definition span_sort :: "ipRange list \<Rightarrow> ipRange list" where
  "span_sort ss = foldr span_insert ss []"

text \<open>One round of the merge loop; the head of the list is the last merged span.\<close>

fun merge_span :: "ipRange \<Rightarrow> ipRange list \<Rightarrow> ipRange list" where
  "merge_span s [] = [s]"
| "merge_span s (l # ms) =
     (if BitLen (r_start l) = BitLen (r_start s) \<and> Compare (r_start s) (r_end l) \<le> 0
      then (if 0 < Compare (r_end s) (r_end l) then l\<lparr>r_end := r_end s\<rparr> # ms else l # ms)
      else s # l # ms)"

definition merge_spans :: "ipRange list \<Rightarrow> ipRange list" where
  "merge_spans ss = rev (fold merge_span ss [])"

definition parse_range :: "(string \<Rightarrow> Prefix option) \<Rightarrow> BlacklistedRange \<Rightarrow> Prefix option" where
  "parse_range ParsePrefix entry =
     (case ParsePrefix (TrimSpace (br_CIDR entry)) of
        None \<Rightarrow> None
      | Some p \<Rightarrow> if Is4In6 (pfx_addr p) then None else Some (Masked p))"

fun compile_ranges :: "(string \<Rightarrow> Prefix option) \<Rightarrow> (Prefix \<Rightarrow> string) \<Rightarrow> BlacklistedRange list \<Rightarrow>
    BlacklistedRange list \<times> ipRange list \<times> nat" where
  "compile_ranges ParsePrefix PrefixString [] = ([], [], 0)"
| "compile_ranges ParsePrefix PrefixString (entry # ranges) =
     (case compile_ranges ParsePrefix PrefixString ranges of (entries, spans, invalid) \<Rightarrow>
        (case parse_range ParsePrefix entry of
           None \<Rightarrow> (entries, spans, Suc invalid)
         | Some p \<Rightarrow>
             (entry\<lparr>br_CIDR := PrefixString p\<rparr> # entries,
              \<lparr>r_start = pfx_addr p, r_end = lastAddressInPrefix p\<rparr> # spans, invalid)))"

definition buildBlacklistRangeCache :: "(string \<Rightarrow> Prefix option) \<Rightarrow> (Prefix \<Rightarrow> string) \<Rightarrow>
    BlacklistedRange list \<Rightarrow> blacklistRangeCache \<times> nat" where
  "buildBlacklistRangeCache ParsePrefix PrefixString ranges =
     (case compile_ranges ParsePrefix PrefixString ranges of (entries, spans, invalidCount) \<Rightarrow>
        (\<lparr>rc_spans = merge_spans (span_sort spans), rc_entries = entries\<rparr>, invalidCount))"

text \<open>\<open>sort.Search\<close>: the bisection of the standard library.\<close>

function search_loop :: "(nat \<Rightarrow> bool) \<Rightarrow> nat \<Rightarrow> nat \<Rightarrow> nat" where
  "search_loop f i j = (if i < j then let h = (i + j) div 2 in
     if \<not> f h then search_loop f (h + 1) j else search_loop f i h else i)"
  by pat_completeness auto
termination by (relation "measure (\<lambda>(f, i, j). j - i)") auto

declare search_loop.simps [simp del]

definition sort_Search :: "nat \<Rightarrow> (nat \<Rightarrow> bool) \<Rightarrow> nat" where
  "sort_Search n f = search_loop f 0 n"

definition span_lookup :: "Addr \<Rightarrow> ipRange list \<Rightarrow> bool" where
  "span_lookup address ranges =
     (let index = sort_Search (length ranges) (\<lambda>i. 0 < Compare (r_start (ranges ! i)) address) in
      if index = 0 then False
      else let span = ranges ! (index - 1) in
        BitLen (r_start span) = BitLen address \<and> Compare address (r_end span) \<le> 0)"

definition inRange :: "(string \<Rightarrow> Addr option) \<Rightarrow> string \<Rightarrow> ipRange list \<Rightarrow> bool" where
  "inRange ParseAddr ip ranges =
     (if ranges = [] then False
      else case ParseAddr (TrimSpace ip) of
        None \<Rightarrow> False
      | Some a \<Rightarrow> span_lookup (Unmap a) ranges)"

subsection \<open>Bisection\<close>

lemma search_loop_correct:
  assumes "i \<le> j" "j \<le> n" "\<forall>m < i. \<not> f m" "\<forall>m. j \<le> m \<and> m < n \<longrightarrow> f m"
    and mono: "\<And>a b. a \<le> b \<Longrightarrow> b < n \<Longrightarrow> f a \<Longrightarrow> f b"
  shows "search_loop f i j \<le> n \<and> (\<forall>m < search_loop f i j. \<not> f m) \<and>
    (\<forall>m. search_loop f i j \<le> m \<and> m < n \<longrightarrow> f m)"
  using assms(1-4)
proof (induction "j - i" arbitrary: i j rule: less_induct)
  case less
  show ?case
  proof (cases "i < j")
    case False
    then have "search_loop f i j = i" by (subst search_loop.simps) simp
    with False less.prems show ?thesis by auto
  next
    case True
    define h where "h = (i + j) div 2"
    have h: "i \<le> h" "h < j" using True by (auto simp: h_def)
    have step: "search_loop f i j = (if \<not> f h then search_loop f (h + 1) j else search_loop f i h)"
      using True by (subst search_loop.simps) (simp add: h_def Let_def)
    show ?thesis
    proof (cases "f h")
      case True
      then have "\<forall>m. h \<le> m \<and> m < n \<longrightarrow> f m" using mono by blast
      with less.hyps [of h i] h less.prems True show ?thesis by (simp add: step)
    next
      case False
      then have "\<not> f m" if "m \<le> h" for m using mono [of m h] that h less.prems(2) by auto
      then have "\<forall>m < h + 1. \<not> f m" by simp
      with less.hyps [of j "h + 1"] h less.prems False show ?thesis by (simp add: step)
    qed
  qed
qed

lemma sort_Search_correct:
  assumes "\<And>a b. a \<le> b \<Longrightarrow> b < n \<Longrightarrow> f a \<Longrightarrow> f b"
  shows "sort_Search n f \<le> n" "m < sort_Search n f \<Longrightarrow> \<not> f m"
    "sort_Search n f \<le> m \<Longrightarrow> m < n \<Longrightarrow> f m"
proof -
  have "sort_Search n f \<le> n \<and> (\<forall>m < sort_Search n f. \<not> f m) \<and> (\<forall>m. sort_Search n f \<le> m \<and> m < n \<longrightarrow> f m)"
    unfolding sort_Search_def by (rule search_loop_correct [OF _ _ _ _ assms]) auto
  then show "sort_Search n f \<le> n" "m < sort_Search n f \<Longrightarrow> \<not> f m"
    "sort_Search n f \<le> m \<Longrightarrow> m < n \<Longrightarrow> f m" by blast+
qed

subsection \<open>Sorting and merging\<close>

definition span_ok :: "ipRange \<Rightarrow> bool" where
  "span_ok s \<longleftrightarrow> r_start s \<le> r_end s \<and> BitLen (r_start s) = BitLen (r_end s)"

definition span_covers :: "ipRange \<Rightarrow> Addr \<Rightarrow> bool" where
  "span_covers s a \<longleftrightarrow> r_start s \<le> a \<and> a \<le> r_end s"

lemma span_covers_family: "span_ok s \<Longrightarrow> span_covers s a \<Longrightarrow> BitLen (r_start s) = BitLen a"
  unfolding span_ok_def span_covers_def using addr_le_family by (metis order_antisym)

lemma set_span_insert [simp]: "set (span_insert s ts) = insert s (set ts)"
  by (induction ts) auto

lemma set_span_sort [simp]: "set (span_sort ss) = set ss"
  by (induction ss) (simp_all add: span_sort_def)

lemma span_less_start: "span_less s t \<Longrightarrow> r_start s \<le> r_start t" "\<not> span_less s t \<Longrightarrow> r_start t \<le> r_start s"
  by (auto simp: span_less_def split: if_splits)

lemma sorted_span_insert:
  "sorted_wrt (\<lambda>s t. r_start s \<le> r_start t) ts \<Longrightarrow> sorted_wrt (\<lambda>s t. r_start s \<le> r_start t) (span_insert s ts)"
proof (induction ts)
  case (Cons t ts)
  then show ?case
    using span_less_start [of t s] by (auto intro: order_trans)
qed simp

lemma sorted_span_sort: "sorted_wrt (\<lambda>s t. r_start s \<le> r_start t) (span_sort ss)"
  by (induction ss) (simp_all add: span_sort_def sorted_span_insert)

lemma merge_span_covers:
  assumes "span_ok s" "\<forall>m \<in> set ms. span_ok m \<and> r_start m \<le> r_start s"
  shows "(\<exists>m \<in> set (merge_span s ms). span_covers m a) \<longleftrightarrow> span_covers s a \<or> (\<exists>m \<in> set ms. span_covers m a)"
    and "\<forall>m \<in> set (merge_span s ms). span_ok m \<and> r_start m \<le> r_start s"
  using assms by (cases ms; auto simp: span_covers_def span_ok_def)+

lemma merge_span_disjoint:
  assumes "sorted_wrt (\<lambda>t s. r_end s < r_start t) ms" "\<forall>m \<in> set ms. span_ok m \<and> r_start m \<le> r_start s"
  shows "sorted_wrt (\<lambda>t s. r_end s < r_start t) (merge_span s ms)"
proof (cases ms)
  case (Cons l rest)
  have "r_end l < r_start s"
    if "\<not> (BitLen (r_start l) = BitLen (r_start s) \<and> r_start s \<le> r_end l)"
  proof (cases "BitLen (r_start l) = BitLen (r_start s)")
    case True
    with that show ?thesis by simp
  next
    case False
    then have "BitLen (r_start l) < BitLen (r_start s)"
      using assms(2) Cons addr_le_family by (metis le_neq_implies_less list.set_intros(1))
    then show ?thesis using assms(2) Cons by (auto simp: span_ok_def intro: addr_less_family)
  qed
  moreover have "r_end m < r_start s" if "m \<in> set rest" for m
    using assms that Cons by (auto intro: less_le_trans)
  ultimately show ?thesis using assms(1) Cons by auto
qed simp

lemma fold_merge_span:
  assumes "sorted_wrt (\<lambda>s t. r_start s \<le> r_start t) ss" "\<forall>s \<in> set ss. span_ok s"
    "\<forall>m \<in> set ms. span_ok m \<and> (\<forall>s \<in> set ss. r_start m \<le> r_start s)"
    "sorted_wrt (\<lambda>t s. r_end s < r_start t) ms"
  shows "((\<exists>m \<in> set (fold merge_span ss ms). span_covers m a) \<longleftrightarrow>
      (\<exists>s \<in> set ss. span_covers s a) \<or> (\<exists>m \<in> set ms. span_covers m a)) \<and>
    sorted_wrt (\<lambda>t s. r_end s < r_start t) (fold merge_span ss ms) \<and>
    (\<forall>m \<in> set (fold merge_span ss ms). span_ok m)"
  using assms
proof (induction ss arbitrary: ms)
  case (Cons s ss)
  have ms: "\<forall>m \<in> set ms. span_ok m \<and> r_start m \<le> r_start s" and s: "span_ok s"
    using Cons.prems by auto
  have "\<forall>m \<in> set (merge_span s ms). span_ok m \<and> (\<forall>t \<in> set ss. r_start m \<le> r_start t)"
    using merge_span_covers(2) [OF s ms] Cons.prems(1) by (auto intro: order_trans)
  with Cons.IH [of "merge_span s ms"] Cons.prems merge_span_covers(1) [OF s ms, of a]
    merge_span_disjoint [OF Cons.prems(4) ms] show ?case by auto
qed auto

lemma merge_spans_correct:
  assumes "\<forall>s \<in> set ss. span_ok s"
  shows "(\<exists>m \<in> set (merge_spans (span_sort ss)). span_covers m a) \<longleftrightarrow> (\<exists>s \<in> set ss. span_covers s a)"
    and "sorted_wrt (\<lambda>s t. r_end s < r_start t) (merge_spans (span_sort ss))"
    and "\<forall>m \<in> set (merge_spans (span_sort ss)). span_ok m"
  using fold_merge_span [OF sorted_span_sort, of ss "[]" a] assms
  by (simp_all add: merge_spans_def sorted_wrt_rev)

lemma span_lookup_covers:
  assumes disj: "sorted_wrt (\<lambda>s t. r_end s < r_start t) ss" and ok: "\<forall>s \<in> set ss. span_ok s"
  shows "span_lookup a ss \<longleftrightarrow> (\<exists>s \<in> set ss. span_covers s a)"
proof -
  let ?f = "\<lambda>i. a < r_start (ss ! i)"
  have gap: "r_end (ss ! i) < r_start (ss ! j)" if "i < j" "j < length ss" for i j
    using that disj by (simp add: sorted_wrt_iff_nth_less)
  have order: "r_start (ss ! i) \<le> r_start (ss ! j)" if "i \<le> j" "j < length ss" for i j
  proof (cases "i = j")
    case False
    have "r_start (ss ! i) \<le> r_end (ss ! i)" using ok that by (simp add: span_ok_def)
    with gap [of i j] False that show ?thesis by simp
  qed simp
  define k where "k = sort_Search (length ss) ?f"
  have k: "k \<le> length ss" "\<And>m. m < k \<Longrightarrow> r_start (ss ! m) \<le> a"
    "\<And>m. k \<le> m \<Longrightarrow> m < length ss \<Longrightarrow> a < r_start (ss ! m)"
    using sort_Search_correct [of "length ss" ?f] order unfolding k_def
    by (meson less_le_trans not_less)+
  have "(\<exists>s \<in> set ss. span_covers s a) \<longleftrightarrow> k \<noteq> 0 \<and> span_covers (ss ! (k - 1)) a"
  proof
    assume "\<exists>s \<in> set ss. span_covers s a"
    then obtain m where m: "m < length ss" "span_covers (ss ! m) a" by (metis in_set_conv_nth)
    then have "m < k" using k(3) [of m] by (meson leD not_less span_covers_def)
    moreover have "m = k - 1"
    proof (rule ccontr)
      assume "m \<noteq> k - 1"
      with \<open>m < k\<close> have "r_end (ss ! m) < r_start (ss ! (k - 1))" using gap [of m "k - 1"] k(1) by simp
      moreover have "r_start (ss ! (k - 1)) \<le> a" using k(2) [of "k - 1"] \<open>m < k\<close> by simp
      ultimately show False using m(2) unfolding span_covers_def by (meson leD order.strict_trans2 order.trans)
    qed
    ultimately show "k \<noteq> 0 \<and> span_covers (ss ! (k - 1)) a" using m by simp
  next
    assume "k \<noteq> 0 \<and> span_covers (ss ! (k - 1)) a"
    then show "\<exists>s \<in> set ss. span_covers s a" using k(1) by (intro bexI [of _ "ss ! (k - 1)"]) auto
  qed
  moreover have "span_lookup a ss \<longleftrightarrow> k \<noteq> 0 \<and> BitLen (r_start (ss ! (k - 1))) = BitLen a \<and> a \<le> r_end (ss ! (k - 1))"
    by (simp add: span_lookup_def k_def Let_def)
  moreover have "k \<noteq> 0 \<Longrightarrow> span_covers (ss ! (k - 1)) a \<longleftrightarrow>
      BitLen (r_start (ss ! (k - 1))) = BitLen a \<and> a \<le> r_end (ss ! (k - 1))"
    using k(1) k(2) [of "k - 1"] ok span_covers_family [of "ss ! (k - 1)" a]
    by (auto simp: span_covers_def)
  ultimately show ?thesis by blast
qed

subsection \<open>The compiled cache answers exactly for the listed prefixes\<close>

lemma clear_low_idem [simp]: "clear_low n (clear_low n a) = clear_low n a"
  by (rule bit_word_eqI) (auto simp: clear_low_def bit_simps)

lemma word_last_clear_low [simp]: "word_last n (clear_low n a) = word_last n a"
  by (simp add: word_last_def)

lemma last_addr_Masked [simp]: "last_addr (Masked_addr a b) b = last_addr a b"
  by (cases a) simp_all

lemma Masked_simps [simp]: "pfx_bits (Masked p) = pfx_bits p" "Masked (Masked p) = Masked p"
  "BitLen (pfx_addr (Masked p)) = BitLen (pfx_addr p)"
  by (cases "pfx_addr p"; simp add: Masked_def)+

lemma prefix_span_ok:
  assumes "prefix_valid p"
  shows "span_ok \<lparr>r_start = pfx_addr (Masked p), r_end = lastAddressInPrefix (Masked p)\<rparr>"
proof -
  have "unat (clear_low (32 - n) a) \<le> unat (word_last (32 - n) a)" for n and a :: u32
    unfolding unat_clear_low by (subst unat_word_last, simp, rule le_add1)
  moreover have "unat (clear_low (128 - n) a) \<le> unat (word_last (128 - n) a)" for n and a :: "128 word"
    unfolding unat_clear_low by (subst unat_word_last, simp, rule le_add1)
  ultimately show ?thesis
    by (cases "pfx_addr p") (simp_all add: span_ok_def lastAddressInPrefix_last Masked_def addr_le_same_family)
qed

lemma prefix_span_covers:
  assumes "prefix_valid p" "Zone a = []"
  shows "span_covers \<lparr>r_start = pfx_addr (Masked p), r_end = lastAddressInPrefix (Masked p)\<rparr> a \<longleftrightarrow> Contains p a"
proof -
  let ?s = "\<lparr>r_start = pfx_addr (Masked p), r_end = lastAddressInPrefix (Masked p)\<rparr>"
  have end_eq: "lastAddressInPrefix (Masked p) = last_addr (pfx_addr p) (pfx_bits p)"
    by (simp add: lastAddressInPrefix_last) (simp add: Masked_def)
  have "BitLen a = BitLen (pfx_addr p)" if "span_covers ?s a"
    using span_covers_family [OF prefix_span_ok [OF assms(1)] that] by simp
  then show ?thesis
    unfolding Contains_interval [OF assms] by (auto simp: span_covers_def end_eq)
qed

lemma compile_ranges_spans:
  "set (fst (snd (compile_ranges P S ranges))) =
    {\<lparr>r_start = pfx_addr p, r_end = lastAddressInPrefix p\<rparr> | p r. r \<in> set ranges \<and> parse_range P r = Some p}"
proof -
  have "fst (snd (compile_ranges P S ranges)) =
      map (\<lambda>p. \<lparr>r_start = pfx_addr p, r_end = lastAddressInPrefix p\<rparr>) (List.map_filter (parse_range P) ranges)"
    by (induction ranges) (auto simp: map_filter_simps split: prod.splits option.splits)
  moreover have "set (List.map_filter (parse_range P) ranges) = {p. \<exists>r \<in> set ranges. parse_range P r = Some p}"
    by (induction ranges) (auto simp: map_filter_simps split: option.splits)
  ultimately show ?thesis by auto
qed

text \<open>The prefixes a list of ranges stands for: \<open>netip.ParsePrefix\<close> accepts them and they are not IPv4-mapped.\<close>

definition range_contains :: "(string \<Rightarrow> Prefix option) \<Rightarrow> BlacklistedRange \<Rightarrow> Addr \<Rightarrow> bool" where
  "range_contains ParsePrefix r a \<longleftrightarrow>
     (case ParsePrefix (TrimSpace (br_CIDR r)) of None \<Rightarrow> False
      | Some p \<Rightarrow> \<not> Is4In6 (pfx_addr p) \<and> Contains p a)"

lemma range_lookup:
  assumes valid: "\<And>s p. ParsePrefix s = Some p \<Longrightarrow> prefix_valid p" and zone: "Zone a = []"
  shows "span_lookup a (rc_spans (fst (buildBlacklistRangeCache ParsePrefix PrefixString ranges))) \<longleftrightarrow>
    (\<exists>r \<in> set ranges. range_contains ParsePrefix r a)"
proof -
  let ?spans = "fst (snd (compile_ranges ParsePrefix PrefixString ranges))"
  have parsed: "\<exists>q. prefix_valid q \<and> p = Masked q \<and> ParsePrefix (TrimSpace (br_CIDR r)) = Some q \<and> \<not> Is4In6 (pfx_addr q)"
    if "parse_range ParsePrefix r = Some p" for r p
    using that valid by (auto simp: parse_range_def split: option.splits if_splits)
  have ok: "\<forall>s \<in> set ?spans. span_ok s"
    using parsed prefix_span_ok unfolding compile_ranges_spans by blast
  have "(\<exists>s \<in> set ?spans. span_covers s a) \<longleftrightarrow> (\<exists>r \<in> set ranges. range_contains ParsePrefix r a)"
    (is "?L \<longleftrightarrow> ?R")
  proof
    assume ?L
    then obtain p r where "r \<in> set ranges" "parse_range ParsePrefix r = Some p"
      "span_covers \<lparr>r_start = pfx_addr p, r_end = lastAddressInPrefix p\<rparr> a"
      unfolding compile_ranges_spans by blast
    with parsed [of r p] prefix_span_covers [OF _ zone] show ?R
      by (auto simp: range_contains_def intro!: bexI [of _ r])
  next
    assume ?R
    then obtain r q where "r \<in> set ranges" "ParsePrefix (TrimSpace (br_CIDR r)) = Some q"
      "\<not> Is4In6 (pfx_addr q)" "Contains q a"
      by (auto simp: range_contains_def split: option.splits)
    moreover from this have "parse_range ParsePrefix r = Some (Masked q)"
      by (simp add: parse_range_def)
    ultimately show ?L
      using prefix_span_covers [OF valid zone] unfolding compile_ranges_spans by blast
  qed
  then show ?thesis
    using merge_spans_correct [OF ok] span_lookup_covers
    by (cases "compile_ranges ParsePrefix PrefixString ranges") (simp add: buildBlacklistRangeCache_def)
qed

subsection \<open>Normalisation and filtering of proxies\<close>

text \<open>The text interface of \<open>net/netip\<close>.\<close>

record netip_text =
  ParseAddr :: "string \<Rightarrow> Addr option"
  AddrString :: "Addr \<Rightarrow> string"
  ParsePrefix :: "string \<Rightarrow> Prefix option"
  PrefixString :: "Prefix \<Rightarrow> string"

definition normalizeIP :: "netip_text \<Rightarrow> string \<Rightarrow> string" where
  "normalizeIP nt raw = (case ParseAddr nt (TrimSpace raw) of None \<Rightarrow> [] | Some a \<Rightarrow> AddrString nt (Unmap a))"

definition toSet :: "netip_text \<Rightarrow> string list \<Rightarrow> string set" where
  "toSet nt ips = {normalizeIP nt ip | ip. ip \<in> set ips \<and> normalizeIP nt ip \<noteq> []}"

lemma toSet_code [code]: "toSet nt ips = set (filter (\<lambda>s. s \<noteq> []) (map (normalizeIP nt) ips))"
  by (auto simp: toSet_def)

definition blocked_ip :: "netip_text \<Rightarrow> string set \<Rightarrow> ipRange list \<Rightarrow> string \<Rightarrow> bool" where
  "blocked_ip nt blocked ranges raw =
     (let ip = normalizeIP nt raw in
      if ip = [] then False else if ip \<in> blocked then True else inRange (ParseAddr nt) ip ranges)"

text \<open>The loop appends every proxy to one of the two result slices.\<close>

fun filter_loop :: "('p \<Rightarrow> bool) \<Rightarrow> 'p list \<Rightarrow> 'p list \<Rightarrow> 'p list \<Rightarrow> 'p list \<times> 'p list" where
  "filter_loop bad [] allowed blocked = (allowed, blocked)"
| "filter_loop bad (proxy # proxies) allowed blocked =
     (if bad proxy then filter_loop bad proxies allowed (blocked @ [proxy])
      else filter_loop bad proxies (allowed @ [proxy]) blocked)"

definition FilterProxies :: "netip_text \<Rightarrow> ('p \<Rightarrow> string) \<Rightarrow> string set \<Rightarrow> ipRange list \<Rightarrow> 'p list \<Rightarrow> 'p list \<times> 'p list" where
  "FilterProxies nt GetIp blocked ranges proxies =
     filter_loop (\<lambda>p. blocked_ip nt blocked ranges (GetIp p)) proxies [] []"

lemma filter_loop_eq:
  "filter_loop bad ps as bs = (as @ filter (\<lambda>p. \<not> bad p) ps, bs @ filter bad ps)"
  by (induction ps arbitrary: as bs) auto

text \<open>
  The documented behaviour of the parsers and printers: a printed address parses back to itself,
  the text of an address without zone has no white space at its ends, and \<open>ParsePrefix\<close> returns
  valid prefixes only.
\<close>

definition netip_roundtrip :: "netip_text \<Rightarrow> bool" where
  "netip_roundtrip nt \<longleftrightarrow>
     (\<forall>a. AddrString nt a \<noteq> [] \<and> ParseAddr nt (AddrString nt a) = Some a) \<and>
     (\<forall>a. Zone a = [] \<longrightarrow> TrimSpace (AddrString nt a) = AddrString nt a) \<and>
     (\<forall>s p. ParsePrefix nt s = Some p \<longrightarrow> prefix_valid p)"

lemma Unmap_idem [simp]: "Unmap (Unmap a) = Unmap a"
  by (cases a) simp_all

lemma inRange_address:
  assumes "netip_roundtrip nt" "Zone (Unmap a) = []"
  shows "inRange (ParseAddr nt) (AddrString nt (Unmap a)) ranges \<longleftrightarrow> ranges \<noteq> [] \<and> span_lookup (Unmap a) ranges"
  using assms by (simp add: inRange_def netip_roundtrip_def)

lemma span_lookup_Nil [simp]: "\<not> span_lookup a []"
  by (simp add: span_lookup_def sort_Search_def search_loop.simps)

text \<open>What it means for an address string to be blacklisted.\<close>

definition blacklisted :: "netip_text \<Rightarrow> string list \<Rightarrow> BlacklistedRange list \<Rightarrow> string \<Rightarrow> bool" where
  "blacklisted nt ips ranges raw \<longleftrightarrow>
     (case ParseAddr nt (TrimSpace raw) of
        None \<Rightarrow> False
      | Some a \<Rightarrow> (\<exists>ip \<in> set ips. \<exists>b. ParseAddr nt (TrimSpace ip) = Some b \<and> Unmap b = Unmap a) \<or>
          (\<exists>r \<in> set ranges. range_contains (ParsePrefix nt) r (Unmap a)))"

lemma toSet_iff:
  assumes "netip_roundtrip nt"
  shows "AddrString nt (Unmap a) \<in> toSet nt ips \<longleftrightarrow>
    (\<exists>ip \<in> set ips. \<exists>b. ParseAddr nt (TrimSpace ip) = Some b \<and> Unmap b = Unmap a)"
proof -
  have inj: "AddrString nt x = AddrString nt y \<longleftrightarrow> x = y" and ne: "AddrString nt x \<noteq> []" for x y
    using assms unfolding netip_roundtrip_def by (metis option.inject)+
  show ?thesis
    using ne by (fastforce simp: toSet_def normalizeIP_def inj split: option.splits)
qed

lemma blocked_ip_blacklisted:
  assumes nt: "netip_roundtrip nt"
    and zone: "\<And>a. ParseAddr nt (TrimSpace raw) = Some a \<Longrightarrow> Zone (Unmap a) = []"
  shows "blocked_ip nt (toSet nt ips)
      (rc_spans (fst (buildBlacklistRangeCache (ParsePrefix nt) (PrefixString nt) ranges))) raw
    \<longleftrightarrow> blacklisted nt ips ranges raw"
proof (cases "ParseAddr nt (TrimSpace raw)")
  case None
  then show ?thesis by (simp add: blocked_ip_def blacklisted_def normalizeIP_def)
next
  case (Some a)
  have "AddrString nt (Unmap a) \<noteq> []" using nt by (simp add: netip_roundtrip_def)
  moreover have "span_lookup (Unmap a)
      (rc_spans (fst (buildBlacklistRangeCache (ParsePrefix nt) (PrefixString nt) ranges))) \<longleftrightarrow>
      (\<exists>r \<in> set ranges. range_contains (ParsePrefix nt) r (Unmap a))"
    by (rule range_lookup) (use nt zone [OF Some] in \<open>auto simp: netip_roundtrip_def\<close>)
  ultimately show ?thesis
    using Some by (auto simp: blocked_ip_def blacklisted_def normalizeIP_def inRange_address [OF nt zone [OF Some]] toSet_iff [OF nt])
qed

subsection \<open>Parsing a downloaded list\<close>

fun split_lines :: "string \<Rightarrow> string \<Rightarrow> string list" where
  "split_lines acc [] = (if acc = [] then [] else [rev acc])"
| "split_lines acc (c # cs) = (if c = CHR 0x0A then rev acc # split_lines [] cs else split_lines (c # acc) cs)"

definition drop_cr :: "string \<Rightarrow> string" where
  "drop_cr l = (if l \<noteq> [] \<and> last l = CHR 0x0D then butlast l else l)"

text \<open>\<open>bufio.Scanner\<close> with a buffer of 1 MiB: it stops at the first line that does not fit.\<close>

definition scan_lines :: "string \<Rightarrow> string list" where
  "scan_lines payload = map drop_cr (takeWhile (\<lambda>l. length l < 1048576) (split_lines [] payload))"

definition TrimRight_punct :: "string \<Rightarrow> string" where
  "TrimRight_punct s = rev (dropWhile (\<lambda>c. c \<in> set ''.,;:'') (rev s))"

definition parseCIDROrIP :: "netip_text \<Rightarrow> string \<Rightarrow> BlacklistedRange list \<times> string list" where
  "parseCIDROrIP nt raw =
     (if CHR ''/'' \<notin> set raw then
        let ip = normalizeIP nt raw in if ip = [] then ([], []) else ([], [ip])
      else case ParsePrefix nt raw of
        None \<Rightarrow> ([], [])
      | Some p \<Rightarrow> if Is4In6 (pfx_addr p) then ([], [])
          else ([\<lparr>br_CIDR = PrefixString nt (Masked p), br_Source = []\<rparr>], []))"

definition parse_match :: "netip_text \<Rightarrow> string \<Rightarrow> BlacklistedRange list \<times> string list" where
  "parse_match nt ipStr =
     (let first = parseCIDROrIP nt ipStr; trimmed = TrimRight_punct ipStr in
      if first = ([], []) \<and> trimmed \<noteq> ipStr then parseCIDROrIP nt trimmed else first)"

text \<open>The set \<open>seen\<close> is returned in the order of first occurrence; Go's map iteration may permute it.\<close>

definition parseIPs :: "netip_text \<Rightarrow> (string \<Rightarrow> string list) \<Rightarrow> string \<Rightarrow> string list \<times> BlacklistedRange list" where
  "parseIPs nt FindAll payload =
     (let parsed = map (parse_match nt) (concat (map FindAll (scan_lines payload)))
      in (remdups (concat (map snd parsed)), concat (map fst parsed)))"

subsection \<open>Refreshing from the sources\<close>

datatype http_result = HttpCanceled | HttpFailed | HttpResponse nat string

datatype fetch_error = FetchCanceled | FetchFailed

definition maxResponseBytes :: nat where "maxResponseBytes = 10 * 2 ^ 20"

definition fetchBlacklist :: "netip_text \<Rightarrow> (string \<Rightarrow> string list) \<Rightarrow> (string \<Rightarrow> bool) \<Rightarrow> (string \<Rightarrow> http_result) \<Rightarrow>
    string \<Rightarrow> (fetch_error, string list \<times> BlacklistedRange list) result" where
  "fetchBlacklist nt FindAll websiteBlocked http source =
     (if websiteBlocked source then Inl FetchFailed
      else case http source of
        HttpCanceled \<Rightarrow> Inl FetchCanceled
      | HttpFailed \<Rightarrow> Inl FetchFailed
      | HttpResponse status body \<Rightarrow>
          if status < 200 \<or> 300 \<le> status then Inl FetchFailed
          else Inr (parseIPs nt FindAll (take maxResponseBytes body)))"

type_synonym fetched = "(string \<times> string) list \<times> BlacklistedRange list"

fun collect_sources :: "(string \<Rightarrow> (fetch_error, string list \<times> BlacklistedRange list) result) \<Rightarrow>
    string list \<Rightarrow> (fetch_error, fetched) result" where
  "collect_sources fetch [] = Inr ([], [])"
| "collect_sources fetch (src # sources) =
     (case fetch src of
        Inl FetchCanceled \<Rightarrow> Inl FetchCanceled
      | Inl FetchFailed \<Rightarrow> collect_sources fetch sources
      | Inr (ips, ranges) \<Rightarrow>
          (case collect_sources fetch sources of
             Inl e \<Rightarrow> Inl e
           | Inr (allIPs, allRanges) \<Rightarrow>
               Inr (map (\<lambda>ip. (ip, src)) ips @ allIPs, map (\<lambda>r. r\<lparr>br_Source := src\<rparr>) ranges @ allRanges)))"

text \<open>The functions of \<open>internal/database\<close> that a refresh calls, over an abstract database state.\<close>

record ('d, 'p) blacklist_db =
  ListBlacklistedIPs :: "'d \<Rightarrow> string list option"
  ListBlacklistedRanges :: "'d \<Rightarrow> BlacklistedRange list option"
  ReplaceBlacklistData :: "(string \<times> string) list \<Rightarrow> BlacklistedRange list \<Rightarrow> 'd \<Rightarrow> bool \<times> 'd"
  RemoveProxiesByIPs :: "string set \<Rightarrow> 'd \<Rightarrow> (int \<times> 'p list) option \<times> 'd"
  RemoveProxiesByRanges :: "BlacklistedRange list \<Rightarrow> 'd \<Rightarrow> (int \<times> 'p list) option \<times> 'd"

record 'd blacklist_state =
  st_db :: 'd
  st_ips :: "string set"
  st_ranges :: blacklistRangeCache

record 'p RefreshOutcome =
  ro_Sources :: nat
  ro_TotalFromSources :: nat
  ro_NewIPs :: nat
  ro_NewRanges :: nat
  ro_TotalCachedIPs :: nat
  ro_TotalRanges :: nat
  ro_RelationsRemoved :: int
  ro_OrphanedProxies :: "'p list"

datatype refresh_error = RefreshCanceled | RefreshFailed

definition LoadCache :: "netip_text \<Rightarrow> ('d, 'p) blacklist_db \<Rightarrow> 'd blacklist_state \<Rightarrow> bool \<times> 'd blacklist_state" where
  "LoadCache nt db st =
     (case ListBlacklistedIPs db (st_db st) of
        None \<Rightarrow> (False, st)
      | Some ips \<Rightarrow>
          let st = st\<lparr>st_ips := toSet nt ips\<rparr> in
          (case ListBlacklistedRanges db (st_db st) of
             None \<Rightarrow> (False, st)
           | Some ranges \<Rightarrow>
               (True, st\<lparr>st_ranges := fst (buildBlacklistRangeCache (ParsePrefix nt) (PrefixString nt) ranges)\<rparr>)))"

definition diffSets :: "string set \<Rightarrow> string set \<Rightarrow> string set" where
  "diffSets after before = {ip \<in> after. ip \<notin> before}"

definition diffRanges :: "BlacklistedRange list \<Rightarrow> BlacklistedRange list \<Rightarrow> BlacklistedRange list" where
  "diffRanges after before = filter (\<lambda>r. br_CIDR r \<notin> br_CIDR ` set before) after"

definition remove_listed :: "('d, 'p) blacklist_db \<Rightarrow> string set \<Rightarrow> BlacklistedRange list \<Rightarrow> 'd \<Rightarrow>
    (int \<times> 'p list) option \<times> 'd" where
  "remove_listed db newIPs newRanges d =
     (case RemoveProxiesByIPs db newIPs d of
        (None, d) \<Rightarrow> (None, d)
      | (Some (removed, orphans), d) \<Rightarrow>
          (case RemoveProxiesByRanges db newRanges d of
             (None, d) \<Rightarrow> (None, d)
           | (Some (rangeRemoved, rangeOrphans), d) \<Rightarrow> (Some (removed + rangeRemoved, orphans @ rangeOrphans), d)))"

definition doRefresh :: "netip_text \<Rightarrow> ('d, 'p) blacklist_db \<Rightarrow>
    (string \<Rightarrow> (fetch_error, string list \<times> BlacklistedRange list) result) \<Rightarrow> string list \<Rightarrow> bool \<Rightarrow>
    'd blacklist_state \<Rightarrow> (refresh_error, 'p RefreshOutcome) result \<times> 'd blacklist_state" where
  "doRefresh nt db fetch sources force st =
     (let before = st_ips st; beforeRanges = rc_entries (st_ranges st) in
      if sources = [] then
        (case LoadCache nt db st of
           (False, st) \<Rightarrow> (Inl RefreshFailed, st)
         | (True, st) \<Rightarrow>
             (Inr \<lparr>ro_Sources = 0, ro_TotalFromSources = 0, ro_NewIPs = 0, ro_NewRanges = 0,
                   ro_TotalCachedIPs = card (st_ips st), ro_TotalRanges = 0, ro_RelationsRemoved = 0,
                   ro_OrphanedProxies = []\<rparr>, st))
      else case collect_sources fetch sources of
        Inl e \<Rightarrow> (Inl RefreshCanceled, st)
      | Inr (allIPs, allRanges) \<Rightarrow>
          (case ReplaceBlacklistData db allIPs allRanges (st_db st) of
             (False, d) \<Rightarrow> (Inl RefreshFailed, st\<lparr>st_db := d\<rparr>)
           | (True, d) \<Rightarrow>
               (case LoadCache nt db (st\<lparr>st_db := d\<rparr>) of
                  (False, st) \<Rightarrow> (Inl RefreshFailed, st)
                | (True, st) \<Rightarrow>
                    let newIPs = diffSets (st_ips st) before;
                        newRanges = diffRanges (rc_entries (st_ranges st)) beforeRanges in
                    (case (if newIPs \<noteq> {} \<or> newRanges \<noteq> [] \<or> force
                           then remove_listed db newIPs newRanges (st_db st)
                           else (Some (0, []), st_db st)) of
                       (None, d) \<Rightarrow> (Inl RefreshFailed, st\<lparr>st_db := d\<rparr>)
                     | (Some (removed, orphans), d) \<Rightarrow>
                         (Inr \<lparr>ro_Sources = length sources, ro_TotalFromSources = length allIPs,
                               ro_NewIPs = card newIPs, ro_NewRanges = length newRanges,
                               ro_TotalCachedIPs = card (st_ips st),
                               ro_TotalRanges = length (rc_entries (st_ranges st)),
                               ro_RelationsRemoved = removed, ro_OrphanedProxies = orphans\<rparr>, st\<lparr>st_db := d\<rparr>)))))"

lemma collect_sources_fetched:
  assumes "collect_sources fetch sources = Inr (allIPs, allRanges)" "src \<in> set sources" "fetch src = Inr (ips, ranges)"
  shows "set ips \<subseteq> fst ` set allIPs \<and> br_CIDR ` set ranges \<subseteq> br_CIDR ` set allRanges"
  using assms
proof (induction sources arbitrary: allIPs allRanges)
  case (Cons s sources)
  show ?case
  proof (cases "fetch s")
    case (Inl e)
    with Cons.prems have "collect_sources fetch sources = Inr (allIPs, allRanges)" "src \<in> set sources"
      by (auto split: fetch_error.splits)
    with Cons.IH Cons.prems(3) show ?thesis by blast
  next
    case (Inr p)
    with Cons.prems(1) obtain i r where *: "collect_sources fetch sources = Inr (i, r)"
      "allIPs = map (\<lambda>ip. (ip, s)) (fst p) @ i" "allRanges = map (\<lambda>r. r\<lparr>br_Source := s\<rparr>) (snd p) @ r"
      by (auto split: sum.splits prod.splits)
    show ?thesis
    proof (cases "src = s")
      case True
      with Inr * Cons.prems(3) show ?thesis by (auto simp: image_image image_Un)
    next
      case False
      with Cons.prems(2) Cons.IH [OF *(1) _ Cons.prems(3)] * show ?thesis by auto
    qed
  qed
qed simp

lemma blacklisted_mono:
  assumes "blacklisted nt ips ranges raw" "set ips \<subseteq> set ips'" "br_CIDR ` set ranges \<subseteq> br_CIDR ` set ranges'"
  shows "blacklisted nt ips' ranges' raw"
proof -
  have "\<exists>r' \<in> set ranges'. range_contains P r' a" if "r \<in> set ranges" "range_contains P r a" for P r a
  proof -
    from that(1) assms(3) obtain r' where "r' \<in> set ranges'" "br_CIDR r' = br_CIDR r" by force
    with that(2) show ?thesis by (intro bexI [of _ r']) (simp_all add: range_contains_def)
  qed
  then have r: "(\<exists>r \<in> set ranges. range_contains P r a) \<Longrightarrow> (\<exists>r \<in> set ranges'. range_contains P r a)" for P a
    by blast
  show ?thesis
  proof (cases "ParseAddr nt (TrimSpace raw)")
    case (Some a)
    with assms(1,2) r [of "ParsePrefix nt" "Unmap a"] show ?thesis
      unfolding blacklisted_def by (simp only: option.case) blast
  qed (use assms(1) in \<open>simp add: blacklisted_def\<close>)
qed

lemma LoadCache_True:
  assumes "LoadCache nt db st = (True, st')"
  obtains ips ranges where "ListBlacklistedIPs db (st_db st) = Some ips"
    "ListBlacklistedRanges db (st_db st) = Some ranges"
    "st' = st\<lparr>st_ips := toSet nt ips,
      st_ranges := fst (buildBlacklistRangeCache (ParsePrefix nt) (PrefixString nt) ranges)\<rparr>"
  using assms by (auto simp: LoadCache_def Let_def split: option.splits)

lemma doRefresh_success:
  assumes "doRefresh nt db fetch sources force st = (Inr out, st')" "sources \<noteq> []"
  obtains allIPs allRanges d ips ranges where "collect_sources fetch sources = Inr (allIPs, allRanges)"
    "ReplaceBlacklistData db allIPs allRanges (st_db st) = (True, d)"
    "ListBlacklistedIPs db d = Some ips" "ListBlacklistedRanges db d = Some ranges"
    "st_ips st' = toSet nt ips"
    "st_ranges st' = fst (buildBlacklistRangeCache (ParsePrefix nt) (PrefixString nt) ranges)"
    "ro_NewIPs out = card (st_ips st' - st_ips st)" "ro_TotalCachedIPs out = card (st_ips st')"
proof -
  obtain allIPs allRanges where c: "collect_sources fetch sources = Inr (allIPs, allRanges)"
    using assms by (cases "collect_sources fetch sources") (auto simp: doRefresh_def)
  obtain d where r: "ReplaceBlacklistData db allIPs allRanges (st_db st) = (True, d)"
    using assms c by (cases "ReplaceBlacklistData db allIPs allRanges (st_db st)")
      (auto simp: doRefresh_def split: if_splits bool.splits)
  obtain st1 where l: "LoadCache nt db (st\<lparr>st_db := d\<rparr>) = (True, st1)"
    using assms c r by (cases "LoadCache nt db (st\<lparr>st_db := d\<rparr>)")
      (auto simp: doRefresh_def split: if_splits bool.splits)
  then obtain ips ranges where i: "ListBlacklistedIPs db d = Some ips" "ListBlacklistedRanges db d = Some ranges"
    "st1 = st\<lparr>st_db := d, st_ips := toSet nt ips,
      st_ranges := fst (buildBlacklistRangeCache (ParsePrefix nt) (PrefixString nt) ranges)\<rparr>"
    by (elim LoadCache_True) simp
  have "diffSets a b = a - b" for a b :: "string set" by (auto simp: diffSets_def)
  then have "st_ips st' = toSet nt ips"
    "st_ranges st' = fst (buildBlacklistRangeCache (ParsePrefix nt) (PrefixString nt) ranges)"
    "ro_NewIPs out = card (st_ips st' - st_ips st)" "ro_TotalCachedIPs out = card (st_ips st')"
    using assms c r l i by (auto simp: doRefresh_def Let_def split: prod.splits option.splits)
  with that c r i show thesis by metis
qed

subsection \<open>Properties\<close>

text \<open>
  C24. The bisection in the merged range cache answers exactly like a scan of the list: an address
  without zone is found iff some listed prefix that parses (and is not IPv4-mapped) contains it; the
  spans it searches are disjoint and in order.
\<close>

theorem range_cache_exact:
  assumes "\<And>s p. parse s = Some p \<Longrightarrow> prefix_valid p" "Zone a = []"
  shows "span_lookup a (rc_spans (fst (buildBlacklistRangeCache parse print ranges))) \<longleftrightarrow>
    (\<exists>r \<in> set ranges. range_contains parse r a)"
  using assms by (rule range_lookup)

text \<open>Two-letter texts for a few private networks, and a printer that is not used by the lookup.\<close>

definition demo_prefix :: "string \<Rightarrow> Prefix option" where
  "demo_prefix s = map_of
     [(''A'', \<lparr>pfx_addr = V4 0x0a000000, pfx_bits = 8\<rparr>), (''B'', \<lparr>pfx_addr = V4 0x0a0a0001, pfx_bits = 16\<rparr>),
      (''C'', \<lparr>pfx_addr = V4 0xc0a80100, pfx_bits = 24\<rparr>)] s"

theorem range_cache_exact_witness:
  "span_lookup (V4 0xc0a801ff) (rc_spans (fst (buildBlacklistRangeCache demo_prefix (\<lambda>p. [])
      [\<lparr>br_CIDR = '' C '', br_Source = []\<rparr>, \<lparr>br_CIDR = ''B'', br_Source = []\<rparr>, \<lparr>br_CIDR = ''A'', br_Source = []\<rparr>])))"
proof -
  have "demo_prefix s = Some p \<Longrightarrow> prefix_valid p" for s p
    by (auto simp: demo_prefix_def prefix_valid_def split: if_splits)
  moreover have "range_contains demo_prefix \<lparr>br_CIDR = '' C '', br_Source = []\<rparr> (V4 0xc0a801ff)"
    by code_simp
  ultimately show ?thesis
    by (subst range_cache_exact) simp_all
qed

text \<open>
  C25. \<open>FilterProxies\<close> splits the proxies, in order, exactly into the blacklisted ones (their
  address equals a listed address, or lies in a listed range, IPv4-mapped forms identified) and the others.
\<close>

theorem filter_proxies_exact:
  assumes nt: "netip_roundtrip nt"
    and zone: "\<And>p a. p \<in> set proxies \<Longrightarrow> ParseAddr nt (TrimSpace (GetIp p)) = Some a \<Longrightarrow> Zone (Unmap a) = []"
  shows "FilterProxies nt GetIp (toSet nt ips)
      (rc_spans (fst (buildBlacklistRangeCache (ParsePrefix nt) (PrefixString nt) ranges))) proxies =
    (filter (\<lambda>p. \<not> blacklisted nt ips ranges (GetIp p)) proxies,
     filter (\<lambda>p. blacklisted nt ips ranges (GetIp p)) proxies)"
  using blocked_ip_blacklisted [OF nt zone] by (auto simp: FilterProxies_def filter_loop_eq intro!: filter_cong)

text \<open>A bit-string notation of addresses that satisfies the laws of the text interface.\<close>

definition bits_text :: "'a::len word \<Rightarrow> string" where
  "bits_text a = map (\<lambda>i. if bit a i then CHR ''1'' else CHR ''0'') [0..<LENGTH('a)]"

definition text_bits :: "string \<Rightarrow> 'a::len word" where
  "text_bits s = horner_sum of_bool 2 (map (\<lambda>c. c = CHR ''1'') s)"

fun bits_AddrString :: "Addr \<Rightarrow> string" where
  "bits_AddrString (V4 a) = CHR ''4'' # bits_text a"
| "bits_AddrString (V6 a z) = CHR ''6'' # bits_text a @ z"

fun bits_ParseAddr :: "string \<Rightarrow> Addr option" where
  "bits_ParseAddr [] = None"
| "bits_ParseAddr (c # s) =
     (if c = CHR ''4'' \<and> length s = 32 then Some (V4 (text_bits s))
      else if c = CHR ''6'' \<and> 128 \<le> length s then Some (V6 (text_bits (take 128 s)) (drop 128 s)) else None)"

definition bits_netip :: netip_text where
  "bits_netip = \<lparr>ParseAddr = bits_ParseAddr, AddrString = bits_AddrString,
     ParsePrefix = demo_prefix, PrefixString = (\<lambda>p. [])\<rparr>"

lemma text_bits_roundtrip: "text_bits (bits_text a) = a"
proof -
  have "map (\<lambda>c. c = CHR ''1'') (bits_text a) = map (bit a) [0..<LENGTH('a)]"
    by (simp add: bits_text_def)
  then show ?thesis by (simp add: text_bits_def horner_sum_bit_eq_take_bit take_bit_length_eq)
qed

lemma length_bits_text [simp]: "length (bits_text (a::'a::len word)) = LENGTH('a)"
  by (simp add: bits_text_def)

lemma TrimSpace_bits: "TrimSpace (c # bits_text (a::'a::len word)) = c # bits_text a" if "\<not> is_space c"
proof -
  have "bits_text a \<noteq> []" using length_bits_text [of a] by (metis len_not_eq_0 list.size(3))
  moreover have "\<not> is_space x" if "x \<in> set (bits_text a)" for x
    using that by (auto simp: bits_text_def is_space_def)
  ultimately show ?thesis
    using that by (cases "rev (bits_text a)") (auto simp: TrimSpace_def)
qed

lemma bits_netip_roundtrip: "netip_roundtrip bits_netip"
proof -
  have "prefix_valid p" if "demo_prefix s = Some p" for s p
    using that by (auto simp: demo_prefix_def prefix_valid_def split: if_splits)
  moreover have "TrimSpace (bits_AddrString a) = bits_AddrString a" if "Zone a = []" for a
    using that by (cases a) (simp_all add: TrimSpace_bits is_space_def)
  moreover have "bits_AddrString a \<noteq> []" "bits_ParseAddr (bits_AddrString a) = Some a" for a
    by (cases a; simp add: text_bits_roundtrip)+
  ultimately show ?thesis unfolding netip_roundtrip_def bits_netip_def by simp
qed

lemma bits_parse [simp]:
  "ParseAddr bits_netip (TrimSpace (CHR ''4'' # bits_text a)) = Some (V4 a)"
  by (simp add: bits_netip_def TrimSpace_bits is_space_def text_bits_roundtrip)

lemma demo_A: "range_contains (ParsePrefix bits_netip) \<lparr>br_CIDR = ''A'', br_Source = s\<rparr> (V4 0x0a000001)"
    "\<not> range_contains (ParsePrefix bits_netip) \<lparr>br_CIDR = ''A'', br_Source = s\<rparr> (V4 0x08080808)"
  by (simp_all add: bits_netip_def range_contains_def demo_prefix_def TrimSpace_def is_space_def Contains_def)

theorem filter_proxies_exact_witness:
  "FilterProxies bits_netip id (toSet bits_netip [])
      (rc_spans (fst (buildBlacklistRangeCache (ParsePrefix bits_netip) (PrefixString bits_netip)
         [\<lparr>br_CIDR = ''A'', br_Source = []\<rparr>])))
      [CHR ''4'' # bits_text (0x0a000001::u32), CHR ''4'' # bits_text (0x08080808::u32)] =
    ([CHR ''4'' # bits_text (0x08080808::u32)], [CHR ''4'' # bits_text (0x0a000001::u32)])"
  by (subst filter_proxies_exact [OF bits_netip_roundtrip])
    (auto simp: blacklisted_def demo_A)

text \<open>
  After a successful refresh from at least one source, every zone-free address that a fetched
  source lists (directly or by a range) is blocked by the caches, and the outcome counts exactly the
  addresses that were not cached before. The database is assumed to list after a replacement at least
  what was put in.
\<close>

lemma refresh_blocks_fetched:
  assumes run: "doRefresh nt db fetch sources force st = (Inr out, st')" and ne: "sources \<noteq> []"
    and nt: "netip_roundtrip nt"
    and store: "\<And>ips ranges d d' L R raw. ReplaceBlacklistData db ips ranges d = (True, d') \<Longrightarrow>
      ListBlacklistedIPs db d' = Some L \<Longrightarrow> ListBlacklistedRanges db d' = Some R \<Longrightarrow>
      blacklisted nt (map fst ips) ranges raw \<Longrightarrow> blacklisted nt L R raw"
    and src: "src \<in> set sources" "fetch src = Inr (ips, ranges)"
    and listed: "blacklisted nt ips ranges raw"
    and zone: "\<And>a. ParseAddr nt (TrimSpace raw) = Some a \<Longrightarrow> Zone (Unmap a) = []"
  shows "blocked_ip nt (st_ips st') (rc_spans (st_ranges st')) raw \<and>
    ro_NewIPs out = card (st_ips st' - st_ips st) \<and> ro_TotalCachedIPs out = card (st_ips st')"
proof -
  obtain allIPs allRanges d L R where c: "collect_sources fetch sources = Inr (allIPs, allRanges)"
    "ReplaceBlacklistData db allIPs allRanges (st_db st) = (True, d)"
    "ListBlacklistedIPs db d = Some L" "ListBlacklistedRanges db d = Some R"
    "st_ips st' = toSet nt L"
    "st_ranges st' = fst (buildBlacklistRangeCache (ParsePrefix nt) (PrefixString nt) R)"
    "ro_NewIPs out = card (st_ips st' - st_ips st)" "ro_TotalCachedIPs out = card (st_ips st')"
    using doRefresh_success [OF run ne] by metis
  have "blacklisted nt (map fst allIPs) allRanges raw"
    using blacklisted_mono [OF listed, of "map fst allIPs" allRanges] collect_sources_fetched [OF c(1) src] by simp
  then have "blacklisted nt L R raw" by (rule store [OF c(2,3,4)])
  then show ?thesis using blocked_ip_blacklisted [OF nt zone] c by simp
qed

text \<open>A database that stores the two lists, and one source that lists the range \<open>A\<close>.\<close>

definition list_db :: "(string list \<times> BlacklistedRange list, unit) blacklist_db" where
  "list_db = \<lparr>ListBlacklistedIPs = (\<lambda>d. Some (fst d)), ListBlacklistedRanges = (\<lambda>d. Some (snd d)),
     ReplaceBlacklistData = (\<lambda>ips ranges d. (True, (map fst ips, ranges))),
     RemoveProxiesByIPs = (\<lambda>ips d. (Some (0, []), d)), RemoveProxiesByRanges = (\<lambda>rs d. (Some (0, []), d))\<rparr>"

definition fetch_A :: "string \<Rightarrow> (fetch_error, string list \<times> BlacklistedRange list) result" where
  "fetch_A src = Inr ([], [\<lparr>br_CIDR = ''A'', br_Source = []\<rparr>])"

definition empty_state :: "(string list \<times> BlacklistedRange list) blacklist_state" where
  "empty_state = \<lparr>st_db = ([], []), st_ips = {}, st_ranges = \<lparr>rc_spans = [], rc_entries = []\<rparr>\<rparr>"

lemma list_db_ops [simp]:
  "ListBlacklistedIPs list_db d = Some (fst d)" "ListBlacklistedRanges list_db d = Some (snd d)"
  "ReplaceBlacklistData list_db ips ranges d = (True, (map fst ips, ranges))"
  "remove_listed list_db newIPs newRanges d = (Some (0, []), d)"
  by (simp_all add: list_db_def remove_listed_def)

theorem refresh_blocks_fetched_witness:
  "\<exists>out st'. doRefresh bits_netip list_db fetch_A [''s''] False empty_state = (Inr out, st') \<and>
     blocked_ip bits_netip (st_ips st') (rc_spans (st_ranges st')) (CHR ''4'' # bits_text (0x0a000001::u32))"
proof -
  obtain out st' where run: "doRefresh bits_netip list_db fetch_A [''s''] False empty_state = (Inr out, st')"
    by (simp add: doRefresh_def fetch_A_def empty_state_def LoadCache_def Let_def cong: if_cong)
  have "blocked_ip bits_netip (st_ips st') (rc_spans (st_ranges st')) (CHR ''4'' # bits_text (0x0a000001::u32)) \<and>
    ro_NewIPs out = card (st_ips st' - st_ips empty_state) \<and> ro_TotalCachedIPs out = card (st_ips st')"
    by (rule refresh_blocks_fetched [OF run _ bits_netip_roundtrip, where src = "''s''" and ips = "[]"
          and ranges = "[\<lparr>br_CIDR = ''A'', br_Source = []\<rparr>]"])
      (auto simp: fetch_A_def blacklisted_def demo_A split: option.splits)
  with run show ?thesis by blast
qed

text \<open>
  A cancelled download, in any position of the source list, changes neither the database nor
  the caches; a source that fails otherwise is skipped and contributes nothing.
\<close>

lemma refresh_canceled_keeps_state:
  "(\<exists>pre src post. sources = pre @ src # post \<and> fetch src = Inl FetchCanceled) \<longleftrightarrow>
     sources \<noteq> [] \<and> doRefresh nt db fetch sources force st = (Inl RefreshCanceled, st) \<and>
     \<not> is_ok (collect_sources fetch sources)"
proof -
  have "(\<exists>src \<in> set sources. fetch src = Inl FetchCanceled) \<longleftrightarrow> (\<exists>e. collect_sources fetch sources = Inl e)"
    by (induction sources) (auto split: sum.splits fetch_error.splits prod.splits)
  moreover have "(\<exists>src \<in> set sources. fetch src = Inl FetchCanceled) \<longleftrightarrow>
      (\<exists>pre src post. sources = pre @ src # post \<and> fetch src = Inl FetchCanceled)"
    by (metis in_set_conv_decomp)
  ultimately show ?thesis
    by (cases "collect_sources fetch sources") (auto simp: doRefresh_def is_ok_def)
qed

end
