(* ===== verification/Egress_Guard.thy ===== *)
theory Egress_Guard
  imports Net_Addr
begin

text \<open>
  Outbound requests: the host blocklist of \<open>internal/config/website_blocklist.go\<close> and the address
  guard of \<open>internal/support/outbound_guard.go\<close>, which every fetch of a user-supplied URL passes.
  URL parsing, \<open>net.ParseIP\<close>, name resolution and dialing are arguments: the theorems hold for every
  resolver, one that changes its answers included.
\<close>

subsection \<open>Strings\<close>

definition HasSuffix :: "string \<Rightarrow> string \<Rightarrow> bool" where
  "HasSuffix s t \<longleftrightarrow> length t \<le> length s \<and> drop (length s - length t) s = t"

definition HasPrefix :: "string \<Rightarrow> string \<Rightarrow> bool" where
  "HasPrefix s t \<longleftrightarrow> take (length t) s = t"

fun strings_Contains :: "string \<Rightarrow> string \<Rightarrow> bool" where
  "strings_Contains [] t = (t = [])"
| "strings_Contains (c # s) t = (HasPrefix (c # s) t \<or> strings_Contains s t)"

definition TrimSuffix :: "string \<Rightarrow> string \<Rightarrow> string" where
  "TrimSuffix s t = (if HasSuffix s t then take (length s - length t) s else s)"

definition Trim_dots :: "string \<Rightarrow> string" where
  "Trim_dots s = rev (dropWhile (\<lambda>c. c = CHR ''.'') (rev (dropWhile (\<lambda>c. c = CHR ''.'') s)))"

lemma HasSuffix_append: "HasSuffix s t \<longleftrightarrow> (\<exists>u. s = u @ t)"
proof
  assume "HasSuffix s t"
  then have "s = take (length s - length t) s @ t"
    by (metis HasSuffix_def append_take_drop_id)
  then show "\<exists>u. s = u @ t" by blast
qed (auto simp: HasSuffix_def)

text \<open>The parts of a parsed \<open>url.URL\<close> the callers read.\<close>

record URL =
  u_Scheme :: string
  u_Host :: string
  u_Hostname :: string
  u_HasUser :: bool
  u_EscapedPath :: string

subsection \<open>The website blocklist\<close>

definition normalizeHostname :: "(string \<Rightarrow> URL option) \<Rightarrow> string \<Rightarrow> string" where
  "normalizeHostname url_Parse raw =
     (let trimmed = TrimSpace raw in
      if trimmed = [] then []
      else let trimmed = (if strings_Contains trimmed ''://'' then trimmed else ''https://'' @ trimmed) in
        (case url_Parse trimmed of None \<Rightarrow> [] | Some parsed \<Rightarrow> Trim_dots (ToLower (u_Hostname parsed))))"

fun normalize_entries :: "(string \<Rightarrow> URL option) \<Rightarrow> string list \<Rightarrow> string list \<Rightarrow> string list" where
  "normalize_entries url_Parse normalized [] = normalized"
| "normalize_entries url_Parse normalized (raw # entries) =
     (let host = normalizeHostname url_Parse raw in
      if host = [] \<or> host \<in> set normalized then normalize_entries url_Parse normalized entries
      else normalize_entries url_Parse (normalized @ [host]) entries)"

definition normalizeWebsiteEntries :: "(string \<Rightarrow> URL option) \<Rightarrow> string list \<Rightarrow> string list" where
  "normalizeWebsiteEntries url_Parse entries = normalize_entries url_Parse [] entries"

definition buildWebsiteBlocklist :: "string list \<Rightarrow> string set" where
  "buildWebsiteBlocklist entries = set (filter (\<lambda>host. host \<noteq> []) entries)"

definition NewWebsiteBlocklistSet :: "(string \<Rightarrow> URL option) \<Rightarrow> string list \<Rightarrow> string set" where
  "NewWebsiteBlocklistSet url_Parse entries = buildWebsiteBlocklist (normalizeWebsiteEntries url_Parse entries)"

definition isHostBlocked :: "string \<Rightarrow> string set \<Rightarrow> bool" where
  "isHostBlocked host blockedSet =
     (if host = [] \<or> blockedSet = {} then False
      else if host \<in> blockedSet then True
      else (\<exists>blocked \<in> blockedSet. blocked \<noteq> [] \<and> HasSuffix host (CHR ''.'' # blocked)))"

definition isWebsiteBlocked :: "(string \<Rightarrow> URL option) \<Rightarrow> string \<Rightarrow> string set \<Rightarrow> bool" where
  "isWebsiteBlocked url_Parse rawURL blockedSet =
     (if blockedSet = {} then False
      else let host = normalizeHostname url_Parse rawURL in
        if host = [] then False else isHostBlocked host blockedSet)"

definition FindBlockedURLs :: "(string \<Rightarrow> URL option) \<Rightarrow> string list \<Rightarrow> string set \<Rightarrow> string list" where
  "FindBlockedURLs url_Parse urls blockedSet =
     (if urls = [] \<or> blockedSet = {} then [] else filter (\<lambda>raw. isWebsiteBlocked url_Parse raw blockedSet) urls)"

lemma normalize_entries_set:
  "set (normalize_entries P acc entries) = set acc \<union> {h. \<exists>e \<in> set entries. normalizeHostname P e = h \<and> h \<noteq> []}"
  by (induction P acc entries rule: normalize_entries.induct) (auto simp: Let_def)

lemma normalize_entries_distinct: "distinct acc \<Longrightarrow> distinct (normalize_entries P acc entries)"
  by (induction P acc entries rule: normalize_entries.induct) (auto simp: Let_def)

lemma NewWebsiteBlocklistSet_eq:
  "NewWebsiteBlocklistSet P entries = {h. \<exists>e \<in> set entries. normalizeHostname P e = h \<and> h \<noteq> []}"
  by (auto simp: NewWebsiteBlocklistSet_def buildWebsiteBlocklist_def normalizeWebsiteEntries_def normalize_entries_set)

text \<open>
  A URL is blocked iff its host is non-empty and equals, or is a subdomain of, the host of a
  configured entry; the configured order, duplicates and spelling (case, outer dots, scheme) play no part.
\<close>

lemma website_block_exact:
  "isWebsiteBlocked P raw (NewWebsiteBlocklistSet P entries) \<longleftrightarrow>
     normalizeHostname P raw \<noteq> [] \<and>
     (\<exists>e \<in> set entries. normalizeHostname P e \<noteq> [] \<and>
        (normalizeHostname P raw = normalizeHostname P e \<or>
         (\<exists>sub. normalizeHostname P raw = sub @ CHR ''.'' # normalizeHostname P e)))"
  by (auto simp: isWebsiteBlocked_def isHostBlocked_def NewWebsiteBlocklistSet_eq HasSuffix_append Let_def)
    metis


subsection \<open>The outbound guard\<close>

datatype ip_text = NoIP | RawIP string | AddrIP Addr

datatype OutboundError =
  TargetError (oe_host: string) (oe_ip: ip_text) (oe_reason: string)
| UrlEmpty | UrlParse | UrlScheme | UrlHostEmpty | UrlUserInfo | ResolveFailed | SplitFailed | DialFailed

definition disallowedOutboundPrefixes :: "(Prefix \<times> string) list" where
  "disallowedOutboundPrefixes =
     [(\<lparr>pfx_addr = V4 0x00000000, pfx_bits = 8\<rparr>, ''unspecified_ipv4_range''),
      (\<lparr>pfx_addr = V4 0x0a000000, pfx_bits = 8\<rparr>, ''private_network''),
      (\<lparr>pfx_addr = V4 0x64400000, pfx_bits = 10\<rparr>, ''carrier_grade_nat''),
      (\<lparr>pfx_addr = V4 0x7f000000, pfx_bits = 8\<rparr>, ''loopback''),
      (\<lparr>pfx_addr = V4 0xa9fe0000, pfx_bits = 16\<rparr>, ''link_local''),
      (\<lparr>pfx_addr = V4 0xac100000, pfx_bits = 12\<rparr>, ''private_network''),
      (\<lparr>pfx_addr = V4 0xc0000000, pfx_bits = 24\<rparr>, ''ietf_protocol_assignments''),
      (\<lparr>pfx_addr = V4 0xc0000200, pfx_bits = 24\<rparr>, ''documentation_range''),
      (\<lparr>pfx_addr = V4 0xc0a80000, pfx_bits = 16\<rparr>, ''private_network''),
      (\<lparr>pfx_addr = V4 0xc6120000, pfx_bits = 15\<rparr>, ''benchmarking_range''),
      (\<lparr>pfx_addr = V4 0xc6336400, pfx_bits = 24\<rparr>, ''documentation_range''),
      (\<lparr>pfx_addr = V4 0xcb007100, pfx_bits = 24\<rparr>, ''documentation_range''),
      (\<lparr>pfx_addr = V4 0xe0000000, pfx_bits = 4\<rparr>, ''multicast_or_reserved''),
      (\<lparr>pfx_addr = V4 0xf0000000, pfx_bits = 4\<rparr>, ''reserved_range''),
      (\<lparr>pfx_addr = V4 0xffffffff, pfx_bits = 32\<rparr>, ''limited_broadcast''),
      (\<lparr>pfx_addr = V6 0x00000000000000000000000000000000 [], pfx_bits = 128\<rparr>, ''unspecified_ipv6''),
      (\<lparr>pfx_addr = V6 0x00000000000000000000000000000001 [], pfx_bits = 128\<rparr>, ''loopback''),
      (\<lparr>pfx_addr = V6 0xfc000000000000000000000000000000 [], pfx_bits = 7\<rparr>, ''unique_local_address''),
      (\<lparr>pfx_addr = V6 0xfe800000000000000000000000000000 [], pfx_bits = 10\<rparr>, ''link_local''),
      (\<lparr>pfx_addr = V6 0xfec00000000000000000000000000000 [], pfx_bits = 10\<rparr>, ''site_local''),
      (\<lparr>pfx_addr = V6 0xff000000000000000000000000000000 [], pfx_bits = 8\<rparr>, ''multicast''),
      (\<lparr>pfx_addr = V6 0x20010db8000000000000000000000000 [], pfx_bits = 32\<rparr>, ''documentation_range'')]"

definition blockedOutboundAddrReason :: "Addr \<Rightarrow> string option" where
  "blockedOutboundAddrReason addr =
     map_option snd (find (\<lambda>entry. Contains (fst entry) addr) disallowedOutboundPrefixes)"

definition isLocalhostHostname :: "string \<Rightarrow> bool" where
  "isLocalhostHostname host =
     (let host = TrimSuffix (TrimSpace (ToLower host)) ''.'' in
      host = ''localhost'' \<or> HasSuffix host ''.localhost'')"

text \<open>\<open>net.ParseIP\<close> returns a byte slice, of which \<open>netip.AddrFromSlice\<close> accepts 4 or 16 bytes.\<close>

definition AddrFromSlice :: "u8 list \<Rightarrow> Addr option" where
  "AddrFromSlice bs =
     (if length bs = 4 then Some (V4 (word_of_bytes bs))
      else if length bs = 16 then Some (V6 (word_of_bytes bs) []) else None)"

definition unmap_mapped :: "Addr \<Rightarrow> Addr" where
  "unmap_mapped addr = (if Is4In6 addr then Unmap addr else addr)"

definition validateOutboundHostLiterals :: "(string \<Rightarrow> u8 list option) \<Rightarrow> string \<Rightarrow> (OutboundError, unit) result" where
  "validateOutboundHostLiterals ParseIP host =
     (let trimmed = TrimSpace host in
      if trimmed = [] then Inl (TargetError [] NoIP ''url host is empty'')
      else if isLocalhostHostname trimmed then Inl (TargetError trimmed NoIP ''localhost targets are not allowed'')
      else case ParseIP trimmed of
        None \<Rightarrow> Inr ()
      | Some bs \<Rightarrow>
          (case AddrFromSlice bs of
             None \<Rightarrow> Inl (TargetError trimmed NoIP ''invalid_ip'')
           | Some addr \<Rightarrow>
               let addr = unmap_mapped addr in
               (case blockedOutboundAddrReason addr of
                  Some reason \<Rightarrow> Inl (TargetError trimmed (AddrIP addr) reason)
                | None \<Rightarrow> Inr ())))"

fun allow_all :: "string \<Rightarrow> Addr list \<Rightarrow> Addr list \<Rightarrow> (OutboundError, Addr list) result" where
  "allow_all host allowed [] = Inr allowed"
| "allow_all host allowed (ip # ips) =
     (let ip = unmap_mapped ip in
      case blockedOutboundAddrReason ip of
        Some reason \<Rightarrow> Inl (TargetError host (AddrIP ip) reason)
      | None \<Rightarrow> allow_all host (allowed @ [ip]) ips)"

definition resolveAllowedOutboundIPs :: "(string \<Rightarrow> u8 list option) \<Rightarrow> (string \<Rightarrow> Addr list option) \<Rightarrow> string \<Rightarrow>
    (OutboundError, Addr list) result" where
  "resolveAllowedOutboundIPs ParseIP LookupNetIP host =
     (let host = TrimSpace host in
      if host = [] then Inl (TargetError [] NoIP ''url host is empty'')
      else case validateOutboundHostLiterals ParseIP host of
        Inl e \<Rightarrow> Inl e
      | Inr _ \<Rightarrow>
          (case ParseIP host of
             Some bs \<Rightarrow>
               (case AddrFromSlice bs of
                  None \<Rightarrow> Inl (TargetError host NoIP ''invalid_ip'')
                | Some addr \<Rightarrow> Inr [unmap_mapped addr])
           | None \<Rightarrow>
               (case LookupNetIP host of
                  None \<Rightarrow> Inl ResolveFailed
                | Some ips \<Rightarrow>
                    if ips = [] then Inl (TargetError host NoIP ''host resolved without addresses'')
                    else allow_all host [] ips)))"

definition parseOutboundHTTPURL :: "(string \<Rightarrow> URL option) \<Rightarrow> string \<Rightarrow> (OutboundError, URL) result" where
  "parseOutboundHTTPURL ParseRequestURI raw =
     (let trimmed = TrimSpace raw in
      if trimmed = [] then Inl UrlEmpty
      else case ParseRequestURI trimmed of
        None \<Rightarrow> Inl UrlParse
      | Some parsed \<Rightarrow>
          if u_Scheme parsed \<noteq> ''http'' \<and> u_Scheme parsed \<noteq> ''https'' then Inl UrlScheme
          else if TrimSpace (u_Hostname parsed) = [] then Inl UrlHostEmpty
          else if u_HasUser parsed then Inl UrlUserInfo
          else Inr parsed)"

definition ValidateOutboundHTTPURLContext :: "bool \<Rightarrow> (string \<Rightarrow> URL option) \<Rightarrow> (string \<Rightarrow> u8 list option) \<Rightarrow>
    (string \<Rightarrow> Addr list option) \<Rightarrow> string \<Rightarrow> (OutboundError, URL) result" where
  "ValidateOutboundHTTPURLContext egressAllowed ParseRequestURI ParseIP LookupNetIP raw =
     (case parseOutboundHTTPURL ParseRequestURI raw of
        Inl e \<Rightarrow> Inl e
      | Inr parsed \<Rightarrow>
          if egressAllowed then Inr parsed
          else (case resolveAllowedOutboundIPs ParseIP LookupNetIP (u_Hostname parsed) of
                  Inl e \<Rightarrow> Inl e | Inr _ \<Rightarrow> Inr parsed))"

definition ValidateOutboundHTTPLiteral :: "bool \<Rightarrow> (string \<Rightarrow> URL option) \<Rightarrow> (string \<Rightarrow> u8 list option) \<Rightarrow>
    string \<Rightarrow> (OutboundError, URL) result" where
  "ValidateOutboundHTTPLiteral egressAllowed ParseRequestURI ParseIP raw =
     (case parseOutboundHTTPURL ParseRequestURI raw of
        Inl e \<Rightarrow> Inl e
      | Inr parsed \<Rightarrow>
          if egressAllowed then Inr parsed
          else (case validateOutboundHostLiterals ParseIP (u_Hostname parsed) of
                  Inl e \<Rightarrow> Inl e | Inr _ \<Rightarrow> Inr parsed))"

definition ValidateOutboundIPLiteral :: "bool \<Rightarrow> (string \<Rightarrow> u8 list option) \<Rightarrow> string \<Rightarrow> (OutboundError, unit) result" where
  "ValidateOutboundIPLiteral egressAllowed ParseIP rawIP =
     (if egressAllowed then Inr ()
      else let trimmed = TrimSpace rawIP in
        if trimmed = [] then Inl (TargetError [] NoIP ''remote ip is empty'')
        else case ParseIP trimmed of
          None \<Rightarrow> Inl (TargetError [] (RawIP trimmed) ''invalid_ip'')
        | Some bs \<Rightarrow>
            (case AddrFromSlice bs of
               None \<Rightarrow> Inl (TargetError [] (RawIP trimmed) ''invalid_ip'')
             | Some addr \<Rightarrow>
                 let addr = unmap_mapped addr in
                 (case blockedOutboundAddrReason addr of
                    Some reason \<Rightarrow> Inl (TargetError [] (AddrIP addr) reason)
                  | None \<Rightarrow> Inr ())))"

text \<open>
  The dial loop: attempts in order until one connects. The first component is the list of
  addresses that were dialled. With private egress allowed the address is dialled as it is.
\<close>

datatype 'c dial_target = DialName string | DialAddr Addr string

fun dial_loop :: "('c dial_target \<Rightarrow> 'c option) \<Rightarrow> string \<Rightarrow> Addr list \<Rightarrow> 'c dial_target list \<times> 'c option" where
  "dial_loop dial port [] = ([], None)"
| "dial_loop dial port (ip # ips) =
     (case dial (DialAddr ip port) of
        Some conn \<Rightarrow> ([DialAddr ip port], Some conn)
      | None \<Rightarrow> (case dial_loop dial port ips of (tried, r) \<Rightarrow> (DialAddr ip port # tried, r)))"

definition DialRestrictedOutboundContext :: "bool \<Rightarrow> (string \<Rightarrow> (string \<times> string) option) \<Rightarrow> (string \<Rightarrow> u8 list option) \<Rightarrow>
    (string \<Rightarrow> Addr list option) \<Rightarrow> ('c dial_target \<Rightarrow> 'c option) \<Rightarrow> string \<Rightarrow>
    'c dial_target list \<times> (OutboundError, 'c) result" where
  "DialRestrictedOutboundContext egressAllowed SplitHostPort ParseIP LookupNetIP dial address =
     (if egressAllowed then
        ([DialName address], case dial (DialName address) of Some c \<Rightarrow> Inr c | None \<Rightarrow> Inl DialFailed)
      else case SplitHostPort address of
        None \<Rightarrow> ([], Inl SplitFailed)
      | Some (host, port) \<Rightarrow>
          (case resolveAllowedOutboundIPs ParseIP LookupNetIP host of
             Inl e \<Rightarrow> ([], Inl e)
           | Inr allowedIPs \<Rightarrow>
               (case dial_loop dial port allowedIPs of
                  (tried, Some conn) \<Rightarrow> (tried, Inr conn)
                | (tried, None) \<Rightarrow>
                    (tried, Inl (if tried \<noteq> [] then DialFailed
                                 else TargetError host NoIP ''no allowed upstream addresses'')))))"

subsection \<open>What the guard lets through\<close>

lemma allow_all_eq:
  "allow_all host acc ips = Inr as \<longleftrightarrow>
     (\<forall>ip \<in> set ips. blockedOutboundAddrReason (unmap_mapped ip) = None) \<and> as = acc @ map unmap_mapped ips"
  by (induction host acc ips rule: allow_all.induct) (auto simp: Let_def split: option.splits)

lemma literal_ok:
  assumes "validateOutboundHostLiterals ParseIP host = Inr u" "ParseIP (TrimSpace host) = Some bs" "AddrFromSlice bs = Some a"
  shows "blockedOutboundAddrReason (unmap_mapped a) = None"
  using assms by (auto simp: validateOutboundHostLiterals_def Let_def split: if_splits option.splits)

lemma not_localhost:
  assumes "validateOutboundHostLiterals ParseIP host = Inr u"
  shows "\<not> isLocalhostHostname (TrimSpace host)"
  using assms by (auto simp: validateOutboundHostLiterals_def Let_def split: if_splits)

lemma resolve_ok:
  assumes "resolveAllowedOutboundIPs ParseIP LookupNetIP host = Inr as"
  shows "as \<noteq> []" "\<forall>a \<in> set as. blockedOutboundAddrReason a = None"
    "\<not> isLocalhostHostname (TrimSpace host)"
    "(\<exists>bs a. ParseIP (TrimSpace host) = Some bs \<and> AddrFromSlice bs = Some a \<and> as = [unmap_mapped a]) \<or>
     (\<exists>ips. LookupNetIP (TrimSpace host) = Some ips \<and> as = map unmap_mapped ips)"
proof -
  let ?h = "TrimSpace host"
  obtain u where v: "validateOutboundHostLiterals ParseIP ?h = Inr u"
    using assms by (auto simp: resolveAllowedOutboundIPs_def Let_def split: if_splits sum.splits)
  show "\<not> isLocalhostHostname ?h" using not_localhost [OF v] by simp
  have "(\<exists>bs a. ParseIP ?h = Some bs \<and> AddrFromSlice bs = Some a \<and> as = [unmap_mapped a]) \<or>
     (\<exists>ips. LookupNetIP ?h = Some ips \<and> ips \<noteq> [] \<and> allow_all ?h [] ips = Inr as)"
    using assms v by (auto simp: resolveAllowedOutboundIPs_def Let_def split: if_splits option.splits)
  then show "as \<noteq> []" "\<forall>a \<in> set as. blockedOutboundAddrReason a = None"
    "(\<exists>bs a. ParseIP ?h = Some bs \<and> AddrFromSlice bs = Some a \<and> as = [unmap_mapped a]) \<or>
     (\<exists>ips. LookupNetIP ?h = Some ips \<and> as = map unmap_mapped ips)"
    using literal_ok [OF v] by (auto simp: allow_all_eq)
qed

lemma dial_loop_eq:
  "dial_loop dial port ips =
     (let fails = \<lambda>a. dial (DialAddr a port) = None; rest = dropWhile fails ips in
      (map (\<lambda>a. DialAddr a port) (takeWhile fails ips @ take 1 rest),
       case rest of [] \<Rightarrow> None | ip # _ \<Rightarrow> dial (DialAddr ip port)))"
  by (induction dial port ips rule: dial_loop.induct) (auto simp: Let_def split: option.splits)

definition reserved_v4 :: "(u32 \<times> u32) list" where
  "reserved_v4 =
     [(0x00000000, 0x00ffffff), (0x0a000000, 0x0affffff), (0x64400000, 0x647fffff),
      (0x7f000000, 0x7fffffff), (0xa9fe0000, 0xa9feffff), (0xac100000, 0xac1fffff),
      (0xc0000000, 0xc00000ff), (0xc0000200, 0xc00002ff), (0xc0a80000, 0xc0a8ffff),
      (0xc6120000, 0xc613ffff), (0xc6336400, 0xc63364ff), (0xcb007100, 0xcb0071ff),
      (0xe0000000, 0xefffffff), (0xf0000000, 0xffffffff), (0xffffffff, 0xffffffff)]"

lemma V4_block:
  "Contains \<lparr>pfx_addr = V4 b, pfx_bits = n\<rparr> (V4 a) \<longleftrightarrow> clear_low (32 - n) b \<le> a \<and> a \<le> word_last (32 - n) b"
  using block_iff [of "32 - n" a b] by (simp add: Contains_def)

lemma reserved_v4_blocked:
  "(\<exists>r \<in> set reserved_v4. fst r \<le> a \<and> a \<le> snd r) \<longleftrightarrow>
     (\<exists>p \<in> set disallowedOutboundPrefixes. Contains (fst p) (V4 a))"
proof -
  have v6: "\<not> Contains \<lparr>pfx_addr = V6 b z, pfx_bits = n\<rparr> (V4 a)" for b z n by (simp add: Contains_def)
  show ?thesis
    unfolding reserved_v4_def disallowedOutboundPrefixes_def list.set bex_simps fst_conv snd_conv V4_block
    by (simp add: v6 clear_low_def word_last_def mask_eq_exp_minus_1)
qed

lemma blocked_iff_prefix:
  "blockedOutboundAddrReason a = None \<longleftrightarrow> \<not> (\<exists>p \<in> set disallowedOutboundPrefixes. Contains (fst p) a)"
  by (auto simp: blockedOutboundAddrReason_def find_None_iff)

subsection \<open>Properties\<close>

text \<open>
  C23. With private egress switched off, a dial only ever connects to literal addresses: each
  address tried comes from one resolver answer (or is the literal host), none lies in a disallowed
  prefix, the host is not a \<open>localhost\<close> name, and the returned connection belongs to the last address
  tried, all earlier ones having failed. A resolver that later answers differently cannot redirect it.
\<close>

theorem dial_only_allowed_addresses:
  assumes "DialRestrictedOutboundContext False SplitHostPort ParseIP LookupNetIP dial address = (tried, r)" "tried \<noteq> []"
  shows "\<exists>host port as. SplitHostPort address = Some (host, port) \<and>
    resolveAllowedOutboundIPs ParseIP LookupNetIP host = Inr as \<and> \<not> isLocalhostHostname (TrimSpace host) \<and>
    (\<forall>t \<in> set tried. \<exists>a \<in> set as. t = DialAddr a port \<and>
       (\<forall>p \<in> set disallowedOutboundPrefixes. \<not> Contains (fst p) a)) \<and>
    (\<forall>c. r = Inr c \<longrightarrow> dial (last tried) = Some c \<and> (\<forall>t \<in> set (butlast tried). dial t = None))"
proof -
  obtain host port where s: "SplitHostPort address = Some (host, port)"
    using assms by (auto simp: DialRestrictedOutboundContext_def split: option.splits)
  then obtain as where as: "resolveAllowedOutboundIPs ParseIP LookupNetIP host = Inr as"
    using assms by (auto simp: DialRestrictedOutboundContext_def split: sum.splits)
  let ?fails = "\<lambda>a. dial (DialAddr a port) = None"
  have tried: "tried = map (\<lambda>a. DialAddr a port) (takeWhile ?fails as @ take 1 (dropWhile ?fails as))"
    and conn: "\<And>c. r = Inr c \<Longrightarrow> \<exists>ip rest. dropWhile ?fails as = ip # rest \<and> dial (DialAddr ip port) = Some c"
    using assms s as
    by (auto simp: DialRestrictedOutboundContext_def dial_loop_eq Let_def split: option.splits list.splits)
  have "\<exists>a \<in> set as. t = DialAddr a port \<and> (\<forall>p \<in> set disallowedOutboundPrefixes. \<not> Contains (fst p) a)"
    if "t \<in> set tried" for t
  proof -
    obtain a where "a \<in> set as" "t = DialAddr a port"
      using \<open>t \<in> set tried\<close> unfolding tried by (auto dest: set_takeWhileD in_set_takeD set_dropWhileD)
    then show ?thesis using resolve_ok(2) [OF as] blocked_iff_prefix by blast
  qed
  moreover have "dial (last tried) = Some c \<and> (\<forall>t \<in> set (butlast tried). dial t = None)" if "r = Inr c" for c
  proof -
    obtain ip rest where ip: "dropWhile ?fails as = ip # rest" "dial (DialAddr ip port) = Some c"
      using conn [OF \<open>r = Inr c\<close>] by blast
    then have "tried = map (\<lambda>a. DialAddr a port) (takeWhile ?fails as) @ [DialAddr ip port]"
      unfolding tried by simp
    with ip(2) show ?thesis by (auto dest: set_takeWhileD)
  qed
  ultimately show ?thesis using s as resolve_ok(3) [OF as] by blast
qed

text \<open>A resolver with one answer per name: a mapped private address hides among public ones, and a dialer.\<close>

definition demo_resolver :: "string \<Rightarrow> Addr list option" where
  "demo_resolver host = map_of
     [(''ok.test'', [V4 0x08080808, V4 0x01010101]), (''mixed.test'', [V4 0x08080808, V6 0xffff0a000001 []])] host"

definition demo_split :: "string \<Rightarrow> (string \<times> string) option" where
  "demo_split address = map_of [(''ok.test:80'', (''ok.test'', ''80'')), (''mixed.test:80'', (''mixed.test'', ''80''))] address"

definition demo_dial :: "string dial_target \<Rightarrow> string option" where
  "demo_dial t = (if t = DialAddr (V4 0x01010101) ''80'' then Some ''conn'' else None)"

theorem dial_only_allowed_addresses_witness:
  "\<exists>tried r. DialRestrictedOutboundContext False demo_split (\<lambda>s. None) demo_resolver demo_dial ''ok.test:80'' = (tried, r)
     \<and> length tried = 2 \<and> dial_target.DialAddr (V4 0x08080808) ''80'' \<in> set tried \<and> r = Inr ''conn''
     \<and> demo_dial (last tried) = Some ''conn''"
proof -
  let ?tried = "[DialAddr (V4 0x08080808) ''80'', DialAddr (V4 0x01010101) ''80'']"
  have run: "DialRestrictedOutboundContext False demo_split (\<lambda>s. None) demo_resolver demo_dial ''ok.test:80'' =
      (?tried, Inr ''conn'')" by code_simp
  from dial_only_allowed_addresses [OF run] have "demo_dial (last ?tried) = Some ''conn''" by blast
  with run show ?thesis by (intro exI [of _ ?tried] exI [of _ "Inr ''conn''"]) simp
qed

text \<open>
  One bad address in a resolver answer rejects the host: if any resolved address, in plain or
  IPv4-mapped form, lies in a reserved IPv4 block (loopback, private, link-local, carrier NAT,
  documentation, benchmarking, multicast, reserved), the resolution fails and the URL is not accepted.
\<close>

lemma reserved_answer_rejected:
  assumes "ParseIP (TrimSpace (u_Hostname u)) = None" "LookupNetIP (TrimSpace (u_Hostname u)) = Some ips"
    "ip \<in> set ips" "Unmap ip = V4 a" "(lo, hi) \<in> set reserved_v4" "lo \<le> a" "a \<le> hi"
  shows "\<not> is_ok (resolveAllowedOutboundIPs ParseIP LookupNetIP (u_Hostname u)) \<and>
    ValidateOutboundHTTPURLContext False ParseRequestURI ParseIP LookupNetIP raw \<noteq> Inr u"
proof -
  have "Unmap ip = unmap_mapped ip" by (cases ip) (simp_all add: unmap_mapped_def)
  moreover have "blockedOutboundAddrReason (V4 a) \<noteq> None"
    using assms(5-7) reserved_v4_blocked [of a] blocked_iff_prefix [of "V4 a"] by force
  ultimately have "blockedOutboundAddrReason (unmap_mapped ip) \<noteq> None" using assms(4) by simp
  moreover have "unmap_mapped ip \<in> set as"
    if "resolveAllowedOutboundIPs ParseIP LookupNetIP (u_Hostname u) = Inr as" for as
    using resolve_ok(4) [OF that] assms(1-3) by auto
  ultimately have bad: "resolveAllowedOutboundIPs ParseIP LookupNetIP (u_Hostname u) \<noteq> Inr as" for as
    using resolve_ok(2) [of ParseIP LookupNetIP "u_Hostname u" as] by metis
  then show ?thesis
    by (auto simp: is_ok_def ValidateOutboundHTTPURLContext_def split: sum.splits)
qed

definition demo_url :: "string \<Rightarrow> URL option" where
  "demo_url s = Some \<lparr>u_Scheme = ''http'', u_Host = ''mixed.test'', u_Hostname = ''mixed.test'', u_HasUser = False,
     u_EscapedPath = []\<rparr>"

theorem reserved_answer_rejected_witness:
  "\<not> is_ok (resolveAllowedOutboundIPs (\<lambda>s. None) demo_resolver ''mixed.test'')"
proof -
  let ?u = "\<lparr>u_Scheme = ''http'', u_Host = ''mixed.test'', u_Hostname = ''mixed.test'', u_HasUser = False, u_EscapedPath = []\<rparr>"
  have "TrimSpace ''mixed.test'' = ''mixed.test''" by code_simp
  then show ?thesis
    using reserved_answer_rejected [where ParseIP = "\<lambda>s. None" and u = ?u and LookupNetIP = demo_resolver
        and ips = "[V4 0x08080808, V6 0xffff0a000001 []]" and ip = "V6 0xffff0a000001 []" and a = "0x0a000001"
        and lo = "0x0a000000" and hi = "0x0affffff" and ParseRequestURI = demo_url and raw = "''x''"]
    by (simp add: demo_resolver_def reserved_v4_def)
qed

text \<open>The literal check agrees with the resolver check on hosts that are IP addresses.\<close>

lemma literal_agrees:
  assumes "ParseIP (TrimSpace host) = Some bs"
  shows "is_ok (validateOutboundHostLiterals ParseIP host) \<longleftrightarrow> is_ok (resolveAllowedOutboundIPs ParseIP L host)"
  using assms
  by (auto simp: is_ok_def validateOutboundHostLiterals_def resolveAllowedOutboundIPs_def Let_def
      split: sum.splits if_splits option.splits)

end
