(* ===== verification/Expiry_Cache.thy ===== *)
theory Expiry_Cache
  imports Magpie_Prelude "HOL-Library.AList"
begin

text \<open>
  The bounded cache of \<open>internal/support/expiry_cache.go\<close>: a map from keys to list elements
  (an association list) beside a doubly linked list in order of use, front first. An element is a heap cell, named
  here by a number; the map holds the number, the list the number with the entry stored in
  the cell. The invariant says that the two structures describe the same entries.
  The interface the rest of the backend relies on is the locale \<open>expiring_cache\<close>, which the
  model interprets; \<open>Robots_Guard\<close> is proved against it.
\<close>

subsection \<open>Data and operations\<close>

record ('k, 'v) expiryCacheEntry =
  e_key :: 'k
  e_value :: 'v
  e_expires :: instant

record ('k, 'v) ExpiryCache =
  c_capacity :: nat
  c_entries :: "('k \<times> nat) list"
  c_order :: "(nat \<times> ('k, 'v) expiryCacheEntry) list"
  c_next :: nat

definition NewExpiryCache :: "int \<Rightarrow> ('k, 'v) ExpiryCache" where
  "NewExpiryCache capacity =
     \<lparr>c_capacity = nat (max 1 capacity), c_entries = [], c_order = [], c_next = 0\<rparr>"

text \<open>\<open>list.List\<close>: the cell of an element, removal, \<open>MoveToFront\<close>, and a write to \<open>elem.Value\<close>.\<close>

definition elem_value :: "(nat \<times> 'e) list \<Rightarrow> nat \<Rightarrow> 'e option" where
  "elem_value l i = map_of l i"

definition elem_remove :: "nat \<Rightarrow> (nat \<times> 'e) list \<Rightarrow> (nat \<times> 'e) list" where
  "elem_remove i l = filter (\<lambda>p. fst p \<noteq> i) l"

definition elem_front :: "nat \<Rightarrow> (nat \<times> 'e) list \<Rightarrow> (nat \<times> 'e) list" where
  "elem_front i l = filter (\<lambda>p. fst p = i) l @ elem_remove i l"

definition elem_set :: "nat \<Rightarrow> 'e \<Rightarrow> (nat \<times> 'e) list \<Rightarrow> (nat \<times> 'e) list" where
  "elem_set i e l = map (\<lambda>p. if fst p = i then (i, e) else p) l"

definition cache_remove :: "nat \<times> ('k, 'v) expiryCacheEntry \<Rightarrow> ('k, 'v) ExpiryCache \<Rightarrow> ('k, 'v) ExpiryCache" where
  "cache_remove el c =
     c\<lparr>c_entries := AList.delete (e_key (snd el)) (c_entries c), c_order := elem_remove (fst el) (c_order c)\<rparr>"

definition cache_Get :: "'k \<Rightarrow> instant \<Rightarrow> ('k, 'v) ExpiryCache \<Rightarrow> 'v option \<times> ('k, 'v) ExpiryCache" where
  "cache_Get key now c =
     (case map_of (c_entries c) key of
        None \<Rightarrow> (None, c)
      | Some i \<Rightarrow>
          (case elem_value (c_order c) i of
             None \<Rightarrow> (None, c)
           | Some entry \<Rightarrow>
               if now < e_expires entry
               then (Some (e_value entry), c\<lparr>c_order := elem_front i (c_order c)\<rparr>)
               else (None, cache_remove (i, entry) c)))"

text \<open>
  The two halves of \<open>Set\<close> on a key that is not in the map: eviction of \<open>c.order.Back()\<close> when
  the capacity is reached, then \<open>PushFront\<close> of a fresh element.
\<close>

definition cache_room :: "('k, 'v) ExpiryCache \<Rightarrow> ('k, 'v) ExpiryCache" where
  "cache_room c = (if c_capacity c \<le> length (c_entries c) then cache_remove (last (c_order c)) c else c)"

definition cache_push :: "('k, 'v) expiryCacheEntry \<Rightarrow> ('k, 'v) ExpiryCache \<Rightarrow> ('k, 'v) ExpiryCache" where
  "cache_push entry c =
     c\<lparr>c_entries := AList.update (e_key entry) (c_next c) (c_entries c),
       c_order := (c_next c, entry) # c_order c, c_next := Suc (c_next c)\<rparr>"

definition cache_Set :: "'k \<Rightarrow> 'v \<Rightarrow> instant \<Rightarrow> ('k, 'v) ExpiryCache \<Rightarrow> ('k, 'v) ExpiryCache" where
  "cache_Set key v expires c =
     (let entry = \<lparr>e_key = key, e_value = v, e_expires = expires\<rparr> in
      case map_of (c_entries c) key of
        Some i \<Rightarrow> c\<lparr>c_order := elem_front i (elem_set i entry (c_order c))\<rparr>
      | None \<Rightarrow> cache_push entry (cache_room c))"

text \<open>
  The loop of \<open>Prune\<close> walks from the back to the front and removes expired elements.
\<close>

definition cache_Prune :: "instant \<Rightarrow> ('k, 'v) ExpiryCache \<Rightarrow> ('k, 'v) ExpiryCache" where
  "cache_Prune now c =
     fold (\<lambda>el c. if \<not> now < e_expires (snd el) then cache_remove el c else c) (rev (c_order c)) c"

definition cache_Len :: "('k, 'v) ExpiryCache \<Rightarrow> nat" where
  "cache_Len c = length (c_entries c)"

subsection \<open>Invariant and abstraction\<close>

definition cache_inv :: "('k, 'v) ExpiryCache \<Rightarrow> bool" where
  "cache_inv c \<longleftrightarrow>
     0 < c_capacity c \<and> length (c_entries c) \<le> c_capacity c \<and>
     distinct (map fst (c_entries c)) \<and> distinct (map fst (c_order c)) \<and>
     (\<forall>i \<in> set (map fst (c_order c)). i < c_next c) \<and>
     (\<forall>k i. (k, i) \<in> set (c_entries c) \<longleftrightarrow> (\<exists>e. (i, e) \<in> set (c_order c) \<and> e_key e = k))"

definition cache_view :: "('k, 'v) ExpiryCache \<Rightarrow> ('k \<rightharpoonup> 'v \<times> instant)" where
  "cache_view c k =
     (case map_of (c_entries c) k of
        None \<Rightarrow> None
      | Some i \<Rightarrow> map_option (\<lambda>e. (e_value e, e_expires e)) (elem_value (c_order c) i))"

lemma cache_invD:
  assumes "cache_inv c"
  shows "distinct (map fst (c_entries c))" "distinct (map fst (c_order c))"
    "(k, i) \<in> set (c_entries c) \<longleftrightarrow> (\<exists>e. (i, e) \<in> set (c_order c) \<and> e_key e = k)"
    "length (c_entries c) \<le> c_capacity c" "0 < c_capacity c"
    "(i, e) \<in> set (c_order c) \<Longrightarrow> i < c_next c"
  using assms unfolding cache_inv_def by force+

lemma entry_lookup:
  assumes "cache_inv c"
  shows "map_of (c_entries c) k = Some i \<longleftrightarrow> (\<exists>e. (i, e) \<in> set (c_order c) \<and> e_key e = k)"
  using assms by (simp add: cache_invD)

lemma elem_lookup:
  assumes "cache_inv c" "(i, e) \<in> set (c_order c)"
  shows "elem_value (c_order c) i = Some e"
  using assms by (simp add: elem_value_def cache_invD)

lemma cache_view_Some:
  assumes "cache_inv c"
  shows "cache_view c k = Some (v, x) \<longleftrightarrow>
     (\<exists>i. (i, \<lparr>e_key = k, e_value = v, e_expires = x\<rparr>) \<in> set (c_order c))"
proof
  assume "cache_view c k = Some (v, x)"
  then obtain i e where "map_of (c_entries c) k = Some i" "elem_value (c_order c) i = Some e"
    "e_value e = v" "e_expires e = x"
    by (auto simp: cache_view_def split: option.splits)
  moreover from this obtain e' where "(i, e') \<in> set (c_order c)" "e_key e' = k"
    using entry_lookup [OF assms] by blast
  ultimately have "e = \<lparr>e_key = k, e_value = v, e_expires = x\<rparr>" "(i, e) \<in> set (c_order c)"
    using elem_lookup [OF assms] by (auto intro: expiryCacheEntry.equality)
  then show "\<exists>i. (i, \<lparr>e_key = k, e_value = v, e_expires = x\<rparr>) \<in> set (c_order c)" by blast
next
  assume "\<exists>i. (i, \<lparr>e_key = k, e_value = v, e_expires = x\<rparr>) \<in> set (c_order c)"
  then obtain i where i: "(i, \<lparr>e_key = k, e_value = v, e_expires = x\<rparr>) \<in> set (c_order c)" by blast
  then have "map_of (c_entries c) k = Some i" using entry_lookup [OF assms] by force
  with elem_lookup [OF assms i] show "cache_view c k = Some (v, x)" by (simp add: cache_view_def)
qed

lemma cache_view_cong:
  assumes "cache_inv c" "cache_inv c'" "set (c_order c) = set (c_order c')"
  shows "cache_view c = cache_view c'"
proof
  fix k show "cache_view c k = cache_view c' k"
  proof (cases "cache_view c k")
    case None
    have "cache_view c' k \<noteq> Some (v, x)" for v x
      using None cache_view_Some [OF assms(1), of k v x] cache_view_Some [OF assms(2), of k v x] assms(3) by simp
    with None show ?thesis by (metis option.exhaust surj_pair)
  next
    case (Some p)
    then show ?thesis
      using cache_view_Some [OF assms(1), of k "fst p" "snd p"] cache_view_Some [OF assms(2), of k "fst p" "snd p"]
        assms(3) by simp
  qed
qed

subsection \<open>The list operations on elements\<close>

lemma set_elem_remove: "set (elem_remove i l) = {p \<in> set l. fst p \<noteq> i}"
  by (simp add: elem_remove_def)

lemma set_elem_front [simp]: "set (elem_front i l) = set l"
  by (auto simp: elem_front_def elem_remove_def)

lemma distinct_elem_remove: "distinct (map fst l) \<Longrightarrow> distinct (map fst (elem_remove i l))"
  by (simp add: elem_remove_def distinct_map_filter)

lemma distinct_elem_front:
  assumes "distinct (map fst l)" shows "distinct (map fst (elem_front i l))"
proof -
  have "distinct (map fst (filter (\<lambda>p. fst p = i) l))"
    using assms by (simp add: distinct_map_filter)
  then show ?thesis
    using distinct_elem_remove [OF assms] by (auto simp: elem_front_def set_elem_remove)
qed

lemma map_fst_elem_set [simp]: "map fst (elem_set i e l) = map fst l"
  by (induction l) (auto simp: elem_set_def)

lemma set_elem_set:
  "set (elem_set i e l) = {p \<in> set l. fst p \<noteq> i} \<union> (if i \<in> fst ` set l then {(i, e)} else {})"
  by (auto simp: elem_set_def image_iff)

subsection \<open>Every operation keeps the invariant\<close>

lemma NewExpiryCache_inv [inv_intro]: "cache_inv (NewExpiryCache n)"
  by (simp add: cache_inv_def NewExpiryCache_def)

lemma NewExpiryCache_view: "cache_view (NewExpiryCache n) k = None"
  by (simp add: cache_view_def NewExpiryCache_def)

lemma cache_remove_set:
  "set (c_order (cache_remove el c)) = {p \<in> set (c_order c). fst p \<noteq> fst el}"
  by (simp add: cache_remove_def set_elem_remove)

lemma order_key_unique:
  assumes "cache_inv c" "(i, e) \<in> set (c_order c)" "(j, d) \<in> set (c_order c)"
  shows "e_key e = e_key d \<longleftrightarrow> i = j"
proof
  assume "e_key e = e_key d"
  then have "(e_key e, i) \<in> set (c_entries c)" "(e_key e, j) \<in> set (c_entries c)"
    using assms cache_invD(3) [OF assms(1)] by metis+
  then show "i = j" using cache_invD(1) [OF assms(1)] by (metis eq_key_imp_eq_value)
next
  assume "i = j"
  then show "e_key e = e_key d" using elem_lookup [OF assms(1,2)] elem_lookup [OF assms(1,3)] by simp
qed

lemma cache_remove_inv [inv_intro]:
  assumes "cache_inv c" "el \<in> set (c_order c)"
  shows "cache_inv (cache_remove el c)"
proof -
  obtain i e where el: "el = (i, e)" by fastforce
  have "(k, j) \<in> set (AList.delete (e_key e) (c_entries c)) \<longleftrightarrow>
      (\<exists>d. (j, d) \<in> set (elem_remove i (c_order c)) \<and> e_key d = k)" for k j
    using assms order_key_unique [OF assms(1), of i e] cache_invD(3) [OF assms(1), of k j]
    by (auto simp: el set_elem_remove AList.delete_eq)
  moreover have "length (AList.delete (e_key e) (c_entries c)) \<le> c_capacity c"
    using cache_invD(4) [OF assms(1)] by (metis AList.length_delete_le le_trans)
  ultimately show ?thesis
    using assms(1) unfolding cache_inv_def
    by (simp add: cache_remove_def el distinct_elem_remove AList.distinct_delete set_elem_remove)
qed

lemma cache_touch_inv:
  assumes "cache_inv c" shows "cache_inv (c\<lparr>c_order := elem_front i (c_order c)\<rparr>)"
  using assms by (simp add: cache_inv_def distinct_elem_front)

lemma cache_Get_inv [inv_intro]:
  assumes "cache_inv c" shows "cache_inv (snd (cache_Get k now c))"
proof -
  have "(i, e) \<in> set (c_order c)" if "elem_value (c_order c) i = Some e" for i e
    using that by (simp add: elem_value_def map_of_SomeD)
  then show ?thesis
    using assms by (auto simp: cache_Get_def cache_remove_inv cache_touch_inv split: option.splits)
qed

lemma length_entries_order:
  assumes "cache_inv c" shows "length (c_entries c) = length (c_order c)"
proof -
  have "inj_on snd (set (c_entries c))"
    using cache_invD(3) [OF assms] elem_lookup [OF assms]
    by (intro inj_onI) (metis option.inject prod.collapse)
  moreover have "distinct (c_entries c)"
    using cache_invD(1) [OF assms] by (simp add: distinct_map)
  ultimately have "distinct (map snd (c_entries c))" by (simp add: distinct_map)
  moreover have "i \<in> snd ` set (c_entries c) \<longleftrightarrow> i \<in> fst ` set (c_order c)" for i
    using cache_invD(3) [OF assms, of _ i] by force
  then have "set (map snd (c_entries c)) = set (map fst (c_order c))" by auto
  ultimately show ?thesis
    using cache_invD(2) [OF assms] by (metis distinct_card length_map)
qed

lemma update_fresh: "k \<notin> fst ` set al \<Longrightarrow> AList.update k v al = al @ [(k, v)]"
  by (induction al) auto

lemma fresh_element: "cache_inv c \<Longrightarrow> (c_next c, e) \<notin> set (c_order c)"
  using cache_invD(6) by blast

lemma cache_push_inv [inv_intro]:
  assumes inv: "cache_inv c" and room: "length (c_entries c) < c_capacity c"
    and key: "map_of (c_entries c) (e_key e) = None"
  shows "cache_inv (cache_push e c)"
proof -
  have key': "e_key e \<notin> fst ` set (c_entries c)" using key by (simp add: map_of_eq_None_iff)
  have "(k, j) \<in> set (c_entries (cache_push e c)) \<longleftrightarrow>
      (\<exists>d. (j, d) \<in> set (c_order (cache_push e c)) \<and> e_key d = k)" for k j
    using cache_invD(3) [OF inv, of k j] fresh_element [OF inv]
    by (auto simp: cache_push_def update_fresh [OF key'])
  moreover have "c_next c \<notin> fst ` set (c_order c)" using fresh_element [OF inv] by force
  ultimately show ?thesis
    using room key' cache_invD(1,2,5) [OF inv] cache_invD(6) [OF inv] unfolding cache_inv_def
    by (auto simp: cache_push_def update_fresh [OF key'] less_Suc_eq)
qed

lemma cache_room_cases:
  assumes inv: "cache_inv c"
  obtains "length (c_order c) < c_capacity c" "cache_room c = c"
  | "c_capacity c = length (c_order c)" "last (c_order c) \<in> set (c_order c)"
    "cache_room c = cache_remove (last (c_order c)) c"
proof (cases "c_capacity c \<le> length (c_entries c)")
  case True
  then have "c_order c \<noteq> []"
    using cache_invD(5) [OF inv] length_entries_order [OF inv] by auto
  with True that(2) show thesis
    using cache_invD(4) [OF inv] length_entries_order [OF inv] by (simp add: cache_room_def)
next
  case False
  with that(1) show thesis using length_entries_order [OF inv] by (simp add: cache_room_def)
qed

lemma cache_room_inv:
  assumes "cache_inv c" shows "cache_inv (cache_room c)"
  using assms by (cases rule: cache_room_cases [OF assms]) (simp_all add: cache_remove_inv)

lemma cache_room_entry:
  assumes "cache_inv c" "map_of (c_entries c) k = None" shows "map_of (c_entries (cache_room c)) k = None"
  using assms by (simp add: cache_room_def cache_remove_def AList.delete_conv')

lemma cache_room_length:
  assumes inv: "cache_inv c" shows "length (c_entries (cache_room c)) < c_capacity (cache_room c)"
proof (cases rule: cache_room_cases [OF inv])
  case 1
  then show ?thesis using length_entries_order [OF inv] by simp
next
  case 2
  have "length (filter (\<lambda>p. fst p \<noteq> fst (last (c_order c))) (c_order c)) < length (c_order c)"
    using 2(2) by (intro length_filter_less) auto
  then show ?thesis
    using 2 length_entries_order [OF cache_room_inv [OF inv]] by (simp add: cache_remove_def elem_remove_def)
qed

lemma cache_Set_inv [inv_intro]:
  assumes "cache_inv c" shows "cache_inv (cache_Set k v x c)"
proof (cases "map_of (c_entries c) k")
  case (Some i)
  then obtain d where d: "(i, d) \<in> set (c_order c)" "e_key d = k"
    using entry_lookup [OF assms] by blast
  let ?e = "\<lparr>e_key = k, e_value = v, e_expires = x\<rparr>"
  have "(k', j) \<in> set (c_entries c) \<longleftrightarrow>
      (\<exists>e. (j, e) \<in> set (elem_set i ?e (c_order c)) \<and> e_key e = k')" for k' j
    using cache_invD(3) [OF assms, of k' j] d order_key_unique [OF assms d(1)]
    by (auto simp: set_elem_set image_iff) force+
  with Some assms d show ?thesis
    by (auto simp: cache_Set_def cache_inv_def distinct_elem_front set_elem_set split: if_splits)
next
  case None
  with assms show ?thesis
    by (simp add: cache_Set_def cache_push_inv cache_room_inv cache_room_length cache_room_entry)
qed

lemma prune_fold_order:
  "c_order (fold (\<lambda>el c. if \<not> now < e_expires (snd el) then cache_remove el c else c) els c) =
     filter (\<lambda>p. \<not> (\<exists>el \<in> set els. \<not> now < e_expires (snd el) \<and> fst el = fst p)) (c_order c)"
  by (induction els arbitrary: c) (auto simp: cache_remove_def elem_remove_def intro!: filter_cong)

lemma prune_fold_inv:
  assumes "cache_inv c" "distinct (map fst els)" "set els \<subseteq> set (c_order c)"
  shows "cache_inv (fold (\<lambda>el c. if \<not> now < e_expires (snd el) then cache_remove el c else c) els c)"
  using assms
proof (induction els arbitrary: c)
  case (Cons el els)
  have "fst p \<noteq> fst el" if "p \<in> set els" for p
    using Cons.prems(2) that by (metis distinct.simps(2) image_eqI list.set_map list.simps(9))
  then have "set els \<subseteq> set (c_order (cache_remove el c))"
    using Cons.prems(3) by (auto simp: cache_remove_set)
  with Cons show ?case by (simp add: cache_remove_inv)
qed simp

lemma cache_Prune_inv [inv_intro]:
  assumes "cache_inv c" shows "cache_inv (cache_Prune now c)"
  unfolding cache_Prune_def
  using assms cache_invD(2) [OF assms] by (intro prune_fold_inv) (auto simp: rev_map [symmetric])

lemma cache_Prune_order:
  assumes "cache_inv c"
  shows "c_order (cache_Prune now c) = filter (\<lambda>p. now < e_expires (snd p)) (c_order c)"
proof -
  have "(\<exists>el \<in> set (c_order c). \<not> now < e_expires (snd el) \<and> fst el = fst p) \<longleftrightarrow> \<not> now < e_expires (snd p)"
    if "p \<in> set (c_order c)" for p
    using that elem_lookup [OF assms] by (metis option.inject prod.collapse)
  then show ?thesis
    unfolding cache_Prune_def prune_fold_order by (auto intro!: filter_cong)
qed

subsection \<open>Refinement of a least-recently-used list\<close>

text \<open>
  The specification: one list of entries, most recently used first, with no map and no
  elements. \<open>entries_of\<close> forgets the elements; every operation commutes with it.
\<close>

definition entries_of :: "('k, 'v) ExpiryCache \<Rightarrow> ('k, 'v) expiryCacheEntry list" where
  "entries_of c = map snd (c_order c)"

definition lru_without :: "'k \<Rightarrow> ('k, 'v) expiryCacheEntry list \<Rightarrow> ('k, 'v) expiryCacheEntry list" where
  "lru_without k l = filter (\<lambda>e. e_key e \<noteq> k) l"

definition lru_get :: "'k \<Rightarrow> instant \<Rightarrow> ('k, 'v) expiryCacheEntry list \<Rightarrow>
    'v option \<times> ('k, 'v) expiryCacheEntry list" where
  "lru_get k now l =
     (case find (\<lambda>e. e_key e = k) l of
        None \<Rightarrow> (None, l)
      | Some e \<Rightarrow> if now < e_expires e then (Some (e_value e), e # lru_without k l) else (None, lru_without k l))"

definition lru_set :: "nat \<Rightarrow> 'k \<Rightarrow> 'v \<Rightarrow> instant \<Rightarrow> ('k, 'v) expiryCacheEntry list \<Rightarrow>
    ('k, 'v) expiryCacheEntry list" where
  "lru_set cap k v x l =
     \<lparr>e_key = k, e_value = v, e_expires = x\<rparr> #
       (if k \<in> e_key ` set l then lru_without k l else if length l < cap then l else butlast l)"

definition lru_prune :: "instant \<Rightarrow> ('k, 'v) expiryCacheEntry list \<Rightarrow> ('k, 'v) expiryCacheEntry list" where
  "lru_prune now l = filter (\<lambda>e. now < e_expires e) l"

lemma entries_remove:
  assumes "cache_inv c" "(i, e) \<in> set (c_order c)"
  shows "map snd (elem_remove i (c_order c)) = lru_without (e_key e) (entries_of c)"
proof -
  have "fst p \<noteq> i \<longleftrightarrow> e_key (snd p) \<noteq> e_key e" if "p \<in> set (c_order c)" for p
    using order_key_unique [OF assms(1,2), of "fst p" "snd p"] that by auto
  then show ?thesis
    by (simp add: elem_remove_def lru_without_def entries_of_def filter_map o_def cong: filter_cong)
qed

lemma filter_element:
  "distinct (map fst l) \<Longrightarrow> (i, e) \<in> set l \<Longrightarrow> filter (\<lambda>p. fst p = i) l = [(i, e)]"
  by (induction l) (auto simp: filter_empty_conv image_iff)

lemma find_keyD: "find (\<lambda>e. e_key e = k) l = Some e \<Longrightarrow> e \<in> set l \<and> e_key e = k"
  by (auto simp: find_Some_iff)

lemma find_key_None: "find (\<lambda>e. e_key e = k) l = None \<longleftrightarrow> k \<notin> e_key ` set l"
  by (auto simp: find_None_iff)

lemma find_entry:
  assumes "cache_inv c"
  shows "find (\<lambda>e. e_key e = k) (entries_of c) =
    (case map_of (c_entries c) k of None \<Rightarrow> None | Some i \<Rightarrow> elem_value (c_order c) i)"
proof (cases "map_of (c_entries c) k")
  case None
  then have "\<not> (\<exists>i e. (i, e) \<in> set (c_order c) \<and> e_key e = k)"
    using entry_lookup [OF assms, of k] by auto
  then have "find (\<lambda>e. e_key e = k) (entries_of c) = None"
    by (auto simp: find_None_iff entries_of_def) blast
  with None show ?thesis by simp
next
  case (Some i)
  then obtain e where e: "(i, e) \<in> set (c_order c)" "e_key e = k"
    using entry_lookup [OF assms, of k] by auto
  have "find (\<lambda>e. e_key e = k) (entries_of c) \<noteq> None"
    using e unfolding find_key_None entries_of_def by force
  then obtain d where d: "find (\<lambda>e. e_key e = k) (entries_of c) = Some d" by blast
  then obtain j where "(j, d) \<in> set (c_order c)" "e_key d = k"
    using find_keyD [OF d] by (auto simp: entries_of_def)
  with e have "d = e"
    using order_key_unique [OF assms e(1), of j d] elem_lookup [OF assms] by (metis option.inject)
  with Some d e elem_lookup [OF assms e(1)] show ?thesis by simp
qed

lemma cache_Get_refines:
  assumes "cache_inv c"
  shows "map_prod id entries_of (cache_Get k now c) = lru_get k now (entries_of c)"
proof (cases "map_of (c_entries c) k")
  case None
  then show ?thesis by (simp add: cache_Get_def lru_get_def find_entry [OF assms])
next
  case (Some i)
  then obtain e where e: "(i, e) \<in> set (c_order c)" "e_key e = k"
    using entry_lookup [OF assms, of k] by auto
  have "find (\<lambda>e. e_key e = k) (entries_of c) = Some e"
    using Some elem_lookup [OF assms e(1)] find_entry [OF assms] by simp
  then have "find (\<lambda>e. e_key e = k) (map snd (c_order c)) = Some e" by (simp add: entries_of_def)
  with Some e entries_remove [OF assms e(1)] show ?thesis
    by (simp add: cache_Get_def lru_get_def elem_lookup [OF assms e(1)]
        entries_of_def cache_remove_def elem_front_def filter_element [OF cache_invD(2) [OF assms] e(1)])
qed

lemma remove_last_element:
  "distinct (map fst l) \<Longrightarrow> l \<noteq> [] \<Longrightarrow> elem_remove (fst (last l)) l = butlast l"
  by (induction l rule: rev_induct) (auto simp: elem_remove_def image_iff intro!: filter_True)

lemma cache_room_entries:
  assumes "cache_inv c"
  shows "entries_of (cache_room c) =
    (if length (entries_of c) < c_capacity c then entries_of c else butlast (entries_of c))"
proof (cases rule: cache_room_cases [OF assms])
  case 2
  then have "c_order c \<noteq> []" using cache_invD(5) [OF assms] by auto
  with 2 remove_last_element [OF cache_invD(2) [OF assms]] show ?thesis
    by (simp add: entries_of_def cache_remove_def map_butlast)
qed (simp add: entries_of_def)

lemma elem_set_remove: "elem_remove i (elem_set i e l) = elem_remove i l"
  by (induction l) (auto simp: elem_set_def elem_remove_def)

lemma cache_Set_refines:
  assumes "cache_inv c"
  shows "entries_of (cache_Set k v x c) = lru_set (c_capacity c) k v x (entries_of c)"
proof (cases "map_of (c_entries c) k")
  case None
  then have "\<not> (\<exists>i e. (i, e) \<in> set (c_order c) \<and> e_key e = k)"
    using entry_lookup [OF assms, of k] by auto
  then have "k \<notin> e_key ` set (entries_of c)"
    unfolding entries_of_def by (auto simp del: not_ex) blast
  with None show ?thesis
    using cache_room_entries [OF assms] unfolding entries_of_def
    by (simp add: cache_Set_def lru_set_def cache_push_def)
next
  case (Some i)
  then obtain e where e: "(i, e) \<in> set (c_order c)" "e_key e = k"
    using entry_lookup [OF assms, of k] by auto
  let ?e = "\<lparr>e_key = k, e_value = v, e_expires = x\<rparr>"
  have "(i, ?e) \<in> set (elem_set i ?e (c_order c))" using e(1) by (force simp: set_elem_set)
  moreover have "distinct (map fst (elem_set i ?e (c_order c)))"
    using cache_invD(2) [OF assms] by simp
  ultimately have "filter (\<lambda>p. fst p = i) (elem_set i ?e (c_order c)) = [(i, ?e)]"
    using filter_element by metis
  moreover have "k \<in> e_key ` set (entries_of c)" using e by (force simp: entries_of_def)
  ultimately show ?thesis
    using Some e entries_remove [OF assms e(1)] unfolding entries_of_def
    by (simp add: cache_Set_def lru_set_def elem_front_def elem_set_remove)
qed

lemma cache_Prune_refines:
  assumes "cache_inv c"
  shows "entries_of (cache_Prune now c) = lru_prune now (entries_of c)"
  by (simp add: entries_of_def lru_prune_def cache_Prune_order [OF assms] filter_map o_def)

lemma cache_Len_refines: "cache_inv c \<Longrightarrow> cache_Len c = length (entries_of c)"
  by (simp add: cache_Len_def entries_of_def length_entries_order)

lemma cache_capacity_fixed [simp]:
  "c_capacity (snd (cache_Get k now c)) = c_capacity c"
  "c_capacity (cache_Set k v x c) = c_capacity c"
  by (auto simp: cache_Get_def cache_Set_def cache_remove_def cache_push_def cache_room_def Let_def
      split: option.splits)

subsection \<open>The stored values\<close>

lemma cache_view_entries:
  assumes "cache_inv c"
  shows "cache_view c k = map_option (\<lambda>e. (e_value e, e_expires e)) (find (\<lambda>e. e_key e = k) (entries_of c))"
  unfolding find_entry [OF assms] by (simp add: cache_view_def split: option.splits)

lemma distinct_keys:
  assumes "cache_inv c" shows "distinct (map e_key (entries_of c))"
proof -
  have "inj_on (\<lambda>p. e_key (snd p)) (set (c_order c))"
    using order_key_unique [OF assms] elem_lookup [OF assms]
    by (intro inj_onI) (metis option.inject prod.collapse)
  then show ?thesis
    using cache_invD(2) [OF assms] by (simp add: entries_of_def distinct_map o_def)
qed

lemma find_without:
  "find (\<lambda>e. e_key e = k) (lru_without j l) = (if k = j then None else find (\<lambda>e. e_key e = k) l)"
  by (induction l) (auto simp: lru_without_def)

lemma find_butlast:
  "find P (butlast l) = Some e \<Longrightarrow> find P l = Some e"
  by (induction l) (auto split: if_splits)

lemma find_prune:
  "distinct (map e_key l) \<Longrightarrow> find (\<lambda>e. e_key e = k) (lru_prune now l) =
     (case find (\<lambda>e. e_key e = k) l of None \<Rightarrow> None | Some e \<Rightarrow> if now < e_expires e then Some e else None)"
proof (induction l)
  case (Cons a l)
  then have "find (\<lambda>e. e_key e = e_key a) l = None" by (simp add: find_key_None)
  with Cons show ?case by (auto simp: lru_prune_def)
qed (simp add: lru_prune_def)

lemma cache_Get_result:
  assumes "cache_inv c"
  shows "fst (cache_Get k now c) =
    (case cache_view c k of None \<Rightarrow> None | Some (v, x) \<Rightarrow> if now < x then Some v else None)"
proof -
  have "fst (cache_Get k now c) = fst (lru_get k now (entries_of c))"
    using cache_Get_refines [OF assms, of k now] by (metis fst_map_prod id_apply)
  then show ?thesis
    by (simp add: lru_get_def cache_view_entries [OF assms] split: option.splits)
qed

lemma cache_Get_view:
  assumes "cache_inv c"
  shows "cache_view (snd (cache_Get k now c)) =
    (case cache_view c k of None \<Rightarrow> cache_view c
     | Some (v, x) \<Rightarrow> if now < x then cache_view c else (cache_view c)(k := None))"
proof -
  have e: "entries_of (snd (cache_Get k now c)) = snd (lru_get k now (entries_of c))"
    using cache_Get_refines [OF assms, of k now] by (metis snd_map_prod)
  show ?thesis
  proof
    fix j
    show "cache_view (snd (cache_Get k now c)) j = (case cache_view c k of None \<Rightarrow> cache_view c
     | Some (v, x) \<Rightarrow> if now < x then cache_view c else (cache_view c)(k := None)) j"
      using assms
      by (auto simp: cache_view_entries cache_Get_inv e lru_get_def find_without
          dest: find_keyD split: option.splits)
  qed
qed

lemma cache_Set_view_same:
  assumes "cache_inv c" shows "cache_view (cache_Set k v x c) k = Some (v, x)"
  using assms by (simp add: cache_view_entries cache_Set_inv cache_Set_refines lru_set_def)

lemma cache_Set_view_other:
  assumes "cache_inv c" "cache_view (cache_Set k v x c) j = Some p" "j \<noteq> k"
  shows "cache_view c j = Some p"
  using assms
  by (auto simp: cache_view_entries cache_Set_inv cache_Set_refines lru_set_def find_without
      dest: find_butlast split: if_splits)

lemma cache_Prune_view:
  assumes "cache_inv c"
  shows "cache_view (cache_Prune now c) k =
    (case cache_view c k of None \<Rightarrow> None | Some (v, x) \<Rightarrow> if now < x then Some (v, x) else None)"
  using assms
  by (auto simp: cache_view_entries cache_Prune_inv cache_Prune_refines find_prune distinct_keys
      split: option.splits)

lemma cache_Len_bound: "cache_inv c \<Longrightarrow> cache_Len c \<le> c_capacity c"
  by (simp add: cache_Len_def cache_invD)

subsection \<open>The interface of an expiring cache\<close>

text \<open>
  What a client may rely on: the laws of \<open>Get\<close>, \<open>Set\<close> and \<open>Prune\<close> over the stored values. A cache
  may drop entries at any time (eviction), so the laws never promise that an entry of another
  key survives; they promise that no value is made up and that none is served after it expired.
\<close>

locale expiring_cache =
  fixes get :: "'k \<Rightarrow> instant \<Rightarrow> 'c \<Rightarrow> 'v option \<times> 'c"
    and put :: "'k \<Rightarrow> 'v \<Rightarrow> instant \<Rightarrow> 'c \<Rightarrow> 'c"
    and prune :: "instant \<Rightarrow> 'c \<Rightarrow> 'c"
    and view :: "'c \<Rightarrow> 'k \<rightharpoonup> 'v \<times> instant"
    and good :: "'c \<Rightarrow> bool"
  assumes get_good: "good c \<Longrightarrow> good (snd (get k now c))"
    and put_good: "good c \<Longrightarrow> good (put k v x c)"
    and prune_good: "good c \<Longrightarrow> good (prune now c)"
    and get_result: "good c \<Longrightarrow> fst (get k now c) =
      (case view c k of None \<Rightarrow> None | Some (v, x) \<Rightarrow> if now < x then Some v else None)"
    and get_view: "good c \<Longrightarrow> view (snd (get k now c)) j = Some p \<Longrightarrow> view c j = Some p"
    and put_same: "good c \<Longrightarrow> view (put k v x c) k = Some (v, x)"
    and put_other: "good c \<Longrightarrow> j \<noteq> k \<Longrightarrow> view (put k v x c) j = Some p \<Longrightarrow> view c j = Some p"
    and prune_view: "good c \<Longrightarrow> view (prune now c) j = Some p \<Longrightarrow> view c j = Some p \<and> now < snd p"
begin

lemma get_SomeD:
  assumes "good c" "fst (get k now c) = Some v"
  obtains x where "view c k = Some (v, x)" "now < x"
  using assms get_result [OF assms(1), of k now] by (auto split: option.splits if_splits)

lemma get_after_put:
  assumes "good c" "now < x" shows "fst (get k now (put k v x c)) = Some v"
  using assms by (simp add: get_result put_good put_same)

definition stored_all :: "('k \<Rightarrow> 'v \<Rightarrow> instant \<Rightarrow> bool) \<Rightarrow> 'c \<Rightarrow> bool" where
  "stored_all P c \<longleftrightarrow> good c \<and> (\<forall>k v x. view c k = Some (v, x) \<longrightarrow> P k v x)"

lemma stored_all_get: "stored_all P c \<Longrightarrow> stored_all P (snd (get k now c))"
  unfolding stored_all_def using get_good get_view by blast

lemma stored_all_put: "stored_all P c \<Longrightarrow> P k v x \<Longrightarrow> stored_all P (put k v x c)"
  unfolding stored_all_def using put_good put_same put_other by (metis option.inject prod.inject)

lemma stored_all_prune: "stored_all P c \<Longrightarrow> stored_all P (prune now c)"
  unfolding stored_all_def using prune_good prune_view by blast

lemma stored_all_hit:
  assumes "stored_all P c" "fst (get k now c) = Some v"
  shows "\<exists>x. P k v x \<and> now < x"
  using assms get_SomeD unfolding stored_all_def by metis

end

lemma cache_Get_view_sub:
  "cache_inv c \<Longrightarrow> cache_view (snd (cache_Get k now c)) j = Some p \<Longrightarrow> cache_view c j = Some p"
  by (auto simp: cache_Get_view split: option.splits if_splits)

lemma cache_Prune_view_sub:
  "cache_inv c \<Longrightarrow> cache_view (cache_Prune now c) j = Some p \<Longrightarrow> cache_view c j = Some p \<and> now < snd p"
  by (auto simp: cache_Prune_view split: option.splits if_splits)

interpretation ec: expiring_cache cache_Get cache_Set cache_Prune cache_view cache_inv
  by (rule expiring_cache.intro)
    (fact cache_Get_inv cache_Set_inv cache_Prune_inv cache_Get_result cache_Get_view_sub
      cache_Set_view_same cache_Prune_view_sub | erule (2) cache_Set_view_other [rotated 2] cache_Set_view_other)+

subsection \<open>Histories\<close>

datatype ('k, 'v) cache_op = OpGet 'k instant | OpSet 'k 'v instant | OpPrune instant

fun cache_step :: "('k, 'v) cache_op \<Rightarrow> ('k, 'v) ExpiryCache \<Rightarrow> ('k, 'v) ExpiryCache" where
  "cache_step (OpGet k now) c = snd (cache_Get k now c)"
| "cache_step (OpSet k v x) c = cache_Set k v x c"
| "cache_step (OpPrune now) c = cache_Prune now c"

text \<open>The last \<open>Set\<close> of a key in a history, oldest operation first.\<close>

fun last_set :: "'k \<Rightarrow> ('k, 'v) cache_op list \<Rightarrow> ('v \<times> instant) option" where
  "last_set k [] = None"
| "last_set k (OpSet j v x # ops) =
     (case last_set k ops of None \<Rightarrow> if j = k then Some (v, x) else None | Some p \<Rightarrow> Some p)"
| "last_set k (op # ops) = last_set k ops"

lemma last_set_snoc:
  "last_set k (ops @ [op]) = (case op of OpSet j v x \<Rightarrow> if j = k then Some (v, x) else last_set k ops
     | _ \<Rightarrow> last_set k ops)"
  by (induction k ops rule: last_set.induct) (auto split: cache_op.splits option.splits)

lemma cache_step_inv: "cache_inv c \<Longrightarrow> cache_inv (cache_step op c)"
  by (cases op) (auto simp: inv_intro)

lemma cache_step_capacity: "c_capacity (cache_step op c) = c_capacity c"
proof -
  have "c_capacity (fold (\<lambda>el c. if \<not> now < e_expires (snd el) then cache_remove el c else c) els d) = c_capacity d"
    for now els and d :: "('a, 'b) ExpiryCache"
    by (induction els arbitrary: d) (auto simp: cache_remove_def)
  then show ?thesis by (cases op) (auto simp: cache_Prune_def)
qed

lemma cache_history:
  "cache_inv (fold cache_step ops (NewExpiryCache n)) \<and>
   c_capacity (fold cache_step ops (NewExpiryCache n)) = nat (max 1 n) \<and>
   (\<forall>k p. cache_view (fold cache_step ops (NewExpiryCache n)) k = Some p \<longrightarrow> last_set k ops = Some p)"
proof (induction ops rule: rev_induct)
  case Nil
  show ?case by (simp add: NewExpiryCache_inv NewExpiryCache_view) (simp add: NewExpiryCache_def)
next
  case (snoc op ops)
  let ?c = "fold cache_step ops (NewExpiryCache n)"
  from snoc have inv: "cache_inv ?c" by blast
  have "last_set k (ops @ [op]) = Some p" if "cache_view (cache_step op ?c) k = Some p" for k p
  proof (cases op)
    case (OpGet j now)
    with that snoc ec.get_view [OF inv] have "last_set k ops = Some p" by (metis cache_step.simps(1))
    with OpGet show ?thesis by (simp add: last_set_snoc)
  next
    case (OpSet j v x)
    with that snoc ec.put_other [OF inv] ec.put_same [OF inv]
    have "if j = k then p = (v, x) else last_set k ops = Some p" by (metis cache_step.simps(2) option.inject)
    with OpSet show ?thesis by (simp add: last_set_snoc split: if_splits)
  next
    case (OpPrune now)
    with that snoc ec.prune_view [OF inv] have "last_set k ops = Some p" by (metis cache_step.simps(3))
    with OpPrune show ?thesis by (simp add: last_set_snoc)
  qed
  with snoc show ?case by (simp add: cache_step_inv cache_step_capacity)
qed

text \<open>
  C29. After any sequence of \<open>Get\<close>, \<open>Set\<close> and \<open>Prune\<close> on a new cache the number of entries is at most
  \<open>max(1, capacity)\<close>, and a \<open>Get\<close> that hits at time \<open>now\<close> returns the value of the last \<open>Set\<close> of that
  key, whose expiry lies after \<open>now\<close>: reads never prolong an entry and no stale value is served.
\<close>

theorem cache_serves_last_fresh_value:
  fixes ops :: "('k, 'v) cache_op list" and n :: int
  defines "c \<equiv> fold cache_step ops (NewExpiryCache n)"
  shows "cache_Len c \<le> nat (max 1 n) \<and>
    (fst (cache_Get k now c) = Some v \<longrightarrow> (\<exists>x. last_set k ops = Some (v, x) \<and> now < x))"
proof -
  have h: "cache_inv c" "c_capacity c = nat (max 1 n)"
    "\<And>k p. cache_view c k = Some p \<Longrightarrow> last_set k ops = Some p"
    using cache_history [of ops n] unfolding c_def by blast+
  then show ?thesis using cache_Len_bound [OF h(1)] ec.get_SomeD [OF h(1)] by metis
qed

theorem cache_serves_last_fresh_value_witness:
  "fst (cache_Get (1::nat) 4 (fold cache_step
      [OpSet 1 ''a'' 5, OpSet 2 ''b'' 9, OpGet 1 3, OpSet 3 ''c'' 9] (NewExpiryCache 2))) = Some ''a'' \<and>
   (\<exists>x. last_set (1::nat) [OpSet 1 ''a'' 5, OpSet 2 ''b'' 9, OpGet 1 3, OpSet 3 ''c'' 9] = Some (''a'', x) \<and> 4 < x)"
proof
  show hit: "fst (cache_Get (1::nat) 4 (fold cache_step
      [OpSet 1 ''a'' 5, OpSet 2 ''b'' 9, OpGet 1 3, OpSet 3 ''c'' 9] (NewExpiryCache 2))) = Some ''a''"
    by code_simp
  then show "\<exists>x. last_set (1::nat) [OpSet 1 ''a'' 5, OpSet 2 ''b'' 9, OpGet 1 3, OpSet 3 ''c'' 9] = Some (''a'', x) \<and> 4 < x"
    using cache_serves_last_fresh_value [where n = 2 and k = 1 and now = 4 and v = "''a''"
        and ops = "[OpSet 1 ''a'' 5, OpSet 2 ''b'' 9, OpGet 1 3, OpSet 3 ''c'' 9]"] by blast
qed

text \<open>
  C38. On every reachable state the map-and-list cache is a least-recently-used list: \<open>Get\<close> moves a
  live entry to the front and drops an expired one, \<open>Set\<close> puts the entry in front and evicts exactly
  the last entry of a full cache, \<open>Prune\<close> keeps exactly the unexpired entries in order.
\<close>

theorem cache_refines_lru:
  assumes "cache_inv c"
  shows "map_prod id entries_of (cache_Get k now c) = lru_get k now (entries_of c) \<and>
    entries_of (cache_Set k v x c) = lru_set (c_capacity c) k v x (entries_of c) \<and>
    entries_of (cache_Prune now c) = lru_prune now (entries_of c) \<and>
    cache_Len c = length (entries_of c) \<and> length (entries_of c) \<le> c_capacity c \<and>
    cache_inv (snd (cache_Get k now c)) \<and> cache_inv (cache_Set k v x c) \<and> cache_inv (cache_Prune now c)"
  using cache_Get_refines [OF assms] cache_Set_refines [OF assms] cache_Prune_refines [OF assms]
    cache_Len_refines [OF assms] cache_Len_bound [OF assms]
    cache_Get_inv [OF assms] cache_Set_inv [OF assms] cache_Prune_inv [OF assms] by metis

theorem cache_refines_lru_witness:
  "entries_of (cache_Set (2::nat) ''b'' 7 (NewExpiryCache 1)) =
     lru_set 1 2 ''b'' 7 (entries_of (NewExpiryCache 1))"
  using cache_refines_lru [OF NewExpiryCache_inv [of 1], where k = "2::nat" and v = "''b''" and x = 7 and now = 0]
  by (simp add: NewExpiryCache_def)

end
