(* ===== verification/Robots_Guard.thy ===== *)
theory Robots_Guard
  imports Egress_Guard Expiry_Cache
begin

text \<open>
  The robots.txt check of \<open>internal/jobs/scraper/robots_guard.go\<close>: the blocklist and the outbound guard
  first, then a verdict from the cached or freshly fetched rules of the origin. It uses the cache
  through the laws of \<open>expiring_cache\<close> only. The HTTP client and the \<open>robotstxt\<close> package are fields
  of an environment; every read of the clock is an argument.
\<close>

record 'd robotsCacheEntry =
  rce_data :: "'d option"
  rce_fetched :: instant

record RobotsCheckResult =
  Allowed :: bool
  RobotsFound :: bool

datatype RobotsError = WebsiteBlocked | UnsafeTarget OutboundError | ParseTarget | MissingHost | FetchError

record ('d, 'g) robots_env =
  blockedSites :: "string set"
  egressAllowed :: bool
  url_Parse :: "string \<Rightarrow> URL option"
  url_ParseRequestURI :: "string \<Rightarrow> URL option"
  net_ParseIP :: "string \<Rightarrow> u8 list option"
  net_LookupNetIP :: "string \<Rightarrow> Addr list option"
  http_Do :: "string \<Rightarrow> duration \<Rightarrow> (nat \<times> string) option"
  FromResponse :: "nat \<times> string \<Rightarrow> 'd option"
  FindGroup :: "'d \<Rightarrow> string \<Rightarrow> 'g option"
  group_Test :: "'g \<Rightarrow> string \<Rightarrow> bool"

type_synonym 'd robots_cache = "(string, 'd robotsCacheEntry) ExpiryCache"

definition robotsCacheTTL :: duration where "robotsCacheTTL = hour"

definition scraperUserAgent :: string where "scraperUserAgent = ''magpie-scraper/1.0''"

definition default_scheme :: "URL \<Rightarrow> string" where
  "default_scheme parsed = (if u_Scheme parsed = [] then ''https'' else u_Scheme parsed)"

definition robotsCacheKey :: "URL \<Rightarrow> string" where
  "robotsCacheKey parsed = default_scheme parsed @ ''://'' @ u_Host parsed"

definition robotsURLFor :: "URL \<Rightarrow> string" where
  "robotsURLFor parsed = default_scheme parsed @ ''://'' @ u_Host parsed @ ''/robots.txt''"

definition effectiveRobotsTimeout :: "duration \<Rightarrow> duration" where
  "effectiveRobotsTimeout timeout = (if timeout \<le> 0 then 10 * second else timeout)"

definition fetchRobotsEntry :: "('d, 'g) robots_env \<Rightarrow> URL \<Rightarrow> duration \<Rightarrow> 'd robotsCacheEntry option" where
  "fetchRobotsEntry env parsed timeout =
     (case http_Do env (robotsURLFor parsed) timeout of
        None \<Rightarrow> None
      | Some resp \<Rightarrow>
          if 400 \<le> fst resp then Some \<lparr>rce_data = None, rce_fetched = 0\<rparr>
          else (case FromResponse env resp of
                  None \<Rightarrow> None
                | Some d \<Rightarrow> Some \<lparr>rce_data = Some d, rce_fetched = 0\<rparr>))"

definition loadRobotsEntry :: "('d, 'g) robots_env \<Rightarrow> URL \<Rightarrow> duration \<Rightarrow> instant \<Rightarrow> instant \<Rightarrow> 'd robots_cache \<Rightarrow>
    'd robotsCacheEntry option \<times> 'd robots_cache" where
  "loadRobotsEntry env parsed timeout now fetched cache =
     (let key = robotsCacheKey parsed in
      case cache_Get key now cache of
        (Some entry, cache) \<Rightarrow> (Some entry, cache)
      | (None, cache) \<Rightarrow>
          (case fetchRobotsEntry env parsed timeout of
             None \<Rightarrow> (None, cache)
           | Some entry \<Rightarrow>
               let entry = entry\<lparr>rce_fetched := fetched\<rparr>
               in (Some entry, cache_Set key entry (fetched + robotsCacheTTL) cache)))"

definition robots_verdict :: "('d, 'g) robots_env \<Rightarrow> 'd option \<Rightarrow> URL \<Rightarrow> RobotsCheckResult" where
  "robots_verdict env entry_data parsed =
     (case entry_data of
        None \<Rightarrow> \<lparr>Allowed = True, RobotsFound = False\<rparr>
      | Some d \<Rightarrow>
          let group = (case FindGroup env d scraperUserAgent of None \<Rightarrow> FindGroup env d ''*'' | Some g \<Rightarrow> Some g) in
          (case group of
             None \<Rightarrow> \<lparr>Allowed = True, RobotsFound = True\<rparr>
           | Some g \<Rightarrow>
               let path = (if u_EscapedPath parsed = [] then ''/'' else u_EscapedPath parsed)
               in \<lparr>Allowed = group_Test env g path, RobotsFound = True\<rparr>))"

definition CheckRobotsAllowance :: "('d, 'g) robots_env \<Rightarrow> string \<Rightarrow> duration \<Rightarrow> instant \<Rightarrow> instant \<Rightarrow> 'd robots_cache \<Rightarrow>
    (RobotsCheckResult \<times> RobotsError option) \<times> 'd robots_cache" where
  "CheckRobotsAllowance env targetURL timeout now fetched cache =
     (if isWebsiteBlocked (url_Parse env) targetURL (blockedSites env)
      then ((\<lparr>Allowed = False, RobotsFound = False\<rparr>, Some WebsiteBlocked), cache)
      else case ValidateOutboundHTTPURLContext (egressAllowed env) (url_ParseRequestURI env) (net_ParseIP env)
                  (net_LookupNetIP env) targetURL of
        Inl e \<Rightarrow> ((\<lparr>Allowed = False, RobotsFound = False\<rparr>, Some (UnsafeTarget e)), cache)
      | Inr _ \<Rightarrow>
          (case url_Parse env targetURL of
             None \<Rightarrow> ((\<lparr>Allowed = True, RobotsFound = False\<rparr>, Some ParseTarget), cache)
           | Some parsed \<Rightarrow>
               if u_Host parsed = [] then ((\<lparr>Allowed = True, RobotsFound = False\<rparr>, Some MissingHost), cache)
               else (case loadRobotsEntry env parsed (effectiveRobotsTimeout timeout) now fetched cache of
                       (None, cache) \<Rightarrow> ((\<lparr>Allowed = True, RobotsFound = False\<rparr>, Some FetchError), cache)
                     | (Some entry, cache) \<Rightarrow> ((robots_verdict env (rce_data entry) parsed, None), cache))))"

definition PruneRobotsCache :: "instant \<Rightarrow> 'd robots_cache \<Rightarrow> 'd robots_cache" where
  "PruneRobotsCache now cache = cache_Prune now cache"

subsection \<open>Every cached entry is a dated answer of its origin\<close>

text \<open>
  \<open>answers\<close> is the set of rules (or their absence) each origin has served; an environment is
  accounted for when its fetches stay in that set, so the environment may change between checks.
\<close>

definition accounted :: "(string \<times> 'd option) set \<Rightarrow> ('d, 'g) robots_env \<Rightarrow> bool" where
  "accounted answers env \<longleftrightarrow>
     (\<forall>parsed timeout e. fetchRobotsEntry env parsed timeout = Some e \<longrightarrow> (robotsCacheKey parsed, rce_data e) \<in> answers)"

definition dated_answer :: "(string \<times> 'd option) set \<Rightarrow> string \<Rightarrow> 'd robotsCacheEntry \<Rightarrow> instant \<Rightarrow> bool" where
  "dated_answer answers key e expires \<longleftrightarrow> (key, rce_data e) \<in> answers \<and> expires = rce_fetched e + robotsCacheTTL"

definition robots_inv :: "(string \<times> 'd option) set \<Rightarrow> 'd robots_cache \<Rightarrow> bool" where
  "robots_inv answers cache \<longleftrightarrow> ec.stored_all (dated_answer answers) cache"

lemma robots_inv_new: "robots_inv answers (NewExpiryCache 2000)"
  by (simp add: robots_inv_def ec.stored_all_def NewExpiryCache_inv NewExpiryCache_view)

lemma robots_inv_prune: "robots_inv answers cache \<Longrightarrow> robots_inv answers (PruneRobotsCache now cache)"
  unfolding robots_inv_def PruneRobotsCache_def by (rule ec.stored_all_prune)

lemma loadRobotsEntry_ok:
  assumes "robots_inv answers cache" "accounted answers env"
    "loadRobotsEntry env parsed timeout now fetched cache = (r, cache')"
  shows "robots_inv answers cache' \<and>
    (\<forall>e. r = Some e \<longrightarrow> (robotsCacheKey parsed, rce_data e) \<in> answers \<and>
       (now < rce_fetched e + robotsCacheTTL \<or> rce_fetched e = fetched))"
proof (cases "fst (cache_Get (robotsCacheKey parsed) now cache)")
  case (Some e)
  then have "r = Some e" "cache' = snd (cache_Get (robotsCacheKey parsed) now cache)"
    using assms(3) by (auto simp: loadRobotsEntry_def Let_def split: prod.splits option.splits)
  then show ?thesis
    using ec.stored_all_hit [OF assms(1) [unfolded robots_inv_def] Some] assms(1) ec.stored_all_get
    by (auto simp: robots_inv_def dated_answer_def)
next
  case None
  let ?c = "snd (cache_Get (robotsCacheKey parsed) now cache)"
  have inv: "ec.stored_all (dated_answer answers) ?c"
    using assms(1) unfolding robots_inv_def by (rule ec.stored_all_get)
  from None assms(3) have step: "(r, cache') = (case fetchRobotsEntry env parsed timeout of
      None \<Rightarrow> (None, ?c)
    | Some e \<Rightarrow> (Some (e\<lparr>rce_fetched := fetched\<rparr>),
        cache_Set (robotsCacheKey parsed) (e\<lparr>rce_fetched := fetched\<rparr>) (fetched + robotsCacheTTL) ?c))"
    by (auto simp: loadRobotsEntry_def Let_def split: prod.splits option.splits)
  show ?thesis
  proof (cases "fetchRobotsEntry env parsed timeout")
    case None
    with step inv show ?thesis by (simp add: robots_inv_def)
  next
    case (Some e)
    then have "(robotsCacheKey parsed, rce_data e) \<in> answers"
      using assms(2) unfolding accounted_def by blast
    moreover from this have "dated_answer answers (robotsCacheKey parsed) (e\<lparr>rce_fetched := fetched\<rparr>) (fetched + robotsCacheTTL)"
      by (simp add: dated_answer_def)
    ultimately show ?thesis
      using step Some ec.stored_all_put [OF inv] by (auto simp: robots_inv_def)
  qed
qed

text \<open>
  A robots verdict without error rests on rules that the target's own origin served, fetched
  during this check or less than one hour before it; the verdict is exactly what those rules say of the
  path. A blocked site or an unsafe target is refused before the cache or the network is touched, and
  every check keeps the cache in this state.
\<close>

lemma robots_verdict_justified:
  fixes env :: "('d, 'g) robots_env" and cache cache' :: "'d robots_cache"
  assumes "robots_inv answers cache" "accounted answers env"
    "CheckRobotsAllowance env target timeout now fetched cache = ((res, err), cache')"
  shows "robots_inv answers cache' \<and>
    (err = None \<longrightarrow> (\<exists>parsed (e :: 'd robotsCacheEntry). url_Parse env target = Some parsed \<and>
       (robotsCacheKey parsed, rce_data e) \<in> answers \<and>
       (now < rce_fetched e + robotsCacheTTL \<or> rce_fetched e = fetched) \<and>
       res = robots_verdict env (rce_data e) parsed)) \<and>
    (isWebsiteBlocked (url_Parse env) target (blockedSites env) \<longrightarrow> \<not> Allowed res \<and> cache' = cache) \<and>
    (\<forall>e. ValidateOutboundHTTPURLContext (egressAllowed env) (url_ParseRequestURI env) (net_ParseIP env)
       (net_LookupNetIP env) target = Inl e \<longrightarrow> \<not> Allowed res \<and> cache' = cache)"
proof -
  have load: "loadRobotsEntry env parsed t now fetched cache = (r, c) \<Longrightarrow> robots_inv answers c \<and>
    (\<forall>e. r = Some e \<longrightarrow> (robotsCacheKey parsed, rce_data e) \<in> answers \<and>
       (now < rce_fetched e + robotsCacheTTL \<or> rce_fetched e = fetched))" for parsed t r c
    using assms(1,2) by (rule loadRobotsEntry_ok)
  show ?thesis
    using assms(1,3)
    by (auto simp: CheckRobotsAllowance_def dest!: load split: if_splits sum.splits option.splits prod.splits)
qed

text \<open>An origin whose rules forbid everything to every agent.\<close>

definition closed_site :: "(bool, bool) robots_env" where
  "closed_site = \<lparr>blockedSites = {}, egressAllowed = True,
     url_Parse = (\<lambda>s. Some \<lparr>u_Scheme = ''https'', u_Host = ''a.test'', u_Hostname = ''a.test'', u_HasUser = False, u_EscapedPath = ''/p''\<rparr>),
     url_ParseRequestURI = (\<lambda>s. Some \<lparr>u_Scheme = ''https'', u_Host = ''a.test'', u_Hostname = ''a.test'', u_HasUser = False, u_EscapedPath = ''/p''\<rparr>),
     net_ParseIP = (\<lambda>s. None), net_LookupNetIP = (\<lambda>s. None), http_Do = (\<lambda>url t. Some (200, [])),
     FromResponse = (\<lambda>r. Some False), FindGroup = (\<lambda>d agent. if agent = ''*'' then Some d else None),
     group_Test = (\<lambda>g path. g)\<rparr>"

theorem robots_verdict_justified_witness:
  "\<exists>res cache'. CheckRobotsAllowance closed_site ''https://a.test/p'' 0 5 7 (NewExpiryCache 2000) = ((res, None), cache') \<and>
     \<not> Allowed res \<and> robots_inv UNIV cache'"
proof -
  obtain res err cache' where run: "CheckRobotsAllowance closed_site ''https://a.test/p'' 0 5 7 (NewExpiryCache 2000) = ((res, err), cache')"
    by (metis surj_pair)
  have "fst (CheckRobotsAllowance closed_site ''https://a.test/p'' 0 5 7 (NewExpiryCache 2000)) =
      (\<lparr>Allowed = False, RobotsFound = True\<rparr>, None)" by code_simp
  with run have "err = None" "\<not> Allowed res" by auto
  moreover have "accounted UNIV closed_site" by (simp add: accounted_def)
  then have "robots_inv UNIV cache'" using robots_verdict_justified [OF robots_inv_new _ run] by blast
  ultimately show ?thesis using run by blast
qed

end
