(* ===== verification/Checker_Plans.thy ===== *)
theory Checker_Plans
  imports Checker_Settings "HOL-Library.List_Lexorder" "HOL-Library.Char_ord"
begin

text \<open>
  The compiled checker plans of \<open>internal/checkerconfig\<close>: the sharded route table of
  \<open>proxy_plans.go\<close> with its incremental \<open>Merge\<close>, and the snapshot compiler and cache of \<open>cache.go\<close>.
  A snapshot answers, for every proxy, with the plan that resolving its tags would give; a merge of
  the changed routes is as good as a rebuild. SHA-256, \<open>%q\<close> quoting, JSON and the judge's URL scheme
  are fields of an environment; the loader of a snapshot is an argument.
\<close>

subsection \<open>Data\<close>

record Judge =
  j_ID :: u64
  j_FullString :: string

record JudgeWithRegex =
  jr_Judge :: "Judge option"
  jr_Regex :: string

record Plan =
  pl_Settings :: "ProtocolCheckSettings list"
  pl_Keys :: "string list"
  pl_Judges :: "JudgeWithRegex list list"
  pl_JudgeSets :: "u32 list"
  pl_Headers :: "string list"

record ProxyTagAssignment =
  pa_WorkspaceID :: u64
  pa_ProxyID :: u64
  pa_ProxyTagID :: u64

text \<open>A route table: one map per shard (a nil map reads as empty) and the number of routes.\<close>

record 'p ProxyPlans =
  pp_shards :: "u64 \<Rightarrow> u64 \<rightharpoonup> 'p"
  pp_count :: int

subsection \<open>The sharded route table\<close>

definition proxyPlanShardCount :: u64 where "proxyPlanShardCount = 4096"

definition shard_of :: "u64 \<Rightarrow> u64" where
  "shard_of rid = rid AND (proxyPlanShardCount - 1)"

definition empty_plans :: "'p ProxyPlans" where
  "empty_plans = \<lparr>pp_shards = (\<lambda>_. Map.empty), pp_count = 0\<rparr>"

definition plans_Get :: "'p ProxyPlans option \<Rightarrow> u64 \<Rightarrow> 'p option" where
  "plans_Get p rid = (case p of None \<Rightarrow> None | Some p \<Rightarrow> pp_shards p (shard_of rid) rid)"

definition plans_Len :: "'p ProxyPlans option \<Rightarrow> int" where
  "plans_Len p = (case p of None \<Rightarrow> 0 | Some p \<Rightarrow> pp_count p)"

definition shard_write :: "u64 \<Rightarrow> 'p option \<Rightarrow> 'p ProxyPlans \<Rightarrow> 'p ProxyPlans" where
  "shard_write rid v p = p\<lparr>pp_shards := (pp_shards p)(shard_of rid := (pp_shards p (shard_of rid))(rid := v))\<rparr>"

definition plans_set :: "u64 \<Rightarrow> 'p \<Rightarrow> 'p ProxyPlans \<Rightarrow> 'p ProxyPlans" where
  "plans_set rid plan p =
     (let p = (if pp_shards p (shard_of rid) rid = None then p\<lparr>pp_count := pp_count p + 1\<rparr> else p)
      in shard_write rid (Some plan) p)"

text \<open>
  Two routes need no rewrite when both are absent or both have the same keys (the same plan
  object has the same keys). The copy of a shard before its first change is not visible in a
  model whose tables are values.
\<close>

definition same_route :: "('p \<Rightarrow> 'k) \<Rightarrow> 'p option \<Rightarrow> 'p option \<Rightarrow> bool" where
  "same_route keys before after \<longleftrightarrow>
     (case (before, after) of (None, None) \<Rightarrow> True | (Some b, Some a) \<Rightarrow> keys b = keys a | _ \<Rightarrow> False)"

fun merge_loop :: "('p \<Rightarrow> 'k) \<Rightarrow> 'p ProxyPlans option \<Rightarrow> 'p ProxyPlans option \<Rightarrow> u64 list \<Rightarrow>
    'p ProxyPlans option \<Rightarrow> 'p ProxyPlans option" where
  "merge_loop keys previous patch [] nxt = nxt"
| "merge_loop keys previous patch (rid # rids) nxt =
     (let before = plans_Get previous rid; after = plans_Get patch rid in
      if same_route keys before after then merge_loop keys previous patch rids nxt
      else
        let table = (case nxt of
              Some n \<Rightarrow> n
            | None \<Rightarrow> (case previous of Some p \<Rightarrow> p | None \<Rightarrow> empty_plans));
            table = shard_write rid after table;
            table = (if after = None then table\<lparr>pp_count := pp_count table - 1\<rparr>
                     else if before = None then table\<lparr>pp_count := pp_count table + 1\<rparr> else table)
        in merge_loop keys previous patch rids (Some table))"

definition mergeProxyPlans :: "('p \<Rightarrow> 'k) \<Rightarrow> 'p ProxyPlans option \<Rightarrow> 'p ProxyPlans option \<Rightarrow> u64 list \<Rightarrow>
    'p ProxyPlans option" where
  "mergeProxyPlans keys previous patch rids =
     (case merge_loop keys previous patch rids None of None \<Rightarrow> previous | Some nxt \<Rightarrow> Some nxt)"

lemma shard_write_get [simp]:
  "plans_Get (Some (shard_write rid v p)) j = (if j = rid then v else plans_Get (Some p) j)"
  by (auto simp: plans_Get_def shard_write_def)

lemma shard_write_count [simp]: "pp_count (shard_write rid v p) = pp_count p"
  by (simp add: shard_write_def)

lemma count_update_get [simp]: "plans_Get (Some (p\<lparr>pp_count := n\<rparr>)) j = plans_Get (Some p) j"
  by (simp add: plans_Get_def)

lemma empty_plans_get [simp]: "plans_Get (Some empty_plans) j = None" "plans_Get None j = None"
  by (simp_all add: plans_Get_def empty_plans_def)

text \<open>
  The well-formedness of a table: finitely many routes, each in the shard of its id, and the
  counter equal to their number.
\<close>

definition plans_ok :: "'p ProxyPlans option \<Rightarrow> bool" where
  "plans_ok p \<longleftrightarrow> finite {rid. plans_Get p rid \<noteq> None} \<and> plans_Len p = int (card {rid. plans_Get p rid \<noteq> None}) \<and>
     (\<forall>t. p = Some t \<longrightarrow> (\<forall>s rid. pp_shards t s rid \<noteq> None \<longrightarrow> s = shard_of rid))"

lemma plans_okD:
  assumes "plans_ok p"
  shows "finite {rid. plans_Get p rid \<noteq> None}" "plans_Len p = int (card {rid. plans_Get p rid \<noteq> None})"
  using assms by (simp_all add: plans_ok_def)

lemma plans_ok_empty: "plans_ok (Some empty_plans)" "plans_ok None"
  by (simp_all add: plans_ok_def plans_Len_def empty_plans_def plans_Get_def)

lemma card_routes_update:
  assumes "finite {rid. f rid \<noteq> None}"
  shows "int (card {rid. (f(i := v)) rid \<noteq> None}) =
    int (card {rid. f rid \<noteq> None}) + (if v = None then (if f i = None then 0 else -1) else if f i = None then 1 else 0)"
proof -
  have "{rid. (f(i := v)) rid \<noteq> None} =
      (if v = None then {rid. f rid \<noteq> None} - {i} else insert i {rid. f rid \<noteq> None})"
    by auto
  then show ?thesis
    using assms card_gt_0_iff [of "{rid. f rid \<noteq> None}"]
    by (auto simp: card_Diff_singleton_if card_insert_if of_nat_diff Suc_le_eq)
qed

lemma plans_ok_write:
  assumes "plans_ok (Some p)"
    and "n = pp_count p + (if v = None then (if plans_Get (Some p) i = None then 0 else -1)
           else if plans_Get (Some p) i = None then 1 else 0)"
  shows "plans_ok (Some ((shard_write i v p)\<lparr>pp_count := n\<rparr>))"
proof -
  let ?f = "plans_Get (Some p)"
  have "plans_Get (Some ((shard_write i v p)\<lparr>pp_count := n\<rparr>)) = ?f(i := v)" by auto
  moreover have "finite {rid. (?f(i := v)) rid \<noteq> None}"
    by (rule finite_subset [of _ "insert i {rid. ?f rid \<noteq> None}"]) (use assms(1) in \<open>auto simp: plans_ok_def\<close>)
  moreover have "pp_shards (shard_write i v p) s rid \<noteq> None \<Longrightarrow> s = shard_of rid" for s rid
    using assms(1) by (auto simp: plans_ok_def shard_write_def split: if_splits)
  ultimately show ?thesis
    using assms card_routes_update [OF plans_okD(1) [OF assms(1)], of i v]
    by (auto simp: plans_ok_def plans_Len_def)
qed

lemma plans_set_get [simp]: "plans_Get (Some (plans_set rid plan p)) j = (if j = rid then Some plan else plans_Get (Some p) j)"
  by (simp add: plans_set_def)

lemma plans_set_ok:
  assumes "plans_ok (Some p)" shows "plans_ok (Some (plans_set rid plan p))"
proof -
  have "plans_set rid plan p = (shard_write rid (Some plan) p)\<lparr>pp_count :=
      pp_count p + (if plans_Get (Some p) rid = None then 1 else 0)\<rparr>"
    by (auto simp: plans_set_def plans_Get_def shard_write_def)
  with plans_ok_write [OF assms, of _ "Some plan" rid] show ?thesis by simp
qed

definition table_of :: "'p ProxyPlans option \<Rightarrow> 'p ProxyPlans" where
  "table_of p = (case p of None \<Rightarrow> empty_plans | Some t \<Rightarrow> t)"

lemma table_of_get [simp]: "plans_Get (Some (table_of p)) rid = plans_Get p rid"
  by (cases p) (simp_all add: table_of_def)

lemma table_of_ok: "plans_ok p \<Longrightarrow> plans_ok (Some (table_of p))"
  by (cases p) (simp_all add: table_of_def plans_ok_empty)

text \<open>The value of \<open>nxt\<close> the loop continues with, \<open>previous\<close> standing for nil.\<close>

definition merge_step :: "('p \<Rightarrow> 'k) \<Rightarrow> 'p ProxyPlans option \<Rightarrow> 'p ProxyPlans option \<Rightarrow> u64 \<Rightarrow>
    'p ProxyPlans option \<Rightarrow> 'p ProxyPlans option" where
  "merge_step keys previous patch rid nxt = merge_loop keys previous patch [rid] nxt"

lemma merge_loop_Cons:
  "merge_loop keys previous patch (rid # rids) nxt =
     merge_loop keys previous patch rids (merge_step keys previous patch rid nxt)"
  by (simp add: merge_step_def Let_def)

definition current :: "'p ProxyPlans option \<Rightarrow> 'p ProxyPlans option \<Rightarrow> 'p ProxyPlans option" where
  "current previous nxt = (case nxt of None \<Rightarrow> previous | Some n \<Rightarrow> Some n)"

lemma merge_step_get:
  "plans_Get (current previous (merge_step keys previous patch rid nxt)) j =
     (if j = rid \<and> \<not> same_route keys (plans_Get previous rid) (plans_Get patch rid) then plans_Get patch rid
      else plans_Get (current previous nxt) j)"
  by (cases nxt; cases previous) (auto simp: merge_step_def current_def Let_def)

lemma merge_step_ok:
  assumes "plans_ok (current previous nxt)" "plans_Get (current previous nxt) rid = plans_Get previous rid"
  shows "plans_ok (current previous (merge_step keys previous patch rid nxt))"
proof (cases "same_route keys (plans_Get previous rid) (plans_Get patch rid)")
  case True
  with assms(1) show ?thesis by (simp add: merge_step_def Let_def)
next
  case False
  let ?t = "table_of (current previous nxt)" and ?v = "plans_Get patch rid"
  let ?n = "pp_count ?t + (if ?v = None then -1 else if plans_Get previous rid = None then 1 else 0)"
  have "current previous (merge_step keys previous patch rid nxt) = Some ((shard_write rid ?v ?t)\<lparr>pp_count := ?n\<rparr>)"
    using False by (cases nxt; cases previous)
      (auto simp: merge_step_def current_def table_of_def Let_def shard_write_def)
  moreover have "?v = None \<Longrightarrow> plans_Get previous rid \<noteq> None"
    using False by (auto simp: same_route_def split: option.splits)
  ultimately show ?thesis
    using plans_ok_write [OF table_of_ok [OF assms(1)], of ?n ?v rid] assms(2) by auto
qed

lemma merge_loop_get:
  "plans_Get (current previous (merge_loop keys previous patch rids nxt)) j =
     (if j \<in> set rids \<and> \<not> same_route keys (plans_Get previous j) (plans_Get patch j) then plans_Get patch j
      else plans_Get (current previous nxt) j)"
  by (induction rids arbitrary: nxt) (auto simp: merge_loop_Cons merge_step_get simp del: merge_loop.simps(2))

lemma merge_loop_ok:
  assumes "plans_ok (current previous nxt)" "distinct rids"
    "\<forall>rid \<in> set rids. plans_Get (current previous nxt) rid = plans_Get previous rid"
  shows "plans_ok (current previous (merge_loop keys previous patch rids nxt))"
  using assms
proof (induction rids arbitrary: nxt)
  case (Cons rid rids)
  then show ?case
    using Cons.IH [of "merge_step keys previous patch rid nxt"] merge_step_ok [of previous nxt rid keys patch]
    by (auto simp: merge_loop_Cons merge_step_get simp del: merge_loop.simps(2))
qed simp

lemma mergeProxyPlans_get:
  "plans_Get (mergeProxyPlans keys previous patch rids) j =
     (if j \<in> set rids \<and> \<not> same_route keys (plans_Get previous j) (plans_Get patch j) then plans_Get patch j
      else plans_Get previous j)"
  using merge_loop_get [of previous keys patch rids None j]
  by (simp add: mergeProxyPlans_def current_def split: option.splits)

lemma merge_loop_shards:
  "s \<notin> shard_of ` set rids \<Longrightarrow>
     pp_shards (table_of (current previous (merge_loop keys previous patch rids nxt))) s =
     pp_shards (table_of (current previous nxt)) s"
proof (induction rids arbitrary: nxt)
  case (Cons r rids)
  have "pp_shards (table_of (current previous (merge_step keys previous patch r nxt))) s =
      pp_shards (table_of (current previous nxt)) s"
    using Cons.prems
    by (cases nxt; cases previous) (auto simp: merge_step_def current_def table_of_def Let_def shard_write_def)
  with Cons show ?case by (simp add: merge_loop_Cons del: merge_loop.simps(2))
qed simp

subsection \<open>Compiling a snapshot\<close>

fun dec :: "nat \<Rightarrow> string" where
  "dec n = (if n < 10 then [char_of (48 + n)] else dec (n div 10) @ [char_of (48 + n mod 10)])"

declare dec.simps [simp del]

record plan_env =
  pe_scheme :: "string \<Rightarrow> string"
  pe_quote :: "string \<Rightarrow> string"
  pe_sha256hex :: "string \<Rightarrow> string"
  pe_jsonBase :: "CheckerProfileSettings \<Rightarrow> bool \<Rightarrow> string list \<Rightarrow> string list \<Rightarrow> string"
  pe_jsonRules :: "TagCheckerRule list \<Rightarrow> string"
  pe_jsonPolicy :: "bool \<Rightarrow> u8 \<Rightarrow> string \<Rightarrow> string"

text \<open>\<open>internJudgeSet\<close>: the table of identities is the state.\<close>

definition internJudgeSet :: "string \<Rightarrow> (string \<times> u32) list \<Rightarrow> u32 \<times> (string \<times> u32) list" where
  "internJudgeSet jset table =
     (case map_of table jset of
        Some i \<Rightarrow> (i, table)
      | None \<Rightarrow> let i = of_nat (length table + 1) in (i, (jset, i) # table))"

definition judge_id :: "JudgeWithRegex \<Rightarrow> u64" where
  "judge_id jr = (case jr_Judge jr of None \<Rightarrow> 0 | Some j \<Rightarrow> j_ID j)"

definition judge_url :: "JudgeWithRegex \<Rightarrow> string" where
  "judge_url jr = (case jr_Judge jr of None \<Rightarrow> [] | Some j \<Rightarrow> j_FullString j)"

definition plan_scheme :: "bool \<Rightarrow> nat \<Rightarrow> ProtocolCheckSettings \<Rightarrow> string" where
  "plan_scheme useHttpsForSocks index setting =
     (let scheme = CheckerProtocols ! index;
          scheme = (if 2 \<le> index then (if useHttpsForSocks then ''https'' else ''http'') else scheme)
      in if pcs_transport setting = ''quic'' \<or> pcs_transport setting = ''http3'' then ''https'' else scheme)"

definition plan_judges :: "plan_env \<Rightarrow> bool \<Rightarrow> JudgeWithRegex list \<Rightarrow> nat \<Rightarrow> ProtocolCheckSettings \<Rightarrow> JudgeWithRegex list" where
  "plan_judges env https judges index setting =
     sort_key (\<lambda>jr. unat (judge_id jr))
       (filter (\<lambda>jr. jr_Judge jr \<noteq> None \<and> pe_scheme env (judge_url jr) = plan_scheme https index setting) judges)"

definition judge_set_text :: "JudgeWithRegex list \<Rightarrow> string" where
  "judge_set_text js = concat (map (\<lambda>(position, jr). (if 0 < position then '','' else []) @ dec (unat (judge_id jr)))
     (zip [0..<length js] js))"

definition plan_identity :: "plan_env \<Rightarrow> nat \<Rightarrow> ProtocolCheckSettings \<Rightarrow> JudgeWithRegex list \<Rightarrow> string list \<Rightarrow> string" where
  "plan_identity env index setting js headers =
     CheckerProtocols ! index @ CHR 0x00 # pcs_transport setting @ CHR 0x00 # dec (unat (pcs_timeout setting)) @
     CHR 0x00 # dec (unat (pcs_retries setting)) @
     concat (map (\<lambda>jr. CHR 0x00 # dec (unat (judge_id jr)) @ CHR 0x00 # pe_quote env (judge_url jr) @
       CHR 0x00 # pe_quote env (jr_Regex jr)) js) @
     concat (map (\<lambda>h. CHR 0x00 # pe_quote env h) headers)"

text \<open>The work of \<open>compile\<close> for one protocol: its judges, the interned identity and the key.\<close>

definition compile_protocol :: "plan_env \<Rightarrow> bool \<Rightarrow> JudgeWithRegex list \<Rightarrow> string list \<Rightarrow> nat \<Rightarrow> ProtocolCheckSettings \<Rightarrow>
    (string \<times> u32) list \<Rightarrow> (JudgeWithRegex list \<times> u32 \<times> string) \<times> (string \<times> u32) list" where
  "compile_protocol env https judges headers index setting table =
     (if \<not> pcs_enabled setting then (([], 0, []), table)
      else let js = plan_judges env https judges index setting in
        (case internJudgeSet (judge_set_text js) table of
           (i, table) \<Rightarrow> ((js, i, pe_sha256hex env (plan_identity env index setting js headers)), table)))"

fun compile_protocols :: "plan_env \<Rightarrow> bool \<Rightarrow> JudgeWithRegex list \<Rightarrow> string list \<Rightarrow> nat \<Rightarrow> ProtocolCheckSettings list \<Rightarrow>
    (string \<times> u32) list \<Rightarrow> (JudgeWithRegex list \<times> u32 \<times> string) list \<times> (string \<times> u32) list" where
  "compile_protocols env https judges headers index [] table = ([], table)"
| "compile_protocols env https judges headers index (setting # rest) table =
     (case compile_protocol env https judges headers index setting table of
        (one, table) \<Rightarrow>
          (case compile_protocols env https judges headers (Suc index) rest table of
             (others, table) \<Rightarrow> (one # others, table)))"

record build_state =
  bs_compiled :: "(ProtocolCheckSettings list \<times> Plan) list"
  bs_sets :: "(string \<times> u32) list"

definition compile :: "plan_env \<Rightarrow> bool \<Rightarrow> JudgeWithRegex list \<Rightarrow> string list \<Rightarrow> ProtocolCheckSettings list \<Rightarrow>
    build_state \<Rightarrow> Plan \<times> build_state" where
  "compile env https judges headers resolved st =
     (case map_of (bs_compiled st) resolved of
        Some previous \<Rightarrow> (previous, st)
      | None \<Rightarrow>
          (case compile_protocols env https judges headers 0 resolved (bs_sets st) of
             (parts, table) \<Rightarrow>
               let p = \<lparr>pl_Settings = resolved, pl_Keys = map (snd \<circ> snd) parts, pl_Judges = map fst parts,
                        pl_JudgeSets = map (fst \<circ> snd) parts, pl_Headers = headers\<rparr>
               in (p, st\<lparr>bs_compiled := (resolved, p) # bs_compiled st, bs_sets := table\<rparr>)))"

record WorkspaceSnapshot =
  wk_Value :: Workspace
  wk_Default :: Plan
  wk_Proxies :: "Plan ProxyPlans option"
  wk_InputSignature :: string
  wk_BaseSignature :: string
  wk_Generation :: u64

definition snapshot_Plan :: "WorkspaceSnapshot \<Rightarrow> u64 \<Rightarrow> Plan" where
  "snapshot_Plan w proxyID = (case plans_Get (wk_Proxies w) proxyID of Some plan \<Rightarrow> plan | None \<Rightarrow> wk_Default w)"

text \<open>The grouping loop over the assignments, which are sorted by proxy.\<close>

function build_groups :: "plan_env \<Rightarrow> Workspace \<Rightarrow> CheckerSettings \<Rightarrow> JudgeWithRegex list \<Rightarrow> string list \<Rightarrow> Plan \<Rightarrow>
    ProxyTagAssignment list \<Rightarrow> Plan ProxyPlans \<Rightarrow> build_state \<Rightarrow> Plan ProxyPlans \<times> build_state" where
  "build_groups env value settings judges headers dflt [] proxies st = (proxies, st)"
| "build_groups env value settings judges headers dflt (a # as) proxies st =
     (let proxyID = pa_ProxyID a;
          group = a # takeWhile (\<lambda>b. pa_ProxyID b = proxyID) as;
          rest = dropWhile (\<lambda>b. pa_ProxyID b = proxyID) as;
          configured = rule_tagID ` set (cs_rules settings);
          tags = pa_ProxyTagID ` {b \<in> set group. pa_WorkspaceID b = ws_ID value \<and> pa_ProxyTagID b \<in> configured}
      in if tags = {} then build_groups env value settings judges headers dflt rest proxies st
         else (case compile env (ws_UseHttpsForSocks value) judges headers (ResolveCheckerSettings settings tags) st of
                 (plan, st) \<Rightarrow>
                   build_groups env value settings judges headers dflt rest
                     (if pl_Keys plan \<noteq> pl_Keys dflt then plans_set proxyID plan proxies else proxies) st))"
  by pat_completeness auto
termination
  by (relation "measure (\<lambda>(env, value, settings, judges, headers, dflt, as, proxies, st). length as)")
    (auto simp: le_imp_less_Suc length_dropWhile_le)

declare build_groups.simps [simp del]

definition Build :: "plan_env \<Rightarrow> Workspace \<Rightarrow> ProxyTagAssignment list \<Rightarrow> JudgeWithRegex list \<Rightarrow> string list \<Rightarrow>
    (string \<times> u32) list \<Rightarrow> WorkspaceSnapshot \<times> (string \<times> u32) list" where
  "Build env value assignments judges headers table =
     (let settings = DefaultCheckerSettings value;
          sorted_as = (if sorted (map pa_ProxyID assignments) then assignments else sort_key pa_ProxyID assignments);
          names = sort (map (\<lambda>jr. dec (unat (judge_id jr)) @ '' '' @ pe_quote env (judge_url jr) @ '' '' @ pe_quote env (jr_Regex jr))
                    (filter (\<lambda>jr. jr_Judge jr \<noteq> None) judges));
          base = pe_jsonBase env (cs_defaults settings) (ws_UseHttpsForSocks value) headers names;
          input = base @ pe_jsonRules env (cs_rules settings) @
            pe_jsonPolicy env (ws_AutoRemoveFailingProxies value) (ws_AutoRemoveFailureThreshold value) (ws_FailureAction value)
      in case compile env (ws_UseHttpsForSocks value) judges headers (ResolveCheckerSettings settings {})
               \<lparr>bs_compiled = [], bs_sets = table\<rparr> of
           (dflt, st) \<Rightarrow>
             (case build_groups env value settings judges headers dflt sorted_as empty_plans st of
                (proxies, st) \<Rightarrow>
                  (\<lparr>wk_Value = value, wk_Default = dflt, wk_Proxies = Some proxies, wk_InputSignature = input,
                    wk_BaseSignature = base, wk_Generation = ws_CheckerGeneration value\<rparr>, bs_sets st)))"

definition MergeSnapshots :: "WorkspaceSnapshot \<Rightarrow> WorkspaceSnapshot \<Rightarrow> u64 list \<Rightarrow> WorkspaceSnapshot" where
  "MergeSnapshots previous patch rids =
     patch\<lparr>wk_Proxies := mergeProxyPlans pl_Keys (wk_Proxies previous) (wk_Proxies patch) rids,
           wk_Default := wk_Default previous\<rparr>"

subsection \<open>What a compiled plan depends on\<close>

definition key_list :: "plan_env \<Rightarrow> bool \<Rightarrow> JudgeWithRegex list \<Rightarrow> string list \<Rightarrow> nat \<Rightarrow> ProtocolCheckSettings list \<Rightarrow> string list" where
  "key_list env https judges headers index resolved =
     map (\<lambda>(i, setting). if pcs_enabled setting
       then pe_sha256hex env (plan_identity env i setting (plan_judges env https judges i setting) headers) else [])
       (zip [index..<index + length resolved] resolved)"

lemma key_list_Cons [simp]:
  "key_list env https judges headers index (s # rest) =
     (if pcs_enabled s then pe_sha256hex env (plan_identity env index s (plan_judges env https judges index s) headers) else [])
       # key_list env https judges headers (Suc index) rest"
  "key_list env https judges headers index [] = []"
  by (simp_all add: key_list_def upt_rec [of index] del: upt_Suc)

lemma compile_protocols_keys:
  "map (snd \<circ> snd) (fst (compile_protocols env https judges headers index resolved table)) =
     key_list env https judges headers index resolved"
  by (induction resolved arbitrary: index table) (simp_all add: compile_protocol_def Let_def case_prod_beta)

definition compiled_ok :: "plan_env \<Rightarrow> bool \<Rightarrow> JudgeWithRegex list \<Rightarrow> string list \<Rightarrow> build_state \<Rightarrow> bool" where
  "compiled_ok env https judges headers st \<longleftrightarrow>
     (\<forall>r p. map_of (bs_compiled st) r = Some p \<longrightarrow> pl_Keys p = key_list env https judges headers 0 r \<and> pl_Settings p = r)"

lemma compile_ok:
  assumes "compiled_ok env https judges headers st" "compile env https judges headers resolved st = (p, st')"
  shows "pl_Keys p = key_list env https judges headers 0 resolved \<and> pl_Settings p = resolved \<and>
    compiled_ok env https judges headers st'"
proof (cases "map_of (bs_compiled st) resolved")
  case None
  obtain parts table where c: "compile_protocols env https judges headers 0 resolved (bs_sets st) = (parts, table)"
    by fastforce
  then have "map (snd \<circ> snd) parts = key_list env https judges headers 0 resolved"
    using compile_protocols_keys [of env https judges headers 0 resolved "bs_sets st"] by simp
  with None c assms show ?thesis by (auto simp: compile_def compiled_ok_def Let_def split: if_splits)
qed (use assms in \<open>auto simp: compile_def compiled_ok_def\<close>)

subsection \<open>A snapshot agrees with per-proxy resolution\<close>

lemma sorted_group:
  fixes f :: "'a \<Rightarrow> 'b::linorder"
  assumes "sorted (map f (a # as))"
  shows "set (takeWhile (\<lambda>b. f b = f a) as) = {b \<in> set as. f b = f a}"
    "set (dropWhile (\<lambda>b. f b = f a) as) = {b \<in> set as. f b \<noteq> f a}"
    "sorted (map f (dropWhile (\<lambda>b. f b = f a) as))"
proof -
  have drop: "f b \<noteq> f a" if "b \<in> set (dropWhile (\<lambda>b. f b = f a) as)" for b
    using assms that
  proof (induction as)
    case (Cons c as)
    then show ?case
    proof (cases "f c = f a")
      case False
      then have "f a < f c" "f c \<le> f b" using Cons.prems by auto
      then show ?thesis by simp
    qed auto
  qed simp
  have split: "b \<in> set as \<longleftrightarrow> b \<in> set (takeWhile (\<lambda>b. f b = f a) as) \<or> b \<in> set (dropWhile (\<lambda>b. f b = f a) as)" for b
    by (metis Un_iff set_append takeWhile_dropWhile_id)
  have take: "f b = f a" if "b \<in> set (takeWhile (\<lambda>b. f b = f a) as)" for b
    using that by (auto dest: set_takeWhileD)
  show "set (takeWhile (\<lambda>b. f b = f a) as) = {b \<in> set as. f b = f a}"
    "set (dropWhile (\<lambda>b. f b = f a) as) = {b \<in> set as. f b \<noteq> f a}"
    using drop take split by blast+
  show "sorted (map f (dropWhile (\<lambda>b. f b = f a) as))"
    unfolding dropWhile_eq_drop drop_map [symmetric] using assms by (intro sorted_wrt_drop) simp
qed

definition proxy_tags :: "Workspace \<Rightarrow> CheckerSettings \<Rightarrow> ProxyTagAssignment list \<Rightarrow> u64 \<Rightarrow> u64 set" where
  "proxy_tags value settings as proxyID =
     pa_ProxyTagID ` {b \<in> set as. pa_ProxyID b = proxyID \<and> pa_WorkspaceID b = ws_ID value \<and>
       pa_ProxyTagID b \<in> rule_tagID ` set (cs_rules settings)}"

text \<open>The route a snapshot must hold for a set of tags: none when the keys are the default's.\<close>

definition route_for :: "string list \<Rightarrow> string list \<Rightarrow> Plan option \<Rightarrow> bool" where
  "route_for dflt keys route \<longleftrightarrow> (if keys = dflt then route = None else \<exists>p. route = Some p \<and> pl_Keys p = keys)"

definition tag_keys :: "plan_env \<Rightarrow> Workspace \<Rightarrow> CheckerSettings \<Rightarrow> JudgeWithRegex list \<Rightarrow> string list \<Rightarrow> u64 set \<Rightarrow> string list" where
  "tag_keys env value settings judges headers tags =
     key_list env (ws_UseHttpsForSocks value) judges headers 0 (ResolveCheckerSettings settings tags)"

lemma build_groups_ok:
  assumes "sorted (map pa_ProxyID as)" "compiled_ok env (ws_UseHttpsForSocks wsv) judges headers st"
    "plans_ok (Some proxies)" "\<forall>a \<in> set as. plans_Get (Some proxies) (pa_ProxyID a) = None"
    "pl_Keys dflt = tag_keys env wsv settings judges headers {}"
    "build_groups env wsv settings judges headers dflt as proxies st = (proxies', st')"
  shows "plans_ok (Some proxies') \<and>
    (\<forall>rid. if rid \<in> pa_ProxyID ` set as
       then route_for (pl_Keys dflt) (tag_keys env wsv settings judges headers (proxy_tags wsv settings as rid))
         (plans_Get (Some proxies') rid)
       else plans_Get (Some proxies') rid = plans_Get (Some proxies) rid)"
  using assms
proof (induction env wsv settings judges headers dflt as proxies st rule: build_groups.induct)
  case (1 env wsv settings judges headers dflt proxies st)
  then show ?case by (simp add: build_groups.simps)
next
  case (2 env wsv settings judges headers dflt a as proxies st)
  define rest where "rest = dropWhile (\<lambda>b. pa_ProxyID b = pa_ProxyID a) as"
  define tags where "tags = proxy_tags wsv settings (a # as) (pa_ProxyID a)"
  note g = sorted_group [OF "2.prems"(1)]
  have tags_eq: "pa_ProxyTagID ` {b \<in> set (a # takeWhile (\<lambda>b. pa_ProxyID b = pa_ProxyID a) as).
      pa_WorkspaceID b = ws_ID wsv \<and> pa_ProxyTagID b \<in> rule_tagID ` set (cs_rules settings)} = tags"
    unfolding tags_def proxy_tags_def by (rule arg_cong [where f = "image pa_ProxyTagID"]) (auto simp: g(1))
  have mem: "b \<in> set rest \<longleftrightarrow> b \<in> set as \<and> pa_ProxyID b \<noteq> pa_ProxyID a" for b
    unfolding rest_def g(2) by simp
  have tags_rest: "proxy_tags wsv settings (a # as) rid = proxy_tags wsv settings rest rid" if "rid \<noteq> pa_ProxyID a" for rid
    unfolding proxy_tags_def by (rule arg_cong [where f = "image pa_ProxyTagID"]) (use mem that in \<open>auto\<close>)
  have ids_rest: "rid \<in> pa_ProxyID ` set (a # as) \<longleftrightarrow> rid \<in> pa_ProxyID ` set rest" if "rid \<noteq> pa_ProxyID a" for rid
    using that mem unfolding image_iff by auto
  have own: "pa_ProxyID a \<notin> pa_ProxyID ` set rest" by (metis image_iff mem)
  have finish: ?case
    if IH: "plans_ok (Some proxies') \<and> (\<forall>rid. if rid \<in> pa_ProxyID ` set rest
       then route_for (pl_Keys dflt) (tag_keys env wsv settings judges headers (proxy_tags wsv settings rest rid))
         (plans_Get (Some proxies') rid)
       else plans_Get (Some proxies') rid = plans_Get (Some ps) rid)"
      and mine: "route_for (pl_Keys dflt) (tag_keys env wsv settings judges headers tags) (plans_Get (Some ps) (pa_ProxyID a))"
      and same: "\<And>rid. rid \<noteq> pa_ProxyID a \<Longrightarrow> plans_Get (Some ps) rid = plans_Get (Some proxies) rid" for ps
  proof (intro conjI allI)
    show "plans_ok (Some proxies')" using IH by blast
    fix rid
    show "if rid \<in> pa_ProxyID ` set (a # as)
       then route_for (pl_Keys dflt) (tag_keys env wsv settings judges headers (proxy_tags wsv settings (a # as) rid))
         (plans_Get (Some proxies') rid)
       else plans_Get (Some proxies') rid = plans_Get (Some proxies) rid"
    proof (cases "rid = pa_ProxyID a")
      case True
      with IH own mine show ?thesis by (simp add: tags_def)
    next
      case False
      from IH have "if rid \<in> pa_ProxyID ` set rest
       then route_for (pl_Keys dflt) (tag_keys env wsv settings judges headers (proxy_tags wsv settings rest rid))
         (plans_Get (Some proxies') rid)
       else plans_Get (Some proxies') rid = plans_Get (Some ps) rid" by blast
      then show ?thesis unfolding tags_rest [OF False] ids_rest [OF False] same [OF False] .
    qed
  qed
  show ?case
  proof (cases "tags = {}")
    case True
    then have run: "build_groups env wsv settings judges headers dflt rest proxies st = (proxies', st')"
      using "2.prems"(6) unfolding build_groups.simps(2) Let_def tags_eq rest_def by simp
    have "route_for (pl_Keys dflt) (tag_keys env wsv settings judges headers tags) (plans_Get (Some proxies) (pa_ProxyID a))"
      using True "2.prems"(4,5) by (simp add: route_for_def)
    moreover have IH: "plans_ok (Some proxies') \<and> (\<forall>rid. if rid \<in> pa_ProxyID ` set rest
       then route_for (pl_Keys dflt) (tag_keys env wsv settings judges headers (proxy_tags wsv settings rest rid))
         (plans_Get (Some proxies') rid)
       else plans_Get (Some proxies') rid = plans_Get (Some proxies) rid)"
      unfolding rest_def
      by (rule "2.IH"(1) [OF refl refl refl refl refl _ g(3) "2.prems"(2,3) _ "2.prems"(5) run [unfolded rest_def]])
        (use True tags_eq "2.prems"(4) g(2) in \<open>auto\<close>)
    ultimately show ?thesis using finish [of proxies] by blast
  next
    case False
    obtain plan st1 where c: "compile env (ws_UseHttpsForSocks wsv) judges headers (ResolveCheckerSettings settings tags) st = (plan, st1)"
      by fastforce
    note ok = compile_ok [OF "2.prems"(2) c]
    define ps where "ps = (if pl_Keys plan \<noteq> pl_Keys dflt then plans_set (pa_ProxyID a) plan proxies else proxies)"
    have run: "build_groups env wsv settings judges headers dflt rest ps st1 = (proxies', st')"
      using False "2.prems"(6) c unfolding build_groups.simps(2) Let_def tags_eq rest_def ps_def by simp
    have ps_ok: "plans_ok (Some ps)" using "2.prems"(3) by (simp add: ps_def plans_set_ok)
    have IH: "plans_ok (Some proxies') \<and> (\<forall>rid. if rid \<in> pa_ProxyID ` set rest
       then route_for (pl_Keys dflt) (tag_keys env wsv settings judges headers (proxy_tags wsv settings rest rid))
         (plans_Get (Some proxies') rid)
       else plans_Get (Some proxies') rid = plans_Get (Some ps) rid)"
      unfolding rest_def ps_def
    proof (rule "2.IH"(2) [OF refl refl refl refl refl, unfolded tags_eq, OF False c [symmetric] g(3) _ _ _ "2.prems"(5)])
      show "compiled_ok env (ws_UseHttpsForSocks wsv) judges headers st1" using ok by blast
      show "plans_ok (Some (if pl_Keys plan \<noteq> pl_Keys dflt then plans_set (pa_ProxyID a) plan proxies else proxies))"
        using ps_ok unfolding ps_def .
      show "\<forall>b \<in> set (dropWhile (\<lambda>b. pa_ProxyID b = pa_ProxyID a) as). plans_Get (Some (if pl_Keys plan \<noteq> pl_Keys dflt
          then plans_set (pa_ProxyID a) plan proxies else proxies)) (pa_ProxyID b) = None"
        using "2.prems"(4) unfolding g(2) by simp
      show "build_groups env wsv settings judges headers dflt (dropWhile (\<lambda>b. pa_ProxyID b = pa_ProxyID a) as)
          (if pl_Keys plan \<noteq> pl_Keys dflt then plans_set (pa_ProxyID a) plan proxies else proxies) st1 = (proxies', st')"
        using run unfolding rest_def ps_def .
    qed
    moreover have "route_for (pl_Keys dflt) (tag_keys env wsv settings judges headers tags) (plans_Get (Some ps) (pa_ProxyID a))"
      using ok "2.prems"(4) by (simp add: route_for_def ps_def tag_keys_def)
    moreover have "plans_Get (Some ps) rid = plans_Get (Some proxies) rid" if "rid \<noteq> pa_ProxyID a" for rid
      using that by (simp add: ps_def)
    ultimately show ?thesis using finish [of ps] by blast
  qed
qed

lemma proxy_tags_cong: "set as = set bs \<Longrightarrow> proxy_tags v s as = proxy_tags v s bs"
  by (simp add: proxy_tags_def fun_eq_iff)

lemma Build_routes:
  assumes "Build env v as judges headers table = (w, table')"
  defines "settings \<equiv> DefaultCheckerSettings v"
  shows "pl_Keys (wk_Default w) = tag_keys env v settings judges headers {} \<and> plans_ok (wk_Proxies w) \<and>
    (\<forall>rid. route_for (pl_Keys (wk_Default w))
       (tag_keys env v settings judges headers (proxy_tags v settings as rid)) (plans_Get (wk_Proxies w) rid))"
proof -
  define sorted_as where "sorted_as = (if sorted (map pa_ProxyID as) then as else sort_key pa_ProxyID as)"
  let ?st0 = "\<lparr>bs_compiled = [], bs_sets = table\<rparr>" and ?https = "ws_UseHttpsForSocks v"
  obtain dflt st where c: "compile env ?https judges headers (ResolveCheckerSettings settings {}) ?st0 = (dflt, st)"
    by fastforce
  obtain proxies st' where g: "build_groups env v settings judges headers dflt sorted_as empty_plans st = (proxies, st')"
    by fastforce
  have w: "wk_Default w = dflt" "wk_Proxies w = Some proxies"
    using assms(1) c g unfolding Build_def Let_def sorted_as_def settings_def by auto
  have ok: "pl_Keys dflt = tag_keys env v settings judges headers {}" "compiled_ok env ?https judges headers st"
    using compile_ok [OF _ c] by (simp_all add: compiled_ok_def tag_keys_def)
  have sorted: "sorted (map pa_ProxyID sorted_as)" and sets: "set sorted_as = set as"
    by (simp_all add: sorted_as_def)
  have r: "plans_ok (Some proxies) \<and> (\<forall>rid. if rid \<in> pa_ProxyID ` set sorted_as
       then route_for (pl_Keys dflt) (tag_keys env v settings judges headers (proxy_tags v settings sorted_as rid))
         (plans_Get (Some proxies) rid)
       else plans_Get (Some proxies) rid = plans_Get (Some empty_plans) rid)"
    by (rule build_groups_ok [OF sorted ok(2) plans_ok_empty(1) _ ok(1) g]) simp
  have "route_for (pl_Keys dflt) (tag_keys env v settings judges headers (proxy_tags v settings as rid))
      (plans_Get (Some proxies) rid)" for rid
  proof (cases "rid \<in> pa_ProxyID ` set sorted_as")
    case True
    with r show ?thesis unfolding proxy_tags_cong [OF sets [symmetric]] by metis
  next
    case False
    then have "proxy_tags v settings as rid = {}" by (auto simp: proxy_tags_def sets)
    with False r ok(1) show ?thesis by (simp add: route_for_def)
  qed
  with ok r show ?thesis by (simp add: w)
qed

lemma snapshot_Plan_keys:
  assumes "\<forall>rid. route_for (pl_Keys (wk_Default w)) (K rid) (plans_Get (wk_Proxies w) rid)"
  shows "pl_Keys (snapshot_Plan w rid) = K rid"
  using spec [OF assms, of rid] by (auto simp: snapshot_Plan_def route_for_def split: if_splits)

lemma Build_keys:
  assumes "Build env v as judges headers table = (w, table')"
  shows "pl_Keys (snapshot_Plan w rid) = tag_keys env v (DefaultCheckerSettings v) judges headers
    (proxy_tags v (DefaultCheckerSettings v) as rid)"
  by (rule snapshot_Plan_keys) (use Build_routes [OF assms] in blast)

subsection \<open>The round robin over judges\<close>

definition NextJudgeIndex :: "JudgeWithRegex list \<Rightarrow> u64 \<Rightarrow> int \<times> u64" where
  "NextJudgeIndex js counter =
     (if js = [] then (-1, counter)
      else if length js = 1 then (0, counter)
      else let counter = counter + 1 in (uint ((counter - 1) mod of_nat (length js)), counter))"

definition NextJudge :: "JudgeWithRegex list \<Rightarrow> u64 \<Rightarrow> (Judge option \<times> string) \<times> u64" where
  "NextJudge js counter =
     (case NextJudgeIndex js counter of
        (position, counter) \<Rightarrow>
          if position < 0 then ((None, []), counter)
          else let item = js ! nat position in ((jr_Judge item, jr_Regex item), counter))"

fun next_indices :: "nat \<Rightarrow> JudgeWithRegex list \<Rightarrow> u64 \<Rightarrow> int list" where
  "next_indices 0 js counter = []"
| "next_indices (Suc n) js counter =
     (case NextJudgeIndex js counter of (i, counter) \<Rightarrow> i # next_indices n js counter)"

lemma NextJudgeIndex_eq:
  assumes "js \<noteq> []" "length js < 2 ^ 64"
  shows "fst (NextJudgeIndex js c) = (if length js = 1 then 0 else int (unat c mod length js))"
proof -
  have "unat (of_nat (length js) :: u64) = length js"
    using assms(2) by (simp add: unsigned_of_nat take_bit_nat_eq_self)
  then have "uint (c mod of_nat (length js)) = int (unat c mod length js)"
    by (metis of_nat_unat unat_mod_distrib)
  with assms(1) show ?thesis by (simp add: NextJudgeIndex_def Let_def)
qed

lemma next_indices_eq:
  assumes "js \<noteq> []" "length js < 2 ^ 64" "unat c + n < 2 ^ 64"
  shows "next_indices n js c = map (\<lambda>i. int ((unat c + i) mod length js)) [0..<n]"
  using assms(3)
proof (induction n arbitrary: c)
  case (Suc n)
  show ?case
  proof (cases "length js = 1")
    case True
    then show ?thesis using Suc.IH [of c] Suc.prems
      by (simp add: NextJudgeIndex_def map_upt_Suc assms(1) del: upt_Suc)
  next
    case False
    have "unat (c + 1) = Suc (unat c)" using Suc.prems by (simp add: unat_word_ariths)
    with Suc.IH [of "c + 1"] Suc.prems False NextJudgeIndex_eq [OF assms(1,2), of c] show ?thesis
      by (simp add: map_upt_Suc NextJudgeIndex_def assms(1) Let_def del: upt_Suc)
  qed
qed simp

subsection \<open>The snapshot cache\<close>

text \<open>
  The package state of \<open>cache.go\<close>. A loader returns an error, no workspace, or a snapshot; it runs
  outside the lock, so a refresh is a load followed later by \<open>apply_loaded\<close>, and several may
  interleave. \<open>cc_client\<close> says whether Redis is attached.
\<close>

type_synonym snapshot_loader = "u64 \<Rightarrow> (string, WorkspaceSnapshot option) result"

record cache_state =
  cc_workspaces :: "u64 \<rightharpoonup> WorkspaceSnapshot"
  cc_loader :: "snapshot_loader option"
  cc_client :: bool
  cc_ready :: bool

definition Lookup :: "u64 \<Rightarrow> cache_state \<Rightarrow> WorkspaceSnapshot option \<times> bool" where
  "Lookup workspaceID st = (cc_workspaces st workspaceID, cc_ready st)"

definition apply_loaded :: "u64 \<Rightarrow> WorkspaceSnapshot option \<Rightarrow> cache_state \<Rightarrow> cache_state" where
  "apply_loaded workspaceID loaded st =
     (case loaded of
        None \<Rightarrow> st\<lparr>cc_workspaces := (cc_workspaces st)(workspaceID := None)\<rparr>
      | Some w \<Rightarrow>
          if (case cc_workspaces st workspaceID of None \<Rightarrow> True | Some previous \<Rightarrow> wk_Generation previous \<le> wk_Generation w)
          then st\<lparr>cc_workspaces := (cc_workspaces st)(workspaceID := Some w)\<rparr> else st)"

definition RefreshSnapshot :: "u64 \<Rightarrow> cache_state \<Rightarrow> (string, unit) result \<times> cache_state" where
  "RefreshSnapshot workspaceID st =
     (case cc_loader st of
        None \<Rightarrow> (Inr (), st)
      | Some loader \<Rightarrow>
          (case loader workspaceID of
             Inl e \<Rightarrow> (Inl e, st)
           | Inr w \<Rightarrow> (Inr (), apply_loaded workspaceID w st)))"

text \<open>\<open>Notify\<close> refreshes this process and publishes the workspace to the others when Redis is attached.\<close>

definition Notify :: "u64 \<Rightarrow> cache_state \<Rightarrow> u64 list \<times> cache_state" where
  "Notify workspaceID st =
     (let st = snd (RefreshSnapshot workspaceID st) in (if cc_client st then [workspaceID] else [], st))"

definition TagAssignmentsChanged :: "u64 \<Rightarrow> cache_state \<Rightarrow> u64 list \<times> cache_state" where
  "TagAssignmentsChanged workspaceID st =
     (case Lookup workspaceID st of
        (snapshot, ready) \<Rightarrow>
          if \<not> ready then ([], st)
          else if (case snapshot of None \<Rightarrow> True | Some w \<Rightarrow> cs_rules (DefaultCheckerSettings (wk_Value w)) \<noteq> [])
          then Notify workspaceID st else ([], st))"

text \<open>An invalidation message from another process; the origin and the id are parsed from the payload.\<close>

definition receive_message :: "string \<Rightarrow> (string \<times> u64) option \<Rightarrow> cache_state \<Rightarrow> cache_state" where
  "receive_message notificationOrigin payload st =
     (case payload of
        None \<Rightarrow> st
      | Some (origin, i) \<Rightarrow>
          if 0 < i \<and> origin \<noteq> notificationOrigin then snd (RefreshSnapshot i st) else st)"

fun refresh_all :: "u64 list \<Rightarrow> cache_state \<Rightarrow> (string, unit) result \<times> cache_state" where
  "refresh_all [] st = (Inr (), st)"
| "refresh_all (i # is) st =
     (case RefreshSnapshot i st of
        (Inl e, st) \<Rightarrow> (Inl e, st)
      | (Inr _, st) \<Rightarrow> refresh_all is st)"

definition reconcile :: "(string, u64 list) result \<Rightarrow> cache_state \<Rightarrow> (string, unit) result \<times> cache_state" where
  "reconcile listing st =
     (case listing of
        Inl e \<Rightarrow> (Inl e, st)
      | Inr ids \<Rightarrow>
          (case refresh_all ids st of
             (Inl e, st) \<Rightarrow> (Inl e, st)
           | (Inr _, st) \<Rightarrow>
               (Inr (), st\<lparr>cc_workspaces := (\<lambda>i. if i \<in> set ids then cc_workspaces st i else None)\<rparr>)))"

text \<open>Attaching Redis: \<open>subscribed\<close> tells whether the subscription was confirmed in time.\<close>

definition EnableRedisSynchronization :: "bool \<Rightarrow> bool \<Rightarrow> cache_state \<Rightarrow> (string, unit) result \<times> cache_state" where
  "EnableRedisSynchronization client subscribed st =
     (if cc_client st \<or> \<not> client then (Inr (), st)
      else if subscribed then (Inr (), st\<lparr>cc_client := True\<rparr>) else (Inl ''subscribe'', st))"

definition InitializeCache :: "bool \<Rightarrow> bool \<Rightarrow> snapshot_loader \<Rightarrow> (string, u64 list) result \<Rightarrow> cache_state \<Rightarrow>
    (string, unit) result \<times> cache_state" where
  "InitializeCache client subscribed loader listing st =
     (case reconcile listing (st\<lparr>cc_loader := Some loader, cc_client := False\<rparr>) of
        (Inl e, st) \<Rightarrow> (Inl e, st)
      | (Inr _, st) \<Rightarrow>
          let st = st\<lparr>cc_ready := True\<rparr> in
          if client then EnableRedisSynchronization client subscribed st else (Inr (), st))"

lemma apply_loaded_other [simp]: "j \<noteq> i \<Longrightarrow> cc_workspaces (apply_loaded i w st) j = cc_workspaces st j"
  by (auto simp: apply_loaded_def split: option.splits)

lemma apply_loaded_fixed [simp]: "cc_loader (apply_loaded i w st) = cc_loader st"
  "cc_ready (apply_loaded i w st) = cc_ready st" "cc_client (apply_loaded i w st) = cc_client st"
  by (auto simp: apply_loaded_def split: option.splits)

definition generation_of :: "cache_state \<Rightarrow> u64 \<Rightarrow> u64 option" where
  "generation_of st i = map_option wk_Generation (cc_workspaces st i)"

lemma apply_loaded_newest:
  "\<exists>c. cc_workspaces (apply_loaded i (Some w) st) i = Some c \<and> wk_Generation w \<le> wk_Generation c \<and>
     (\<forall>p. cc_workspaces st i = Some p \<longrightarrow> wk_Generation p \<le> wk_Generation c) \<and>
     (c = w \<or> cc_workspaces st i = Some c)"
  by (auto simp: apply_loaded_def split: option.splits)

lemma apply_all_newest:
  assumes "\<forall>e \<in> set loads. snd e \<noteq> None \<or> fst e \<noteq> i"
  shows "(\<forall>p. cc_workspaces st i = Some p \<longrightarrow>
      (\<exists>c. cc_workspaces (fold (\<lambda>e. apply_loaded (fst e) (snd e)) loads st) i = Some c \<and> wk_Generation p \<le> wk_Generation c)) \<and>
    (\<forall>w. (i, Some w) \<in> set loads \<longrightarrow>
      (\<exists>c. cc_workspaces (fold (\<lambda>e. apply_loaded (fst e) (snd e)) loads st) i = Some c \<and> wk_Generation w \<le> wk_Generation c))"
  using assms
proof (induction loads arbitrary: st)
  case (Cons e loads)
  let ?st = "apply_loaded (fst e) (snd e) st"
  have IH: "(\<forall>p. cc_workspaces ?st i = Some p \<longrightarrow>
      (\<exists>c. cc_workspaces (fold (\<lambda>e. apply_loaded (fst e) (snd e)) loads ?st) i = Some c \<and> wk_Generation p \<le> wk_Generation c)) \<and>
    (\<forall>w. (i, Some w) \<in> set loads \<longrightarrow>
      (\<exists>c. cc_workspaces (fold (\<lambda>e. apply_loaded (fst e) (snd e)) loads ?st) i = Some c \<and> wk_Generation w \<le> wk_Generation c))"
    using Cons by simp
  show ?case
  proof (cases "fst e = i")
    case False
    with IH show ?thesis by (cases e) auto
  next
    case True
    then obtain w where e: "e = (i, Some w)" using Cons.prems by (cases e) auto
    obtain c where c: "cc_workspaces ?st i = Some c" "wk_Generation w \<le> wk_Generation c"
      "\<forall>p. cc_workspaces st i = Some p \<longrightarrow> wk_Generation p \<le> wk_Generation c"
      using apply_loaded_newest [of i w st] e by auto
    with IH obtain d where "cc_workspaces (fold (\<lambda>e. apply_loaded (fst e) (snd e)) loads ?st) i = Some d"
      "wk_Generation c \<le> wk_Generation d" by blast
    with c IH e show ?thesis by (auto intro: order_trans)
  qed
qed simp

lemma RefreshSnapshot_fixed [simp]: "cc_loader (snd (RefreshSnapshot i st)) = cc_loader st"
  by (auto simp: RefreshSnapshot_def split: option.splits sum.splits)

lemma refresh_all_ok:
  assumes "refresh_all is st = (Inr u, st')" "cc_loader st = Some loader"
  shows "cc_loader st' = Some loader \<and> (\<forall>j. j \<notin> set is \<longrightarrow> cc_workspaces st' j = cc_workspaces st j) \<and>
    (\<forall>i \<in> set is. \<exists>r. loader i = Inr r \<and>
      (case r of None \<Rightarrow> cc_workspaces st' i = None
       | Some w \<Rightarrow> \<exists>c. cc_workspaces st' i = Some c \<and> wk_Generation w \<le> wk_Generation c))"
  using assms
proof (induction "is" arbitrary: st)
  case (Cons i ids)
  obtain r where r: "loader i = Inr r" and run: "refresh_all ids (apply_loaded i r st) = (Inr u, st')"
    using Cons.prems by (auto simp: RefreshSnapshot_def split: sum.splits)
  note IH = Cons.IH [OF run]
  show ?case
  proof (cases "i \<in> set ids")
    case True
    with IH Cons.prems(2) show ?thesis by auto
  next
    case False
    have "case r of None \<Rightarrow> cc_workspaces (apply_loaded i r st) i = None
       | Some w \<Rightarrow> \<exists>c. cc_workspaces (apply_loaded i r st) i = Some c \<and> wk_Generation w \<le> wk_Generation c"
    proof (cases r)
      case None
      then show ?thesis by (simp add: apply_loaded_def)
    next
      case (Some w)
      with apply_loaded_newest [of i w st] show ?thesis by auto
    qed
    with False IH Cons.prems(2) r show ?thesis by (cases r) auto
  qed
qed auto

subsection \<open>Properties\<close>

text \<open>
  C27. A compiled snapshot answers like per-proxy resolution: for every proxy the keys of its plan
  are the keys that resolving the workspace's settings with the proxy's configured tags gives, whatever
  the order of the assignments; the route table is well formed and holds exactly the proxies whose
  keys differ from the default.
\<close>

theorem build_plan_exact:
  assumes "Build env v as judges headers table = (w, table')"
  shows "pl_Keys (snapshot_Plan w rid) =
      key_list env (ws_UseHttpsForSocks v) judges headers 0
        (ResolveCheckerSettings (DefaultCheckerSettings v) (proxy_tags v (DefaultCheckerSettings v) as rid)) \<and>
    (plans_Get (wk_Proxies w) rid = None \<longleftrightarrow> pl_Keys (snapshot_Plan w rid) = pl_Keys (wk_Default w)) \<and>
    plans_ok (wk_Proxies w)"
proof -
  let ?K = "\<lambda>rid. tag_keys env v (DefaultCheckerSettings v) judges headers (proxy_tags v (DefaultCheckerSettings v) as rid)"
  have r: "plans_ok (wk_Proxies w)" "\<forall>rid. route_for (pl_Keys (wk_Default w)) (?K rid) (plans_Get (wk_Proxies w) rid)"
    using Build_routes [OF assms] by blast+
  from r snapshot_Plan_keys [OF r(2), of rid] show ?thesis
    by (auto simp: tag_keys_def route_for_def split: if_splits)
qed

text \<open>A workspace with one rule and one judge; keys are the identities themselves.\<close>

definition demo_env :: plan_env where
  "demo_env = \<lparr>pe_scheme = (\<lambda>u. ''https''), pe_quote = (\<lambda>s. s), pe_sha256hex = (\<lambda>s. s),
     pe_jsonBase = (\<lambda>p h hs js. []), pe_jsonRules = (\<lambda>r. []), pe_jsonPolicy = (\<lambda>a b c. [])\<rparr>"

definition demo_rule :: TagCheckerRule where
  "demo_rule = \<lparr>rule_tagID = 7, rule_mode = ''add'', rule_protocols = [''socks5''], rule_transport = None,
     rule_timeout = None, rule_retries = None\<rparr>"

definition demo_workspace :: "TagCheckerRule list \<Rightarrow> Workspace" where
  "demo_workspace rules = \<lparr>ws_ID = 1, ws_HTTPProtocol = False, ws_HTTPSProtocol = True, ws_SOCKS4Protocol = False,
     ws_SOCKS5Protocol = False, ws_Timeout = 10, ws_Retries = 2, ws_UseHttpsForSocks = True, ws_TransportProtocol = ''tcp'',
     ws_AutoRemoveFailingProxies = False, ws_AutoRemoveFailureThreshold = 3, ws_FailureAction = ''pause'',
     ws_CheckerConfig = Some \<lparr>cs_defaults = \<lparr>prof_protocols = [''https''], prof_transport = ''tcp'', prof_timeout = 10,
       prof_retries = 2\<rparr>, cs_rules = rules, cs_legacy = False\<rparr>, ws_CheckerGeneration = 1\<rparr>"

definition demo_assignments :: "ProxyTagAssignment list" where
  "demo_assignments = [\<lparr>pa_WorkspaceID = 1, pa_ProxyID = 9, pa_ProxyTagID = 7\<rparr>, \<lparr>pa_WorkspaceID = 1, pa_ProxyID = 4, pa_ProxyTagID = 7\<rparr>]"

theorem build_plan_exact_witness:
  "\<exists>w table'. Build demo_env (demo_workspace [demo_rule]) demo_assignments [] [] [] = (w, table') \<and>
     plans_ok (wk_Proxies w) \<and> plans_Len (wk_Proxies w) = 2"
proof -
  obtain w table' where b: "Build demo_env (demo_workspace [demo_rule]) demo_assignments [] [] [] = (w, table')"
    by fastforce
  have "plans_Len (wk_Proxies (fst (Build demo_env (demo_workspace [demo_rule]) demo_assignments [] [] []))) = 2"
    by code_simp
  with b build_plan_exact [OF b, of 9] show ?thesis by auto
qed

text \<open>
  C26. Merging the changed routes equals a rebuild: if the defaults, the judges, the headers and the
  SOCKS setting are the same, and every proxy whose plan changed is among the given ids, then after
  \<open>Merge\<close> every proxy has the keys a full build would give it, the table holds the same routes, and
  for distinct ids its counter is right; shards of other ids are untouched.
\<close>

theorem merge_equals_rebuild:
  assumes prev: "Build env v0 as0 judges headers t0 = (prev, t0')"
    and full: "Build env v1 as1 judges headers t1 = (full, t1')"
    and patch: "Build env v1 (filter (\<lambda>b. pa_ProxyID b \<in> set rids) as1) judges headers t2 = (patch, t2')"
    and base: "ws_UseHttpsForSocks v0 = ws_UseHttpsForSocks v1"
      "cs_defaults (DefaultCheckerSettings v0) = cs_defaults (DefaultCheckerSettings v1)"
    and unaffected: "\<And>rid. rid \<notin> set rids \<Longrightarrow> pl_Keys (snapshot_Plan prev rid) = pl_Keys (snapshot_Plan full rid)"
  shows "pl_Keys (snapshot_Plan (MergeSnapshots prev patch rids) rid) = pl_Keys (snapshot_Plan full rid) \<and>
    (plans_Get (wk_Proxies (MergeSnapshots prev patch rids)) rid = None \<longleftrightarrow> plans_Get (wk_Proxies full) rid = None) \<and>
    (distinct rids \<longrightarrow> plans_ok (wk_Proxies (MergeSnapshots prev patch rids))) \<and>
    (\<forall>s. s \<notin> shard_of ` set rids \<longrightarrow>
       pp_shards (table_of (wk_Proxies (MergeSnapshots prev patch rids))) s = pp_shards (table_of (wk_Proxies prev)) s)"
proof -
  let ?S0 = "DefaultCheckerSettings v0" and ?S1 = "DefaultCheckerSettings v1"
  let ?as2 = "filter (\<lambda>b. pa_ProxyID b \<in> set rids) as1"
  let ?K0 = "\<lambda>rid. tag_keys env v0 ?S0 judges headers (proxy_tags v0 ?S0 as0 rid)"
  let ?K1 = "\<lambda>rid. tag_keys env v1 ?S1 judges headers (proxy_tags v1 ?S1 as1 rid)"
  let ?K2 = "\<lambda>rid. tag_keys env v1 ?S1 judges headers (proxy_tags v1 ?S1 ?as2 rid)"
  note r0 = Build_routes [OF prev] and r1 = Build_routes [OF full] and r2 = Build_routes [OF patch]
  have none: "resolve_rules {} rs acc = acc" for rs acc
    by (induction rs arbitrary: acc) (auto split: prod.splits)
  then have "ResolveCheckerSettings ?S0 {} = ResolveCheckerSettings ?S1 {}"
    using base(2) by (simp add: ResolveCheckerSettings_def)
  then have dflt: "pl_Keys (wk_Default prev) = pl_Keys (wk_Default full)" "pl_Keys (wk_Default patch) = pl_Keys (wk_Default full)"
    using r0 r1 r2 base(1) by (simp_all add: tag_keys_def)
  have k2: "?K2 rid = ?K1 rid" if "rid \<in> set rids" for rid
    using that by (simp add: proxy_tags_def) (metis (mono_tags, lifting))
  have keys0: "?K0 rid = ?K1 rid" if "rid \<notin> set rids" for rid
    using unaffected [OF that] snapshot_Plan_keys [of prev ?K0 rid] snapshot_Plan_keys [of full ?K1 rid] r0 r1 by metis
  let ?m = "MergeSnapshots prev patch rids"
  have merged: "route_for (pl_Keys (wk_Default ?m)) (?K1 rid) (plans_Get (wk_Proxies ?m) rid)" for rid
  proof (cases "rid \<in> set rids")
    case True
    have "route_for (pl_Keys (wk_Default full)) (?K0 rid) (plans_Get (wk_Proxies prev) rid)"
      "route_for (pl_Keys (wk_Default full)) (?K1 rid) (plans_Get (wk_Proxies patch) rid)"
      using r0 r2 dflt k2 [OF True] by metis+
    then show ?thesis
      using True dflt by (auto simp: MergeSnapshots_def mergeProxyPlans_get route_for_def same_route_def
          split: if_splits option.splits)
  next
    case False
    have "route_for (pl_Keys (wk_Default prev)) (?K0 rid) (plans_Get (wk_Proxies prev) rid)" using r0 by blast
    with False show ?thesis unfolding keys0 [OF False] by (simp add: MergeSnapshots_def mergeProxyPlans_get)
  qed
  have "pl_Keys (snapshot_Plan ?m rid) = ?K1 rid" by (rule snapshot_Plan_keys) (use merged in blast)
  moreover have "pl_Keys (snapshot_Plan full rid) = ?K1 rid" by (rule snapshot_Plan_keys) (use r1 in blast)
  moreover have "wk_Default ?m = wk_Default prev" by (simp add: MergeSnapshots_def)
  then have "plans_Get (wk_Proxies ?m) rid = None \<longleftrightarrow> plans_Get (wk_Proxies full) rid = None"
    using merged [of rid] spec [OF conjunct2 [OF conjunct2 [OF r1]], of rid] dflt
    by (auto simp: route_for_def split: if_splits)
  moreover have "plans_ok (wk_Proxies ?m)" if "distinct rids"
    using merge_loop_ok [of "wk_Proxies prev" None rids pl_Keys "wk_Proxies patch"] r0 that
    by (auto simp: MergeSnapshots_def mergeProxyPlans_def current_def split: option.splits)
  moreover have "pp_shards (table_of (wk_Proxies ?m)) s = pp_shards (table_of (wk_Proxies prev)) s"
    if "s \<notin> shard_of ` set rids" for s
    using merge_loop_shards [OF that, of "wk_Proxies prev" pl_Keys "wk_Proxies patch" None]
    by (auto simp: MergeSnapshots_def mergeProxyPlans_def current_def split: option.splits)
  ultimately show ?thesis by simp
qed

theorem merge_equals_rebuild_witness:
  "\<exists>prev full patch t. Build demo_env (demo_workspace [demo_rule]) [] [] [] [] = (prev, t) \<and>
     pl_Keys (snapshot_Plan (MergeSnapshots prev patch [9, 4]) 9) = pl_Keys (snapshot_Plan full 9) \<and>
     plans_ok (wk_Proxies (MergeSnapshots prev patch [9, 4])) \<and> plans_Get (wk_Proxies full) 9 \<noteq> None"
proof -
  let ?v = "demo_workspace [demo_rule]"
  obtain prev t0 where prev: "Build demo_env ?v [] [] [] [] = (prev, t0)" by fastforce
  obtain full t1 where full: "Build demo_env ?v demo_assignments [] [] [] = (full, t1)" by fastforce
  have all: "filter (\<lambda>b. pa_ProxyID b \<in> set [9, 4]) demo_assignments = demo_assignments"
    by (simp add: demo_assignments_def)
  have patch: "Build demo_env ?v (filter (\<lambda>b. pa_ProxyID b \<in> set [9, 4]) demo_assignments) [] [] [] = (full, t1)"
    unfolding all by (rule full)
  have unaffected: "pl_Keys (snapshot_Plan prev rid) = pl_Keys (snapshot_Plan full rid)" if "rid \<notin> set [9, 4]" for rid
  proof -
    have "proxy_tags ?v s demo_assignments rid = proxy_tags ?v s [] rid" for s
      using that by (auto simp: proxy_tags_def demo_assignments_def)
    then show ?thesis unfolding Build_keys [OF prev] Build_keys [OF full] by simp
  qed
  have "plans_Get (wk_Proxies (fst (Build demo_env ?v demo_assignments [] [] []))) 9 \<noteq> None" by code_simp
  with merge_equals_rebuild [OF prev full patch refl refl unaffected, of 9] prev full show ?thesis
    by (intro exI [of _ prev] exI [of _ full] exI [of _ t0]) simp
qed

text \<open>
  Snapshots only move forward: however the loads of several refreshes interleave, as long as
  none of them reports the workspace gone, the cached snapshot is at least as new (by generation) as the
  one cached before and as every snapshot that was loaded.
\<close>

lemma cached_snapshot_newest:
  assumes "\<forall>e \<in> set loads. snd e \<noteq> None \<or> fst e \<noteq> i"
    and "cc_workspaces st i = Some w \<or> (i, Some w) \<in> set loads"
  shows "\<exists>c. cc_workspaces (fold (\<lambda>e. apply_loaded (fst e) (snd e)) loads st) i = Some c \<and>
    wk_Generation w \<le> wk_Generation c"
  using apply_all_newest [OF assms(1)] assms(2) by blast

theorem cached_snapshot_newest_witness:
  "\<exists>c. cc_workspaces (fold (\<lambda>e. apply_loaded (fst e) (snd e))
     [(1, Some (fst (Build demo_env (demo_workspace []) [] [] [] []))), (2, None)]
     \<lparr>cc_workspaces = Map.empty, cc_loader = None, cc_client = False, cc_ready = True\<rparr>) 1 = Some c \<and> 1 \<le> wk_Generation c"
proof -
  let ?w = "fst (Build demo_env (demo_workspace []) [] [] [] [])"
  have "wk_Generation ?w = 1" by code_simp
  with cached_snapshot_newest [of "[(1, Some ?w), (2, None)]" 1
      "\<lparr>cc_workspaces = Map.empty, cc_loader = None, cc_client = False, cc_ready = True\<rparr>" ?w]
  show ?thesis by simp
qed

text \<open>
  C39. A successful reconciliation leaves exactly listed workspaces: a workspace that is not listed has
  no snapshot, one the loader no longer finds has none, and every other has a snapshot at least as new
  as the loaded one. A failing list keeps the cache as it is, and a failing load keeps the snapshot of
  its own workspace.
\<close>

theorem reconcile_exact:
  assumes "cc_loader st = Some loader"
  shows "(\<forall>e. listing = Inl e \<longrightarrow> reconcile listing st = (Inl e, st)) \<and>
    (\<forall>i e. loader i = Inl e \<longrightarrow> RefreshSnapshot i st = (Inl e, st)) \<and>
    (\<forall>ids u st'. listing = Inr ids \<and> reconcile listing st = (Inr u, st') \<longrightarrow>
      (\<forall>i. case (if i \<in> set ids then loader i else Inr None) of
             Inl e \<Rightarrow> False
           | Inr None \<Rightarrow> cc_workspaces st' i = None
           | Inr (Some w) \<Rightarrow> \<exists>c. cc_workspaces st' i = Some c \<and> wk_Generation w \<le> wk_Generation c))"
proof (intro conjI allI impI)
  fix ids u st' i
  assume "listing = Inr ids \<and> reconcile listing st = (Inr u, st')"
  then obtain u1 st1 where r: "refresh_all ids st = (Inr u1, st1)"
    and st': "cc_workspaces st' = (\<lambda>i. if i \<in> set ids then cc_workspaces st1 i else None)"
    by (auto simp: reconcile_def split: prod.splits sum.splits)
  note ok = refresh_all_ok [OF r assms]
  show "case (if i \<in> set ids then loader i else Inr None) of Inl e \<Rightarrow> False
     | Inr None \<Rightarrow> cc_workspaces st' i = None
     | Inr (Some w) \<Rightarrow> \<exists>c. cc_workspaces st' i = Some c \<and> wk_Generation w \<le> wk_Generation c"
  proof (cases "i \<in> set ids")
    case True
    then obtain x where x: "loader i = Inr x" "case x of None \<Rightarrow> cc_workspaces st1 i = None
       | Some w \<Rightarrow> \<exists>c. cc_workspaces st1 i = Some c \<and> wk_Generation w \<le> wk_Generation c"
      using ok by blast
    with True st' show ?thesis by (cases x) simp_all
  qed (simp add: st')
qed (use assms in \<open>simp_all add: reconcile_def RefreshSnapshot_def\<close>)

theorem reconcile_exact_witness:
  "RefreshSnapshot 3 \<lparr>cc_workspaces = Map.empty, cc_loader = Some (\<lambda>i. Inl ''db''), cc_client = False, cc_ready = True\<rparr> =
     (Inl ''db'', \<lparr>cc_workspaces = Map.empty, cc_loader = Some (\<lambda>i. Inl ''db''), cc_client = False, cc_ready = True\<rparr>)"
  using reconcile_exact [of "\<lparr>cc_workspaces = Map.empty, cc_loader = Some (\<lambda>i. Inl ''db''), cc_client = False, cc_ready = True\<rparr>"
      "\<lambda>i. Inl ''db''"] by simp

text \<open>
  Judges are used in turn: while the 64-bit counter does not wrap, consecutive calls return the
  positions of the list in cyclic order, so any run of as many calls as there are judges uses each once.
\<close>

lemma judges_round_robin:
  assumes "js \<noteq> []" "length js < 2 ^ 64" "unat c + n < 2 ^ 64"
  shows "next_indices n js c = map (\<lambda>i. int ((unat c + i) mod length js)) [0..<n] \<and>
    (n = length js \<longrightarrow> distinct (next_indices n js c) \<and> set (next_indices n js c) = int ` {0..<length js})"
proof -
  note eq = next_indices_eq [OF assms]
  have "distinct (next_indices n js c) \<and> set (next_indices n js c) = int ` {0..<length js}" if n: "n = length js"
  proof -
    have inj0: "inj_on (\<lambda>i. (unat c + i) mod length js) {0..<length js}"
    proof (rule linorder_inj_onI)
      fix x y assume "x < y" "x \<in> {0..<length js}" "y \<in> {0..<length js}"
      then have "(unat c + y) - (unat c + x) < length js" "0 < (unat c + y) - (unat c + x)" by auto
      then show "(unat c + x) mod length js \<noteq> (unat c + y) mod length js"
        by (metis add_le_cancel_left mod_eq_dvd_iff_nat dvd_imp_le linorder_not_less order_less_imp_le \<open>x < y\<close>)
    qed auto
    then have inj: "inj_on (\<lambda>i. int ((unat c + i) mod length js)) {0..<length js}"
      by (simp add: inj_on_def)
    have "(\<lambda>i. (unat c + i) mod length js) ` {0..<length js} = {0..<length js}"
      using assms(1) by (intro card_subset_eq) (auto simp: card_image [OF inj0])
    then have "int ` (\<lambda>i. (unat c + i) mod length js) ` {0..<length js} = int ` {0..<length js}" by simp
    then show ?thesis unfolding eq using inj by (simp add: n distinct_map image_image)
  qed
  with eq show ?thesis by blast
qed

theorem judges_round_robin_witness:
  "next_indices 4 [\<lparr>jr_Judge = None, jr_Regex = ''a''\<rparr>, \<lparr>jr_Judge = None, jr_Regex = ''b''\<rparr>, \<lparr>jr_Judge = None, jr_Regex = ''c''\<rparr>] 2 = [2, 0, 1, 2]"
  using judges_round_robin [of "[\<lparr>jr_Judge = None, jr_Regex = ''a''\<rparr>, \<lparr>jr_Judge = None, jr_Regex = ''b''\<rparr>,
      \<lparr>jr_Judge = None, jr_Regex = ''c''\<rparr>]" 2 4]
  by (simp add: upt_rec)

end
