(* ===== verification/Expiry_Heap.thy ===== *)
theory Expiry_Heap
  imports Magpie_Prelude "HOL-Library.Multiset"
begin

text \<open>
  Go's \<open>container/heap\<close> over the slice \<open>localCounterExpiryHeap\<close> of
  \<open>internal/app/server/auth_rate_limit.go\<close>: \<open>Push\<close> and \<open>Pop\<close> with their sift loops, for elements
  ordered by a key. The interface \<open>expiry_queue\<close> is what the rate limiter relies on; the heap
  interprets it.
\<close>

subsection \<open>The interface\<close>

locale expiry_queue =
  fixes push :: "'e \<Rightarrow> 'h \<Rightarrow> 'h"
    and pop :: "'h \<Rightarrow> 'e \<times> 'h"
    and peek :: "'h \<Rightarrow> 'e"
    and items :: "'h \<Rightarrow> 'e multiset"
    and good :: "'h \<Rightarrow> bool"
    and due :: "'e \<Rightarrow> instant"
  assumes push_good: "good h \<Longrightarrow> good (push e h)"
    and push_items: "items (push e h) = add_mset e (items h)"
    and pop_good: "good h \<Longrightarrow> items h \<noteq> {#} \<Longrightarrow> good (snd (pop h))"
    and pop_items: "good h \<Longrightarrow> items h \<noteq> {#} \<Longrightarrow> items h = add_mset (fst (pop h)) (items (snd (pop h)))"
    and pop_peek: "good h \<Longrightarrow> items h \<noteq> {#} \<Longrightarrow> fst (pop h) = peek h"
    and peek_min: "good h \<Longrightarrow> e \<in># items h \<Longrightarrow> due (peek h) \<le> due e"
begin

lemma peek_in: "good h \<Longrightarrow> items h \<noteq> {#} \<Longrightarrow> peek h \<in># items h"
  by (metis pop_items pop_peek union_single_eq_member)

lemma pop_rest: "good h \<Longrightarrow> items h \<noteq> {#} \<Longrightarrow> items (snd (pop h)) = items h - {#peek h#}"
  by (metis add_mset_remove_trivial pop_items pop_peek)

lemma pop_smaller: "good h \<Longrightarrow> items h \<noteq> {#} \<Longrightarrow> size (items (snd (pop h))) < size (items h)"
  by (metis lessI pop_items size_add_mset)

end

subsection \<open>\<open>container/heap\<close>\<close>

definition swap :: "'a list \<Rightarrow> nat \<Rightarrow> nat \<Rightarrow> 'a list" where
  "swap h i j = h[i := h ! j, j := h ! i]"

function heap_up :: "('a \<Rightarrow> int) \<Rightarrow> 'a list \<Rightarrow> nat \<Rightarrow> 'a list" where
  "heap_up f h j =
     (let i = (j - 1) div 2 in
      if i = j \<or> \<not> f (h ! j) < f (h ! i) then h else heap_up f (swap h i j) i)"
  by pat_completeness auto
termination by (relation "measure (\<lambda>(f, h, j). j)") auto

function heap_down :: "('a \<Rightarrow> int) \<Rightarrow> 'a list \<Rightarrow> nat \<Rightarrow> nat \<Rightarrow> 'a list" where
  "heap_down f h i n =
     (let j1 = 2 * i + 1 in
      if n \<le> j1 then h
      else let j = (if j1 + 1 < n \<and> f (h ! (j1 + 1)) < f (h ! j1) then j1 + 1 else j1) in
        if \<not> f (h ! j) < f (h ! i) then h else heap_down f (swap h i j) j n)"
  by pat_completeness auto
termination by (relation "measure (\<lambda>(f, h, i, n). n - i)") (auto simp: Let_def)

declare heap_up.simps [simp del] heap_down.simps [simp del]

definition heap_Push :: "('a \<Rightarrow> int) \<Rightarrow> 'a \<Rightarrow> 'a list \<Rightarrow> 'a list" where
  "heap_Push f x h = heap_up f (h @ [x]) (length h)"

definition heap_Pop :: "('a \<Rightarrow> int) \<Rightarrow> 'a list \<Rightarrow> 'a \<times> 'a list" where
  "heap_Pop f h =
     (let n = length h - 1; h = heap_down f (swap h 0 n) 0 n in (last h, butlast h))"

definition heap_ok :: "('a \<Rightarrow> int) \<Rightarrow> 'a list \<Rightarrow> bool" where
  "heap_ok f h \<longleftrightarrow> (\<forall>k. 0 < k \<and> k < length h \<longrightarrow> f (h ! ((k - 1) div 2)) \<le> f (h ! k))"

lemma length_swap [simp]: "length (swap h i j) = length h"
  by (simp add: swap_def)

lemma mset_swap_eq: "i < length h \<Longrightarrow> j < length h \<Longrightarrow> mset (swap h i j) = mset h"
  unfolding swap_def by (rule mset_swap)

lemma swap_nth:
  "i < length h \<Longrightarrow> j < length h \<Longrightarrow> k < length h \<Longrightarrow> i \<noteq> j \<Longrightarrow>
     swap h i j ! k = (if k = i then h ! j else if k = j then h ! i else h ! k)"
  by (simp add: swap_def nth_list_update)

subsection \<open>Sifting up\<close>

text \<open>Ordered everywhere but above \<open>j\<close>, whose children are also above its parent.\<close>

definition up_ok :: "('a \<Rightarrow> int) \<Rightarrow> 'a list \<Rightarrow> nat \<Rightarrow> bool" where
  "up_ok f h j \<longleftrightarrow>
     (\<forall>k. 0 < k \<and> k < length h \<and> k \<noteq> j \<longrightarrow> f (h ! ((k - 1) div 2)) \<le> f (h ! k)) \<and>
     (\<forall>k. 0 < k \<and> k < length h \<and> (k - 1) div 2 = j \<and> 0 < j \<longrightarrow> f (h ! ((j - 1) div 2)) \<le> f (h ! k))"

lemma up_step:
  assumes "up_ok f h j" "j < length h" "0 < j" "f (h ! j) < f (h ! i)" and par_j: "(j - 1) div 2 = i"
  shows "up_ok f (swap h i j) i"
proof -
  have i: "i < j" "i < length h" using assms(2,3) par_j by auto
  have sw: "swap h i j ! k = (if k = i then h ! j else if k = j then h ! i else h ! k)" if "k < length h" for k
    using swap_nth [of i h j k] i assms(2) that by simp
  have ord: "f (h ! ((k - 1) div 2)) \<le> f (h ! k)" if "0 < k" "k < length h" "k \<noteq> j" for k
    using assms(1) that unfolding up_ok_def by blast
  have child: "f (h ! i) \<le> f (h ! k)" if "0 < k" "k < length h" "(k - 1) div 2 = j" for k
    using assms(1,3) that par_j unfolding up_ok_def by blast
  have par: "(k - 1) div 2 < length h" if "k < length h" for k using that by linarith
  show ?thesis unfolding up_ok_def length_swap
  proof (intro conjI allI impI)
    fix k assume k: "0 < k \<and> k < length h \<and> k \<noteq> i"
    consider "k = j" | "k \<noteq> j" "(k - 1) div 2 = j" | "k \<noteq> j" "(k - 1) div 2 = i" | "k \<noteq> j" "(k - 1) div 2 \<noteq> j" "(k - 1) div 2 \<noteq> i"
      by blast
    then show "f (swap h i j ! ((k - 1) div 2)) \<le> f (swap h i j ! k)"
    proof cases
      case 1
      with k i assms(4) par_j show ?thesis by (simp add: sw)
    next
      case 2
      with k i child [of k] show ?thesis by (simp add: sw assms(2))
    next
      case 3
      with k i ord [of k] assms(4) show ?thesis by (simp add: sw)
    next
      case 4
      with k i ord [of k] par [of k] show ?thesis by (simp add: sw)
    qed
  next
    fix k assume k: "0 < k \<and> k < length h \<and> (k - 1) div 2 = i \<and> 0 < i"
    have up: "f (h ! ((i - 1) div 2)) \<le> f (h ! i)" using ord [of i] k i by simp
    have gp: "(i - 1) div 2 < i" "(i - 1) div 2 < length h" using k i by linarith+
    show "f (swap h i j ! ((i - 1) div 2)) \<le> f (swap h i j ! k)"
    proof (cases "k = j")
      case True
      with up gp i k show ?thesis by (simp add: sw)
    next
      case False
      then have "f (h ! i) \<le> f (h ! k)" "k \<noteq> i" using ord [of k] k by auto
      with False up gp i k show ?thesis by (simp add: sw)
    qed
  qed
qed

lemma heap_up_correct:
  assumes "up_ok f h j" "j < length h"
  shows "heap_ok f (heap_up f h j) \<and> mset (heap_up f h j) = mset h"
  using assms
proof (induction f h j rule: heap_up.induct)
  case (1 f h j)
  let ?i = "(j - 1) div 2"
  show ?case
  proof (cases "?i = j \<or> \<not> f (h ! j) < f (h ! ?i)")
    case True
    then have "j = 0 \<or> f (h ! ?i) \<le> f (h ! j)" by (cases j) auto
    with True 1(2) show ?thesis
      by (subst (1 2) heap_up.simps) (auto simp: Let_def heap_ok_def up_ok_def)
  next
    case False
    then have j: "0 < j" "?i < length h" using 1(3) by auto
    with False 1(2,3) have "up_ok f (swap h ?i j) ?i" by (intro up_step) auto
    with 1(1) [OF refl False] j 1(3) False show ?thesis
      by (subst (1 2) heap_up.simps) (simp add: Let_def mset_swap_eq)
  qed
qed

subsection \<open>Sifting down\<close>

definition down_ok :: "('a \<Rightarrow> int) \<Rightarrow> 'a list \<Rightarrow> nat \<Rightarrow> nat \<Rightarrow> bool" where
  "down_ok f h i n \<longleftrightarrow>
     (\<forall>k. 0 < k \<and> k < n \<and> (k - 1) div 2 \<noteq> i \<longrightarrow> f (h ! ((k - 1) div 2)) \<le> f (h ! k)) \<and>
     (\<forall>k. 0 < k \<and> k < n \<and> (k - 1) div 2 = i \<and> 0 < i \<longrightarrow> f (h ! ((i - 1) div 2)) \<le> f (h ! k))"

lemma children: "0 < (k::nat) \<Longrightarrow> (k - 1) div 2 = i \<longleftrightarrow> k = 2 * i + 1 \<or> k = 2 * i + 2"
  by presburger

lemma down_step:
  assumes ok: "down_ok f h i n" and n: "n \<le> length h" and j: "0 < j" "j < n" "(j - 1) div 2 = i"
    and less: "f (h ! j) < f (h ! i)"
    and least: "\<And>k. 0 < k \<Longrightarrow> k < n \<Longrightarrow> (k - 1) div 2 = i \<Longrightarrow> f (h ! j) \<le> f (h ! k)"
  shows "down_ok f (swap h i j) j n"
proof -
  have i: "i < j" "i < length h" "j < length h" using j n by auto
  have sw: "swap h i j ! k = (if k = i then h ! j else if k = j then h ! i else h ! k)" if "k < length h" for k
    using swap_nth [of i h j k] i that by simp
  have ord: "f (h ! ((k - 1) div 2)) \<le> f (h ! k)" if "0 < k" "k < n" "(k - 1) div 2 \<noteq> i" for k
    using ok that unfolding down_ok_def by blast
  have above: "f (h ! ((i - 1) div 2)) \<le> f (h ! k)" if "0 < k" "k < n" "(k - 1) div 2 = i" "0 < i" for k
    using ok that unfolding down_ok_def by blast
  have lt: "k < length h" "(k - 1) div 2 < length h" if "k < n" for k using that n by linarith+
  show ?thesis unfolding down_ok_def
  proof (intro conjI allI impI)
    fix k assume k: "0 < k \<and> k < n \<and> (k - 1) div 2 \<noteq> j"
    consider "(k - 1) div 2 = i" "k = j" | "(k - 1) div 2 = i" "k \<noteq> j" | "(k - 1) div 2 \<noteq> i" "k = i" | "(k - 1) div 2 \<noteq> i" "k \<noteq> i"
      by blast
    then show "f (swap h i j ! ((k - 1) div 2)) \<le> f (swap h i j ! k)"
    proof cases
      case 1
      with k i less show ?thesis by (simp add: sw)
    next
      case 2
      then have "k \<noteq> i" using k children [of k i] by auto
      with 2 k i lt [of k] least [of k] show ?thesis by (simp add: sw)
    next
      case 3
      with k i lt [of k] above [of j] j show ?thesis by (simp add: sw)
    next
      case 4
      then have "k \<noteq> j" using j by auto
      with 4 k i lt [of k] ord [of k] show ?thesis by (simp add: sw)
    qed
  next
    fix k assume k: "0 < k \<and> k < n \<and> (k - 1) div 2 = j \<and> 0 < j"
    then have "k \<noteq> i" "k \<noteq> j" "(k - 1) div 2 \<noteq> i" using i by auto
    with k ord [of k] lt [of k] i j show "f (swap h i j ! ((j - 1) div 2)) \<le> f (swap h i j ! k)"
      by (simp add: sw)
  qed
qed

lemma heap_down_correct:
  assumes "down_ok f h i n" "n \<le> length h" "i < n \<or> n = 0"
  shows "(\<forall>k. 0 < k \<and> k < n \<longrightarrow> f (heap_down f h i n ! ((k - 1) div 2)) \<le> f (heap_down f h i n ! k)) \<and>
    mset (heap_down f h i n) = mset h \<and> length (heap_down f h i n) = length h \<and>
    (\<forall>k. n \<le> k \<and> k < length h \<longrightarrow> heap_down f h i n ! k = h ! k)"
  using assms
proof (induction f h i n rule: heap_down.induct)
  case (1 f h i n)
  define j where "j = (if 2 * i + 1 + 1 < n \<and> f (h ! (2 * i + 1 + 1)) < f (h ! (2 * i + 1)) then 2 * i + 1 + 1 else 2 * i + 1)"
  have step: "heap_down f h i n = (if n \<le> 2 * i + 1 \<or> \<not> f (h ! j) < f (h ! i) then h else heap_down f (swap h i j) j n)"
    by (subst heap_down.simps) (simp add: Let_def j_def)
  have stop: "\<forall>k. 0 < k \<and> k < n \<longrightarrow> f (h ! ((k - 1) div 2)) \<le> f (h ! k)"
    if "\<And>k. 0 < k \<Longrightarrow> k < n \<Longrightarrow> (k - 1) div 2 = i \<Longrightarrow> f (h ! i) \<le> f (h ! k)"
    using that 1(2) unfolding down_ok_def by blast
  show ?case
  proof (cases "n \<le> 2 * i + 1")
    case True
    then have "\<forall>k. 0 < k \<and> k < n \<longrightarrow> f (h ! ((k - 1) div 2)) \<le> f (h ! k)"
      by (intro stop) (auto simp: children)
    with True show ?thesis unfolding step by simp
  next
    case False
    then have j: "0 < j" "j < n" "(j - 1) div 2 = i" "j < length h" "i < length h" using 1(3)
      by (auto simp: j_def)
    have least: "f (h ! j) \<le> f (h ! k)" if "0 < k" "k < n" "(k - 1) div 2 = i" for k
      using that children [OF that(1), of i] by (auto simp: j_def)
    show ?thesis
    proof (cases "f (h ! j) < f (h ! i)")
      case True
      have "down_ok f (swap h i j) j n" by (rule down_step [OF 1(2,3) j(1-3) True least])
      moreover have "(\<forall>k. 0 < k \<and> k < n \<longrightarrow> f (heap_down f (swap h i j) j n ! ((k - 1) div 2)) \<le> f (heap_down f (swap h i j) j n ! k)) \<and>
        mset (heap_down f (swap h i j) j n) = mset (swap h i j) \<and> length (heap_down f (swap h i j) j n) = length (swap h i j) \<and>
        (\<forall>k. n \<le> k \<and> k < length (swap h i j) \<longrightarrow> heap_down f (swap h i j) j n ! k = swap h i j ! k)"
        by (rule 1(1) [OF refl _ j_def]) (use False True calculation 1(3) j in auto)
      moreover have "swap h i j ! k = h ! k" if "n \<le> k" for k
        using that j by (auto simp: swap_def)
      ultimately show ?thesis using True False j unfolding step by (auto simp: mset_swap_eq)
    next
      case F: False
      then have "\<forall>k. 0 < k \<and> k < n \<longrightarrow> f (h ! ((k - 1) div 2)) \<le> f (h ! k)"
        using least by (intro stop) force
      with F show ?thesis unfolding step by simp
    qed
  qed
qed

subsection \<open>\<open>Push\<close> and \<open>Pop\<close>\<close>

lemma heap_Push_correct:
  assumes "heap_ok f h"
  shows "heap_ok f (heap_Push f x h)" "mset (heap_Push f x h) = add_mset x (mset h)"
proof -
  have "(k - 1) div 2 < length h" if "0 < k" "k < Suc (length h)" for k using that by linarith
  then have "up_ok f (h @ [x]) (length h)"
    using assms unfolding up_ok_def heap_ok_def by (fastforce simp: nth_append)
  then show "heap_ok f (heap_Push f x h)" "mset (heap_Push f x h) = add_mset x (mset h)"
    using heap_up_correct [of f "h @ [x]" "length h"] by (simp_all add: heap_Push_def)
qed

lemma length_heap_up [simp]: "length (heap_up f h j) = length h"
proof (induction f h j rule: heap_up.induct)
  case (1 f h j)
  then show ?case by (subst heap_up.simps) (auto simp: Let_def)
qed

lemma mset_heap_up:
  "j < length h \<Longrightarrow> mset (heap_up f h j) = mset h"
proof (induction f h j rule: heap_up.induct)
  case (1 f h j)
  show ?case
  proof (cases "(j - 1) div 2 = j \<or> \<not> f (h ! j) < f (h ! ((j - 1) div 2))")
    case True
    then show ?thesis by (subst heap_up.simps) (simp add: Let_def)
  next
    case False
    with 1 show ?thesis by (subst heap_up.simps) (simp add: Let_def mset_swap_eq)
  qed
qed

lemma heap_root_min:
  assumes "heap_ok f h" "k < length h" shows "f (h ! 0) \<le> f (h ! k)"
  using assms(2)
proof (induction k rule: less_induct)
  case (less k)
  show ?case
  proof (cases "k = 0")
    case False
    then have "f (h ! ((k - 1) div 2)) \<le> f (h ! k)" using assms(1) less.prems by (simp add: heap_ok_def)
    moreover have "f (h ! 0) \<le> f (h ! ((k - 1) div 2))" using False less.prems by (intro less.IH) auto
    ultimately show ?thesis by simp
  qed simp
qed

lemma heap_Pop_correct:
  assumes ok: "heap_ok f h" and ne: "h \<noteq> []"
  shows "heap_ok f (snd (heap_Pop f h))" "fst (heap_Pop f h) = h ! 0"
    "mset h = add_mset (fst (heap_Pop f h)) (mset (snd (heap_Pop f h)))"
proof -
  define n where "n = length h - 1"
  define s where "s = swap h 0 n"
  define d where "d = heap_down f s 0 n"
  have n: "n < length h" "length s = length h" "length h = Suc n" using ne by (simp_all add: n_def s_def)
  have s: "s ! k = h ! k" if "0 < k" "k < n" for k using that n by (simp add: s_def swap_def)
  have "f (s ! ((k - 1) div 2)) \<le> f (s ! k)" if "0 < k" "k < n" "(k - 1) div 2 \<noteq> 0" for k
  proof -
    have "(k - 1) div 2 < n" using that by linarith
    then show ?thesis using ok that n by (simp add: heap_ok_def s)
  qed
  then have "down_ok f s 0 n" unfolding down_ok_def by simp
  then have d: "\<forall>k. 0 < k \<and> k < n \<longrightarrow> f (d ! ((k - 1) div 2)) \<le> f (d ! k)" "mset d = mset s"
    "length d = length s" "\<forall>k. n \<le> k \<and> k < length s \<longrightarrow> d ! k = s ! k"
    using heap_down_correct [of f s 0 n] n unfolding d_def by auto
  have pop: "heap_Pop f h = (last d, butlast d)" by (simp add: heap_Pop_def n_def s_def d_def Let_def)
  have d_ne: "d \<noteq> []" using d(3) n by auto
  have "last d = d ! n" using d(3) n d_ne by (simp add: last_conv_nth)
  also have "\<dots> = s ! n" using d(4) n by simp
  also have "\<dots> = h ! 0" using n by (simp add: s_def swap_def nth_list_update)
  finally show "fst (heap_Pop f h) = h ! 0" by (simp add: pop)
  have "heap_ok f (butlast d)" unfolding heap_ok_def
  proof (intro allI impI)
    fix k assume k: "0 < k \<and> k < length (butlast d)"
    then have "k < n" "(k - 1) div 2 < length (butlast d)" using d(3) n by (simp, linarith)
    with k d(1) show "f (butlast d ! ((k - 1) div 2)) \<le> f (butlast d ! k)" by (simp add: nth_butlast)
  qed
  then show "heap_ok f (snd (heap_Pop f h))" by (simp add: pop)
  have "mset d = add_mset (last d) (mset (butlast d))"
    using d_ne by (metis append_butlast_last_id mset_append mset_single_iff_right union_mset_add_mset_right add.right_neutral mset.simps)
  moreover have "mset s = mset h" using n by (simp add: s_def mset_swap_eq)
  ultimately show "mset h = add_mset (fst (heap_Pop f h)) (mset (snd (heap_Pop f h)))" using d(2) by (simp add: pop)
qed

lemma heap_Push_mset: "mset (heap_Push f x h) = add_mset x (mset h)"
  using mset_heap_up [of "length h" "h @ [x]" f] by (simp add: heap_Push_def)

lemma heap_peek_min: "heap_ok f h \<Longrightarrow> e \<in># mset h \<Longrightarrow> f (h ! 0) \<le> f e"
  by (metis heap_root_min in_set_conv_nth set_mset_mset)

interpretation eh: expiry_queue "heap_Push snd" "heap_Pop snd" "\<lambda>h. h ! 0" mset "heap_ok snd" "snd :: 'k \<times> instant \<Rightarrow> instant"
  by unfold_locales
    (simp_all add: heap_Push_correct(1) heap_Push_mset heap_Pop_correct heap_peek_min)

end
