(* ===== verification/Rate_Limit.thy ===== *)
theory Rate_Limit
  imports Expiry_Heap "HOL-Library.AList"
begin

text \<open>
  The authentication rate limits of \<open>internal/app/server/auth_rate_limit.go\<close>: a fixed-window counter
  per key, kept in Redis with an atomic script and, while Redis is unreachable, in a bounded local
  table whose expiries are a heap. The heap is used through the facts of \<open>expiry_queue\<close>. Redis commands
  and SHA-256 are fields of an environment; every read of the clock is an argument.
\<close>

subsection \<open>Data\<close>

record localCounter =
  lc_count :: int
  lc_expiresAt :: instant

record fixedWindowLimiter =
  fw_prefix :: string
  fw_limit :: int
  fw_window :: duration
  fw_maxLocalEntries :: int
  fw_counters :: "(string \<times> localCounter) list"
  fw_expiries :: "(string \<times> instant) list"

definition defaultAuthLocalFallbackMaxKeys :: int where "defaultAuthLocalFallbackMaxKeys = 10000"

definition authRedisFailureBackoff :: duration where "authRedisFailureBackoff = 5 * second"

definition newFixedWindowLimiter :: "string \<Rightarrow> int \<Rightarrow> duration \<Rightarrow> int \<Rightarrow> fixedWindowLimiter" where
  "newFixedWindowLimiter prefix limit window maxLocalEntries =
     \<lparr>fw_prefix = prefix, fw_limit = limit, fw_window = window,
      fw_maxLocalEntries = (if maxLocalEntries \<le> 0 then defaultAuthLocalFallbackMaxKeys else maxLocalEntries),
      fw_counters = [], fw_expiries = []\<rparr>"

subsection \<open>The local table\<close>

text \<open>A heap entry is live when the counter of its key still has that expiry.\<close>

definition entry_live :: "(string \<times> localCounter) list \<Rightarrow> string \<times> instant \<Rightarrow> bool" where
  "entry_live counters e = (case map_of counters (fst e) of None \<Rightarrow> False | Some entry \<Rightarrow> lc_expiresAt entry = snd e)"

lemma length_heap_down [simp]: "length (heap_down f h i n) = length h"
proof (induction f h i n rule: heap_down.induct)
  case (1 f h i n)
  then show ?case by (subst heap_down.simps) (auto simp: Let_def)
qed

lemma length_heap_Pop [simp]: "length (snd (heap_Pop f h)) = length h - 1"
  by (simp add: heap_Pop_def Let_def)

function purgeExpired :: "instant \<Rightarrow> (string \<times> localCounter) list \<Rightarrow> (string \<times> instant) list \<Rightarrow>
    (string \<times> localCounter) list \<times> (string \<times> instant) list" where
  "purgeExpired now counters h =
     (if h = [] then (counters, h)
      else if now < snd (h ! 0) then (counters, h)
      else let expired = fst (heap_Pop snd h); h = snd (heap_Pop snd h) in
        if entry_live counters expired then purgeExpired now (AList.delete (fst expired) counters) h
        else purgeExpired now counters h)"
  by pat_completeness auto
termination by (relation "measure (\<lambda>(now, counters, h). length h)") (auto simp: Let_def)

function evictOne :: "(string \<times> localCounter) list \<Rightarrow> (string \<times> instant) list \<Rightarrow>
    bool \<times> (string \<times> localCounter) list \<times> (string \<times> instant) list" where
  "evictOne counters h =
     (if h = [] then (False, counters, h)
      else let evicted = fst (heap_Pop snd h); h = snd (heap_Pop snd h) in
        if entry_live counters evicted then (True, AList.delete (fst evicted) counters, h)
        else evictOne counters h)"
  by pat_completeness auto
termination by (relation "measure (\<lambda>(counters, h). length h)") (auto simp: Let_def)

declare purgeExpired.simps [simp del] evictOne.simps [simp del]

lemma delete_live_shorter:
  assumes "entry_live counters e" shows "length (AList.delete (fst e) counters) < length counters"
proof -
  obtain c where "(fst e, c) \<in> set counters"
    using assms by (auto simp: entry_live_def split: option.splits dest: map_of_SomeD)
  then show ?thesis unfolding AList.delete_eq by (intro length_filter_less) auto
qed

lemma evictOne_shorter:
  "evictOne counters h = (True, counters', h') \<Longrightarrow> length counters' < length counters"
proof (induction counters h rule: evictOne.induct)
  case (1 counters h)
  then show ?case
    by (subst (asm) (2) evictOne.simps) (auto simp: Let_def delete_live_shorter split: if_splits)
qed

text \<open>The capacity loop; when no heap entry is live an arbitrary counter goes (the first of the list here).\<close>

function enforceCapacity :: "int \<Rightarrow> (string \<times> localCounter) list \<Rightarrow> (string \<times> instant) list \<Rightarrow>
    (string \<times> localCounter) list \<times> (string \<times> instant) list" where
  "enforceCapacity maxEntries counters h =
     (if int (length counters) < maxEntries then (counters, h)
      else case evictOne counters h of
        (True, counters', h') \<Rightarrow> enforceCapacity maxEntries counters' h'
      | (False, counters', h') \<Rightarrow> (tl counters', h'))"
  by pat_completeness auto
termination
  by (relation "measure (\<lambda>(m, counters, h). length counters)") (auto dest!: evictOne_shorter [OF sym])

declare enforceCapacity.simps [simp del]

definition purgeExpiredLocalLocked :: "instant \<Rightarrow> fixedWindowLimiter \<Rightarrow> fixedWindowLimiter" where
  "purgeExpiredLocalLocked now l =
     (case purgeExpired now (fw_counters l) (fw_expiries l) of (c, h) \<Rightarrow> l\<lparr>fw_counters := c, fw_expiries := h\<rparr>)"

definition enforceLocalCapacityLocked :: "instant \<Rightarrow> fixedWindowLimiter \<Rightarrow> fixedWindowLimiter" where
  "enforceLocalCapacityLocked now l =
     (if fw_maxLocalEntries l \<le> 0 then l
      else let l = purgeExpiredLocalLocked now l in
        (case enforceCapacity (fw_maxLocalEntries l) (fw_counters l) (fw_expiries l) of
           (c, h) \<Rightarrow> l\<lparr>fw_counters := c, fw_expiries := h\<rparr>))"

text \<open>\<open>now\<close> is the reading at the start, \<open>later\<close> the one inside \<open>time.Until\<close>.\<close>

definition incrementLocal :: "instant \<Rightarrow> instant \<Rightarrow> string \<Rightarrow> fixedWindowLimiter \<Rightarrow> (int \<times> duration) \<times> fixedWindowLimiter" where
  "incrementLocal now later key l =
     (let l = purgeExpiredLocalLocked now l in
      case map_of (fw_counters l) key of
        None \<Rightarrow>
          let l = enforceLocalCapacityLocked now l;
              entry = \<lparr>lc_count = 1, lc_expiresAt = now + fw_window l\<rparr>;
              l = l\<lparr>fw_counters := AList.update key entry (fw_counters l),
                    fw_expiries := heap_Push snd (key, lc_expiresAt entry) (fw_expiries l)\<rparr>
          in ((lc_count entry, time_Sub (lc_expiresAt entry) later), l)
      | Some entry \<Rightarrow>
          let entry = entry\<lparr>lc_count := lc_count entry + 1\<rparr>
          in ((lc_count entry, time_Sub (lc_expiresAt entry) later),
              l\<lparr>fw_counters := AList.update key entry (fw_counters l)\<rparr>))"

definition currentLocal :: "instant \<Rightarrow> instant \<Rightarrow> string \<Rightarrow> fixedWindowLimiter \<Rightarrow> (int \<times> duration) \<times> fixedWindowLimiter" where
  "currentLocal now later key l =
     (let l = purgeExpiredLocalLocked now l in
      case map_of (fw_counters l) key of
        None \<Rightarrow> ((0, 0), l)
      | Some entry \<Rightarrow> ((lc_count entry, time_Sub (lc_expiresAt entry) later), l))"

definition resetLocal :: "string \<Rightarrow> fixedWindowLimiter \<Rightarrow> fixedWindowLimiter" where
  "resetLocal key l = l\<lparr>fw_counters := AList.delete key (fw_counters l)\<rparr>"

subsection \<open>The invariant of the local table\<close>

definition limiter_inv :: "fixedWindowLimiter \<Rightarrow> bool" where
  "limiter_inv l \<longleftrightarrow>
     0 < fw_maxLocalEntries l \<and> int (length (fw_counters l)) \<le> fw_maxLocalEntries l \<and>
     distinct (map fst (fw_counters l)) \<and> heap_ok snd (fw_expiries l) \<and>
     (\<forall>key entry. map_of (fw_counters l) key = Some entry \<longrightarrow> (key, lc_expiresAt entry) \<in># mset (fw_expiries l))"

text \<open>The part of it the loops over counters and heap keep.\<close>

definition table_ok :: "(string \<times> localCounter) list \<Rightarrow> (string \<times> instant) list \<Rightarrow> bool" where
  "table_ok counters h \<longleftrightarrow> distinct (map fst counters) \<and> heap_ok snd h \<and>
     (\<forall>key entry. map_of counters key = Some entry \<longrightarrow> (key, lc_expiresAt entry) \<in># mset h)"

lemma limiter_inv_table:
  "limiter_inv l \<longleftrightarrow> 0 < fw_maxLocalEntries l \<and> int (length (fw_counters l)) \<le> fw_maxLocalEntries l \<and>
     table_ok (fw_counters l) (fw_expiries l)"
  by (auto simp: limiter_inv_def table_ok_def)

lemma table_pop_dead:
  assumes "table_ok counters h" "h \<noteq> []" "\<not> entry_live counters (fst (heap_Pop snd h))"
  shows "table_ok counters (snd (heap_Pop snd h))"
proof -
  have ok: "heap_ok snd h" "mset h \<noteq> {#}" using assms by (simp_all add: table_ok_def)
  have "(key, lc_expiresAt entry) \<in># mset (snd (heap_Pop snd h))" if m: "map_of counters key = Some entry" for key entry
  proof -
    have "(key, lc_expiresAt entry) \<in># mset h" using assms(1) m by (simp add: table_ok_def)
    moreover have "entry_live counters (key, lc_expiresAt entry)" using m by (simp add: entry_live_def)
    then have "(key, lc_expiresAt entry) \<noteq> fst (heap_Pop snd h)" using assms(3) by metis
    ultimately show ?thesis using eh.pop_items [OF ok] by auto
  qed
  with assms(1) eh.pop_good [OF ok] show ?thesis by (simp add: table_ok_def)
qed

lemma table_pop_live:
  assumes "table_ok counters h" "h \<noteq> []"
  shows "table_ok (AList.delete (fst (fst (heap_Pop snd h))) counters) (snd (heap_Pop snd h))"
proof -
  have ok: "heap_ok snd h" "mset h \<noteq> {#}" using assms by (simp_all add: table_ok_def)
  have "(key, lc_expiresAt entry) \<in># mset (snd (heap_Pop snd h))"
    if m: "map_of (AList.delete (fst (fst (heap_Pop snd h))) counters) key = Some entry" for key entry
  proof -
    have "key \<noteq> fst (fst (heap_Pop snd h))" "map_of counters key = Some entry"
      using m by (auto simp: AList.delete_conv' split: if_splits)
    then have "(key, lc_expiresAt entry) \<in># mset h" "(key, lc_expiresAt entry) \<noteq> fst (heap_Pop snd h)"
      using assms(1) unfolding table_ok_def by (blast, metis fst_conv)
    then show ?thesis using eh.pop_items [OF ok] by auto
  qed
  with assms(1) eh.pop_good [OF ok] show ?thesis by (simp add: table_ok_def AList.distinct_delete)
qed

text \<open>The unexpired counters, which purging keeps exactly.\<close>

definition live_counters :: "instant \<Rightarrow> (string \<times> localCounter) list \<Rightarrow> string \<rightharpoonup> localCounter" where
  "live_counters now counters key =
     (case map_of counters key of None \<Rightarrow> None | Some e \<Rightarrow> if now < lc_expiresAt e then Some e else None)"

lemma purgeExpired_correct:
  assumes "table_ok counters h" "purgeExpired now counters h = (counters', h')"
  shows "table_ok counters' h' \<and> map_of counters' = live_counters now counters \<and> length counters' \<le> length counters"
  using assms
proof (induction now counters h rule: purgeExpired.induct)
  case (1 now counters h)
  have ok: "heap_ok snd h" using 1(3) by (simp add: table_ok_def)
  show ?case
  proof (cases "h = [] \<or> now < snd (h ! 0)")
    case True
    then have eq: "counters' = counters" "h' = h" using 1(4) by (auto simp: purgeExpired.simps [of now counters h] split: if_splits)
    have "now < lc_expiresAt entry" if "map_of counters key = Some entry" for key entry
    proof -
      have e: "(key, lc_expiresAt entry) \<in># mset h" using 1(3) that by (simp add: table_ok_def)
      then have "h \<noteq> []" by auto
      with True eh.peek_min [OF ok e] show ?thesis by simp
    qed
    then have "map_of counters = live_counters now counters"
      by (auto simp: live_counters_def fun_eq_iff split: option.splits)
    with eq 1(3) show ?thesis by simp
  next
    case False
    let ?e = "fst (heap_Pop snd h)" and ?h = "snd (heap_Pop snd h)"
    have due: "snd ?e \<le> now" using False eh.pop_peek [OF ok] by simp
    show ?thesis
    proof (cases "entry_live counters ?e")
      case True
      have "purgeExpired now (AList.delete (fst ?e) counters) ?h = (counters', h')"
        using 1(4) False True by (simp add: purgeExpired.simps [of now counters h] Let_def)
      with 1(1) [of ?e ?h] False True table_pop_live [OF 1(3)]
      have IH: "table_ok counters' h' \<and> map_of counters' = live_counters now (AList.delete (fst ?e) counters) \<and>
          length counters' \<le> length (AList.delete (fst ?e) counters)" by auto
      moreover have "live_counters now (AList.delete (fst ?e) counters) = live_counters now counters"
        using True due by (auto simp: live_counters_def AList.delete_conv' entry_live_def fun_eq_iff split: option.splits)
      moreover have "length (AList.delete (fst ?e) counters) \<le> length counters" by (rule AList.length_delete_le)
      ultimately show ?thesis by simp
    next
      case F: False
      have "purgeExpired now counters ?h = (counters', h')"
        using 1(4) False F by (simp add: purgeExpired.simps [of now counters h] Let_def)
      with 1(2) [of ?e ?h] False F table_pop_dead [OF 1(3)] show ?thesis by auto
    qed
  qed
qed

subsection \<open>Eviction\<close>

definition earliest :: "(string \<times> localCounter) list \<Rightarrow> string \<Rightarrow> bool" where
  "earliest counters key \<longleftrightarrow> (\<exists>e. map_of counters key = Some e \<and>
     (\<forall>k' e'. map_of counters k' = Some e' \<longrightarrow> lc_expiresAt e \<le> lc_expiresAt e'))"

lemma evictOne_correct:
  assumes "table_ok counters h" "counters \<noteq> []"
  shows "\<exists>key h'. evictOne counters h = (True, AList.delete key counters, h') \<and> earliest counters key \<and>
    table_ok (AList.delete key counters) h'"
  using assms
proof (induction counters h rule: evictOne.induct)
  case (1 counters h)
  have ok: "heap_ok snd h" using 1(2) by (simp add: table_ok_def)
  obtain k c where "map_of counters k = Some c" using 1(3) by (cases counters) fastforce+
  then have "(k, lc_expiresAt c) \<in># mset h" using 1(2) by (simp add: table_ok_def)
  then have ne: "h \<noteq> []" by auto
  let ?e = "fst (heap_Pop snd h)" and ?h = "snd (heap_Pop snd h)"
  show ?case
  proof (cases "entry_live counters ?e")
    case True
    then obtain e where e: "map_of counters (fst ?e) = Some e" "lc_expiresAt e = snd ?e"
      by (auto simp: entry_live_def split: option.splits)
    have "lc_expiresAt e \<le> lc_expiresAt e'" if "map_of counters k' = Some e'" for k' e'
    proof -
      have in_h: "(k', lc_expiresAt e') \<in># mset h" using 1(2) that by (simp add: table_ok_def)
      show ?thesis using eh.peek_min [OF ok in_h] eh.pop_peek [OF ok] ne e(2) by simp
    qed
    then have "earliest counters (fst ?e)" using e unfolding earliest_def by blast
    moreover have "evictOne counters h = (True, AList.delete (fst ?e) counters, ?h)"
      using ne True by (simp add: evictOne.simps [of counters h] Let_def)
    ultimately show ?thesis using table_pop_live [OF 1(2) ne] by blast
  next
    case False
    have "evictOne counters h = evictOne counters ?h"
      using ne False by (simp add: evictOne.simps [of counters h] Let_def)
    with 1(1) [OF ne refl refl False] 1(3) table_pop_dead [OF 1(2) ne False] show ?thesis by simp
  qed
qed

lemma delete_absent: "k \<notin> fst ` set al \<Longrightarrow> AList.delete k al = al"
  by (induction al) auto

lemma length_delete_key:
  assumes "distinct (map fst al)" "map_of al k = Some v" shows "length al = Suc (length (AList.delete k al))"
  using assms by (induction al) (auto simp: delete_absent split: if_splits)

lemma enforceCapacity_correct:
  assumes "table_ok counters h" "int (length counters) \<le> m" "0 < m"
  shows "\<exists>counters' h'. enforceCapacity m counters h = (counters', h') \<and> table_ok counters' h' \<and>
    int (length counters') < m \<and>
    (if int (length counters) < m then counters' = counters
     else \<exists>key. earliest counters key \<and> counters' = AList.delete key counters)"
proof (cases "int (length counters) < m")
  case True
  with assms show ?thesis by (simp add: enforceCapacity.simps)
next
  case False
  then have "counters \<noteq> []" using assms by auto
  then obtain key h' where ev: "evictOne counters h = (True, AList.delete key counters, h')" "earliest counters key"
    "table_ok (AList.delete key counters) h'" using evictOne_correct [OF assms(1)] by blast
  obtain e where e: "map_of counters key = Some e" using ev(2) by (auto simp: earliest_def)
  have "int (length (AList.delete key counters)) < m"
    using length_delete_key [OF _ e] assms False e by (cases counters) (auto simp: table_ok_def)
  with False ev show ?thesis
    by (auto simp: enforceCapacity.simps [of m counters h] enforceCapacity.simps [of m "AList.delete key counters"])
qed

lemma purge_step:
  assumes "limiter_inv l"
  shows "limiter_inv (purgeExpiredLocalLocked now l)"
    "map_of (fw_counters (purgeExpiredLocalLocked now l)) = live_counters now (fw_counters l)"
    "fw_limit (purgeExpiredLocalLocked now l) = fw_limit l" "fw_window (purgeExpiredLocalLocked now l) = fw_window l"
    "fw_maxLocalEntries (purgeExpiredLocalLocked now l) = fw_maxLocalEntries l"
    "fw_prefix (purgeExpiredLocalLocked now l) = fw_prefix l"
proof -
  obtain c h where p: "purgeExpired now (fw_counters l) (fw_expiries l) = (c, h)" by fastforce
  from purgeExpired_correct [OF _ this] assms
  show "limiter_inv (purgeExpiredLocalLocked now l)"
    "map_of (fw_counters (purgeExpiredLocalLocked now l)) = live_counters now (fw_counters l)"
    "fw_limit (purgeExpiredLocalLocked now l) = fw_limit l" "fw_window (purgeExpiredLocalLocked now l) = fw_window l"
    "fw_maxLocalEntries (purgeExpiredLocalLocked now l) = fw_maxLocalEntries l"
    "fw_prefix (purgeExpiredLocalLocked now l) = fw_prefix l"
    by (auto simp: limiter_inv_table purgeExpiredLocalLocked_def p)
qed

lemma live_counters_idem [simp]: "live_counters now cs = map_of cs' \<Longrightarrow> live_counters now cs' = map_of cs'"
  by (auto simp: live_counters_def fun_eq_iff split: option.splits if_splits)
    (metis (mono_tags, lifting) option.distinct(1) option.inject option.simps(5))

subsection \<open>Counting one request\<close>

lemma update_new: "k \<notin> fst ` set al \<Longrightarrow> length (AList.update k v al) = Suc (length al)"
  by (induction al) auto

lemma update_old: "k \<in> fst ` set al \<Longrightarrow> length (AList.update k v al) = length al"
  by (induction al) auto

lemma live_map_of: "map_of (fw_counters l) = live_counters now cs \<Longrightarrow> live_counters now (fw_counters l) = map_of (fw_counters l)"
  by (rule live_counters_idem) simp

lemma incrementLocal_hit:
  assumes inv: "limiter_inv l" and hit: "live_counters now (fw_counters l) key = Some e"
  shows "fst (incrementLocal now later key l) = (lc_count e + 1, time_Sub (lc_expiresAt e) later)"
    "map_of (fw_counters (snd (incrementLocal now later key l))) =
       (live_counters now (fw_counters l))(key \<mapsto> e\<lparr>lc_count := lc_count e + 1\<rparr>)"
    "limiter_inv (snd (incrementLocal now later key l))"
proof -
  let ?l = "purgeExpiredLocalLocked now l"
  note p = purge_step [OF inv, of now]
  let ?e = "e\<lparr>lc_count := lc_count e + 1\<rparr>"
  have run: "incrementLocal now later key l =
      ((lc_count e + 1, time_Sub (lc_expiresAt e) later), ?l\<lparr>fw_counters := AList.update key ?e (fw_counters ?l)\<rparr>)"
    using hit by (simp add: incrementLocal_def Let_def p(2))
  then show "fst (incrementLocal now later key l) = (lc_count e + 1, time_Sub (lc_expiresAt e) later)" by simp
  show m: "map_of (fw_counters (snd (incrementLocal now later key l))) = (live_counters now (fw_counters l))(key \<mapsto> ?e)"
    by (simp add: run AList.update_conv' p(2))
  have "key \<in> fst ` set (fw_counters ?l)"
    using hit p(2) by (metis dom_map_of_conv_image_fst domI)
  then have "length (AList.update key ?e (fw_counters ?l)) = length (fw_counters ?l)"
    by (rule update_old)
  moreover have "(k, lc_expiresAt x) \<in># mset (fw_expiries ?l)"
    if "((live_counters now (fw_counters l))(key \<mapsto> ?e)) k = Some x" for k x
    using that p(1) hit unfolding limiter_inv_def p(2) by (auto split: if_splits)
  ultimately show "limiter_inv (snd (incrementLocal now later key l))"
    using p(1) m unfolding limiter_inv_def by (auto simp: run AList.distinct_update)
qed

text \<open>What the capacity step leaves for a new key: everything live, less the earliest counter of a full table.\<close>

definition room_for :: "instant \<Rightarrow> fixedWindowLimiter \<Rightarrow> (string \<rightharpoonup> localCounter) \<Rightarrow> bool" where
  "room_for now l kept \<longleftrightarrow>
     (let live = fw_counters (purgeExpiredLocalLocked now l) in
      if int (length live) < fw_maxLocalEntries l then kept = map_of live
      else \<exists>victim. earliest live victim \<and> kept = (map_of live)(victim := None))"

lemma enforce_step:
  assumes "limiter_inv l" "map_of (fw_counters l) = live_counters now cs"
  defines "l' \<equiv> enforceLocalCapacityLocked now l"
  shows "limiter_inv l'" "int (length (fw_counters l')) < fw_maxLocalEntries l'"
    "room_for now l (map_of (fw_counters l'))"
    "fw_window l' = fw_window l" "fw_limit l' = fw_limit l" "fw_maxLocalEntries l' = fw_maxLocalEntries l" "fw_prefix l' = fw_prefix l"
proof -
  let ?p = "purgeExpiredLocalLocked now l"
  note p = purge_step [OF assms(1), of now]
  have t: "table_ok (fw_counters ?p) (fw_expiries ?p)" "int (length (fw_counters ?p)) \<le> fw_maxLocalEntries ?p" "0 < fw_maxLocalEntries ?p"
    using p(1) by (simp_all add: limiter_inv_table)
  obtain c h where e: "enforceCapacity (fw_maxLocalEntries ?p) (fw_counters ?p) (fw_expiries ?p) = (c, h)" "table_ok c h"
    "int (length c) < fw_maxLocalEntries ?p" "if int (length (fw_counters ?p)) < fw_maxLocalEntries ?p then c = fw_counters ?p
     else \<exists>key. earliest (fw_counters ?p) key \<and> c = AList.delete key (fw_counters ?p)"
    using enforceCapacity_correct [OF t] by blast
  have l': "l' = ?p\<lparr>fw_counters := c, fw_expiries := h\<rparr>"
    using t(3) p(5) e(1) [unfolded p(5)] by (simp add: l'_def enforceLocalCapacityLocked_def Let_def)
  show "limiter_inv l'" "int (length (fw_counters l')) < fw_maxLocalEntries l'"
    using e(2,3) t(3) by (simp_all add: l' limiter_inv_table)
  show "room_for now l (map_of (fw_counters l'))"
    using e(4) p(5) by (auto simp: room_for_def Let_def l' AList.delete_conv' split: if_splits)
  show "fw_window l' = fw_window l" "fw_limit l' = fw_limit l" "fw_maxLocalEntries l' = fw_maxLocalEntries l" "fw_prefix l' = fw_prefix l"
    using p by (simp_all add: l')
qed

lemma room_for_purge:
  assumes "limiter_inv l" "room_for now (purgeExpiredLocalLocked now l) kept"
  shows "\<And>k e. kept k = Some e \<Longrightarrow> live_counters now (fw_counters l) k = Some e"
    "int (card (dom (live_counters now (fw_counters l)))) < fw_maxLocalEntries l \<Longrightarrow> kept = live_counters now (fw_counters l)"
proof -
  let ?p = "purgeExpiredLocalLocked now l" and ?q = "purgeExpiredLocalLocked now (purgeExpiredLocalLocked now l)"
  note p = purge_step [OF assms(1), of now] and q = purge_step [OF purge_step(1) [OF assms(1), of now], of now]
  have eq: "map_of (fw_counters ?q) = live_counters now (fw_counters l)"
    using q(2) p(2) by (simp add: live_map_of [OF p(2)])
  show "kept k = Some e \<Longrightarrow> live_counters now (fw_counters l) k = Some e" for k e
    using assms(2) by (auto simp: room_for_def Let_def eq split: if_splits)
  have "distinct (map fst (fw_counters ?q))" using q(1) by (simp add: limiter_inv_def)
  then have "card (dom (map_of (fw_counters ?q))) = length (fw_counters ?q)"
    by (metis distinct_card dom_map_of_conv_image_fst length_map list.set_map)
  then show "int (card (dom (live_counters now (fw_counters l)))) < fw_maxLocalEntries l \<Longrightarrow> kept = live_counters now (fw_counters l)"
    using assms(2) p(5) by (simp add: room_for_def Let_def eq)
qed

lemma incrementLocal_miss:
  assumes inv: "limiter_inv l" and miss: "live_counters now (fw_counters l) key = None"
  shows "fst (incrementLocal now later key l) = (1, time_Sub (now + fw_window l) later)"
    "\<exists>kept. room_for now (purgeExpiredLocalLocked now l) kept \<and>
       map_of (fw_counters (snd (incrementLocal now later key l))) =
         kept(key \<mapsto> \<lparr>lc_count = 1, lc_expiresAt = now + fw_window l\<rparr>)"
    "limiter_inv (snd (incrementLocal now later key l))"
proof -
  let ?p = "purgeExpiredLocalLocked now l"
  define l' where "l' = enforceLocalCapacityLocked now ?p"
  note p = purge_step [OF inv, of now]
  note e = enforce_step [OF p(1) p(2), folded l'_def]
  let ?entry = "\<lparr>lc_count = 1, lc_expiresAt = now + fw_window l\<rparr>"
  have run: "incrementLocal now later key l = ((1, time_Sub (now + fw_window l) later),
      l'\<lparr>fw_counters := AList.update key ?entry (fw_counters l'),
         fw_expiries := heap_Push snd (key, now + fw_window l) (fw_expiries l')\<rparr>)"
    using miss by (simp add: incrementLocal_def Let_def p(2) l'_def [symmetric] e(4) p(4))
  then show "fst (incrementLocal now later key l) = (1, time_Sub (now + fw_window l) later)" by simp
  show "\<exists>kept. room_for now ?p kept \<and> map_of (fw_counters (snd (incrementLocal now later key l))) = kept(key \<mapsto> ?entry)"
    using e(3) by (auto simp: run AList.update_conv')
  have "map_of (fw_counters l') key = None"
    using room_for_purge(1) [OF inv e(3), of key] miss by (cases "map_of (fw_counters l') key") auto
  then have fresh: "key \<notin> fst ` set (fw_counters l')" by (simp add: map_of_eq_None_iff)
  have "heap_ok snd (heap_Push snd (key, now + fw_window l) (fw_expiries l'))"
    using e(1) by (simp add: limiter_inv_def eh.push_good)
  with e(1,2) fresh show "limiter_inv (snd (incrementLocal now later key l))"
    unfolding limiter_inv_def run by (auto simp: AList.update_conv' update_new AList.distinct_update eh.push_items split: if_splits)
qed

lemma currentLocal_correct:
  assumes "limiter_inv l"
  shows "fst (currentLocal now later key l) =
      (case live_counters now (fw_counters l) key of None \<Rightarrow> (0, 0) | Some e \<Rightarrow> (lc_count e, time_Sub (lc_expiresAt e) later))"
    "snd (currentLocal now later key l) = purgeExpiredLocalLocked now l"
  using purge_step(2) [OF assms, of now] by (auto simp: currentLocal_def Let_def split: option.splits)

lemma resetLocal_correct:
  assumes "limiter_inv l"
  shows "limiter_inv (resetLocal key l)" "map_of (fw_counters (resetLocal key l)) = (map_of (fw_counters l))(key := None)"
proof -
  have "int (length (AList.delete key (fw_counters l))) \<le> fw_maxLocalEntries l"
    using assms AList.length_delete_le [of key "fw_counters l"] by (simp add: limiter_inv_def)
  with assms show "limiter_inv (resetLocal key l)"
    unfolding limiter_inv_def resetLocal_def
    by (auto simp: AList.distinct_delete AList.delete_conv' split: if_splits)
qed (simp add: resetLocal_def AList.delete_conv')

subsection \<open>Redis with a local fallback\<close>

record 'r redis_counter_ops =
  rc_INCR :: "string \<Rightarrow> 'r \<Rightarrow> int \<times> 'r"
  rc_PEXPIRE :: "string \<Rightarrow> int \<Rightarrow> 'r \<Rightarrow> 'r"
  rc_PTTL :: "string \<Rightarrow> 'r \<Rightarrow> int"
  rc_GET :: "string \<Rightarrow> 'r \<Rightarrow> int option"
  rc_DEL :: "string \<Rightarrow> 'r \<Rightarrow> 'r"

text \<open>How Redis behaves during one call: no client can be made, commands fail, or they succeed.\<close>

datatype redis_link = NoClient | Failing | Reachable

text \<open>The shared back-off (\<open>None\<close> for the zero time) beside the Redis data.\<close>

record 'r auth_world =
  aw_redis :: 'r
  aw_retryAt :: "instant option"

definition markAuthRedisFailure :: "instant \<Rightarrow> 'r auth_world \<Rightarrow> 'r auth_world" where
  "markAuthRedisFailure now w = w\<lparr>aw_retryAt := Some (now + authRedisFailureBackoff)\<rparr>"

definition markAuthRedisSuccess :: "'r auth_world \<Rightarrow> 'r auth_world" where
  "markAuthRedisSuccess w = w\<lparr>aw_retryAt := None\<rparr>"

definition authRedisAttemptAllowed :: "instant \<Rightarrow> 'r auth_world \<Rightarrow> bool \<times> 'r auth_world" where
  "authRedisAttemptAllowed now w =
     (case aw_retryAt w of
        None \<Rightarrow> (True, w)
      | Some retryAt \<Rightarrow> if retryAt < now then (True, w\<lparr>aw_retryAt := None\<rparr>) else (False, w))"

definition redisClient :: "instant \<Rightarrow> redis_link \<Rightarrow> 'r auth_world \<Rightarrow> bool \<times> 'r auth_world" where
  "redisClient now link w =
     (case authRedisAttemptAllowed now w of
        (False, w) \<Rightarrow> (False, w)
      | (True, w) \<Rightarrow> if link = NoClient then (False, markAuthRedisFailure now w) else (True, markAuthRedisSuccess w))"

definition authRateLimitIncrementScript :: "'r redis_counter_ops \<Rightarrow> string \<Rightarrow> int \<Rightarrow> 'r \<Rightarrow> (int \<times> int) \<times> 'r" where
  "authRateLimitIncrementScript ops key windowMS r =
     (case rc_INCR ops key r of
        (cnt, r) \<Rightarrow>
          let r = (if cnt = 1 then rc_PEXPIRE ops key windowMS r else r);
              ttl = rc_PTTL ops key r
          in ((cnt, if ttl < 0 then windowMS else ttl), r))"

definition redisKey :: "fixedWindowLimiter \<Rightarrow> string \<Rightarrow> string" where
  "redisKey l key = fw_prefix l @ '':'' @ key"

definition window_ms :: "fixedWindowLimiter \<Rightarrow> int" where
  "window_ms l = fw_window l div millisecond"

definition incrementRedis :: "'r redis_counter_ops \<Rightarrow> instant \<Rightarrow> redis_link \<Rightarrow> fixedWindowLimiter \<Rightarrow> string \<Rightarrow> 'r auth_world \<Rightarrow>
    (int \<times> duration) option \<times> 'r auth_world" where
  "incrementRedis ops now link l key w =
     (case redisClient now link w of
        (False, w) \<Rightarrow> (None, w)
      | (True, w) \<Rightarrow>
          if link = Failing then (None, markAuthRedisFailure now w)
          else (case authRateLimitIncrementScript ops (redisKey l key) (window_ms l) (aw_redis w) of
                  ((cnt, ttlMS), r) \<Rightarrow>
                    let ttlMS = (if ttlMS \<le> 0 then window_ms l else ttlMS)
                    in (Some (cnt, ttlMS * millisecond), (markAuthRedisSuccess w)\<lparr>aw_redis := r\<rparr>)))"

definition currentRedis :: "'r redis_counter_ops \<Rightarrow> instant \<Rightarrow> redis_link \<Rightarrow> fixedWindowLimiter \<Rightarrow> string \<Rightarrow> 'r auth_world \<Rightarrow>
    (int \<times> duration) option \<times> 'r auth_world" where
  "currentRedis ops now link l key w =
     (case redisClient now link w of
        (False, w) \<Rightarrow> (None, w)
      | (True, w) \<Rightarrow>
          if link = Failing then (None, markAuthRedisFailure now w)
          else (case rc_GET ops (redisKey l key) (aw_redis w) of
                  None \<Rightarrow> (Some (0, 0), markAuthRedisSuccess w)
                | Some cnt \<Rightarrow>
                    (Some (cnt, max 0 (rc_PTTL ops (redisKey l key) (aw_redis w) * millisecond)), markAuthRedisSuccess w)))"

definition increment :: "'r redis_counter_ops \<Rightarrow> instant \<Rightarrow> instant \<Rightarrow> redis_link \<Rightarrow> string \<Rightarrow>
    fixedWindowLimiter \<times> 'r auth_world \<Rightarrow> (int \<times> duration) \<times> fixedWindowLimiter \<times> 'r auth_world" where
  "increment ops now later link key st =
     (case st of (l, w) \<Rightarrow>
        (case incrementRedis ops now link l key w of
           (Some r, w) \<Rightarrow> (r, l, w)
         | (None, w) \<Rightarrow> (case incrementLocal now later key l of (r, l) \<Rightarrow> (r, l, w))))"

definition current_count :: "'r redis_counter_ops \<Rightarrow> instant \<Rightarrow> instant \<Rightarrow> redis_link \<Rightarrow> string \<Rightarrow>
    fixedWindowLimiter \<times> 'r auth_world \<Rightarrow> (int \<times> duration) \<times> fixedWindowLimiter \<times> 'r auth_world" where
  "current_count ops now later link key st =
     (case st of (l, w) \<Rightarrow>
        (case currentRedis ops now link l key w of
           (Some r, w) \<Rightarrow> (r, l, w)
         | (None, w) \<Rightarrow> (case currentLocal now later key l of (r, l) \<Rightarrow> (r, l, w))))"

definition reset_count :: "'r redis_counter_ops \<Rightarrow> instant \<Rightarrow> redis_link \<Rightarrow> string \<Rightarrow>
    fixedWindowLimiter \<times> 'r auth_world \<Rightarrow> fixedWindowLimiter \<times> 'r auth_world" where
  "reset_count ops now link key st =
     (case st of (l, w) \<Rightarrow>
        (case redisClient now link w of
           (False, w) \<Rightarrow> (resetLocal key l, w)
         | (True, w) \<Rightarrow>
             (resetLocal key l,
              if link = Failing then markAuthRedisFailure now w
              else (markAuthRedisSuccess w)\<lparr>aw_redis := rc_DEL ops (redisKey l key) (aw_redis w)\<rparr>)))"

definition allow :: "'r redis_counter_ops \<Rightarrow> instant \<Rightarrow> instant \<Rightarrow> redis_link \<Rightarrow> string \<Rightarrow>
    fixedWindowLimiter \<times> 'r auth_world \<Rightarrow> (bool \<times> duration) \<times> fixedWindowLimiter \<times> 'r auth_world" where
  "allow ops now later link key st =
     (if fw_limit (fst st) \<le> 0 \<or> fw_window (fst st) \<le> 0 then ((True, 0), st)
      else case increment ops now later link key st of
        ((cnt, ttl), st') \<Rightarrow>
          if cnt \<le> fw_limit (fst st) then ((True, 0), st')
          else ((False, if ttl \<le> 0 then fw_window (fst st) else ttl), st'))"

subsection \<open>Keys, identifiers and the callers\<close>

definition limiter_key :: "string list \<Rightarrow> string" where
  "limiter_key parts =
     (let filtered = filter (\<lambda>p. p \<noteq> []) (map TrimSpace parts) in
      case filtered of [] \<Rightarrow> ''unknown'' | p # ps \<Rightarrow> p @ concat (map (\<lambda>q. '':'' @ q) ps))"

definition normalizeRateLimitIP :: "string \<Rightarrow> string" where
  "normalizeRateLimitIP ip = (let ip = TrimSpace ip in if ip = [] then ''unknown'' else ip)"

definition hashIdentifier :: "(string \<Rightarrow> string) \<Rightarrow> string \<Rightarrow> string" where
  "hashIdentifier sha256hex v = (if v = [] then ''unknown'' else sha256hex v)"

definition identifier_key :: "(string \<Rightarrow> string) \<Rightarrow> string \<Rightarrow> string" where
  "identifier_key sha256hex identifier = limiter_key [hashIdentifier sha256hex (ToLower (TrimSpace identifier))]"

definition currentIdentifier :: "'r redis_counter_ops \<Rightarrow> (string \<Rightarrow> string) \<Rightarrow> instant \<Rightarrow> instant \<Rightarrow> redis_link \<Rightarrow> string \<Rightarrow>
    fixedWindowLimiter \<times> 'r auth_world \<Rightarrow> (bool \<times> duration) \<times> fixedWindowLimiter \<times> 'r auth_world" where
  "currentIdentifier ops sha now later link identifier st =
     (case current_count ops now later link (identifier_key sha identifier) st of
        ((cnt, ttl), st') \<Rightarrow> (if fw_limit (fst st) \<le> cnt then (True, ttl) else (False, 0), st'))"

definition incrementIdentifier :: "'r redis_counter_ops \<Rightarrow> (string \<Rightarrow> string) \<Rightarrow> instant \<Rightarrow> instant \<Rightarrow> redis_link \<Rightarrow> string \<Rightarrow>
    fixedWindowLimiter \<times> 'r auth_world \<Rightarrow> fixedWindowLimiter \<times> 'r auth_world" where
  "incrementIdentifier ops sha now later link identifier st =
     snd (increment ops now later link (identifier_key sha identifier) st)"

record loginFailureLimiter =
  lf_perIP :: fixedWindowLimiter
  lf_perEmail :: fixedWindowLimiter

definition isBlocked :: "'r redis_counter_ops \<Rightarrow> (string \<Rightarrow> string) \<Rightarrow> instant \<Rightarrow> instant \<Rightarrow> redis_link \<Rightarrow> string \<Rightarrow> string \<Rightarrow>
    loginFailureLimiter \<times> 'r auth_world \<Rightarrow> (bool \<times> duration) \<times> loginFailureLimiter \<times> 'r auth_world" where
  "isBlocked ops sha now later link ip email st =
     (case st of (lf, w) \<Rightarrow>
        (case current_count ops now later link (limiter_key [normalizeRateLimitIP ip]) (lf_perIP lf, w) of
           ((ipCount, ipTTL), lip, w) \<Rightarrow>
             let lf = lf\<lparr>lf_perIP := lip\<rparr> in
             if fw_limit lip \<le> ipCount then ((True, ipTTL), lf, w)
             else (case current_count ops now later link (identifier_key sha email) (lf_perEmail lf, w) of
                     ((emailCount, emailTTL), lem, w) \<Rightarrow>
                       let lf = lf\<lparr>lf_perEmail := lem\<rparr> in
                       if fw_limit lem \<le> emailCount then ((True, emailTTL), lf, w) else ((False, 0), lf, w))))"

definition recordFailure :: "'r redis_counter_ops \<Rightarrow> (string \<Rightarrow> string) \<Rightarrow> instant \<Rightarrow> instant \<Rightarrow> redis_link \<Rightarrow> string \<Rightarrow> string \<Rightarrow>
    loginFailureLimiter \<times> 'r auth_world \<Rightarrow> loginFailureLimiter \<times> 'r auth_world" where
  "recordFailure ops sha now later link ip email st =
     (case st of (lf, w) \<Rightarrow>
        (case snd (increment ops now later link (limiter_key [normalizeRateLimitIP ip]) (lf_perIP lf, w)) of
           (lip, w) \<Rightarrow>
             (case snd (increment ops now later link (identifier_key sha email) (lf_perEmail lf, w)) of
                (lem, w) \<Rightarrow> (lf\<lparr>lf_perIP := lip, lf_perEmail := lem\<rparr>, w))))"

definition recordSuccess :: "'r redis_counter_ops \<Rightarrow> (string \<Rightarrow> string) \<Rightarrow> instant \<Rightarrow> redis_link \<Rightarrow> string \<Rightarrow> string \<Rightarrow>
    loginFailureLimiter \<times> 'r auth_world \<Rightarrow> loginFailureLimiter \<times> 'r auth_world" where
  "recordSuccess ops sha now link ip email st =
     (case st of (lf, w) \<Rightarrow>
        (case reset_count ops now link (limiter_key [normalizeRateLimitIP ip]) (lf_perIP lf, w) of
           (lip, w) \<Rightarrow>
             (case reset_count ops now link (identifier_key sha email) (lf_perEmail lf, w) of
                (lem, w) \<Rightarrow> (lf\<lparr>lf_perIP := lip, lf_perEmail := lem\<rparr>, w))))"

definition retryAfterSeconds :: "duration \<Rightarrow> int option" where
  "retryAfterSeconds retryAfter =
     (if retryAfter \<le> 0 then None
      else let seconds = retryAfter div second;
               seconds = (if retryAfter mod second \<noteq> 0 then seconds + 1 else seconds)
           in Some (if seconds < 1 then 1 else seconds))"

text \<open>The wrapped handler: the request is passed on, or answered with status 429 and a header.\<close>

datatype wrap_result = PassedOn | TooManyRequests (tm_message: string) (tm_retryAfter: "int option")

definition wrap_request :: "'r redis_counter_ops \<Rightarrow> instant \<Rightarrow> instant \<Rightarrow> redis_link \<Rightarrow> string \<Rightarrow> string \<Rightarrow>
    fixedWindowLimiter \<times> 'r auth_world \<Rightarrow> wrap_result \<times> fixedWindowLimiter \<times> 'r auth_world" where
  "wrap_request ops now later link message clientKey st =
     (if fw_limit (fst st) \<le> 0 \<or> fw_window (fst st) \<le> 0 then (PassedOn, st)
      else case allow ops now later link (limiter_key [clientKey]) st of
        ((allowed, retryAfter), st) \<Rightarrow>
          if \<not> allowed then (TooManyRequests message (retryAfterSeconds retryAfter), st) else (PassedOn, st))"

record authRateLimits =
  al_loginRequests :: fixedWindowLimiter
  al_registerRequests :: fixedWindowLimiter
  al_forgotPassword :: fixedWindowLimiter
  al_forgotPerEmail :: fixedWindowLimiter
  al_resetPassword :: fixedWindowLimiter
  al_resetPerEmail :: fixedWindowLimiter
  al_loginFailures :: loginFailureLimiter

definition resolvePositiveEnvInt :: "(string \<Rightarrow> int \<Rightarrow> int) \<Rightarrow> string \<Rightarrow> int \<Rightarrow> int" where
  "resolvePositiveEnvInt GetEnvInt key fallback = (let v = GetEnvInt key fallback in if v \<le> 0 then fallback else v)"

definition getAuthRateLimits :: "(string \<Rightarrow> int \<Rightarrow> int) \<Rightarrow> authRateLimits" where
  "getAuthRateLimits GetEnvInt =
     (let env = resolvePositiveEnvInt GetEnvInt;
          requestWindow = env ''AUTH_REQUEST_RATE_LIMIT_WINDOW_SECONDS'' 60 * second;
          loginFailureWindow = env ''AUTH_LOGIN_FAILURE_WINDOW_SECONDS'' (15 * 60) * second;
          maxKeys = env ''AUTH_RATE_LIMIT_LOCAL_FALLBACK_MAX_KEYS'' defaultAuthLocalFallbackMaxKeys
      in \<lparr>al_loginRequests = newFixedWindowLimiter ''magpie:ratelimit:login:request''
            (env ''AUTH_LOGIN_RATE_LIMIT_PER_WINDOW'' 60) requestWindow maxKeys,
          al_registerRequests = newFixedWindowLimiter ''magpie:ratelimit:register:request''
            (env ''AUTH_REGISTER_RATE_LIMIT_PER_WINDOW'' 20) requestWindow maxKeys,
          al_forgotPassword = newFixedWindowLimiter ''magpie:ratelimit:forgot_password:request''
            (env ''AUTH_FORGOT_PASSWORD_RATE_LIMIT_PER_WINDOW'' 10) requestWindow maxKeys,
          al_forgotPerEmail = newFixedWindowLimiter ''magpie:ratelimit:forgot_password:email''
            (env ''AUTH_FORGOT_PASSWORD_LIMIT_PER_EMAIL'' 1) requestWindow maxKeys,
          al_resetPassword = newFixedWindowLimiter ''magpie:ratelimit:reset_password:request''
            (env ''AUTH_RESET_PASSWORD_RATE_LIMIT_PER_WINDOW'' 20) requestWindow maxKeys,
          al_resetPerEmail = newFixedWindowLimiter ''magpie:ratelimit:reset_password:email''
            (env ''AUTH_RESET_PASSWORD_LIMIT_PER_EMAIL'' 5) requestWindow maxKeys,
          al_loginFailures = \<lparr>
            lf_perIP = newFixedWindowLimiter ''magpie:ratelimit:login:fail:ip''
              (env ''AUTH_LOGIN_FAILURE_LIMIT_PER_IP'' 30) loginFailureWindow maxKeys,
            lf_perEmail = newFixedWindowLimiter ''magpie:ratelimit:login:fail:email''
              (env ''AUTH_LOGIN_FAILURE_LIMIT_PER_EMAIL'' 10) loginFailureWindow maxKeys\<rparr>\<rparr>)"

subsection \<open>Runs of the limiter without Redis\<close>

lemma redisClient_none: "redisClient now NoClient w = (False, snd (redisClient now NoClient w))"
  by (auto simp: redisClient_def split: prod.splits bool.splits)

lemma increment_local:
  "increment ops now later NoClient key (l, w) =
     (fst (incrementLocal now later key l), snd (incrementLocal now later key l), snd (redisClient now NoClient w))"
  by (subst increment_def, subst incrementRedis_def, subst redisClient_none)
    (simp split: prod.splits)

lemma allow_local:
  assumes "0 < fw_limit l" "0 < fw_window l"
  shows "fst (fst (allow ops now later NoClient key (l, w))) \<longleftrightarrow> fst (fst (incrementLocal now later key l)) \<le> fw_limit l"
    "fst (snd (allow ops now later NoClient key (l, w))) = snd (incrementLocal now later key l)"
  using assms by (auto simp: allow_def increment_local split: prod.splits)

text \<open>Requests are pairs of a time and a key; the result pairs each key with the decision.\<close>

fun run_requests :: "'r redis_counter_ops \<Rightarrow> (instant \<times> string) list \<Rightarrow> fixedWindowLimiter \<times> 'r auth_world \<Rightarrow> (string \<times> bool) list" where
  "run_requests ops [] st = []"
| "run_requests ops ((now, key) # reqs) st =
     (case allow ops now now NoClient key st of ((allowed, ttl), st) \<Rightarrow> (key, allowed) # run_requests ops reqs st)"

lemma incrementLocal_frame:
  "fw_limit (snd (incrementLocal now later key l)) = fw_limit l"
  "fw_window (snd (incrementLocal now later key l)) = fw_window l"
  "fw_maxLocalEntries (snd (incrementLocal now later key l)) = fw_maxLocalEntries l"
  by (auto simp: incrementLocal_def enforceLocalCapacityLocked_def purgeExpiredLocalLocked_def Let_def
      split: option.splits prod.splits)

lemma live_counters_iff:
  "live_counters now cs k = Some e \<longleftrightarrow> map_of cs k = Some e \<and> now < lc_expiresAt e"
  by (auto simp: live_counters_def split: option.splits)

lemma live_dom: "dom (live_counters now cs) \<subseteq> dom (map_of cs)"
  by (auto simp: live_counters_iff dom_def)

text \<open>With room for every key that occurs, a request only touches the counter of its own key.\<close>

lemma incrementLocal_roomy:
  assumes inv: "limiter_inv l" and K: "finite K" "int (card K) \<le> fw_maxLocalEntries l"
    "dom (map_of (fw_counters l)) \<subseteq> K" "key \<in> K"
  shows "map_of (fw_counters (snd (incrementLocal now later key l))) = (live_counters now (fw_counters l))(key \<mapsto>
      (case live_counters now (fw_counters l) key of None \<Rightarrow> \<lparr>lc_count = 1, lc_expiresAt = now + fw_window l\<rparr>
       | Some e \<Rightarrow> e\<lparr>lc_count := lc_count e + 1\<rparr>))"
    "fst (fst (incrementLocal now later key l)) =
      (case live_counters now (fw_counters l) key of None \<Rightarrow> 1 | Some e \<Rightarrow> lc_count e + 1)"
    "dom (map_of (fw_counters (snd (incrementLocal now later key l)))) \<subseteq> K"
proof -
  let ?live = "live_counters now (fw_counters l)"
  have few: "int (card (dom ?live)) < fw_maxLocalEntries l" if "?live key = None"
  proof -
    have "dom ?live \<subset> K" using that live_dom [of now "fw_counters l"] K(3,4) by blast
    then have "card (dom ?live) < card K" by (rule psubset_card_mono [OF K(1)])
    then show ?thesis using K(2) by simp
  qed
  show m: "map_of (fw_counters (snd (incrementLocal now later key l))) = ?live(key \<mapsto>
      (case ?live key of None \<Rightarrow> \<lparr>lc_count = 1, lc_expiresAt = now + fw_window l\<rparr>
       | Some e \<Rightarrow> e\<lparr>lc_count := lc_count e + 1\<rparr>))"
  proof (cases "?live key")
    case None
    obtain kept where "room_for now (purgeExpiredLocalLocked now l) kept"
      "map_of (fw_counters (snd (incrementLocal now later key l))) = kept(key \<mapsto> \<lparr>lc_count = 1, lc_expiresAt = now + fw_window l\<rparr>)"
      using incrementLocal_miss(2) [OF inv None] by blast
    with room_for_purge(2) [OF inv _ few [OF None]] None show ?thesis by simp
  next
    case (Some e)
    with incrementLocal_hit(2) [OF inv Some] show ?thesis by simp
  qed
  show "fst (fst (incrementLocal now later key l)) = (case ?live key of None \<Rightarrow> 1 | Some e \<Rightarrow> lc_count e + 1)"
    using incrementLocal_miss(1) [OF inv, of now key] incrementLocal_hit(1) [OF inv, of now key]
    by (cases "?live key") auto
  show "dom (map_of (fw_counters (snd (incrementLocal now later key l)))) \<subseteq> K"
    unfolding m using live_dom [of now "fw_counters l"] K(3,4) by auto
qed

lemma incrementLocal_inv: "limiter_inv l \<Longrightarrow> limiter_inv (snd (incrementLocal now later key l))"
  using incrementLocal_hit(3) incrementLocal_miss(3) by (cases "live_counters now (fw_counters l) key") blast+

lemma run_requests_counts:
  assumes "limiter_inv l" "0 < fw_limit l" "0 < fw_window l" "finite K" "int (card K) \<le> fw_maxLocalEntries l"
    "dom (map_of (fw_counters l)) \<subseteq> K" "snd ` set reqs \<subseteq> K" "sorted (map fst reqs)"
    and counter: "(n = 0 \<and> map_of (fw_counters l) k = None \<and>
        (\<forall>t t0. (t, k) \<in> set reqs \<and> (t0, k) \<in> set reqs \<longrightarrow> t < t0 + fw_window l)) \<or>
      (0 < n \<and> (\<exists>e. map_of (fw_counters l) k = Some e \<and> lc_count e = int n \<and>
        (\<forall>t. (t, k) \<in> set reqs \<longrightarrow> t < lc_expiresAt e))) \<or> k \<notin> snd ` set reqs"
  shows "map snd (filter (\<lambda>p. fst p = k) (run_requests ops reqs (l, w))) =
    map (\<lambda>i. int (n + i) < fw_limit l) [0..<length (filter (\<lambda>p. snd p = k) reqs)]"
  using assms
proof (induction reqs arbitrary: l w n)
  case (Cons r reqs)
  obtain t key where r: "r = (t, key)" by fastforce
  let ?l = "snd (incrementLocal t t key l)"
  have key: "key \<in> K" using Cons.prems(7) r by auto
  note room = incrementLocal_roomy [OF Cons.prems(1,4,5,6) key, of t t]
  note frame = incrementLocal_frame [of t t key l]
  obtain w' where run: "run_requests ops (r # reqs) (l, w) =
      (key, fst (fst (incrementLocal t t key l)) \<le> fw_limit l) # run_requests ops reqs (?l, w')"
  proof -
    obtain a ttl l' w1 where a: "allow ops t t NoClient key (l, w) = ((a, ttl), l', w1)" by (metis surj_pair)
    with allow_local [OF Cons.prems(2,3), of ops t t key w] show thesis by (intro that [of w1]) (simp add: r)
  qed
  have base: "limiter_inv ?l" "0 < fw_limit ?l" "0 < fw_window ?l" "finite K" "int (card K) \<le> fw_maxLocalEntries ?l"
    "dom (map_of (fw_counters ?l)) \<subseteq> K" "snd ` set reqs \<subseteq> K" "sorted (map fst reqs)"
    using Cons.prems room(3) frame incrementLocal_inv by simp_all
  have later: "t \<le> t'" if "(t', k) \<in> set reqs" for t' using Cons.prems(8) that r by auto
  have tail: "map snd (filter (\<lambda>p. fst p = k) (run_requests ops reqs (?l, w'))) =
      map (\<lambda>i. int (m + i) < fw_limit l) [0..<length (filter (\<lambda>p. snd p = k) reqs)]"
    if "(m = 0 \<and> map_of (fw_counters ?l) k = None \<and>
        (\<forall>t t0. (t, k) \<in> set reqs \<and> (t0, k) \<in> set reqs \<longrightarrow> t < t0 + fw_window ?l)) \<or>
      (0 < m \<and> (\<exists>e. map_of (fw_counters ?l) k = Some e \<and> lc_count e = int m \<and>
        (\<forall>t. (t, k) \<in> set reqs \<longrightarrow> t < lc_expiresAt e))) \<or> k \<notin> snd ` set reqs" for m
    using Cons.IH [OF base that] by (simp add: frame)
  show ?case
  proof (cases "key = k")
    case False
    have "(n = 0 \<and> map_of (fw_counters ?l) k = None \<and>
        (\<forall>t t0. (t, k) \<in> set reqs \<and> (t0, k) \<in> set reqs \<longrightarrow> t < t0 + fw_window ?l)) \<or>
      (0 < n \<and> (\<exists>e. map_of (fw_counters ?l) k = Some e \<and> lc_count e = int n \<and>
        (\<forall>t. (t, k) \<in> set reqs \<longrightarrow> t < lc_expiresAt e))) \<or> k \<notin> snd ` set reqs"
    proof (cases "k \<in> snd ` set reqs")
      case True
      then obtain t' where t': "(t', k) \<in> set reqs" by auto
      have mk: "map_of (fw_counters ?l) k = live_counters t (fw_counters l) k" using False by (simp add: room(1))
      from Cons.prems(9) True have "(n = 0 \<and> map_of (fw_counters l) k = None \<and>
          (\<forall>t t0. (t, k) \<in> set reqs \<and> (t0, k) \<in> set reqs \<longrightarrow> t < t0 + fw_window l)) \<or>
        (0 < n \<and> (\<exists>e. map_of (fw_counters l) k = Some e \<and> lc_count e = int n \<and>
          (\<forall>t. (t, k) \<in> set reqs \<longrightarrow> t < lc_expiresAt e)))" by (auto simp: r)
      then show ?thesis
      proof
        assume "n = 0 \<and> map_of (fw_counters l) k = None \<and>
          (\<forall>t t0. (t, k) \<in> set reqs \<and> (t0, k) \<in> set reqs \<longrightarrow> t < t0 + fw_window l)"
        then show ?thesis by (simp add: mk live_counters_def frame)
      next
        assume "0 < n \<and> (\<exists>e. map_of (fw_counters l) k = Some e \<and> lc_count e = int n \<and>
          (\<forall>t. (t, k) \<in> set reqs \<longrightarrow> t < lc_expiresAt e))"
        then obtain e where e: "0 < n" "map_of (fw_counters l) k = Some e" "lc_count e = int n"
          "\<And>t. (t, k) \<in> set reqs \<Longrightarrow> t < lc_expiresAt e" by blast
        then have "live_counters t (fw_counters l) k = Some e" using later [OF t'] e(4) [OF t'] by (simp add: live_counters_def)
        with e show ?thesis by (auto simp: mk)
      qed
    qed simp
    from tail [OF this] False show ?thesis unfolding run by (simp add: r)
  next
    case True
    have own: "(0 < Suc n \<and> (\<exists>e. map_of (fw_counters ?l) k = Some e \<and> lc_count e = int (Suc n) \<and>
        (\<forall>t. (t, k) \<in> set reqs \<longrightarrow> t < lc_expiresAt e))) \<and> fst (fst (incrementLocal t t key l)) = int (Suc n)"
    proof -
      from Cons.prems(9) True consider (new) "n = 0" "map_of (fw_counters l) k = None" "\<And>t'. (t', k) \<in> set reqs \<Longrightarrow> t' < t + fw_window l"
        | (old) e where "map_of (fw_counters l) k = Some e" "lc_count e = int n" "t < lc_expiresAt e" "\<And>t'. (t', k) \<in> set reqs \<Longrightarrow> t' < lc_expiresAt e"
        by (auto simp: r)
      then show ?thesis
      proof cases
        case new
        then have "live_counters t (fw_counters l) key = None" by (simp add: live_counters_def True)
        with new room(1,2) True show ?thesis by simp
      next
        case old
        then have "live_counters t (fw_counters l) key = Some e" by (simp add: live_counters_def True)
        with old room(1,2) True show ?thesis by simp
      qed
    qed
    then have cnt: "fst (fst (incrementLocal t t key l)) = int (Suc n)" by blast
    from tail [of "Suc n"] own have "map snd (filter (\<lambda>p. fst p = k) (run_requests ops reqs (?l, w'))) =
      map (\<lambda>i. int (Suc n + i) < fw_limit l) [0..<length (filter (\<lambda>p. snd p = k) reqs)]" by blast
    with True cnt show ?thesis unfolding run by (auto simp: r map_upt_Suc simp del: upt_Suc)
  qed
qed simp

subsection \<open>Properties\<close>

datatype limiter_op = OpIncrement instant instant string | OpCurrent instant instant string | OpReset string

fun limiter_step :: "limiter_op \<Rightarrow> fixedWindowLimiter \<Rightarrow> fixedWindowLimiter" where
  "limiter_step (OpIncrement now later key) l = snd (incrementLocal now later key l)"
| "limiter_step (OpCurrent now later key) l = snd (currentLocal now later key l)"
| "limiter_step (OpReset key) l = resetLocal key l"

lemma limiter_step_inv: "limiter_inv l \<Longrightarrow> limiter_inv (limiter_step op l)"
  by (cases op) (simp_all add: incrementLocal_inv currentLocal_correct(2) purge_step(1) resetLocal_correct(1))

lemma new_limiter_inv: "limiter_inv (newFixedWindowLimiter prefix limit window m)"
  by (simp add: limiter_inv_def newFixedWindowLimiter_def heap_ok_def defaultAuthLocalFallbackMaxKeys_def)

lemma limiter_step_max: "fw_maxLocalEntries (limiter_step op l) = fw_maxLocalEntries l"
  by (cases op) (auto simp: incrementLocal_frame currentLocal_def resetLocal_def purgeExpiredLocalLocked_def Let_def
      split: option.splits prod.splits)

text \<open>
  After any sequence of increments, reads and resets, with any keys at any times, the local table
  holds at most the configured number of keys, and every counter in it has its entry in the expiry heap,
  so an eviction always finds a victim and it is a counter with the earliest expiry.
\<close>

lemma local_table_bounded:
  fixes ops :: "limiter_op list" and prefix :: string and limit m :: int and window :: duration
  defines "l \<equiv> fold limiter_step ops (newFixedWindowLimiter prefix limit window m)"
  shows "limiter_inv l \<and> int (length (fw_counters l)) \<le> (if m \<le> 0 then 10000 else m) \<and>
    (fw_counters l \<noteq> [] \<longrightarrow> (\<exists>key h. evictOne (fw_counters l) (fw_expiries l) = (True, AList.delete key (fw_counters l), h) \<and>
       earliest (fw_counters l) key))"
proof -
  have "limiter_inv (fold limiter_step ops l0) \<and> fw_maxLocalEntries (fold limiter_step ops l0) = fw_maxLocalEntries l0"
    if "limiter_inv l0" for l0
    using that by (induction ops arbitrary: l0) (simp_all add: limiter_step_inv limiter_step_max)
  from this [OF new_limiter_inv] have inv: "limiter_inv l" "fw_maxLocalEntries l = (if m \<le> 0 then 10000 else m)"
    unfolding l_def by (auto simp: newFixedWindowLimiter_def defaultAuthLocalFallbackMaxKeys_def)
  moreover from inv(1) have "table_ok (fw_counters l) (fw_expiries l)" by (simp add: limiter_inv_table)
  ultimately show ?thesis using evictOne_correct [of "fw_counters l" "fw_expiries l"] by (auto simp: limiter_inv_def)
qed

theorem local_table_bounded_witness:
  "length (fw_counters (fold limiter_step [OpIncrement 0 0 ''a'', OpIncrement 1 1 ''b'', OpIncrement 2 2 ''c'']
      (newFixedWindowLimiter ''p'' 5 100 2))) = 2 \<and>
   (\<exists>key h. earliest (fw_counters (fold limiter_step [OpIncrement 0 0 ''a'', OpIncrement 1 1 ''b'', OpIncrement 2 2 ''c'']
      (newFixedWindowLimiter ''p'' 5 100 2))) key)"
proof
  show two: "length (fw_counters (fold limiter_step [OpIncrement 0 0 ''a'', OpIncrement 1 1 ''b'', OpIncrement 2 2 ''c'']
      (newFixedWindowLimiter ''p'' 5 100 2))) = 2" by code_simp
  then show "\<exists>key h. earliest (fw_counters (fold limiter_step [OpIncrement 0 0 ''a'', OpIncrement 1 1 ''b'', OpIncrement 2 2 ''c'']
      (newFixedWindowLimiter ''p'' 5 100 2))) key"
    using local_table_bounded [of "[OpIncrement 0 0 ''a'', OpIncrement 1 1 ''b'', OpIncrement 2 2 ''c'']" "''p''" 5 100 2] by force
qed

text \<open>
  A local increment counts exactly: a live counter of the key goes up by one and keeps its expiry;
  otherwise the key starts at one with a full window. No other live counter changes, except that a
  full table gives up one counter, the one that would expire first.
\<close>

lemma local_increment_exact:
  assumes "limiter_inv l"
  shows "\<exists>kept. (case live_counters now (fw_counters l) key of
      Some e \<Rightarrow> fst (incrementLocal now later key l) = (lc_count e + 1, time_Sub (lc_expiresAt e) later) \<and>
        kept = (live_counters now (fw_counters l))(key \<mapsto> e\<lparr>lc_count := lc_count e + 1\<rparr>)
    | None \<Rightarrow> fst (incrementLocal now later key l) = (1, time_Sub (now + fw_window l) later) \<and>
        (\<exists>room. room_for now (purgeExpiredLocalLocked now l) room \<and>
           kept = room(key \<mapsto> \<lparr>lc_count = 1, lc_expiresAt = now + fw_window l\<rparr>))) \<and>
    map_of (fw_counters (snd (incrementLocal now later key l))) = kept"
proof (cases "live_counters now (fw_counters l) key")
  case None
  with incrementLocal_miss(1,2) [OF assms None] show ?thesis by auto
next
  case (Some e)
  with incrementLocal_hit(1,2) [OF assms Some] show ?thesis by auto
qed

theorem local_increment_exact_witness:
  "fst (incrementLocal 3 4 ''a'' (newFixedWindowLimiter ''p'' 5 100 2)) = (1, 99)"
proof -
  have "live_counters 3 (fw_counters (newFixedWindowLimiter ''p'' 5 100 2)) ''a'' = None" by code_simp
  then show ?thesis
    using local_increment_exact [OF new_limiter_inv [of "''p''" 5 100 2], where now = 3 and key = "''a''" and later = 4]
    by (simp add: newFixedWindowLimiter_def time_Sub_def max_duration_def min_duration_def)
qed


definition no_redis :: "unit redis_counter_ops" where
  "no_redis = \<lparr>rc_INCR = (\<lambda>k r. (1, r)), rc_PEXPIRE = (\<lambda>k t r. r), rc_PTTL = (\<lambda>k r. 0), rc_GET = (\<lambda>k r. None), rc_DEL = (\<lambda>k r. r)\<rparr>"


text \<open>
  While Redis answers, a request is decided by the script's counter and the local table is not
  touched; after a failed attempt at time \<open>t\<close> no Redis command is issued until five seconds later,
  and the requests in between are counted locally.
\<close>

lemma redis_first_then_backoff:
  "(case authRateLimitIncrementScript ops (redisKey l key) (window_ms l) r of
      ((cnt, ttl), r') \<Rightarrow> \<exists>d. increment ops now later Reachable key (l, \<lparr>aw_redis = r, aw_retryAt = None\<rparr>) =
        ((cnt, d), l, \<lparr>aw_redis = r', aw_retryAt = None\<rparr>)) \<and>
   (link \<noteq> Reachable \<and> t' \<le> t + 5 * second \<longrightarrow>
     (let st = snd (increment ops t later link key (l, \<lparr>aw_redis = r, aw_retryAt = None\<rparr>)) in
      aw_redis (snd st) = r \<and>
      increment ops t' later' link' key' st =
        (fst (incrementLocal t' later' key' (fst st)), snd (incrementLocal t' later' key' (fst st)), snd st)))"
  by (cases link; auto simp: increment_def incrementRedis_def redisClient_def authRedisAttemptAllowed_def
      markAuthRedisFailure_def markAuthRedisSuccess_def authRedisFailureBackoff_def Let_def split: prod.splits)

theorem redis_first_then_backoff_witness:
  "increment no_redis 3 3 Reachable ''k'' (snd (increment no_redis 0 0 Failing ''k''
      (newFixedWindowLimiter ''p'' 2 60 10, \<lparr>aw_redis = (), aw_retryAt = None\<rparr>))) =
    (let st = snd (increment no_redis 0 0 Failing ''k'' (newFixedWindowLimiter ''p'' 2 60 10, \<lparr>aw_redis = (), aw_retryAt = None\<rparr>))
     in (fst (incrementLocal 3 3 ''k'' (fst st)), snd (incrementLocal 3 3 ''k'' (fst st)), snd st))"
  using redis_first_then_backoff [where ops = no_redis and l = "newFixedWindowLimiter ''p'' 2 60 10" and key = "''k''" and r = "()"
      and link = Failing and t = 0 and t' = 3 and later = 0 and later' = 3 and link' = Reachable and key' = "''k''" and now = 0]
  by (simp add: Let_def)

text \<open>
  The \<open>Retry-After\<close> header is the waiting time rounded up to whole seconds: waiting that long is
  enough, and one second less is not; it is omitted exactly for a non-positive time.
\<close>

lemma retry_after_rounds_up:
  "(retryAfterSeconds d = None \<longleftrightarrow> d \<le> 0) \<and>
   (\<forall>s. retryAfterSeconds d = Some s \<longrightarrow> 1 \<le> s \<and> d \<le> s * second \<and> (s - 1) * second < d)"
proof -
  have "1 \<le> s \<and> d \<le> s * second \<and> (s - 1) * second < d" if "retryAfterSeconds d = Some s" for s
  proof -
    have d: "0 < d" using that by (simp add: retryAfterSeconds_def split: if_splits)
    define q where "q = d div second"
    define m where "m = d mod second"
    have eq: "d = q * second + m" "0 \<le> m" "m < second" by (simp_all add: q_def m_def)
    have "s = (let n = (if m \<noteq> 0 then q + 1 else q) in if n < 1 then 1 else n)"
      using that d unfolding retryAfterSeconds_def Let_def q_def [symmetric] m_def [symmetric] by (simp split: if_splits)
    with d eq show ?thesis by (auto simp: Let_def split: if_splits)
  qed
  then show ?thesis by (auto simp: retryAfterSeconds_def Let_def)
qed

lemma retry_after_rounds_up_witness:
  "retryAfterSeconds (1500 * millisecond) = Some 2 \<and> (1500 * millisecond :: int) \<le> 2 * second"
proof -
  have "retryAfterSeconds (1500 * millisecond) = Some 2" by code_simp
  with retry_after_rounds_up [of "1500 * millisecond"] show ?thesis by blast
qed

end
