(* ===== verification/Redis_Store.thy ===== *)
theory Redis_Store
  imports Magpie_Prelude
begin

text \<open>
  The Redis commands the two work queues are written against. Redis is not part of the repository: its
  commands are the fields of a record the queue definitions take as an argument, and what the queues
  rely on is the locale \<open>redis_store\<close>, whose laws are the documented behaviour of \<open>ZSCORE\<close>, \<open>ZADD\<close> with its
  flags, \<open>ZREM\<close>, \<open>ZRANGE\<close>, \<open>GET\<close>, \<open>SET\<close> and \<open>DEL\<close>. Laws that relate a string key to a sorted-set key hold
  for different keys only, as writing one over the other is an error (or an overwrite) in Redis. An
  in-memory store satisfies the laws. Scores are rationals: Redis keeps doubles, which represent every
  whole and half millisecond below 2^52, some 140,000 years.
\<close>

subsection \<open>Commands\<close>

datatype zflag = ZAny | NX | XX | LT

record 'r redis_ops =
  ZSCORE :: "string \<Rightarrow> string \<Rightarrow> 'r \<Rightarrow> rat option"
  ZADD :: "zflag \<Rightarrow> string \<Rightarrow> rat \<Rightarrow> string \<Rightarrow> 'r \<Rightarrow> 'r"
  ZREM :: "string \<Rightarrow> string \<Rightarrow> 'r \<Rightarrow> 'r"
  ZMEMBERS :: "string \<Rightarrow> 'r \<Rightarrow> string list"
  GET :: "string \<Rightarrow> 'r \<Rightarrow> string option"
  SET :: "string \<Rightarrow> string \<Rightarrow> 'r \<Rightarrow> 'r"
  DEL :: "string \<Rightarrow> 'r \<Rightarrow> 'r"

text \<open>The score a member has after \<open>ZADD\<close> with a flag, from the one it had.\<close>

fun zadd_score :: "zflag \<Rightarrow> rat \<Rightarrow> rat option \<Rightarrow> rat option" where
  "zadd_score ZAny x _ = Some x"
| "zadd_score NX x None = Some x"
| "zadd_score NX x (Some y) = Some y"
| "zadd_score XX x None = None"
| "zadd_score XX x (Some y) = Some x"
| "zadd_score LT x None = Some x"
| "zadd_score LT x (Some y) = Some (if x < y then x else y)"

text \<open>\<open>ZRANGE key 0 0 WITHSCORES\<close> and \<open>ZCARD key\<close>; \<open>ZMEMBERS\<close> is \<open>ZRANGE key 0 -1\<close>.\<close>

definition ZHEAD :: "'r redis_ops \<Rightarrow> string \<Rightarrow> 'r \<Rightarrow> (string \<times> rat) option" where
  "ZHEAD R q s =
     (case ZMEMBERS R q s of
        [] \<Rightarrow> None
      | m # _ \<Rightarrow> (case ZSCORE R q m s of None \<Rightarrow> None | Some x \<Rightarrow> Some (m, x)))"

definition ZCARD :: "'r redis_ops \<Rightarrow> string \<Rightarrow> 'r \<Rightarrow> nat" where
  "ZCARD R q s = length (ZMEMBERS R q s)"

subsection \<open>Laws\<close>

locale redis_store =
  fixes R :: "'r redis_ops"
  assumes zscore_zadd:
      "ZSCORE R q' m' (ZADD R f q x m s) = (if q' = q \<and> m' = m then zadd_score f x (ZSCORE R q m s) else ZSCORE R q' m' s)"
    and zscore_zrem: "ZSCORE R q' m' (ZREM R q m s) = (if q' = q \<and> m' = m then None else ZSCORE R q' m' s)"
    and zscore_set: "k \<noteq> q \<Longrightarrow> ZSCORE R q m (SET R k v s) = ZSCORE R q m s"
    and zscore_del: "k \<noteq> q \<Longrightarrow> ZSCORE R q m (DEL R k s) = ZSCORE R q m s"
    and get_zadd: "k \<noteq> q \<Longrightarrow> GET R k (ZADD R f q x m s) = GET R k s"
    and get_zrem: "k \<noteq> q \<Longrightarrow> GET R k (ZREM R q m s) = GET R k s"
    and get_set: "GET R k' (SET R k v s) = (if k' = k then Some v else GET R k' s)"
    and get_del: "GET R k' (DEL R k s) = (if k' = k then None else GET R k' s)"
    and members_set: "set (ZMEMBERS R q s) = {m. ZSCORE R q m s \<noteq> None}"
    and members_distinct: "distinct (ZMEMBERS R q s)"
    and members_sorted: "sorted (map (\<lambda>m. the (ZSCORE R q m s)) (ZMEMBERS R q s))"
begin

lemmas zset_laws = zscore_zadd zscore_zrem

lemma head_none: "ZHEAD R q s = None \<longleftrightarrow> (\<forall>m. ZSCORE R q m s = None)"
proof (cases "ZMEMBERS R q s")
  case Nil
  then show ?thesis using members_set [of q s] by (auto simp: ZHEAD_def)
next
  case (Cons m ms)
  then have "ZSCORE R q m s \<noteq> None" using members_set [of q s] by auto
  then show ?thesis using Cons by (auto simp: ZHEAD_def)
qed

lemma head_some:
  assumes "ZHEAD R q s = Some (m, x)"
  shows "ZSCORE R q m s = Some x" and "ZSCORE R q m' s = Some y \<Longrightarrow> x \<le> y"
proof -
  obtain ms where ms: "ZMEMBERS R q s = m # ms" and x: "ZSCORE R q m s = Some x"
    using assms by (auto simp: ZHEAD_def split: list.splits option.splits)
  show "ZSCORE R q m s = Some x" by (rule x)
  assume y: "ZSCORE R q m' s = Some y"
  then have "m' \<in> set (m # ms)" using members_set [of q s] ms by auto
  then show "x \<le> y" using members_sorted [of q s] x y ms by auto
qed

lemma head_of_member:
  assumes "ZSCORE R q m s = Some x"
  obtains m' x' where "ZHEAD R q s = Some (m', x')" and "x' \<le> x"
proof (cases "ZHEAD R q s")
  case None
  then show ?thesis using assms by (auto simp: head_none)
next
  case (Some p)
  then show ?thesis using assms head_some that by (cases p) blast
qed

end

subsection \<open>An in-memory store\<close>

text \<open>Sorted sets as lists of pairs, put in score order when they are read; strings as a map.\<close>

record mem_store =
  ms_zsets :: "string \<Rightarrow> (string \<times> rat) list"
  ms_strings :: "string \<Rightarrow> string option"

definition mem_empty :: mem_store where
  "mem_empty = \<lparr>ms_zsets = (\<lambda>_. []), ms_strings = (\<lambda>_. None)\<rparr>"

definition zset_delete :: "string \<Rightarrow> (string \<times> rat) list \<Rightarrow> (string \<times> rat) list" where
  "zset_delete m = filter (\<lambda>p. fst p \<noteq> m)"

definition zset_put :: "string \<Rightarrow> rat option \<Rightarrow> (string \<times> rat) list \<Rightarrow> (string \<times> rat) list" where
  "zset_put m x z = (case x of None \<Rightarrow> zset_delete m z | Some x \<Rightarrow> (m, x) # zset_delete m z)"

definition zset_members :: "(string \<times> rat) list \<Rightarrow> string list" where
  "zset_members z = sort_key (\<lambda>m. the (map_of z m)) (remdups (map fst z))"

definition mem_redis :: "mem_store redis_ops" where
  "mem_redis =
     \<lparr>ZSCORE = (\<lambda>q m s. map_of (ms_zsets s q) m),
      ZADD = (\<lambda>f q x m s. s\<lparr>ms_zsets := (ms_zsets s)(q := zset_put m (zadd_score f x (map_of (ms_zsets s q) m)) (ms_zsets s q))\<rparr>),
      ZREM = (\<lambda>q m s. s\<lparr>ms_zsets := (ms_zsets s)(q := zset_delete m (ms_zsets s q))\<rparr>),
      ZMEMBERS = (\<lambda>q s. zset_members (ms_zsets s q)),
      GET = (\<lambda>k s. ms_strings s k),
      SET = (\<lambda>k v s. s\<lparr>ms_strings := (ms_strings s)(k := Some v)\<rparr>),
      DEL = (\<lambda>k s. s\<lparr>ms_strings := (ms_strings s)(k := None)\<rparr>)\<rparr>"

lemma map_of_zset_delete: "map_of (zset_delete m z) m' = (if m' = m then None else map_of z m')"
  by (induction z) (auto simp: zset_delete_def)

lemma map_of_zset_put: "map_of (zset_put m x z) m' = (if m' = m then x else map_of z m')"
  by (auto simp: zset_put_def map_of_zset_delete split: option.splits)

interpretation mem: redis_store mem_redis
proof
  show "set (ZMEMBERS mem_redis q s) = {m. ZSCORE mem_redis q m s \<noteq> None}" for q s
    by (auto simp: mem_redis_def zset_members_def map_of_eq_None_iff dom_map_of_conv_image_fst)
next
  show "distinct (ZMEMBERS mem_redis q s)" for q s
    by (simp add: mem_redis_def zset_members_def)
next
  show "sorted (map (\<lambda>m. the (ZSCORE mem_redis q m s)) (ZMEMBERS mem_redis q s))" for q s
    by (simp add: mem_redis_def zset_members_def)
qed (auto simp: mem_redis_def map_of_zset_put map_of_zset_delete)

end
