(* ===== verification/Work_Queue.thy ===== *)
theory Work_Queue
  imports Redis_Store
begin

text \<open>
  What a sharded Redis work queue is made of, shared by the two queues of \<open>src/internal/jobs/queue\<close>: reading the
  dynamically typed replies of a script, the FNV-1a shard index, the poll delay, the interval setting kept as
  decimal milliseconds, and the index of shard heads with its repair script (\<open>heads.go\<close>). The invariant
  \<open>heads_cover\<close> says that the index never shows a shard later than its earliest member.
\<close>

subsection \<open>Decimal integers (package strconv)\<close>

definition wrap64 :: "int \<Rightarrow> int" where
  "wrap64 x = (x + 2 ^ 63) mod 2 ^ 64 - 2 ^ 63"

lemma wrap64_id: "- (2 ^ 63) \<le> x \<Longrightarrow> x < 2 ^ 63 \<Longrightarrow> wrap64 x = x"
  by (simp add: wrap64_def)

text \<open>Division by a positive number truncates towards zero.\<close>

definition div_trunc :: "int \<Rightarrow> int \<Rightarrow> int" where
  "div_trunc a b = (if a < 0 then - ((- a) div b) else a div b)"

definition digit_value :: "char \<Rightarrow> nat option" where
  "digit_value c = (let n = of_char c :: nat in if 48 \<le> n \<and> n \<le> 57 then Some (n - 48) else None)"

definition digit_char :: "nat \<Rightarrow> char" where
  "digit_char d = char_of (48 + d)"

fun parse_digits :: "nat \<Rightarrow> string \<Rightarrow> nat option" where
  "parse_digits acc [] = Some acc"
| "parse_digits acc (c # cs) =
     (case digit_value c of None \<Rightarrow> None | Some d \<Rightarrow> parse_digits (10 * acc + d) cs)"

text \<open>\<open>strconv.ParseInt(s, 10, 64)\<close>: an optional sign and digits; \<open>None\<close> stands for a syntax or range error.\<close>

definition ParseInt :: "string \<Rightarrow> int option" where
  "ParseInt s =
     (let (neg, ds) = (case s of [] \<Rightarrow> (False, []) | c # cs \<Rightarrow>
                         if c = CHR ''+'' then (False, cs) else if c = CHR ''-'' then (True, cs) else (False, s))
      in if ds = [] then None
         else case parse_digits 0 ds of
                None \<Rightarrow> None
              | Some n \<Rightarrow> if neg then (if n \<le> 2 ^ 63 then Some (- int n) else None)
                          else (if n < 2 ^ 63 then Some (int n) else None))"

fun format_nat :: "nat \<Rightarrow> string" where
  "format_nat n = (if n < 10 then [digit_char n] else format_nat (n div 10) @ [digit_char (n mod 10)])"

declare format_nat.simps [simp del]

definition FormatInt :: "int \<Rightarrow> string" where
  "FormatInt i = (if i < 0 then CHR ''-'' # format_nat (nat (- i)) else format_nat (nat i))"

lemma digit_value_char [simp]: "d < 10 \<Longrightarrow> digit_value (digit_char d) = Some d"
  by (simp add: digit_value_def digit_char_def)

lemma parse_digits_append:
  "parse_digits a (xs @ ys) = (case parse_digits a xs of None \<Rightarrow> None | Some b \<Rightarrow> parse_digits b ys)"
  by (induction xs arbitrary: a) (auto split: option.splits)

lemma parse_format_nat: "parse_digits 0 (format_nat n) = Some n"
proof (induction n rule: format_nat.induct)
  case (1 n)
  show ?case
  proof (cases "n < 10")
    case True
    then show ?thesis by (simp add: format_nat.simps [of n])
  next
    case False
    then show ?thesis
      using 1 by (simp add: format_nat.simps [of n] parse_digits_append)
  qed
qed

lemma format_nat_digits: "format_nat n \<noteq> [] \<and> (\<forall>c \<in> set (format_nat n). \<exists>d<10. c = digit_char d)"
proof (induction n rule: format_nat.induct)
  case (1 n)
  then show ?case
    by (cases "n < 10") (auto simp: format_nat.simps [of n] intro: exI [of _ "n mod 10"])
qed

lemma digit_char_sign: "d < 10 \<Longrightarrow> digit_char d \<noteq> CHR ''+'' \<and> digit_char d \<noteq> CHR ''-'' \<and> \<not> is_space (digit_char d)"
  by (auto simp: digit_char_def is_space_def char_of_eq_iff take_bit_nat_eq_self)

lemma ParseInt_format_nat: "n < 2 ^ 63 \<Longrightarrow> ParseInt (format_nat n) = Some (int n)"
proof -
  assume n: "n < 2 ^ 63"
  obtain c cs where c: "format_nat n = c # cs" and "c \<noteq> CHR ''+''" "c \<noteq> CHR ''-''"
    using format_nat_digits [of n] digit_char_sign by (cases "format_nat n") auto
  then show ?thesis
    using parse_format_nat [of n] n by (simp add: ParseInt_def c)
qed

lemma TrimSpace_no_space: "\<forall>c \<in> set s. \<not> is_space c \<Longrightarrow> TrimSpace s = s"
  by (metis TrimSpace_def dropWhile_fix hd_in_set rev_rev_ident set_rev)

lemma TrimSpace_format_nat [simp]: "TrimSpace (format_nat n) = format_nat n"
proof (rule TrimSpace_no_space, rule ballI)
  fix c assume "c \<in> set (format_nat n)"
  then obtain d where "d < 10" "c = digit_char d" using format_nat_digits [of n] by blast
  then show "\<not> is_space c" using digit_char_sign [of d] by simp
qed

subsection \<open>The configured interval\<close>

definition parseIntervalStateMillis :: "string \<Rightarrow> duration \<Rightarrow> duration" where
  "parseIntervalStateMillis raw fallback =
     (let raw = TrimSpace raw
      in if raw = [] then fallback
         else case ParseInt raw of
                None \<Rightarrow> fallback
              | Some ms \<Rightarrow> if ms \<le> 0 then fallback else wrap64 (ms * millisecond))"

text \<open>The interval written by a reschedule is read back truncated to milliseconds.\<close>

lemma parse_written_interval:
  assumes "millisecond \<le> i" and "i < 2 ^ 63"
  shows "parseIntervalStateMillis (FormatInt (i div millisecond)) fallback = i div millisecond * millisecond"
proof -
  let ?ms = "i div millisecond"
  have pos: "1 \<le> ?ms" using assms(1) by (simp add: pos_imp_zdiv_pos_iff int_one_le_iff_zero_less)
  have le: "?ms * millisecond \<le> i" by simp
  have nz: "format_nat (nat ?ms) \<noteq> []" using format_nat_digits by blast
  have "nat ?ms < 2 ^ 63" using assms by (simp add: nat_less_iff)
  from ParseInt_format_nat [OF this] pos have "ParseInt (format_nat (nat ?ms)) = Some ?ms" by simp
  moreover have "wrap64 (?ms * millisecond) = ?ms * millisecond"
    using pos le assms by (intro wrap64_id) linarith+
  ultimately show ?thesis
    using pos nz by (simp add: parseIntervalStateMillis_def FormatInt_def)
qed

subsection \<open>Replies of a script\<close>

text \<open>The dynamic types an \<open>interface{}\<close> reply is switched on. A \<open>float64\<close> is a rational.\<close>

datatype go_value =
    GInt64 int | GInt int | GInt32 int | GUint64 nat | GFloat64 rat | GString string | GBytes string
  | GSlice "go_value list" | GOther

datatype coerce_error = NotAString | OutOfRange | NonInteger | ParseFailed | NotNumeric

fun coerceLuaString :: "go_value \<Rightarrow> (coerce_error, string) result" where
  "coerceLuaString (GString v) = Inr v"
| "coerceLuaString (GBytes v) = Inr v"
| "coerceLuaString _ = Inl NotAString"

definition parse_or_fail :: "string \<Rightarrow> (coerce_error, int) result" where
  "parse_or_fail v = (case ParseInt v of None \<Rightarrow> Inl ParseFailed | Some i \<Rightarrow> Inr i)"

fun coerceLuaInt64 :: "go_value \<Rightarrow> (coerce_error, int) result" where
  "coerceLuaInt64 (GInt64 v) = Inr v"
| "coerceLuaInt64 (GInt v) = Inr v"
| "coerceLuaInt64 (GInt32 v) = Inr v"
| "coerceLuaInt64 (GUint64 v) = (if 2 ^ 63 \<le> v then Inl OutOfRange else Inr (int v))"
| "coerceLuaInt64 (GFloat64 v) = (if of_int \<lfloor>v\<rfloor> \<noteq> v then Inl NonInteger else Inr \<lfloor>v\<rfloor>)"
| "coerceLuaInt64 (GString v) = parse_or_fail v"
| "coerceLuaInt64 (GBytes v) = parse_or_fail v"
| "coerceLuaInt64 _ = Inl NotNumeric"

subsection \<open>Shards\<close>

text \<open>\<open>hash/fnv.New32a\<close>: the 32-bit FNV-1a hash of a byte string.\<close>

definition fnv32a_step :: "u32 \<Rightarrow> char \<Rightarrow> u32" where
  "fnv32a_step h c = (h XOR of_nat (of_char c)) * 16777619"

definition fnv32a :: "string \<Rightarrow> u32" where
  "fnv32a s = foldl fnv32a_step 2166136261 s"

definition shard_index :: "string \<Rightarrow> nat \<Rightarrow> nat" where
  "shard_index member shards = (if shards \<le> 1 then 0 else unat (fnv32a member mod of_nat shards))"

lemma shard_index_less:
  assumes "0 < shards" and "shards < 2 ^ 32"
  shows "shard_index member shards < shards"
proof (cases "shards \<le> 1")
  case True
  then show ?thesis using assms by (simp add: shard_index_def)
next
  case False
  have "unat (of_nat shards :: u32) = shards" using assms by (simp add: unsigned_of_nat take_bit_nat_eq_self)
  with False assms show ?thesis by (simp add: shard_index_def unat_mod)
qed

lemma fnv32a_vector: "fnv32a ''a'' = 0xE40C292C" "fnv32a ''foobar'' = 0xBF9CF968"
  by code_simp+

subsection \<open>Polling\<close>

definition minDequeueSleep :: duration where "minDequeueSleep = 10 * millisecond"
definition idleQueueSleep :: duration where "idleQueueSleep = 250 * millisecond"
definition maxDequeueSleep :: duration where "maxDequeueSleep = 2 * second"
definition processingLease :: duration where "processingLease = 5 * minute"

text \<open>The wait is computed from 64-bit milliseconds; the product with a millisecond wraps.\<close>

definition dequeueWaitDuration :: "int \<Rightarrow> int \<Rightarrow> duration" where
  "dequeueWaitDuration nextReadyMs currentMs =
     (if nextReadyMs \<le> 0 then idleQueueSleep
      else let waitMs = wrap64 (nextReadyMs - currentMs)
           in if waitMs \<le> 0 then minDequeueSleep
              else let wait = wrap64 (waitMs * millisecond)
                   in if wait < minDequeueSleep then minDequeueSleep
                      else if wait > maxDequeueSleep then maxDequeueSleep
                      else wait)"

lemma dequeueWait_bounds:
  "minDequeueSleep \<le> dequeueWaitDuration n c \<and> dequeueWaitDuration n c \<le> maxDequeueSleep"
  by (auto simp: dequeueWaitDuration_def Let_def minDequeueSleep_def maxDequeueSleep_def idleQueueSleep_def)

lemma dequeueWait_exact:
  assumes "0 < n" "c + 10 \<le> n" "n \<le> c + 2000"
  shows "dequeueWaitDuration n c = (n - c) * millisecond"
  using assms by (simp add: dequeueWaitDuration_def Let_def wrap64_id minDequeueSleep_def maxDequeueSleep_def)

text \<open>\<open>waitForNext...Poll\<close>: how long the timer runs, and which of its two events ends the wait.\<close>

definition waitForNextPoll :: "bool \<Rightarrow> duration \<Rightarrow> duration \<times> bool" where
  "waitForNextPoll cancelled duration = (if duration \<le> 0 then minDequeueSleep else duration, \<not> cancelled)"

subsection \<open>The index of shard heads\<close>

definition refresh_head :: "'r redis_ops \<Rightarrow> string \<Rightarrow> string \<Rightarrow> 'r \<Rightarrow> 'r" where
  "refresh_head R heads q s =
     (case ZHEAD R q s of None \<Rightarrow> ZREM R heads q s | Some (_, x) \<Rightarrow> ZADD R ZAny heads x q s)"

definition RefreshHeads :: "'r redis_ops \<Rightarrow> string \<Rightarrow> string list \<Rightarrow> 'r \<Rightarrow> 'r" where
  "RefreshHeads R headKey shardKeys s = fold (refresh_head R headKey) shardKeys s"

text \<open>Every shard with a member is indexed, no later than its earliest member.\<close>

definition shard_covered :: "'r redis_ops \<Rightarrow> string \<Rightarrow> string \<Rightarrow> 'r \<Rightarrow> bool" where
  "shard_covered R heads q s \<longleftrightarrow>
     (\<forall>m x. ZSCORE R q m s = Some x \<longrightarrow> (\<exists>h. ZSCORE R heads q s = Some h \<and> h \<le> x))"

definition heads_cover :: "'r redis_ops \<Rightarrow> string \<Rightarrow> string set \<Rightarrow> 'r \<Rightarrow> bool" where
  "heads_cover R heads qs s \<longleftrightarrow> (\<forall>q \<in> qs. shard_covered R heads q s)"

context redis_store
begin

lemma coveredD:
  assumes "shard_covered R heads q s" "ZSCORE R q m s = Some x"
  obtains h where "ZSCORE R heads q s = Some h" "h \<le> x"
  using assms unfolding shard_covered_def by blast

lemma zscore_refresh_head:
  "q' \<noteq> heads \<Longrightarrow> ZSCORE R q' m (refresh_head R heads q s) = ZSCORE R q' m s"
  by (auto simp: refresh_head_def zset_laws split: option.splits)

lemma refresh_head_index:
  "ZSCORE R heads q' (refresh_head R heads q s) =
     (if q' = q then map_option snd (ZHEAD R q s) else ZSCORE R heads q' s)"
  by (auto simp: refresh_head_def zset_laws split: option.splits)

lemma get_refresh_head: "k \<noteq> heads \<Longrightarrow> GET R k (refresh_head R heads q s) = GET R k s"
  by (auto simp: refresh_head_def get_zadd get_zrem split: option.splits)

lemma refresh_head_covers:
  assumes "q \<noteq> heads" shows "shard_covered R heads q (refresh_head R heads q s)"
  unfolding shard_covered_def
proof (intro allI impI)
  fix m x assume "ZSCORE R q m (refresh_head R heads q s) = Some x"
  then have "ZSCORE R q m s = Some x" by (simp add: zscore_refresh_head assms)
  then obtain m' x' where "ZHEAD R q s = Some (m', x')" "x' \<le> x" by (rule head_of_member)
  then show "\<exists>h. ZSCORE R heads q (refresh_head R heads q s) = Some h \<and> h \<le> x"
    by (simp add: refresh_head_index)
qed

lemma refresh_head_keeps:
  assumes "q' \<noteq> heads" and "q' \<noteq> q \<Longrightarrow> shard_covered R heads q' s"
  shows "shard_covered R heads q' (refresh_head R heads q s)"
proof (cases "q' = q")
  case True
  then show ?thesis using refresh_head_covers assms(1) by simp
next
  case False
  then show ?thesis using assms by (simp add: shard_covered_def zscore_refresh_head refresh_head_index)
qed

text \<open>Refreshing repairs the index whatever it held before, and touches no shard.\<close>

lemma zscore_RefreshHeads:
  "q' \<noteq> heads \<Longrightarrow> ZSCORE R q' m (RefreshHeads R heads qs s) = ZSCORE R q' m s"
  unfolding RefreshHeads_def by (induction qs arbitrary: s) (simp_all add: zscore_refresh_head)

lemma RefreshHeads_covers:
  assumes "q \<noteq> heads" and "q \<in> set qs \<or> shard_covered R heads q s"
  shows "shard_covered R heads q (RefreshHeads R heads qs s)"
  using assms(2) unfolding RefreshHeads_def
proof (induction qs arbitrary: s)
  case Nil
  then show ?case by simp
next
  case (Cons a qs)
  have "q \<in> set qs \<or> shard_covered R heads q (refresh_head R heads a s)"
    using Cons.prems refresh_head_keeps [OF assms(1)] by auto
  then show ?case using Cons.IH by simp
qed

lemma heads_cover_RefreshHeads:
  "heads \<notin> set qs \<Longrightarrow> heads_cover R heads (set qs) (RefreshHeads R heads qs s)"
  unfolding heads_cover_def using RefreshHeads_covers by metis

lemma get_RefreshHeads: "k \<noteq> heads \<Longrightarrow> GET R k (RefreshHeads R heads qs s) = GET R k s"
  unfolding RefreshHeads_def by (induction qs arbitrary: s) (simp_all add: get_refresh_head)

text \<open>The three ways a script changes a covered shard without re-reading its head.\<close>

lemma covered_zrem:
  "q \<noteq> heads \<Longrightarrow> q' \<noteq> heads \<Longrightarrow> shard_covered R heads q s \<Longrightarrow> shard_covered R heads q (ZREM R q' m s)"
  by (auto simp: shard_covered_def zset_laws)

lemma covered_set: "k \<noteq> q \<Longrightarrow> k \<noteq> heads \<Longrightarrow> shard_covered R heads q (SET R k v s) = shard_covered R heads q s"
  by (simp add: shard_covered_def zscore_set)

lemma covered_del: "k \<noteq> q \<Longrightarrow> k \<noteq> heads \<Longrightarrow> shard_covered R heads q (DEL R k s) = shard_covered R heads q s"
  by (simp add: shard_covered_def zscore_del)

lemma covered_zadd_later:
  assumes "shard_covered R heads q s" "q \<noteq> heads" "q' \<noteq> heads" "ZSCORE R q' m s = Some y" "y \<le> x"
  shows "shard_covered R heads q (ZADD R f q' x m s)"
proof -
  have "y \<le> z" if "zadd_score f x (Some y) = Some z" for z using that assms(5) by (cases f) auto
  then show ?thesis using assms unfolding shard_covered_def zscore_zadd
    by (auto split: if_splits) (metis order_trans)
qed

lemma covered_zadd_index:
  assumes "shard_covered R heads q s" "q \<noteq> heads" "q' \<noteq> heads"
  shows "shard_covered R heads q (ZADD R LT heads x q' (ZADD R f q' x m s))"
proof -
  let ?s = "ZADD R LT heads x q' (ZADD R f q' x m s)"
  show ?thesis
    unfolding shard_covered_def
  proof (intro allI impI)
    fix m' y assume y: "ZSCORE R q m' ?s = Some y"
    show "\<exists>h. ZSCORE R heads q ?s = Some h \<and> h \<le> y"
    proof (cases "q = q'")
      case False
      then have "ZSCORE R q m' s = Some y" using y assms by (simp add: zset_laws)
      then obtain h where "ZSCORE R heads q s = Some h" "h \<le> y" using assms(1) coveredD by blast
      then show ?thesis using False assms by (simp add: zset_laws)
    next
      case True
      have idx: "ZSCORE R heads q ?s = zadd_score LT x (ZSCORE R heads q s)"
        using True assms by (simp add: zset_laws)
      consider "ZSCORE R q m' s = Some y" | "y = x"
        using y True assms by (cases f; cases "ZSCORE R q m s") (auto simp: zset_laws split: if_splits)
      then show ?thesis
      proof cases
        case 1
        then obtain h where "ZSCORE R heads q s = Some h" "h \<le> y" using assms(1) coveredD by blast
        then show ?thesis by (auto simp: idx)
      next
        case 2
        then show ?thesis by (cases "ZSCORE R heads q s") (auto simp: idx)
      qed
    qed
  qed
qed

end

end
