(* ===== verification/Proxy_Route.thy ===== *)
theory Proxy_Route
  imports Egress_Guard
begin

text \<open>
  A proxy route: the record \<open>domain.Proxy\<close> with its host handling (\<open>src/internal/domain/proxy_model.go\<close>) and
  the protection of its credentials (\<open>src/internal/security/proxy_secret.go\<close>): the encryption key that is
  read once per process, encryption and decryption of a secret, and the keyed fingerprint that identifies a
  route. SHA-256, HMAC, AES-GCM, base64, the random source and the address and IDNA parsers are arguments.
\<close>

subsection \<open>The encryption key\<close>

type_synonym bytes = string

record crypto =
  b64_Encode :: "bytes \<Rightarrow> string"
  b64_Decode :: "string \<Rightarrow> bytes option"
  sha256_Sum :: "bytes \<Rightarrow> bytes"
  hmac_Sum :: "bytes \<Rightarrow> bytes \<Rightarrow> bytes"
  gcm_Seal :: "bytes \<Rightarrow> bytes \<Rightarrow> bytes \<Rightarrow> bytes"
  gcm_Open :: "bytes \<Rightarrow> bytes \<Rightarrow> bytes \<Rightarrow> bytes option"

text \<open>What the environment holds: \<open>PROXY_ENCRYPTION_KEY\<close> (empty when unset) and the strict mode of package config.\<close>

record secret_env =
  se_key :: string
  se_strict :: bool

datatype secret_error =
    KeyNotSet | KeyTooShort | KeyPlaceholder | CreateCipher | NonceFailed | DecodeFailed | CipherTooShort | DecryptFailed

definition ProxyEncryptionPrefix :: string where "ProxyEncryptionPrefix = ''enc:''"
definition proxyEncryptionKeyMin :: nat where "proxyEncryptionKeyMin = 32"
definition NonceSize :: nat where "NonceSize = 12"

definition is_secret_char :: "char \<Rightarrow> bool" where
  "is_secret_char c = (let n = of_char c :: nat in (97 \<le> n \<and> n \<le> 122) \<or> (48 \<le> n \<and> n \<le> 57))"

definition normalizeSecretValue :: "string \<Rightarrow> string" where
  "normalizeSecretValue secret =
     (let s = ToLower (TrimSpace secret) in if s = [] then [] else filter is_secret_char s)"

definition placeholders :: "string list" where
  "placeholders = [''changeme'', ''changemetoastrongkey'', ''proxyencryptionkey'', ''yourproxyencryptionkey'']"

definition isKnownPlaceholderProxySecret :: "string \<Rightarrow> bool" where
  "isKnownPlaceholderProxySecret secret =
     (let normalized = normalizeSecretValue secret in if normalized = [] then False else normalized \<in> set placeholders)"

definition validateProxyEncryptionKey :: "bool \<Rightarrow> string \<Rightarrow> (secret_error, unit) result" where
  "validateProxyEncryptionKey strict raw =
     (if \<not> strict then Inr ()
      else if length raw < proxyEncryptionKeyMin then Inl KeyTooShort
      else if isKnownPlaceholderProxySecret raw then Inl KeyPlaceholder
      else Inr ())"

definition normalizeKey :: "crypto \<Rightarrow> bytes \<Rightarrow> bytes" where
  "normalizeKey C key = (if length key \<in> {16, 24, 32} then key else sha256_Sum C key)"

definition deriveProxyKey :: "crypto \<Rightarrow> string \<Rightarrow> bytes" where
  "deriveProxyKey C raw =
     (case b64_Decode C raw of Some decoded \<Rightarrow> normalizeKey C decoded | None \<Rightarrow> sha256_Sum C raw)"

text \<open>\<open>aes.NewCipher\<close> accepts keys of 16, 24 and 32 bytes; the cipher is its key.\<close>

definition init_cipher :: "crypto \<Rightarrow> secret_env \<Rightarrow> (secret_error, bytes) result" where
  "init_cipher C env =
     (let rawKey = TrimSpace (se_key env)
      in if rawKey = [] then Inl KeyNotSet
         else case validateProxyEncryptionKey (se_strict env) rawKey of
                Inl e \<Rightarrow> Inl e
              | Inr _ \<Rightarrow> (let key = deriveProxyKey C rawKey
                          in if length key \<in> {16, 24, 32} then Inr key else Inl CreateCipher))"

definition init_fingerprint :: "crypto \<Rightarrow> secret_env \<Rightarrow> (secret_error, bytes) result" where
  "init_fingerprint C env =
     (let rawKey = TrimSpace (se_key env)
      in if rawKey = [] then Inl KeyNotSet
         else case validateProxyEncryptionKey (se_strict env) rawKey of
                Inl e \<Rightarrow> Inl e
              | Inr _ \<Rightarrow> Inr (hmac_Sum C (deriveProxyKey C rawKey) ''magpie/proxy-route-fingerprint-key/v1''))"

text \<open>The two \<open>sync.Once\<close> values with what they computed: \<open>None\<close> before the first call.\<close>

record secret_state =
  proxyCipherOnce :: "(secret_error, bytes) result option"
  proxyFingerprintOnce :: "(secret_error, bytes) result option"

definition ResetProxyCipherForTests :: "secret_state \<Rightarrow> secret_state" where
  "ResetProxyCipherForTests st = st\<lparr>proxyCipherOnce := None, proxyFingerprintOnce := None\<rparr>"

definition getProxyCipher :: "crypto \<Rightarrow> secret_env \<Rightarrow> secret_state \<Rightarrow> (secret_error, bytes) result \<times> secret_state" where
  "getProxyCipher C env st =
     (case proxyCipherOnce st of
        Some r \<Rightarrow> (r, st)
      | None \<Rightarrow> (let r = init_cipher C env in (r, st\<lparr>proxyCipherOnce := Some r\<rparr>)))"

definition getProxyFingerprintKey :: "crypto \<Rightarrow> secret_env \<Rightarrow> secret_state \<Rightarrow> (secret_error, bytes) result \<times> secret_state" where
  "getProxyFingerprintKey C env st =
     (case proxyFingerprintOnce st of
        Some r \<Rightarrow> (r, st)
      | None \<Rightarrow> (let r = init_fingerprint C env in (r, st\<lparr>proxyFingerprintOnce := Some r\<rparr>)))"

definition RequireProxyEncryptionKeyConfigured :: "crypto \<Rightarrow> secret_env \<Rightarrow> secret_state \<Rightarrow> secret_error option \<times> secret_state" where
  "RequireProxyEncryptionKeyConfigured C env st =
     (case getProxyCipher C env st of (Inl e, st) \<Rightarrow> (Some e, st) | (Inr _, st) \<Rightarrow> (None, st))"

subsection \<open>Encryption of a secret\<close>

text \<open>\<open>nonce\<close> is what the random source delivers, \<open>None\<close> when reading it fails.\<close>

definition EncryptProxySecret :: "crypto \<Rightarrow> secret_env \<Rightarrow> bytes option \<Rightarrow> string \<Rightarrow> secret_state \<Rightarrow>
    (secret_error, string) result \<times> secret_state" where
  "EncryptProxySecret C env nonce plain st =
     (if plain = [] then (Inr [], st)
      else case getProxyCipher C env st of
             (Inl e, st) \<Rightarrow> (Inl e, st)
           | (Inr key, st) \<Rightarrow>
               (case nonce of
                  None \<Rightarrow> (Inl NonceFailed, st)
                | Some n \<Rightarrow> (Inr (ProxyEncryptionPrefix @ b64_Encode C (n @ gcm_Seal C key n plain)), st)))"

text \<open>The flag reports that the stored value is not in the current encrypted form.\<close>

definition DecryptProxySecret :: "crypto \<Rightarrow> secret_env \<Rightarrow> string \<Rightarrow> secret_state \<Rightarrow>
    (secret_error, string \<times> bool) result \<times> secret_state" where
  "DecryptProxySecret C env v st =
     (if v = [] then (Inr ([], False), st)
      else if \<not> HasPrefix v ProxyEncryptionPrefix then (Inr (v, True), st)
      else case b64_Decode C (drop (length ProxyEncryptionPrefix) v) of
             None \<Rightarrow> (Inl DecodeFailed, st)
           | Some data \<Rightarrow>
               (case getProxyCipher C env st of
                  (Inl e, st) \<Rightarrow> (Inl e, st)
                | (Inr key, st) \<Rightarrow>
                    if length data \<le> NonceSize then (Inl CipherTooShort, st)
                    else (case gcm_Open C key (take NonceSize data) (drop NonceSize data) of
                            None \<Rightarrow> (Inl DecryptFailed, st)
                          | Some plain \<Rightarrow> (Inr (plain, False), st))))"

definition IsProxySecretEncrypted :: "string \<Rightarrow> bool" where
  "IsProxySecretEncrypted v = HasPrefix v ProxyEncryptionPrefix"

subsection \<open>Fingerprints\<close>

text \<open>Big-endian bytes of \<open>binary.BigEndian.PutUint32\<close> and \<open>PutUint16\<close>, and one length-prefixed field.\<close>

definition be_bytes :: "nat \<Rightarrow> nat \<Rightarrow> bytes" where
  "be_bytes k n = map (\<lambda>i. char_of (n div 256 ^ (k - 1 - i))) [0..<k]"

definition writeFingerprintField :: "bytes \<Rightarrow> bytes \<Rightarrow> bytes" where
  "writeFingerprintField mac val = mac @ be_bytes 4 (length val mod 2 ^ 32) @ val"

definition fingerprint_message :: "string \<Rightarrow> u16 \<Rightarrow> string \<Rightarrow> string \<Rightarrow> bytes" where
  "fingerprint_message host port username password =
     (let mac = writeFingerprintField [] ''magpie/proxy-route/v1'';
          mac = writeFingerprintField mac host;
          mac = writeFingerprintField mac (be_bytes 2 (unat port));
          mac = writeFingerprintField mac username
      in writeFingerprintField mac password)"

definition FingerprintProxyRoute :: "crypto \<Rightarrow> secret_env \<Rightarrow> string \<Rightarrow> u16 \<Rightarrow> string \<Rightarrow> string \<Rightarrow> secret_state \<Rightarrow>
    (secret_error, bytes) result \<times> secret_state" where
  "FingerprintProxyRoute C env host port username password st =
     (case getProxyFingerprintKey C env st of
        (Inl e, st) \<Rightarrow> (Inl e, st)
      | (Inr key, st) \<Rightarrow> (Inr (hmac_Sum C key (fingerprint_message host port username password)), st))"

subsection \<open>The route\<close>

text \<open>A worker's claim on a queued route; the context it also carries only cancels waiting.\<close>

record ProxyQueueLease =
  ScoreMS :: int
  QueueKey :: string
  Payload :: string

text \<open>The fields of \<open>domain.Proxy\<close> the modelled code reads; a workspace is its ID.\<close>

record Proxy =
  px_ID :: u64
  px_IP :: string
  px_IPAddress :: "string option"
  px_Port :: u16
  px_Username :: string
  px_Password :: string
  px_Workspaces :: "nat list"
  px_QueueLease :: "ProxyQueueLease option"
  px_Hash :: bytes

text \<open>Address and name parsing: \<open>netip.ParseAddr\<close>, \<open>Addr.String\<close> and \<open>idna.Lookup.ToASCII\<close>.\<close>

record host_text =
  ht_ParseAddr :: "string \<Rightarrow> Addr option"
  ht_String :: "Addr \<Rightarrow> string"
  ht_ToASCII :: "string \<Rightarrow> string option"

datatype route_error = InvalidIP | HostRequired | InvalidHost | InvalidHostname | SecretFailed secret_error

fun split_on :: "char \<Rightarrow> string \<Rightarrow> string list" where
  "split_on c [] = [[]]"
| "split_on c (x # xs) =
     (if x = c then [] # split_on c xs
      else case split_on c xs of [] \<Rightarrow> [[x]] | w # ws \<Rightarrow> (x # w) # ws)"

definition isHostnameAlphaNumeric :: "char \<Rightarrow> bool" where
  "isHostnameAlphaNumeric c = (let n = of_char c :: nat in (97 \<le> n \<and> n \<le> 122) \<or> (48 \<le> n \<and> n \<le> 57))"

definition is_lower_letter :: "char \<Rightarrow> bool" where
  "is_lower_letter c = (let n = of_char c :: nat in 97 \<le> n \<and> n \<le> 122)"

definition validHostnameLabel :: "string \<Rightarrow> bool" where
  "validHostnameLabel label =
     (if label = [] \<or> 63 < length label \<or> \<not> isHostnameAlphaNumeric (hd label) \<or> \<not> isHostnameAlphaNumeric (last label)
      then False
      else list_all (\<lambda>c. isHostnameAlphaNumeric c \<or> c = CHR ''-'') (butlast (tl label)))"

text \<open>The label loop: the first invalid label ends it with an error; otherwise it reports a letter in some label.\<close>

fun scan_labels :: "bool \<Rightarrow> string list \<Rightarrow> bool option" where
  "scan_labels hasLetter [] = Some hasLetter"
| "scan_labels hasLetter (label # rest) =
     (if \<not> validHostnameLabel label then None
      else scan_labels (hasLetter \<or> list_ex is_lower_letter label) rest)"

definition strip_brackets :: "string \<Rightarrow> string" where
  "strip_brackets host =
     (if HasPrefix host ''['' \<and> HasSuffix host '']'' then TrimSpace (butlast (tl host)) else host)"

definition canonicalize_name :: "host_text \<Rightarrow> string \<Rightarrow> (route_error, string \<times> string option) result" where
  "canonicalize_name H host =
     (if strings_Contains host '':'' then Inl InvalidHost
      else case ht_ToASCII H (TrimSuffix host ''.'') of
             None \<Rightarrow> Inl InvalidHostname
           | Some ascii \<Rightarrow>
               (let ascii = ToLower (TrimSpace ascii)
                in if ascii = [] \<or> 253 < length ascii then Inl InvalidHostname
                   else case scan_labels False (split_on (CHR ''.'') ascii) of
                          None \<Rightarrow> Inl InvalidHostname
                        | Some hasLetter \<Rightarrow> if \<not> hasLetter then Inl InvalidHostname else Inr (ascii, None)))"

definition canonicalizeProxyHost :: "host_text \<Rightarrow> string \<Rightarrow> (route_error, string \<times> string option) result" where
  "canonicalizeProxyHost H raw =
     (let host = strip_brackets (TrimSpace raw)
      in if host = [] then Inl HostRequired
         else case ht_ParseAddr H host of
                Some a \<Rightarrow>
                  if Zone a = [] then (let canonical = ht_String H (Unmap a) in Inr (canonical, Some canonical))
                  else canonicalize_name H host
              | None \<Rightarrow> canonicalize_name H host)"

definition SetIP :: "host_text \<Rightarrow> string \<Rightarrow> Proxy \<Rightarrow> (route_error, Proxy) result" where
  "SetIP H ip p =
     (case ht_ParseAddr H (TrimSpace ip) of
        None \<Rightarrow> Inl InvalidIP
      | Some a \<Rightarrow>
          if Zone a \<noteq> [] then Inl InvalidIP
          else (let canonical = ht_String H (Unmap a) in Inr (p\<lparr>px_IP := canonical, px_IPAddress := Some canonical\<rparr>)))"

definition SetHost :: "host_text \<Rightarrow> string \<Rightarrow> Proxy \<Rightarrow> (route_error, Proxy) result" where
  "SetHost H host p =
     (case canonicalizeProxyHost H host of
        Inl e \<Rightarrow> Inl e
      | Inr (canonical, ipAddress) \<Rightarrow> Inr (p\<lparr>px_IP := canonical, px_IPAddress := ipAddress\<rparr>))"

definition GetHost :: "Proxy \<Rightarrow> string" where
  "GetHost p = (if px_IP p \<noteq> [] then px_IP p else case px_IPAddress p of Some a \<Rightarrow> a | None \<Rightarrow> [])"

definition GetIp :: "Proxy \<Rightarrow> string" where
  "GetIp p = GetHost p"

definition GetIPAddress :: "host_text \<Rightarrow> Proxy \<Rightarrow> string" where
  "GetIPAddress H p =
     (case px_IPAddress p of
        Some a \<Rightarrow> a
      | None \<Rightarrow> (case ht_ParseAddr H (TrimSpace (px_IP p)) of None \<Rightarrow> [] | Some a \<Rightarrow> ht_String H (Unmap a)))"

definition IsHostname :: "host_text \<Rightarrow> Proxy \<Rightarrow> bool" where
  "IsHostname H p \<longleftrightarrow> GetHost p \<noteq> [] \<and> GetIPAddress H p = []"

definition HasAuth :: "Proxy \<Rightarrow> bool" where
  "HasAuth p \<longleftrightarrow> px_Username p \<noteq> [] \<and> px_Password p \<noteq> []"

text \<open>\<open>SetHost\<close> on a non-empty host comes first; its error ends the call with the route unchanged.\<close>

definition GenerateHash :: "crypto \<Rightarrow> host_text \<Rightarrow> secret_env \<Rightarrow> Proxy \<Rightarrow> secret_state \<Rightarrow>
    (route_error, Proxy) result \<times> secret_state" where
  "GenerateHash C H env p st =
     (case (if px_IP p \<noteq> [] then SetHost H (px_IP p) p else Inr p) of
        Inl e \<Rightarrow> (Inl e, st)
      | Inr p \<Rightarrow>
          (case FingerprintProxyRoute C env (GetHost p) (px_Port p) (px_Username p) (px_Password p) st of
             (Inl e, st) \<Rightarrow> (Inl (SecretFailed e), st)
           | (Inr hash, st) \<Rightarrow> (Inr (p\<lparr>px_Hash := hash\<rparr>), st)))"

definition BeforeSave :: "crypto \<Rightarrow> host_text \<Rightarrow> secret_env \<Rightarrow> Proxy \<Rightarrow> secret_state \<Rightarrow>
    (route_error, Proxy) result \<times> secret_state" where
  "BeforeSave C H env p st =
     (case (if px_IP p \<noteq> [] then SetHost H (px_IP p) p
            else case px_IPAddress p of Some a \<Rightarrow> SetIP H a p | None \<Rightarrow> Inr p) of
        Inl e \<Rightarrow> (Inl e, st)
      | Inr p \<Rightarrow> if px_Hash p = [] then GenerateHash C H env p st else (Inr p, st))"

definition AfterFind :: "host_text \<Rightarrow> Proxy \<Rightarrow> (route_error, Proxy) result" where
  "AfterFind H p =
     (case px_IPAddress p of
        Some a \<Rightarrow> if px_IP p = [] then SetIP H a p else Inr p
      | None \<Rightarrow> Inr p)"

subsection \<open>Secrets: round trip\<close>

text \<open>
  What the code relies on of base64, SHA-256 and AES-GCM: decoding undoes encoding, digests have 32 bytes,
  opening with the same key and nonce undoes sealing, and the sealed text carries a 16-byte tag.
\<close>

definition crypto_laws :: "crypto \<Rightarrow> bool" where
  "crypto_laws C \<longleftrightarrow>
     (\<forall>x. b64_Decode C (b64_Encode C x) = Some x) \<and>
     (\<forall>x. length (sha256_Sum C x) = 32) \<and>
     (\<forall>k n p. gcm_Open C k n (gcm_Seal C k n p) = Some p) \<and>
     (\<forall>k n p. length (gcm_Seal C k n p) = length p + 16)"

lemma crypto_lawsD:
  assumes "crypto_laws C"
  shows "b64_Decode C (b64_Encode C x) = Some x" "length (sha256_Sum C x) = 32"
    "gcm_Open C k n (gcm_Seal C k n p) = Some p" "length (gcm_Seal C k n p) = length p + 16"
  using assms by (auto simp: crypto_laws_def)

lemma HasPrefix_append [simp]: "HasPrefix (p @ s) p"
  by (simp add: HasPrefix_def)

lemma deriveProxyKey_length:
  "crypto_laws C \<Longrightarrow> length (deriveProxyKey C raw) \<in> {16, 24, 32}"
  by (auto simp: deriveProxyKey_def normalizeKey_def crypto_lawsD(2) split: option.splits)

lemma init_cipher_no_cipher_error: "crypto_laws C \<Longrightarrow> init_cipher C env \<noteq> Inl CreateCipher"
  using deriveProxyKey_length [of C "TrimSpace (se_key env)"]
  by (auto simp: init_cipher_def Let_def validateProxyEncryptionKey_def split: sum.splits if_splits)

lemma getProxyCipher_stable:
  "getProxyCipher C env st = (r, st') \<Longrightarrow> getProxyCipher C env' st' = (r, st')"
  by (auto simp: getProxyCipher_def Let_def split: option.splits)

lemma decrypt_sealed:
  assumes "crypto_laws C" "length n = NonceSize" "getProxyCipher C env st = (Inr key, st')"
  shows "DecryptProxySecret C env (ProxyEncryptionPrefix @ b64_Encode C (n @ gcm_Seal C key n plain)) st =
           (Inr (plain, False), st')"
  using assms by (simp add: DecryptProxySecret_def crypto_lawsD ProxyEncryptionPrefix_def HasPrefix_def)

text \<open>
  C36. A stored credential comes back: whatever \<open>EncryptProxySecret\<close> returned decrypts, in the same process
  and even if the environment changed meanwhile, to the credential that was encrypted, and is reported as
  being in the current form. The empty credential is stored as the empty string.
\<close>

theorem secret_round_trip:
  assumes laws: "crypto_laws C" and nonce: "\<forall>n. nonce = Some n \<longrightarrow> length n = NonceSize"
    and enc: "EncryptProxySecret C env nonce plain st = (Inr v, st')"
  shows "DecryptProxySecret C env' v st' = (Inr (plain, False), st') \<and> (plain \<noteq> [] \<longleftrightarrow> IsProxySecretEncrypted v)"
proof (cases "plain = []")
  case True
  then show ?thesis
    using enc by (auto simp: EncryptProxySecret_def DecryptProxySecret_def IsProxySecretEncrypted_def HasPrefix_def ProxyEncryptionPrefix_def)
next
  case False
  then obtain key n where key: "getProxyCipher C env st = (Inr key, st')" and n: "nonce = Some n"
    and v: "v = ProxyEncryptionPrefix @ b64_Encode C (n @ gcm_Seal C key n plain)"
    using enc by (auto simp: EncryptProxySecret_def split: prod.splits sum.splits option.splits)
  have "getProxyCipher C env' st' = (Inr key, st')" by (rule getProxyCipher_stable [OF key])
  with decrypt_sealed [OF laws] nonce n v False show ?thesis
    by (auto simp: IsProxySecretEncrypted_def)
qed

text \<open>A toy cipher: sealing appends a constant tag, digests are a constant.\<close>

definition demo_crypto :: crypto where
  "demo_crypto = \<lparr>b64_Encode = (\<lambda>x. x), b64_Decode = Some, sha256_Sum = (\<lambda>_. replicate 32 (CHR ''k'')),
     hmac_Sum = (\<lambda>k m. k @ m), gcm_Seal = (\<lambda>k n p. p @ replicate 16 (CHR ''t'')),
     gcm_Open = (\<lambda>k n c. Some (take (length c - 16) c))\<rparr>"

lemma demo_crypto_laws: "crypto_laws demo_crypto"
  by (simp add: crypto_laws_def demo_crypto_def)

definition demo_env :: secret_env where
  "demo_env = \<lparr>se_key = ''a-long-and-unguessable-value-0123'', se_strict = True\<rparr>"

definition fresh_secrets :: secret_state where
  "fresh_secrets = \<lparr>proxyCipherOnce = None, proxyFingerprintOnce = None\<rparr>"

lemma demo_cipher:
  "getProxyCipher demo_crypto demo_env fresh_secrets =
     (Inr (replicate 32 (CHR ''k'')), fresh_secrets\<lparr>proxyCipherOnce := Some (Inr (replicate 32 (CHR ''k'')))\<rparr>)"
  by code_simp

theorem secret_round_trip_witness:
  "\<exists>v st'. EncryptProxySecret demo_crypto demo_env (Some (replicate 12 (CHR ''n''))) ''pw'' fresh_secrets = (Inr v, st') \<and>
     DecryptProxySecret demo_crypto \<lparr>se_key = [], se_strict = False\<rparr> v st' = (Inr (''pw'', False), st')"
proof -
  let ?n = "replicate 12 (CHR ''n'')"
  obtain v st' where e: "EncryptProxySecret demo_crypto demo_env (Some ?n) ''pw'' fresh_secrets = (Inr v, st')"
    by (simp add: EncryptProxySecret_def demo_cipher)
  show ?thesis
    using secret_round_trip [OF demo_crypto_laws _ e, of "\<lparr>se_key = [], se_strict = False\<rparr>"] e
    by (auto simp: NonceSize_def)
qed

subsection \<open>Fingerprints: unambiguous framing\<close>

definition be_val :: "bytes \<Rightarrow> nat" where
  "be_val = foldl (\<lambda>a c. a * 256 + of_char c) 0"

lemma length_be_bytes [simp]: "length (be_bytes k n) = k"
  by (simp add: be_bytes_def)

lemma be_bytes_Suc: "be_bytes (Suc k) n = be_bytes k (n div 256) @ [char_of n]"
proof -
  have "n div 256 ^ (k - i) = n div 256 div 256 ^ (k - 1 - i)" if "i < k" for i
  proof -
    have "(256::nat) ^ (k - i) = 256 * 256 ^ (k - 1 - i)"
      using that by (metis Suc_diff_Suc diff_Suc_eq_diff_pred power_Suc)
    then show ?thesis by (simp add: div_mult2_eq)
  qed
  then show ?thesis by (simp add: be_bytes_def)
qed

lemma be_val_be_bytes: "be_val (be_bytes k n) = n mod 256 ^ k"
proof (induction k arbitrary: n)
  case 0
  show ?case by (simp add: be_bytes_def be_val_def)
next
  case (Suc k)
  have "be_val (be_bytes (Suc k) n) = be_val (be_bytes k (n div 256)) * 256 + n mod 256"
    by (simp add: be_bytes_Suc be_val_def)
  also have "\<dots> = n mod 256 ^ Suc k" by (simp add: Suc.IH mod_mult2_eq)
  finally show ?case .
qed

lemma be_bytes_inj: "be_bytes k m = be_bytes k n \<Longrightarrow> m < 256 ^ k \<Longrightarrow> n < 256 ^ k \<Longrightarrow> m = n"
  by (metis be_val_be_bytes mod_less)

lemma writeFingerprintField_append:
  "writeFingerprintField mac val = mac @ writeFingerprintField [] val"
  by (simp add: writeFingerprintField_def)

lemma field_prefix_free:
  assumes "writeFingerprintField [] v @ r = writeFingerprintField [] w @ r'"
    and "length v < 2 ^ 32" and "length w < 2 ^ 32"
  shows "v = w \<and> r = r'"
proof -
  have eq: "be_bytes 4 (length v) @ v @ r = be_bytes 4 (length w) @ w @ r'"
    using assms by (simp add: writeFingerprintField_def)
  then have "be_bytes 4 (length v) = be_bytes 4 (length w)" by simp
  then have "length v = length w" using be_bytes_inj assms(2,3) by simp
  with eq show ?thesis by simp
qed

lemma fingerprint_message_fields:
  "fingerprint_message host port username password =
     writeFingerprintField [] ''magpie/proxy-route/v1'' @ writeFingerprintField [] host @
     writeFingerprintField [] (be_bytes 2 (unat port)) @ writeFingerprintField [] username @
     writeFingerprintField [] password @ []"
  unfolding fingerprint_message_def Let_def
  by (metis append_assoc append_Nil2 writeFingerprintField_append)

lemma unat_u16_less: "unat (p :: u16) < 65536"
  by (rule order_less_le_trans [OF unsigned_less]) simp

lemma port_bytes_inj: "be_bytes 2 (unat (p :: u16)) = be_bytes 2 (unat p') \<Longrightarrow> p = p'"
  by (rule word_unat_eq_iff [THEN iffD2], rule be_bytes_inj [of 2])
    (simp_all add: unat_u16_less)

lemma fingerprint_message_inj:
  assumes eq: "fingerprint_message h p u w = fingerprint_message h' p' u' w'"
    and len: "\<forall>x \<in> {h, h', u, u', w, w'}. length x < 2 ^ 32"
  shows "h = h' \<and> p = p' \<and> u = u' \<and> w = w'"
proof -
  have small: "length x < 2 ^ 32" if "x \<in> {h, h', u, u', w, w'}" for x using len that by blast
  note step = field_prefix_free
  have 1: "writeFingerprintField [] h @ writeFingerprintField [] (be_bytes 2 (unat p)) @ writeFingerprintField [] u @ writeFingerprintField [] w @ [] =
     writeFingerprintField [] h' @ writeFingerprintField [] (be_bytes 2 (unat p')) @ writeFingerprintField [] u' @ writeFingerprintField [] w' @ []"
    using step [OF eq [unfolded fingerprint_message_fields]] by simp
  have 2: "h = h'" and 3: "writeFingerprintField [] (be_bytes 2 (unat p)) @ writeFingerprintField [] u @ writeFingerprintField [] w @ [] =
     writeFingerprintField [] (be_bytes 2 (unat p')) @ writeFingerprintField [] u' @ writeFingerprintField [] w' @ []"
    using step [OF 1] small by simp_all
  have 4: "be_bytes 2 (unat p) = be_bytes 2 (unat p')" and 5: "writeFingerprintField [] u @ writeFingerprintField [] w @ [] =
     writeFingerprintField [] u' @ writeFingerprintField [] w' @ []"
    using step [OF 3] by simp_all
  have 6: "u = u'" and 7: "writeFingerprintField [] w @ [] = writeFingerprintField [] w' @ []"
    using step [OF 5] small by simp_all
  have 8: "w = w'" using step [OF 7] small by simp
  from 2 6 8 port_bytes_inj [OF 4] show ?thesis by simp
qed

text \<open>
  C37. Two different routes share a fingerprint only through an HMAC collision: the five length-prefixed
  fields determine host, port, user name and password, so moving a character from one field to the next
  changes what is authenticated.
\<close>

theorem fingerprint_collision_is_hmac_collision:
  assumes "FingerprintProxyRoute C env h p u w st = (Inr f, st')"
    and "FingerprintProxyRoute C env h' p' u' w' st' = (Inr f, st'')"
    and "(h, p, u, w) \<noteq> (h', p', u', w')"
    and "\<forall>x \<in> {h, h', u, u', w, w'}. length x < 2 ^ 32"
  shows "\<exists>key m m'. m \<noteq> m' \<and> hmac_Sum C key m = f \<and> hmac_Sum C key m' = f"
proof -
  obtain key where key: "getProxyFingerprintKey C env st = (Inr key, st')"
    and f: "f = hmac_Sum C key (fingerprint_message h p u w)"
    using assms(1) by (auto simp: FingerprintProxyRoute_def split: prod.splits sum.splits)
  have "getProxyFingerprintKey C env st' = (Inr key, st')"
    using key by (auto simp: getProxyFingerprintKey_def Let_def split: option.splits)
  then have f': "f = hmac_Sum C key (fingerprint_message h' p' u' w')"
    using assms(2) by (simp add: FingerprintProxyRoute_def)
  have "fingerprint_message h p u w \<noteq> fingerprint_message h' p' u' w'"
    using fingerprint_message_inj [OF _ assms(4)] assms(3) by fastforce
  then show ?thesis
    by (intro exI [of _ key] exI [of _ "fingerprint_message h p u w"] exI [of _ "fingerprint_message h' p' u' w'"])
      (simp add: f [symmetric] f' [symmetric])
qed

text \<open>With a mac that is constant, every pair of routes collides: the premises can hold.\<close>

definition constant_mac :: crypto where
  "constant_mac = demo_crypto\<lparr>hmac_Sum := (\<lambda>_ _. ''mac'')\<rparr>"

lemma constant_mac_key:
  "getProxyFingerprintKey constant_mac demo_env fresh_secrets =
     (Inr ''mac'', fresh_secrets\<lparr>proxyFingerprintOnce := Some (Inr ''mac'')\<rparr>)"
  by code_simp

theorem fingerprint_collision_witness:
  "\<exists>key m m'. m \<noteq> m' \<and> hmac_Sum constant_mac key m = ''mac'' \<and> hmac_Sum constant_mac key m' = ''mac''"
proof (rule fingerprint_collision_is_hmac_collision
    [where h = "''ab''" and h' = "''a''" and p = 80 and p' = 80 and u = "''c''" and u' = "''bc''" and w = "''d''" and w' = "''d''"
       and env = demo_env and st = fresh_secrets])
  let ?st = "fresh_secrets\<lparr>proxyFingerprintOnce := Some (Inr ''mac'')\<rparr>"
  show "FingerprintProxyRoute constant_mac demo_env ''ab'' 80 ''c'' ''d'' fresh_secrets = (Inr ''mac'', ?st)"
    by (simp add: FingerprintProxyRoute_def constant_mac_key) (simp add: constant_mac_def)
  show "FingerprintProxyRoute constant_mac demo_env ''a'' 80 ''bc'' ''d'' ?st = (Inr ''mac'', ?st)"
    by (simp add: FingerprintProxyRoute_def getProxyFingerprintKey_def) (simp add: constant_mac_def)
qed simp_all

subsection \<open>Canonical hosts\<close>

lemma split_on_chars: "x \<in> set s \<Longrightarrow> x = c \<or> (\<exists>w \<in> set (split_on c s). x \<in> set w)"
  by (induction s) (auto split: list.splits)

lemma scan_labels_Some:
  "scan_labels b ws = Some l \<longleftrightarrow> list_all validHostnameLabel ws \<and> (l \<longleftrightarrow> b \<or> (\<exists>w \<in> set ws. list_ex is_lower_letter w))"
  by (induction ws arbitrary: b) auto

lemma set_label: "x \<in> set w \<Longrightarrow> x = hd w \<or> x = last w \<or> x \<in> set (butlast (tl w))"
  by (cases w rule: rev_cases; cases "butlast w") (auto simp: butlast_append)

lemma validHostnameLabel_chars:
  "validHostnameLabel w \<Longrightarrow> x \<in> set w \<Longrightarrow> isHostnameAlphaNumeric x \<or> x = CHR ''-''"
  using set_label [of x w] by (auto simp: validHostnameLabel_def list_all_iff split: if_splits)

definition hostname_char :: "char \<Rightarrow> bool" where
  "hostname_char c \<longleftrightarrow> isHostnameAlphaNumeric c \<or> c = CHR ''-'' \<or> c = CHR ''.''"

text \<open>The two canonical forms of a host: an address in its textual form, or a lower-case DNS name.\<close>

definition canonical_host :: "host_text \<Rightarrow> string \<Rightarrow> string option \<Rightarrow> bool" where
  "canonical_host H host ip \<longleftrightarrow>
     (case ip of
        Some a \<Rightarrow> a = host \<and> (\<exists>x. Zone x = [] \<and> host = ht_String H (Unmap x))
      | None \<Rightarrow> host \<noteq> [] \<and> length host \<le> 253 \<and> list_all hostname_char host \<and> list_ex is_lower_letter host \<and>
                list_all validHostnameLabel (split_on (CHR ''.'') host))"

lemma scan_labels_host:
  assumes "scan_labels False (split_on (CHR ''.'') host) = Some True"
  shows "list_all hostname_char host" "list_all validHostnameLabel (split_on (CHR ''.'') host)"
proof -
  show valid: "list_all validHostnameLabel (split_on (CHR ''.'') host)"
    using assms by (simp add: scan_labels_Some)
  show "list_all hostname_char host"
    unfolding list_all_iff
  proof
    fix x assume "x \<in> set host"
    then consider "x = CHR ''.''" | w where "w \<in> set (split_on (CHR ''.'') host)" "x \<in> set w"
      using split_on_chars by blast
    then show "hostname_char x"
      using valid validHostnameLabel_chars by cases (auto simp: hostname_char_def list_all_iff)
  qed
qed

lemma split_on_subset: "w \<in> set (split_on c s) \<Longrightarrow> set w \<subseteq> set s"
  by (induction s arbitrary: w) (fastforce split: list.splits if_splits)+

lemma split_on_letters: "w \<in> set (split_on c s) \<Longrightarrow> x \<in> set w \<Longrightarrow> x \<in> set s"
  using split_on_subset by blast

lemma canonical_host_addr: "Zone x = [] \<Longrightarrow> canonical_host H (ht_String H (Unmap x)) (Some (ht_String H (Unmap x)))"
  by (auto simp: canonical_host_def)

lemma canonicalize_name_host:
  "canonicalize_name H raw = Inr (host, ip) \<Longrightarrow> canonical_host H host ip"
  by (auto simp: canonicalize_name_def canonical_host_def Let_def list_ex_iff scan_labels_host scan_labels_Some
      dest: split_on_letters split: if_splits option.splits)

text \<open>
  C40. A route's host is always stored in canonical form: \<open>SetHost\<close> either refuses its argument or stores an
  unzoned address in textual form with the address column equal to it, or a name of at most 253 lower-case
  letters, digits, hyphens and dots, with a letter in it and every label valid. Nothing else of the route changes.
\<close>

theorem SetHost_canonical:
  assumes "SetHost H host p = Inr p'"
  shows "canonical_host H (px_IP p') (px_IPAddress p') \<and>
         p' = p\<lparr>px_IP := px_IP p', px_IPAddress := px_IPAddress p'\<rparr>"
proof -
  obtain c ip where c: "canonicalizeProxyHost H host = Inr (c, ip)" and p': "p' = p\<lparr>px_IP := c, px_IPAddress := ip\<rparr>"
    using assms by (auto simp: SetHost_def split: sum.splits)
  have "canonical_host H c ip"
    using c by (auto simp: canonicalizeProxyHost_def Let_def canonical_host_addr canonicalize_name_host split: if_splits option.splits)
  then show ?thesis by (simp add: p')
qed

definition demo_text :: host_text where
  "demo_text = \<lparr>ht_ParseAddr = (\<lambda>s. if s = ''10.0.0.1'' then Some (V4 167772161) else None),
     ht_String = (\<lambda>_. ''10.0.0.1''), ht_ToASCII = Some\<rparr>"

definition demo_proxy :: Proxy where
  "demo_proxy = \<lparr>px_ID = 7, px_IP = [], px_IPAddress = None, px_Port = 8080, px_Username = ''u'', px_Password = ''p'',
     px_Workspaces = [3], px_QueueLease = None, px_Hash = []\<rparr>"

theorem SetHost_canonical_witness:
  "\<exists>p'. SetHost demo_text '' Proxy.Example.org. '' demo_proxy = Inr p' \<and> px_IP p' = ''proxy.example.org'' \<and>
     canonical_host demo_text (px_IP p') (px_IPAddress p')"
proof -
  have run: "SetHost demo_text '' Proxy.Example.org. '' demo_proxy = Inr (demo_proxy\<lparr>px_IP := ''proxy.example.org'', px_IPAddress := None\<rparr>)"
    by code_simp
  show ?thesis using SetHost_canonical [OF run] run by auto
qed

end
