(* ===== verification/Proxy_Queue.thy ===== *)
theory Proxy_Queue
  imports Work_Queue Proxy_Route
begin

text \<open>
  The work queue of the checker (\<open>src/internal/jobs/queue/proxy/proxy_queue.go\<close> with its Lua scripts): sorted
  sets of proxies by due time, sharded by hash, with an index of shard heads. A worker that takes a proxy
  gets a lease: the proxy's score becomes the expiry plus half a millisecond, and every later write of that
  worker compares the score first. Each script is one atomic transformation of the Redis state; the Go methods
  compose them. JSON, Lua's \<open>cjson\<close> and the order of Lua's \<open>pairs\<close> are fields of the environment record, Redis
  is the argument \<open>R\<close>, used through the laws of \<open>redis_store\<close>. A receiver is never nil here.
\<close>

subsection \<open>Constants and queue keys\<close>

definition proxyKeyPrefix :: string where "proxyKeyPrefix = ''proxy:''"
definition legacyQueueKey :: string where "legacyQueueKey = ''proxy_queue''"
definition proxyQueueHeadKey :: string where "proxyQueueHeadKey = ''proxy_queue_heads''"
definition queueShardKeyPrefix :: string where "queueShardKeyPrefix = ''proxy_queue:''"
definition queueRescheduleStateKey :: string where "queueRescheduleStateKey = ''magpie:queue:proxy:interval_ms''"
definition defaultQueueShards :: int where "defaultQueueShards = 16"
definition maxQueueShards :: int where "maxQueueShards = 128"
definition queuedProxyVersion :: u8 where "queuedProxyVersion = 3"
definition leaseScoreMarker :: rat where "leaseScoreMarker = 1 / 2"
definition lease_ms :: int where "lease_ms = processingLease div millisecond"

record RedisProxyQueue =
  queueShardKeys :: "string list"
  popQueueKeys :: "string list"

definition buildQueueShardKeys :: "nat \<Rightarrow> string list" where
  "buildQueueShardKeys shards = map (\<lambda>i. queueShardKeyPrefix @ format_nat i) [0..<shards]"

definition buildPopQueueKeys :: "string list \<Rightarrow> string list" where
  "buildPopQueueKeys shardKeys = legacyQueueKey # shardKeys"

definition popKeys :: "RedisProxyQueue \<Rightarrow> string list" where
  "popKeys rpq = (if popQueueKeys rpq = [] then [legacyQueueKey] else popQueueKeys rpq)"

definition proxyQueueShardIndex :: "string \<Rightarrow> nat \<Rightarrow> nat" where
  "proxyQueueShardIndex member shards =
     (if shards \<le> 1 then 0 else unat (fnv32a member mod of_nat shards))"

definition queueKeyForMember :: "RedisProxyQueue \<Rightarrow> string \<Rightarrow> string" where
  "queueKeyForMember rpq member =
     (if queueShardKeys rpq = [] then legacyQueueKey
      else queueShardKeys rpq ! proxyQueueShardIndex member (length (queueShardKeys rpq)))"

text \<open>What one exchange with Redis does: there may be no client, the command may not arrive, or only its reply may be lost.\<close>

datatype call = Answered | Refused | ReplyLost | NoClient

datatype queue_error =
    ClientUnavailable | CommandFailed | ScriptRaised | InvalidReply | UnmarshalFailed | DecodeQueued route_error
  | MarshalFailed secret_error | HashMismatch | EmptyHash | ProxyLeaseLost | ContextDone | PipelineFailed
  | LeaderRunnerNil | RescheduleNil | LeaderLockNotAcquired

definition run_call :: "call \<Rightarrow> ('r \<Rightarrow> 'a \<times> 'r) \<Rightarrow> 'r \<Rightarrow> (queue_error, 'a) result \<times> 'r" where
  "run_call c f s =
     (case c of
        Answered \<Rightarrow> (Inr (fst (f s)), snd (f s))
      | Refused \<Rightarrow> (Inl CommandFailed, s)
      | ReplyLost \<Rightarrow> (Inl CommandFailed, snd (f s))
      | NoClient \<Rightarrow> (Inl ClientUnavailable, s))"

definition refreshQueueHeads :: "'r redis_ops \<Rightarrow> RedisProxyQueue \<Rightarrow> call \<Rightarrow> 'r \<Rightarrow> (queue_error, unit) result \<times> 'r" where
  "refreshQueueHeads R rpq c = run_call c (\<lambda>s. ((), RefreshHeads R proxyQueueHeadKey (popKeys rpq) s))"

text \<open>\<open>envShards\<close> is \<open>PROXY_QUEUE_SHARDS\<close> or the default; without a client only the keys are built.\<close>

definition queue_config :: "int \<Rightarrow> RedisProxyQueue" where
  "queue_config envShards =
     (let shards = (if envShards \<le> 0 then defaultQueueShards else envShards);
          shards = (if maxQueueShards < shards then maxQueueShards else shards);
          shardKeys = buildQueueShardKeys (nat shards)
      in \<lparr>queueShardKeys = shardKeys, popQueueKeys = buildPopQueueKeys shardKeys\<rparr>)"

definition NewRedisProxyQueue :: "'r redis_ops \<Rightarrow> int \<Rightarrow> call option \<Rightarrow> 'r \<Rightarrow> RedisProxyQueue \<times> 'r" where
  "NewRedisProxyQueue R envShards client s =
     (let queue = queue_config envShards
      in case client of None \<Rightarrow> (queue, s) | Some c \<Rightarrow> (queue, snd (refreshQueueHeads R queue c s)))"

subsection \<open>Queued payloads\<close>

record queuedProxy =
  qp_Version :: u8
  qp_ID :: u64
  qp_IP :: string
  qp_Port :: u16
  qp_UsernameEncrypted :: string
  qp_PasswordEncrypted :: string
  qp_Username :: string
  qp_Password :: string
  qp_Hash :: bytes
  qp_WorkspaceIDs :: "nat list"
  qp_UserIDs :: "nat list"
  qp_Users :: "nat list"

text \<open>The same payload as a Lua table: absent fields are \<open>None\<close>; \<open>lp_rest\<close> stands for the fields the scripts never touch.\<close>

record luaPayload =
  lp_Version :: "nat option"
  lp_Hash :: "string option"
  lp_UsernameEncrypted :: "string option"
  lp_PasswordEncrypted :: "string option"
  lp_Username :: "string option"
  lp_Password :: "string option"
  lp_WorkspaceIDs :: "nat list option"
  lp_UserIDs :: "nat list option"
  lp_Users :: "nat list option"
  lp_rest :: string

record queue_env =
  qe_crypto :: crypto
  qe_text :: host_text
  qe_secret :: secret_env
  qe_encrypt :: bool
  json_Marshal :: "queuedProxy \<Rightarrow> string"
  json_Unmarshal :: "string \<Rightarrow> queuedProxy option"
  cjson_decode :: "string \<Rightarrow> luaPayload option"
  cjson_encode :: "luaPayload \<Rightarrow> string"
  lua_pairs :: "nat list \<Rightarrow> nat list"

fun hasQueuedWorkspace :: "nat list \<Rightarrow> bool" where
  "hasQueuedWorkspace [] = False"
| "hasQueuedWorkspace (w # ws) = (if w \<noteq> 0 then True else hasQueuedWorkspace ws)"

fun collect_ids :: "nat list \<Rightarrow> nat list \<Rightarrow> nat list" where
  "collect_ids out [] = out"
| "collect_ids out (w # ws) =
     (if w = 0 then collect_ids out ws
      else if w \<in> set out then collect_ids out ws
      else collect_ids (out @ [w]) ws)"

definition collectQueuedWorkspaceIDs :: "nat list \<Rightarrow> nat list" where
  "collectQueuedWorkspaceIDs users = (if users = [] then [] else collect_ids [] users)"

text \<open>The two nonces are drawn only when credentials are encrypted.\<close>

definition newQueuedProxy :: "queue_env \<Rightarrow> bytes option \<times> bytes option \<Rightarrow> Proxy \<Rightarrow> secret_state \<Rightarrow>
    (secret_error, queuedProxy) result \<times> secret_state" where
  "newQueuedProxy E nonces proxy st =
     (let queued = \<lparr>qp_Version = queuedProxyVersion, qp_ID = px_ID proxy, qp_IP = GetIp proxy, qp_Port = px_Port proxy,
                    qp_UsernameEncrypted = [], qp_PasswordEncrypted = [], qp_Username = [], qp_Password = [],
                    qp_Hash = px_Hash proxy, qp_WorkspaceIDs = collectQueuedWorkspaceIDs (px_Workspaces proxy),
                    qp_UserIDs = [], qp_Users = []\<rparr>
      in if \<not> qe_encrypt E then (Inr (queued\<lparr>qp_Username := px_Username proxy, qp_Password := px_Password proxy\<rparr>), st)
         else case EncryptProxySecret (qe_crypto E) (qe_secret E) (fst nonces) (px_Username proxy) st of
                (Inl e, st) \<Rightarrow> (Inl e, st)
              | (Inr username, st) \<Rightarrow>
                  (case EncryptProxySecret (qe_crypto E) (qe_secret E) (snd nonces) (px_Password proxy) st of
                     (Inl e, st) \<Rightarrow> (Inl e, st)
                   | (Inr password, st) \<Rightarrow>
                       (Inr (queued\<lparr>qp_UsernameEncrypted := username, qp_PasswordEncrypted := password\<rparr>), st)))"

definition marshalQueuedProxy :: "queue_env \<Rightarrow> bytes option \<times> bytes option \<Rightarrow> Proxy \<Rightarrow> secret_state \<Rightarrow>
    (secret_error, string) result \<times> secret_state" where
  "marshalQueuedProxy E nonces proxy st =
     (case newQueuedProxy E nonces proxy st of
        (Inl e, st) \<Rightarrow> (Inl e, st)
      | (Inr queued, st) \<Rightarrow> (Inr (json_Marshal E queued), st))"

definition needsRewrite :: "queue_env \<Rightarrow> queuedProxy \<Rightarrow> bool" where
  "needsRewrite E qp =
     (if qp_Version qp < queuedProxyVersion \<or> qp_Hash qp = [] then True
      else let hasEncryptedCredentials = (qp_UsernameEncrypted qp \<noteq> [] \<or> qp_PasswordEncrypted qp \<noteq> []);
               hasPlainCredentials = (qp_Username qp \<noteq> [] \<or> qp_Password qp \<noteq> [])
           in if qe_encrypt E then hasPlainCredentials else hasEncryptedCredentials)"

definition decrypt_if_set :: "queue_env \<Rightarrow> string \<Rightarrow> string \<Rightarrow> secret_state \<Rightarrow> (route_error, string) result \<times> secret_state" where
  "decrypt_if_set E encrypted plain st =
     (if encrypted = [] then (Inr plain, st)
      else case DecryptProxySecret (qe_crypto E) (qe_secret E) encrypted st of
             (Inl e, st) \<Rightarrow> (Inl (SecretFailed e), st)
           | (Inr (p, _), st) \<Rightarrow> (Inr p, st))"

definition payload_owners :: "queuedProxy \<Rightarrow> nat list" where
  "payload_owners qp =
     (let workspaceIDs = qp_WorkspaceIDs qp;
          workspaceIDs = (if workspaceIDs = [] then qp_UserIDs qp else workspaceIDs)
      in if workspaceIDs = [] \<and> qp_Users qp \<noteq> [] then filter (\<lambda>u. u \<noteq> 0) (qp_Users qp) else workspaceIDs)"

definition toDomainProxy :: "queue_env \<Rightarrow> queuedProxy \<Rightarrow> secret_state \<Rightarrow> (route_error, Proxy) result \<times> secret_state" where
  "toDomainProxy E qp st =
     (let workspaces = collect_ids [] (payload_owners qp)
      in case decrypt_if_set E (qp_UsernameEncrypted qp) (qp_Username qp) st of
           (Inl e, st) \<Rightarrow> (Inl e, st)
         | (Inr username, st) \<Rightarrow>
             (case decrypt_if_set E (qp_PasswordEncrypted qp) (qp_Password qp) st of
                (Inl e, st) \<Rightarrow> (Inl e, st)
              | (Inr password, st) \<Rightarrow>
                  (let proxy = \<lparr>px_ID = qp_ID qp, px_IP = qp_IP qp, px_IPAddress = None, px_Port = qp_Port qp,
                                px_Username = username, px_Password = password, px_Workspaces = workspaces,
                                px_QueueLease = None, px_Hash = []\<rparr>
                   in if queuedProxyVersion \<le> qp_Version qp \<and> qp_Hash qp \<noteq> [] then (Inr (proxy\<lparr>px_Hash := qp_Hash qp\<rparr>), st)
                      else GenerateHash (qe_crypto E) (qe_text E) (qe_secret E) proxy st)))"

subsection \<open>The scripts\<close>

text \<open>A lease is a score with fraction one half: \<open>tonumber(score) % 1 == 0.5\<close>.\<close>

definition is_lease :: "rat \<Rightarrow> bool" where
  "is_lease x \<longleftrightarrow> x - of_int \<lfloor>x\<rfloor> = leaseScoreMarker"

definition lease_score :: "int \<Rightarrow> rat" where
  "lease_score ms = of_int ms + leaseScoreMarker"

text \<open>\<open>add.lua\<close>; \<open>keys\<close> are \<open>KEYS[3..]\<close>, the target shard first.\<close>

fun find_owned :: "'r redis_ops \<Rightarrow> string list \<Rightarrow> string \<Rightarrow> 'r \<Rightarrow> (string \<times> rat) option" where
  "find_owned R [] member s = None"
| "find_owned R (k # ks) member s =
     (case ZSCORE R k member s of
        Some x \<Rightarrow> if is_lease x then Some (k, x) else find_owned R ks member s
      | None \<Rightarrow> find_owned R ks member s)"

definition zrem_others :: "'r redis_ops \<Rightarrow> string list \<Rightarrow> string \<Rightarrow> string \<Rightarrow> 'r \<Rightarrow> 'r" where
  "zrem_others R keys queue member = fold (\<lambda>k s. if k \<noteq> queue then ZREM R k member s else s) keys"

definition add_script :: "'r redis_ops \<Rightarrow> string \<Rightarrow> string \<Rightarrow> string list \<Rightarrow> string \<Rightarrow> int \<Rightarrow> string \<Rightarrow> 'r \<Rightarrow> 'r" where
  "add_script R heads payload_key keys member due payload s =
     (let owned = find_owned R keys member s;
          queue = (case owned of Some (q, _) \<Rightarrow> q | None \<Rightarrow> hd keys);
          indexed = (case owned of Some (_, x) \<Rightarrow> x | None \<Rightarrow> of_int due);
          s = SET R payload_key payload s;
          s = ZADD R NX queue (of_int due) member s;
          s = zrem_others R keys queue member s
      in ZADD R LT heads indexed queue s)"

text \<open>\<open>pop.lua\<close>, at most eight rounds; the reply is the array the client decodes.\<close>

definition pop_miss :: "int \<Rightarrow> go_value" where
  "pop_miss nextReady = GSlice [GInt64 0, GString [], GString [], GInt64 nextReady, GInt64 (-1)]"

definition pop_hit :: "string \<Rightarrow> string \<Rightarrow> int \<Rightarrow> string \<Rightarrow> go_value" where
  "pop_hit member data score queue = GSlice [GInt64 1, GString member, GString data, GInt64 score, GString queue]"

fun pop_loop :: "'r redis_ops \<Rightarrow> string \<Rightarrow> string \<Rightarrow> int \<Rightarrow> int \<Rightarrow> nat \<Rightarrow> 'r \<Rightarrow> go_value \<times> 'r" where
  "pop_loop R heads prefix now lease 0 s = (pop_miss (-1), s)"
| "pop_loop R heads prefix now lease (Suc n) s =
     (case ZHEAD R heads s of
        None \<Rightarrow> (pop_miss (-1), s)
      | Some (queue, indexed) \<Rightarrow>
          (case ZHEAD R queue s of
             None \<Rightarrow> pop_loop R heads prefix now lease n (ZREM R heads queue s)
           | Some (member, score) \<Rightarrow>
               if score \<noteq> indexed then pop_loop R heads prefix now lease n (ZADD R ZAny heads score queue s)
               else if of_int now < score then (pop_miss \<lfloor>score\<rfloor>, s)
               else (case GET R (prefix @ member) s of
                       None \<Rightarrow> pop_loop R heads prefix now lease n (refresh_head R heads queue (ZREM R queue member s))
                     | Some data \<Rightarrow>
                         (pop_hit member data \<lfloor>score\<rfloor> queue,
                          refresh_head R heads queue (ZADD R ZAny queue (of_int (now + lease) + leaseScoreMarker) member s)))))"

definition pop_script :: "'r redis_ops \<Rightarrow> string \<Rightarrow> string \<Rightarrow> int \<Rightarrow> int \<Rightarrow> 'r \<Rightarrow> go_value \<times> 'r" where
  "pop_script R heads prefix now lease s = pop_loop R heads prefix now lease 8 s"

text \<open>\<open>complete.lua\<close> with the merge of an ownership change into a payload that was replaced meanwhile.\<close>

definition lua_owners :: "luaPayload \<Rightarrow> nat list" where
  "lua_owners p =
     (case lp_WorkspaceIDs p of
        Some ids \<Rightarrow> ids
      | None \<Rightarrow> (case lp_UserIDs p of
                   Some ids \<Rightarrow> ids
                 | None \<Rightarrow> (case lp_Users p of Some ids \<Rightarrow> ids | None \<Rightarrow> [])))"

fun merge_live :: "nat list \<Rightarrow> nat list \<Rightarrow> nat list \<Rightarrow> nat list \<Rightarrow> nat list" where
  "merge_live old desired merged [] = merged"
| "merge_live old desired merged (x # xs) =
     (if (x \<notin> set old \<or> x \<in> set desired) \<and> x \<notin> set merged then merge_live old desired (merged @ [x]) xs
      else merge_live old desired merged xs)"

definition merge_owners :: "queue_env \<Rightarrow> nat list \<Rightarrow> nat list \<Rightarrow> nat list \<Rightarrow> nat list" where
  "merge_owners E live old desired =
     (let merged = merge_live old desired [] live
      in merged @ filter (\<lambda>x. x \<notin> set old \<and> x \<notin> set merged) (lua_pairs E (remdups desired)))"

definition set_owners :: "nat list \<Rightarrow> luaPayload \<Rightarrow> luaPayload" where
  "set_owners merged live =
     live\<lparr>lp_WorkspaceIDs := (if merged = [] then None else Some merged), lp_UserIDs := None, lp_Users := None\<rparr>"

text \<open>The payload to store: \<open>None\<close> when a text does not decode, which raises in the script.\<close>

definition completed_payload :: "queue_env \<Rightarrow> string option \<Rightarrow> string \<Rightarrow> string \<Rightarrow> string option" where
  "completed_payload E current payload snapshot =
     (case current of
        None \<Rightarrow> Some payload
      | Some cur \<Rightarrow>
          if snapshot \<noteq> [] \<and> cur \<noteq> snapshot
          then (case (cjson_decode E cur, cjson_decode E snapshot, cjson_decode E payload) of
                  (Some live, Some before, Some after) \<Rightarrow>
                    Some (cjson_encode E (set_owners (merge_owners E (lua_owners live) (lua_owners before) (lua_owners after)) live))
                | _ \<Rightarrow> None)
          else Some payload)"

text \<open>The reply is the returned number, or \<open>None\<close> when the script raises an error.\<close>

definition complete_script :: "queue_env \<Rightarrow> 'r redis_ops \<Rightarrow> string \<Rightarrow> string \<Rightarrow> string \<Rightarrow> string \<Rightarrow> string \<Rightarrow>
    string \<Rightarrow> int \<Rightarrow> int \<Rightarrow> string \<Rightarrow> string \<Rightarrow> 'r \<Rightarrow> int option \<times> 'r" where
  "complete_script E R heads queue legacy payload_key old_queue member expected next_score payload snapshot s =
     (if 0 < expected \<and> ZSCORE R old_queue member s \<noteq> Some (lease_score expected) then (Some 0, s)
      else case (if payload = [] then Some s
                 else map_option (\<lambda>v. SET R payload_key v s) (completed_payload E (GET R payload_key s) payload snapshot)) of
             None \<Rightarrow> (None, s)
           | Some s \<Rightarrow>
               (let s = (if old_queue \<noteq> queue then ZREM R old_queue member s else s);
                    s = (if legacy \<noteq> queue \<and> legacy \<noteq> old_queue then ZREM R legacy member s else s);
                    s = ZADD R ZAny queue (of_int next_score) member s
                in (Some 1, ZADD R LT heads (of_int next_score) queue s)))"

definition renew_script :: "'r redis_ops \<Rightarrow> string \<Rightarrow> string \<Rightarrow> int \<Rightarrow> int \<Rightarrow> int \<Rightarrow> 'r \<Rightarrow> int \<times> 'r" where
  "renew_script R queue member expected now renewed s =
     (if ZSCORE R queue member s \<noteq> Some (lease_score expected) \<or> expected \<le> now then (0, s)
      else (renewed, ZADD R XX queue (lease_score renewed) member s))"

definition remove_script :: "'r redis_ops \<Rightarrow> string \<Rightarrow> string \<Rightarrow> string \<Rightarrow> string \<Rightarrow> int \<Rightarrow> string \<Rightarrow> 'r \<Rightarrow> int \<times> 'r" where
  "remove_script R payload_key queue legacy member expected snapshot s =
     (if 0 < expected \<and> (ZSCORE R queue member s \<noteq> Some (lease_score expected) \<or> GET R payload_key s \<noteq> Some snapshot)
      then (0, s)
      else let s = DEL R payload_key s;
               s = ZREM R queue member s
           in (1, if legacy \<noteq> queue then ZREM R legacy member s else s))"

fun requeue_members :: "'r redis_ops \<Rightarrow> string \<Rightarrow> (string \<times> int) list \<Rightarrow> int \<Rightarrow> 'r \<Rightarrow> int \<times> 'r" where
  "requeue_members R queue [] updated s = (updated, s)"
| "requeue_members R queue ((member, due) # args) updated s =
     (case ZSCORE R queue member s of
        Some x \<Rightarrow> if is_lease x then requeue_members R queue args updated s
                   else requeue_members R queue args (updated + 1) (ZADD R XX queue (of_int due) member s)
      | None \<Rightarrow> requeue_members R queue args updated s)"

definition requeue_all_script :: "'r redis_ops \<Rightarrow> string \<Rightarrow> string \<Rightarrow> (string \<times> int) list \<Rightarrow> 'r \<Rightarrow> int \<times> 'r" where
  "requeue_all_script R queue heads args s =
     (case requeue_members R queue args 0 s of (updated, s) \<Rightarrow> (updated, refresh_head R heads queue s))"

text \<open>
  \<open>migrate.lua\<close>: a worker that popped a route stored under an outdated hash or in an outdated form moves it to its
  canonical member. The reply is \<open>None\<close> when the script raises, else the claim flag, the stored payload and the queue.
\<close>

definition present :: "string option \<Rightarrow> bool" where
  "present v = (case v of None \<Rightarrow> False | Some x \<Rightarrow> x \<noteq> [])"

definition migrate_owners :: "luaPayload \<Rightarrow> nat list" where
  "migrate_owners p =
     (case lp_WorkspaceIDs p of
        Some (x # xs) \<Rightarrow> x # xs
      | _ \<Rightarrow> (case lp_UserIDs p of
                Some (x # xs) \<Rightarrow> x # xs
              | _ \<Rightarrow> (case lp_Users p of Some ids \<Rightarrow> ids | None \<Rightarrow> [])))"

definition lua_version :: "luaPayload \<Rightarrow> nat" where
  "lua_version p = (case lp_Version p of Some v \<Rightarrow> v | None \<Rightarrow> 0)"

definition format_outdated :: "bool \<Rightarrow> luaPayload \<Rightarrow> bool" where
  "format_outdated encrypt live \<longleftrightarrow>
     lua_version live < 3 \<or> \<not> present (lp_Hash live) \<or>
     (if encrypt then present (lp_Username live) \<or> present (lp_Password live)
      else present (lp_UsernameEncrypted live) \<or> present (lp_PasswordEncrypted live))"

definition copy_format :: "luaPayload \<Rightarrow> luaPayload \<Rightarrow> luaPayload" where
  "copy_format normalized live =
     live\<lparr>lp_Version := lp_Version normalized, lp_Hash := lp_Hash normalized, lp_Username := lp_Username normalized,
          lp_Password := lp_Password normalized, lp_UsernameEncrypted := lp_UsernameEncrypted normalized,
          lp_PasswordEncrypted := lp_PasswordEncrypted normalized\<rparr>"

text \<open>The payload the canonical member gets: \<open>None\<close> when decoding fails or the stored hash is another one.\<close>

definition migrated_payload :: "queue_env \<Rightarrow> bool \<Rightarrow> string option \<Rightarrow> string \<Rightarrow> string option" where
  "migrated_payload E encrypt current payload =
     (case cjson_decode E payload of
        None \<Rightarrow> None
      | Some normalized \<Rightarrow>
          (case current of
             None \<Rightarrow> Some payload
           | Some cur \<Rightarrow>
               (case cjson_decode E cur of
                  None \<Rightarrow> None
                | Some live \<Rightarrow>
                    if 3 \<le> lua_version live \<and> present (lp_Hash live) \<and> lp_Hash live \<noteq> lp_Hash normalized then None
                    else let format_changed = format_outdated encrypt live;
                             owned = collect_ids [] (migrate_owners live);
                             merged = collect_ids owned (migrate_owners normalized);
                             ownership_changed = (merged \<noteq> owned)
                         in if format_changed \<or> ownership_changed
                            then Some (cjson_encode E (set_owners merged (if format_changed then copy_format normalized live else live)))
                            else Some cur)))"

definition live_lease :: "int \<Rightarrow> rat option \<Rightarrow> bool" where
  "live_lease now x = (case x of None \<Rightarrow> False | Some x \<Rightarrow> is_lease x \<and> of_int now < x)"

definition migrate_release :: "'r redis_ops \<Rightarrow> string \<Rightarrow> string \<Rightarrow> string \<Rightarrow> int \<Rightarrow> string option \<Rightarrow> 'r \<Rightarrow> 'r" where
  "migrate_release R heads old_queue old_member now source s =
     refresh_head R heads old_queue
       (case source of
          Some _ \<Rightarrow> ZADD R XX old_queue (of_int now) old_member s
        | None \<Rightarrow> ZREM R old_queue old_member s)"

definition migrate_clear :: "'r redis_ops \<Rightarrow> string \<Rightarrow> string \<Rightarrow> string \<Rightarrow> string list \<Rightarrow> 'r \<Rightarrow> 'r" where
  "migrate_clear R queue old_member member queues =
     fold (\<lambda>k s. let s = ZREM R k old_member s in if k \<noteq> queue then ZREM R k member s else s) queues"

definition migrate_dirty :: "'r redis_ops \<Rightarrow> string \<Rightarrow> string \<Rightarrow> string \<Rightarrow> bool \<Rightarrow> string list \<Rightarrow> 'r \<Rightarrow> string list" where
  "migrate_dirty R queue old_member member claimed queues s =
     filter (\<lambda>k. ZSCORE R k old_member s \<noteq> None \<or> (k \<noteq> queue \<and> ZSCORE R k member s \<noteq> None) \<or> (claimed \<and> k = queue)) queues"

definition migrate_script :: "queue_env \<Rightarrow> 'r redis_ops \<Rightarrow> string \<Rightarrow> string \<Rightarrow> string \<Rightarrow> string list \<Rightarrow> string \<Rightarrow> string \<Rightarrow>
    int \<Rightarrow> int \<Rightarrow> string \<Rightarrow> string \<Rightarrow> bool \<Rightarrow> 'r \<Rightarrow> (bool \<times> string \<times> string) option \<times> 'r" where
  "migrate_script E R heads old_payload_key payload_key keys old_member member expected now payload snapshot encrypt s =
     (let old_queue = keys ! 0; target = keys ! 1; source = GET R old_payload_key s
      in if ZSCORE R old_queue old_member s \<noteq> Some (lease_score expected) \<or> expected \<le> now then (Some (False, [], []), s)
         else if source \<noteq> Some snapshot then (Some (False, [], []), migrate_release R heads old_queue old_member now source s)
         else if old_member = member then (Some (True, payload, old_queue), SET R payload_key payload s)
         else let queues = dedup_onto [] keys;
                  owned = find (\<lambda>k. live_lease now (ZSCORE R k member s)) queues;
                  current = GET R payload_key s
              in case migrated_payload E encrypt current payload of
                   None \<Rightarrow> (None, s)
                 | Some stored \<Rightarrow>
                     (let queue = (case owned of Some k \<Rightarrow> k | None \<Rightarrow> target);
                          dirty = migrate_dirty R queue old_member member (owned = None) queues s;
                          s = (if Some stored \<noteq> current then SET R payload_key stored s else s);
                          s = DEL R old_payload_key s;
                          s = migrate_clear R queue old_member member queues s;
                          s = (if owned = None then ZADD R ZAny queue (lease_score expected) member s else s);
                          s = fold (refresh_head R heads) dirty s
                      in if owned = None then (Some (True, stored, queue), s) else (Some (False, [], []), s)))"

subsection \<open>Taking a proxy\<close>

record proxyPopResult =
  pr_Found :: bool
  pr_Member :: string
  pr_ProxyJSON :: string
  pr_ScoreMs :: int
  pr_NextReadyMs :: int
  pr_QueueKey :: string

definition miss_result :: "int \<Rightarrow> proxyPopResult" where
  "miss_result nextReadyMs = \<lparr>pr_Found = False, pr_Member = [], pr_ProxyJSON = [], pr_ScoreMs = 0,
     pr_NextReadyMs = nextReadyMs, pr_QueueKey = []\<rparr>"

definition parseProxyPopResult :: "go_value \<Rightarrow> (queue_error, proxyPopResult) result" where
  "parseProxyPopResult r =
     (case r of
        GSlice xs \<Rightarrow>
          if length xs \<noteq> 5 then Inl InvalidReply
          else (case coerceLuaInt64 (xs ! 0) of
                  Inl _ \<Rightarrow> Inl InvalidReply
                | Inr foundFlag \<Rightarrow>
                    if foundFlag = 0
                    then (case coerceLuaInt64 (xs ! 3) of Inl _ \<Rightarrow> Inl InvalidReply | Inr n \<Rightarrow> Inr (miss_result n))
                    else (case (coerceLuaString (xs ! 2), coerceLuaString (xs ! 1), coerceLuaString (xs ! 4), coerceLuaInt64 (xs ! 3)) of
                            (Inr proxyJSON, Inr member, Inr queueKey, Inr score) \<Rightarrow>
                              Inr \<lparr>pr_Found = True, pr_Member = member, pr_ProxyJSON = proxyJSON, pr_ScoreMs = score,
                                   pr_NextReadyMs = -1, pr_QueueKey = queueKey\<rparr>
                          | _ \<Rightarrow> Inl InvalidReply))
      | _ \<Rightarrow> Inl InvalidReply)"

text \<open>
  What the worker gets back of a migration that did not fail: whether it holds the claim, and the pop result
  and proxy it goes on with.
\<close>

definition adopt_migrated :: "queue_env \<Rightarrow> string \<Rightarrow> string \<Rightarrow> string \<Rightarrow> string \<Rightarrow> proxyPopResult \<Rightarrow> Proxy \<Rightarrow> secret_state \<Rightarrow>
    (queue_error, bool \<times> proxyPopResult \<times> Proxy) result \<times> secret_state" where
  "adopt_migrated E payload current queueKey newMember pop proxy st =
     (let pop = pop\<lparr>pr_Member := newMember, pr_ProxyJSON := current, pr_QueueKey := queueKey\<rparr>
      in if current = payload then (Inr (True, pop, proxy), st)
         else case json_Unmarshal E current of
                None \<Rightarrow> (Inl UnmarshalFailed, st)
              | Some merged \<Rightarrow>
                  (case toDomainProxy E merged st of
                     (Inl e, st) \<Rightarrow> (Inl (DecodeQueued e), st)
                   | (Inr decoded, st) \<Rightarrow>
                       if px_Hash decoded \<noteq> newMember then (Inl HashMismatch, st) else (Inr (True, pop, decoded), st)))"

definition migrateDequeuedProxyMember :: "queue_env \<Rightarrow> 'r redis_ops \<Rightarrow> RedisProxyQueue \<Rightarrow> call \<Rightarrow> int \<Rightarrow>
    bytes option \<times> bytes option \<Rightarrow> proxyPopResult \<Rightarrow> Proxy \<Rightarrow> int \<Rightarrow> bool \<Rightarrow> secret_state \<times> 'r \<Rightarrow>
    (queue_error, bool \<times> proxyPopResult \<times> Proxy) result \<times> secret_state \<times> 'r" where
  "migrateDequeuedProxyMember E R rpq c now nonces pop proxy leaseScoreMs rewritePayload w =
     (let (st, s) = w; oldMember = pr_Member pop; newMember = px_Hash proxy
      in if oldMember = [] \<or> newMember = [] then (Inl EmptyHash, st, s)
         else if oldMember = newMember \<and> \<not> rewritePayload then (Inr (True, pop, proxy), st, s)
         else case marshalQueuedProxy E nonces proxy st of
                (Inl e, st) \<Rightarrow> (Inl (MarshalFailed e), st, s)
              | (Inr payload, st) \<Rightarrow>
                  (let keys = pr_QueueKey pop # queueKeyForMember rpq newMember # popKeys rpq;
                       script = migrate_script E R proxyQueueHeadKey (proxyKeyPrefix @ oldMember) (proxyKeyPrefix @ newMember)
                                  keys oldMember newMember leaseScoreMs now payload (pr_ProxyJSON pop) (qe_encrypt E)
                   in case run_call c script s of
                        (Inl e, s) \<Rightarrow> (Inl e, st, s)
                      | (Inr None, s) \<Rightarrow> (Inl ScriptRaised, st, s)
                      | (Inr (Some (claimed, current, queueKey)), s) \<Rightarrow>
                          if \<not> claimed then (Inr (False, pop, proxy), st, s)
                          else (case adopt_migrated E payload current queueKey newMember pop proxy st of
                                  (r, st) \<Rightarrow> (r, st, s))))"

text \<open>
  One turn of the polling loop. The event says whether the context is done, the two clock readings, how Redis
  answers, the nonces a rewrite draws and what other clients did to Redis since the previous turn.
\<close>

record 'r poll_event =
  pe_ctxDone :: bool
  pe_now :: int
  pe_migrateNow :: int
  pe_pop :: call
  pe_migrate :: call
  pe_nonces :: "bytes option \<times> bytes option"
  pe_cancelled :: bool
  pe_others :: "'r \<Rightarrow> 'r"

datatype poll_result = PollDone Proxy int | PollFailed queue_error | PollWait duration | PollAgain

definition claim_popped :: "queue_env \<Rightarrow> 'r redis_ops \<Rightarrow> RedisProxyQueue \<Rightarrow> 'r poll_event \<Rightarrow> proxyPopResult \<Rightarrow>
    secret_state \<times> 'r \<Rightarrow> poll_result \<times> secret_state \<times> 'r" where
  "claim_popped E R rpq ev pop w =
     (case json_Unmarshal E (pr_ProxyJSON pop) of
        None \<Rightarrow> (PollFailed UnmarshalFailed, w)
      | Some payload \<Rightarrow>
          (case toDomainProxy E payload (fst w) of
             (Inl e, st) \<Rightarrow> (PollFailed (DecodeQueued e), st, snd w)
           | (Inr proxy, st) \<Rightarrow>
               if queuedProxyVersion \<le> qp_Version payload \<and> qp_Hash payload \<noteq> [] \<and> pr_Member pop \<noteq> qp_Hash payload
               then (PollFailed HashMismatch, st, snd w)
               else let leaseScoreMs = pe_now ev + lease_ms
                    in case migrateDequeuedProxyMember E R rpq (pe_migrate ev) (pe_migrateNow ev) (pe_nonces ev) pop proxy
                              leaseScoreMs (needsRewrite E payload) (st, snd w) of
                         (Inl e, w) \<Rightarrow> (PollFailed e, w)
                       | (Inr (claimed, pop, proxy), w) \<Rightarrow>
                           if \<not> claimed then (PollAgain, w)
                           else (PollDone (proxy\<lparr>px_QueueLease := Some \<lparr>ScoreMS = leaseScoreMs, QueueKey = pr_QueueKey pop,
                                                    Payload = pr_ProxyJSON pop\<rparr>\<rparr>) (pr_ScoreMs pop), w)))"

definition poll_once :: "queue_env \<Rightarrow> 'r redis_ops \<Rightarrow> RedisProxyQueue \<Rightarrow> 'r poll_event \<Rightarrow> secret_state \<times> 'r \<Rightarrow>
    poll_result \<times> secret_state \<times> 'r" where
  "poll_once E R rpq ev w =
     (if pe_ctxDone ev then (PollFailed ContextDone, w)
      else case run_call (pe_pop ev) (pop_script R proxyQueueHeadKey proxyKeyPrefix (pe_now ev) lease_ms) (snd w) of
             (Inl e, s) \<Rightarrow> (PollFailed e, fst w, s)
           | (Inr reply, s) \<Rightarrow>
               (case parseProxyPopResult reply of
                  Inl e \<Rightarrow> (PollFailed e, fst w, s)
                | Inr pop \<Rightarrow>
                    if \<not> pr_Found pop then (PollWait (dequeueWaitDuration (pr_NextReadyMs pop) (pe_now ev)), fst w, s)
                    else claim_popped E R rpq ev pop (fst w, s)))"

text \<open>The loop over the events of its turns; \<open>None\<close> while it is still polling.\<close>

fun GetNextProxyContext :: "queue_env \<Rightarrow> 'r redis_ops \<Rightarrow> RedisProxyQueue \<Rightarrow> 'r poll_event list \<Rightarrow> secret_state \<times> 'r \<Rightarrow>
    (queue_error, Proxy \<times> int) result option \<times> secret_state \<times> 'r" where
  "GetNextProxyContext E R rpq [] w = (None, w)"
| "GetNextProxyContext E R rpq (ev # evs) w =
     (case poll_once E R rpq ev (fst w, pe_others ev (snd w)) of
        (PollDone proxy scoreMs, w) \<Rightarrow> (Some (Inr (proxy, scoreMs)), w)
      | (PollFailed e, w) \<Rightarrow> (Some (Inl e), w)
      | (PollWait d, w) \<Rightarrow> if snd (waitForNextPoll (pe_cancelled ev) d) then GetNextProxyContext E R rpq evs w
                          else (Some (Inl ContextDone), w)
      | (PollAgain, w) \<Rightarrow> GetNextProxyContext E R rpq evs w)"

subsection \<open>Finishing, renewing and scheduling\<close>

definition UnixMilli :: "instant \<Rightarrow> int" where
  "UnixMilli t = t div millisecond"

definition getEffectiveCheckInterval :: "'r redis_ops \<Rightarrow> call \<Rightarrow> duration \<Rightarrow> 'r \<Rightarrow> duration" where
  "getEffectiveCheckInterval R c fallback s =
     (case run_call c (\<lambda>s. (GET R queueRescheduleStateKey s, s)) s of
        (Inr (Some raw), _) \<Rightarrow> parseIntervalStateMillis raw fallback
      | _ \<Rightarrow> fallback)"

text \<open>The clock, the configured interval, the nonces and the two exchanges with Redis of one completion.\<close>

record requeue_event =
  re_now :: instant
  re_fallback :: duration
  re_nonces :: "bytes option \<times> bytes option"
  re_interval :: call
  re_complete :: call

definition complete_call :: "queue_env \<Rightarrow> 'r redis_ops \<Rightarrow> RedisProxyQueue \<Rightarrow> call \<Rightarrow> Proxy \<Rightarrow> instant \<Rightarrow> string \<Rightarrow> string \<Rightarrow> 'r \<Rightarrow>
    (queue_error, unit) result \<times> 'r" where
  "complete_call E R rpq c proxy nextCheck payload snapshot s =
     (let hashKey = px_Hash proxy;
          queueKey = queueKeyForMember rpq hashKey;
          expected = (case px_QueueLease proxy of Some l \<Rightarrow> ScoreMS l | None \<Rightarrow> 0);
          oldQueue = (case px_QueueLease proxy of Some l \<Rightarrow> QueueKey l | None \<Rightarrow> queueKey)
      in case run_call c (complete_script E R proxyQueueHeadKey queueKey legacyQueueKey (proxyKeyPrefix @ hashKey) oldQueue
                            hashKey expected (UnixMilli nextCheck) payload snapshot) s of
           (Inl e, s) \<Rightarrow> (Inl e, s)
         | (Inr None, s) \<Rightarrow> (Inl ScriptRaised, s)
         | (Inr (Some completed), s) \<Rightarrow> if completed = 0 then (Inl ProxyLeaseLost, s) else (Inr (), s))"

definition requeueProxy :: "queue_env \<Rightarrow> 'r redis_ops \<Rightarrow> RedisProxyQueue \<Rightarrow> requeue_event \<Rightarrow> Proxy \<Rightarrow> instant \<Rightarrow> bool \<Rightarrow>
    secret_state \<times> 'r \<Rightarrow> (queue_error, unit) result \<times> secret_state \<times> 'r" where
  "requeueProxy E R rpq ev proxy lastCheckTime persistPayload w =
     (let (st, s) = w;
          interval = getEffectiveCheckInterval R (re_interval ev) (re_fallback ev) s;
          base = (if lastCheckTime < re_now ev then re_now ev else lastCheckTime);
          nextCheck = base + interval;
          snapshot = (case px_QueueLease proxy of Some l \<Rightarrow> if persistPayload then Payload l else [] | None \<Rightarrow> [])
      in if re_interval ev = NoClient then (Inl ClientUnavailable, st, s)
         else if persistPayload
         then (case marshalQueuedProxy E (re_nonces ev) proxy st of
                 (Inl e, st) \<Rightarrow> (Inl (MarshalFailed e), st, s)
               | (Inr payload, st) \<Rightarrow> (case complete_call E R rpq (re_complete ev) proxy nextCheck payload snapshot s of (r, s) \<Rightarrow> (r, st, s)))
         else (case complete_call E R rpq (re_complete ev) proxy nextCheck [] snapshot s of (r, s) \<Rightarrow> (r, st, s)))"

definition RequeueProxy :: "queue_env \<Rightarrow> 'r redis_ops \<Rightarrow> RedisProxyQueue \<Rightarrow> requeue_event \<Rightarrow> Proxy \<Rightarrow> instant \<Rightarrow>
    secret_state \<times> 'r \<Rightarrow> (queue_error, unit) result \<times> secret_state \<times> 'r" where
  "RequeueProxy E R rpq ev proxy lastCheckTime = requeueProxy E R rpq ev proxy lastCheckTime False"

definition RequeueProxyWithPayload :: "queue_env \<Rightarrow> 'r redis_ops \<Rightarrow> RedisProxyQueue \<Rightarrow> requeue_event \<Rightarrow> Proxy \<Rightarrow> instant \<Rightarrow>
    secret_state \<times> 'r \<Rightarrow> (queue_error, unit) result \<times> secret_state \<times> 'r" where
  "RequeueProxyWithPayload E R rpq ev proxy lastCheckTime = requeueProxy E R rpq ev proxy lastCheckTime True"

text \<open>The renewed lease is stored in the proxy that is returned; \<open>now\<close> is in milliseconds.\<close>

definition RenewLeaseIfNeeded :: "'r redis_ops \<Rightarrow> bool \<Rightarrow> int \<Rightarrow> call \<Rightarrow> Proxy \<Rightarrow> 'r \<Rightarrow> (queue_error, Proxy) result \<times> 'r" where
  "RenewLeaseIfNeeded R ctxErr now c proxy s =
     (case px_QueueLease proxy of
        None \<Rightarrow> (Inr proxy, s)
      | Some lease \<Rightarrow>
          if ctxErr then (Inl ContextDone, s)
          else if 2 * minute div millisecond < ScoreMS lease - now then (Inr proxy, s)
          else (case run_call c (renew_script R (QueueKey lease) (px_Hash proxy) (ScoreMS lease) now (now + lease_ms)) s of
                  (Inl e, s) \<Rightarrow> (Inl e, s)
                | (Inr renewed, s) \<Rightarrow>
                    if renewed = 0 then (Inl ProxyLeaseLost, s)
                    else (Inr (proxy\<lparr>px_QueueLease := Some (lease\<lparr>ScoreMS := renewed\<rparr>)\<rparr>), s)))"

text \<open>
  A pipeline sends its commands together; each is atomic by itself. When it fails, a prefix of the commands has
  been applied: \<open>ExecFailed n\<close> gives its length.
\<close>

datatype exec_outcome = ExecOk | ExecFailed nat

definition pipe_exec :: "exec_outcome \<Rightarrow> ('r \<Rightarrow> 'r) list \<Rightarrow> 'r \<Rightarrow> bool \<times> 'r" where
  "pipe_exec x cmds s =
     (case x of ExecOk \<Rightarrow> (True, fold (\<lambda>f. f) cmds s) | ExecFailed n \<Rightarrow> (False, fold (\<lambda>f. f) (take n cmds) s))"

definition check_offset :: "duration \<Rightarrow> nat \<Rightarrow> nat \<Rightarrow> duration" where
  "check_offset interval i n = div_trunc (wrap64 (interval * int i)) (int n)"

definition add_command :: "'r redis_ops \<Rightarrow> RedisProxyQueue \<Rightarrow> Proxy \<Rightarrow> int \<Rightarrow> string \<Rightarrow> 'r \<Rightarrow> 'r" where
  "add_command R rpq proxy due payload =
     (let hashKey = px_Hash proxy
      in add_script R proxyQueueHeadKey (proxyKeyPrefix @ hashKey) (queueKeyForMember rpq hashKey # popKeys rpq) hashKey due payload)"

text \<open>Clock, interval, nonces per position, and the outcome of each pipeline in turn.\<close>

record add_event =
  ae_now :: instant
  ae_interval :: duration
  ae_nonces :: "nat \<Rightarrow> bytes option \<times> bytes option"
  ae_exec :: "nat \<Rightarrow> exec_outcome"

fun add_loop :: "queue_env \<Rightarrow> 'r redis_ops \<Rightarrow> RedisProxyQueue \<Rightarrow> add_event \<Rightarrow> nat \<Rightarrow> nat \<Rightarrow> nat \<Rightarrow> ('r \<Rightarrow> 'r) list \<Rightarrow> Proxy list \<Rightarrow>
    secret_state \<times> 'r \<Rightarrow> (queue_error, unit) result \<times> secret_state \<times> 'r" where
  "add_loop E R rpq ev n i b pipe [] w =
     (case pipe_exec (ae_exec ev b) pipe (snd w) of
        (True, s) \<Rightarrow> (Inr (), fst w, s)
      | (False, s) \<Rightarrow> (Inl PipelineFailed, fst w, s))"
| "add_loop E R rpq ev n i b pipe (proxy # rest) w =
     (case marshalQueuedProxy E (ae_nonces ev i) proxy (fst w) of
        (Inl e, st) \<Rightarrow> (Inl (MarshalFailed e), st, snd w)
      | (Inr payload, st) \<Rightarrow>
          (let due = UnixMilli (ae_now ev + check_offset (ae_interval ev) i n);
               pipe = pipe @ [add_command R rpq proxy due payload]
           in if i mod 500 = 0 \<and> 0 < i
              then (case pipe_exec (ae_exec ev b) pipe (snd w) of
                      (False, s) \<Rightarrow> (Inl PipelineFailed, st, s)
                    | (True, s) \<Rightarrow> add_loop E R rpq ev n (i + 1) (b + 1) [] rest (st, s))
              else add_loop E R rpq ev n (i + 1) b pipe rest (st, snd w)))"

definition AddToQueue :: "queue_env \<Rightarrow> 'r redis_ops \<Rightarrow> RedisProxyQueue \<Rightarrow> bool \<Rightarrow> add_event \<Rightarrow> Proxy list \<Rightarrow>
    secret_state \<times> 'r \<Rightarrow> (queue_error, unit) result \<times> secret_state \<times> 'r" where
  "AddToQueue E R rpq haveClient ev proxies w =
     (let queueable = filter (\<lambda>p. hasQueuedWorkspace (px_Workspaces p)) proxies
      in if queueable = [] then (Inr (), w)
         else if \<not> haveClient then (Inl ClientUnavailable, w)
         else add_loop E R rpq ev (length queueable) 0 0 [] queueable w)"

definition remove_commands :: "'r redis_ops \<Rightarrow> RedisProxyQueue \<Rightarrow> Proxy \<Rightarrow> ('r \<Rightarrow> 'r) list" where
  "remove_commands R rpq proxy =
     (let hashKey = px_Hash proxy; queueKey = queueKeyForMember rpq hashKey
      in [DEL R (proxyKeyPrefix @ hashKey), ZREM R queueKey hashKey] @
         (if queueKey \<noteq> legacyQueueKey then [ZREM R legacyQueueKey hashKey] else []))"

fun remove_loop :: "'r redis_ops \<Rightarrow> RedisProxyQueue \<Rightarrow> (nat \<Rightarrow> call) \<Rightarrow> (nat \<Rightarrow> exec_outcome) \<Rightarrow> nat \<Rightarrow> nat \<Rightarrow> ('r \<Rightarrow> 'r) list \<Rightarrow>
    Proxy list \<Rightarrow> 'r \<Rightarrow> (queue_error, unit) result \<times> 'r" where
  "remove_loop R rpq calls execs i b pipe [] s =
     (if pipe = [] then (Inr (), s)
      else case pipe_exec (execs b) pipe s of (True, s) \<Rightarrow> (Inr (), s) | (False, s) \<Rightarrow> (Inl PipelineFailed, s))"
| "remove_loop R rpq calls execs i b pipe (proxy # rest) s =
     (if px_Hash proxy = [] then remove_loop R rpq calls execs (i + 1) b pipe rest s
      else case px_QueueLease proxy of
             Some lease \<Rightarrow>
               (case run_call (calls i) (remove_script R (proxyKeyPrefix @ px_Hash proxy) (QueueKey lease) legacyQueueKey
                                            (px_Hash proxy) (ScoreMS lease) (Payload lease)) s of
                  (Inl e, s) \<Rightarrow> (Inl e, s)
                | (Inr removed, s) \<Rightarrow>
                    if removed = 0 then (Inl ProxyLeaseLost, s) else remove_loop R rpq calls execs (i + 1) b pipe rest s)
           | None \<Rightarrow>
               (let pipe = pipe @ remove_commands R rpq proxy
                in if 500 \<le> length pipe
                   then (case pipe_exec (execs b) pipe s of
                           (False, s) \<Rightarrow> (Inl PipelineFailed, s)
                         | (True, s) \<Rightarrow> remove_loop R rpq calls execs (i + 1) (b + 1) [] rest s)
                   else remove_loop R rpq calls execs (i + 1) b pipe rest s))"

definition RemoveFromQueue :: "'r redis_ops \<Rightarrow> RedisProxyQueue \<Rightarrow> bool \<Rightarrow> (nat \<Rightarrow> call) \<Rightarrow> (nat \<Rightarrow> exec_outcome) \<Rightarrow> Proxy list \<Rightarrow>
    'r \<Rightarrow> (queue_error, unit) result \<times> 'r" where
  "RemoveFromQueue R rpq haveClient calls execs proxies s =
     (if proxies = [] then (Inr (), s)
      else if \<not> haveClient then (Inl ClientUnavailable, s)
      else remove_loop R rpq calls execs 0 0 [] proxies s)"

subsection \<open>Bulk scheduling\<close>

fun chunks :: "nat \<Rightarrow> 'a list \<Rightarrow> 'a list list" where
  "chunks n [] = []"
| "chunks n (x # xs) = (if n = 0 then [x # xs] else take n (x # xs) # chunks n (drop n (x # xs)))"

definition requeue_args :: "instant \<Rightarrow> duration \<Rightarrow> string list \<Rightarrow> (string \<times> int) list" where
  "requeue_args now interval members =
     map (\<lambda>i. (members ! i, UnixMilli (now + check_offset interval i (length members)))) [0..<length members]"

fun requeue_batches :: "'r redis_ops \<Rightarrow> string \<Rightarrow> (nat \<Rightarrow> call) \<Rightarrow> nat \<Rightarrow> (string \<times> int) list list \<Rightarrow> int \<Rightarrow> 'r \<Rightarrow>
    queue_error option \<times> int \<times> 'r" where
  "requeue_batches R key calls b [] acc s = (None, acc, s)"
| "requeue_batches R key calls b (args # rest) acc s =
     (case run_call (calls b) (requeue_all_script R key proxyQueueHeadKey args) s of
        (Inl e, s) \<Rightarrow> (Some e, acc, s)
      | (Inr updated, s) \<Rightarrow> requeue_batches R key calls (b + 1) rest (acc + updated) s)"

text \<open>Per key: the exchange 0 counts, 1 lists, and the rest update; the first error ends the operation with the acc so far.\<close>

fun requeue_keys :: "'r redis_ops \<Rightarrow> (string \<Rightarrow> nat \<Rightarrow> call) \<Rightarrow> instant \<Rightarrow> duration \<Rightarrow> string list \<Rightarrow> int \<Rightarrow> 'r \<Rightarrow>
    queue_error option \<times> int \<times> 'r" where
  "requeue_keys R calls now interval [] acc s = (None, acc, s)"
| "requeue_keys R calls now interval (key # rest) acc s =
     (case run_call (calls key 0) (\<lambda>s. (ZCARD R key s, s)) s of
        (Inl e, s) \<Rightarrow> (Some e, acc, s)
      | (Inr cnt, s) \<Rightarrow>
          if cnt = 0 then requeue_keys R calls now interval rest acc s
          else (case run_call (calls key 1) (\<lambda>s. (take cnt (ZMEMBERS R key s), s)) s of
                  (Inl e, s) \<Rightarrow> (Some e, acc, s)
                | (Inr members, s) \<Rightarrow>
                    (case requeue_batches R key (\<lambda>b. calls key (b + 2)) 0 (chunks 500 (requeue_args now interval members)) acc s of
                       (Some e, acc, s) \<Rightarrow> (Some e, acc, s)
                     | (None, acc, s) \<Rightarrow> requeue_keys R calls now interval rest acc s)))"

record requeue_all_event =
  ra_now :: instant
  ra_fallback :: duration
  ra_interval :: call
  ra_calls :: "string \<Rightarrow> nat \<Rightarrow> call"
  ra_refresh :: call

definition RequeueAll :: "'r redis_ops \<Rightarrow> RedisProxyQueue \<Rightarrow> requeue_all_event \<Rightarrow> 'r \<Rightarrow> queue_error option \<times> int \<times> 'r" where
  "RequeueAll R rpq ev s =
     (if ra_interval ev = NoClient then (Some ClientUnavailable, 0, s)
      else let interval = getEffectiveCheckInterval R (ra_interval ev) (ra_fallback ev) s;
               interval = (if interval \<le> 0 then second else interval)
           in case requeue_keys R (ra_calls ev) (ra_now ev) interval (popKeys rpq) 0 s of
                (Some e, acc, s) \<Rightarrow> (Some e, acc, s)
              | (None, acc, s) \<Rightarrow>
                  (case refreshQueueHeads R rpq (ra_refresh ev) s of
                     (Inl e, s) \<Rightarrow> (Some e, acc, s)
                   | (Inr _, s) \<Rightarrow> (None, acc, s)))"

definition Reschedule :: "'r redis_ops \<Rightarrow> RedisProxyQueue \<Rightarrow> call \<Rightarrow> call \<Rightarrow> duration \<Rightarrow> 'r \<Rightarrow> (queue_error, unit) result \<times> 'r" where
  "Reschedule R rpq cSet cRefresh interval s =
     (let interval = (if interval \<le> 0 then second else interval)
      in case run_call cSet (\<lambda>s. ((), SET R queueRescheduleStateKey (FormatInt (interval div millisecond)) s)) s of
           (Inl e, s) \<Rightarrow> (Inl e, s)
         | (Inr _, s) \<Rightarrow> refreshQueueHeads R rpq cRefresh s)"

text \<open>An interval update runs under the leader lock; not being the leader is no error.\<close>

definition applyIntervalUpdateAsLeaderWithRunner ::
    "(('r \<Rightarrow> (queue_error, unit) result \<times> 'r) \<Rightarrow> 'r \<Rightarrow> (queue_error, unit) result \<times> 'r) option \<Rightarrow> duration \<Rightarrow>
     (duration \<Rightarrow> 'r \<Rightarrow> (queue_error, unit) result \<times> 'r) option \<Rightarrow> 'r \<Rightarrow> (queue_error, unit) result \<times> 'r" where
  "applyIntervalUpdateAsLeaderWithRunner runner interval reschedule s =
     (case (runner, reschedule) of
        (None, _) \<Rightarrow> (Inl LeaderRunnerNil, s)
      | (_, None) \<Rightarrow> (Inl RescheduleNil, s)
      | (Some run, Some f) \<Rightarrow>
          (case run (f interval) s of
             (Inl LeaderLockNotAcquired, s) \<Rightarrow> (Inr (), s)
           | r \<Rightarrow> r))"

fun GetProxyCount :: "'r redis_ops \<Rightarrow> (string \<Rightarrow> call) \<Rightarrow> string list \<Rightarrow> int \<Rightarrow> 'r \<Rightarrow> (queue_error, int) result" where
  "GetProxyCount R calls [] acc s = Inr acc"
| "GetProxyCount R calls (key # rest) acc s =
     (case run_call (calls key) (\<lambda>s. (ZCARD R key s, s)) s of
        (Inl e, _) \<Rightarrow> Inl e
      | (Inr cnt, _) \<Rightarrow> GetProxyCount R calls rest (acc + int cnt) s)"

subsection \<open>Configuration and keys\<close>

text \<open>A queue whose pop keys are its shards and the legacy queue, none of them the index.\<close>

definition queue_ok :: "RedisProxyQueue \<Rightarrow> bool" where
  "queue_ok rpq \<longleftrightarrow>
     proxyQueueHeadKey \<notin> set (popKeys rpq) \<and> legacyQueueKey \<in> set (popKeys rpq) \<and> set (queueShardKeys rpq) \<subseteq> set (popKeys rpq) \<and>
     length (queueShardKeys rpq) < 2 ^ 32 \<and> (\<forall>k \<in> set (popKeys rpq). \<forall>h. k \<noteq> proxyKeyPrefix @ h) \<and>
     queueRescheduleStateKey \<notin> set (popKeys rpq)"

lemma proxyQueueShardIndex_eq: "proxyQueueShardIndex = shard_index"
  by (simp add: fun_eq_iff proxyQueueShardIndex_def shard_index_def)

lemma queueKeyForMember_in:
  assumes "queue_ok rpq" shows "queueKeyForMember rpq m \<in> set (popKeys rpq)"
proof (cases "queueShardKeys rpq = []")
  case True
  then show ?thesis using assms by (simp add: queueKeyForMember_def queue_ok_def)
next
  case False
  then have "shard_index m (length (queueShardKeys rpq)) < length (queueShardKeys rpq)"
    using assms shard_index_less by (simp add: queue_ok_def)
  then show ?thesis using assms False by (auto simp: queueKeyForMember_def queue_ok_def proxyQueueShardIndex_eq)
qed

lemma queue_config_ok: "queue_ok (queue_config n)"
proof -
  have len: "length (queueShardKeys (queue_config n)) \<le> 128"
    by (auto simp: queue_config_def Let_def buildQueueShardKeys_def maxQueueShards_def defaultQueueShards_def)
  have keys: "k = legacyQueueKey \<or> (\<exists>i. k = queueShardKeyPrefix @ format_nat i)" if "k \<in> set (popKeys (queue_config n))" for k
    using that by (auto simp: queue_config_def Let_def popKeys_def buildPopQueueKeys_def buildQueueShardKeys_def)
  have shape: "k \<noteq> proxyQueueHeadKey \<and> k \<noteq> queueRescheduleStateKey \<and> k \<noteq> proxyKeyPrefix @ h" if "k \<in> set (popKeys (queue_config n))" for k h
    using keys [OF that]
    by (auto simp: legacyQueueKey_def queueShardKeyPrefix_def proxyQueueHeadKey_def queueRescheduleStateKey_def proxyKeyPrefix_def)
  have sub: "legacyQueueKey \<in> set (popKeys (queue_config n)) \<and> set (queueShardKeys (queue_config n)) \<subseteq> set (popKeys (queue_config n))"
    by (auto simp: queue_config_def Let_def popKeys_def buildPopQueueKeys_def)
  show ?thesis unfolding queue_ok_def using len shape sub by force
qed

subsection \<open>What the scripts do to the queues\<close>

lemma is_lease_score [simp]: "is_lease (lease_score ms)"
proof -
  have "\<lfloor>of_int ms + (1 / 2 :: rat)\<rfloor> = ms" by linarith
  then show ?thesis by (simp add: is_lease_def lease_score_def leaseScoreMarker_def)
qed

lemma not_lease_of_int [simp]: "\<not> is_lease (of_int n)"
  by (simp add: is_lease_def leaseScoreMarker_def)

text \<open>A member is in one shard at most.\<close>

definition single_shard :: "'r redis_ops \<Rightarrow> string set \<Rightarrow> 'r \<Rightarrow> bool" where
  "single_shard R qs s \<longleftrightarrow>
     (\<forall>m. \<forall>q \<in> qs. \<forall>q' \<in> qs. ZSCORE R q m s \<noteq> None \<longrightarrow> ZSCORE R q' m s \<noteq> None \<longrightarrow> q = q')"

lemma single_shardD:
  "single_shard R qs s \<Longrightarrow> q \<in> qs \<Longrightarrow> q' \<in> qs \<Longrightarrow> ZSCORE R q m s = Some x \<Longrightarrow> ZSCORE R q' m s = Some y \<Longrightarrow> q = q'"
  unfolding single_shard_def by (metis option.distinct(1))

text \<open>Scripts that only change scores, or remove members, keep it.\<close>

lemma single_shard_subset:
  assumes "single_shard R qs s" and "\<And>q m. q \<in> qs \<Longrightarrow> ZSCORE R q m s' \<noteq> None \<Longrightarrow> ZSCORE R q m s \<noteq> None"
  shows "single_shard R qs s'"
  unfolding single_shard_def using assms single_shard_def by metis

lemma find_owned_some:
  "find_owned R keys m s = Some (q, x) \<Longrightarrow> q \<in> set keys \<and> ZSCORE R q m s = Some x \<and> is_lease x"
  by (induction keys) (auto split: option.splits if_splits)

lemma find_owned_none:
  "find_owned R keys m s = None \<Longrightarrow> q \<in> set keys \<Longrightarrow> ZSCORE R q m s = Some x \<Longrightarrow> \<not> is_lease x"
  by (induction keys) (auto split: option.splits if_splits)

text \<open>The shard an addition ends in: the leased one, else the target.\<close>

definition add_target :: "'r redis_ops \<Rightarrow> string list \<Rightarrow> string \<Rightarrow> 'r \<Rightarrow> string" where
  "add_target R keys member s = (case find_owned R keys member s of Some (q, _) \<Rightarrow> q | None \<Rightarrow> hd keys)"

lemma add_target_in: "keys \<noteq> [] \<Longrightarrow> add_target R keys member s \<in> set keys"
  by (auto simp: add_target_def dest: find_owned_some split: option.splits)

lemma NX_score: "zadd_score NX x o1 = Some (case o1 of None \<Rightarrow> x | Some y \<Rightarrow> y)"
  by (cases o1) auto

lemma LT_score: "zadd_score LT x o1 = Some (case o1 of None \<Rightarrow> x | Some y \<Rightarrow> min x y)"
  by (cases o1) auto

context redis_store
begin

lemma zscore_zrem_others:
  "ZSCORE R q m (zrem_others R keys queue member s) =
     (if m = member \<and> q \<in> set keys \<and> q \<noteq> queue then None else ZSCORE R q m s)"
  unfolding zrem_others_def by (induction keys arbitrary: s) (auto simp: zset_laws)

lemma get_zrem_others:
  "k \<notin> set keys \<Longrightarrow> GET R k (zrem_others R keys queue member s) = GET R k s"
  unfolding zrem_others_def by (induction keys arbitrary: s) (auto simp: get_zrem)

lemma add_script_scores:
  assumes keys: "heads \<notin> set keys" "payload_key \<notin> set keys" "payload_key \<noteq> heads" "keys \<noteq> []" and q: "q \<noteq> heads" "q \<noteq> payload_key"
  shows "ZSCORE R q m (add_script R heads payload_key keys member due payload s) =
     (if m \<noteq> member then ZSCORE R q m s
      else if q = add_target R keys member s then Some (case ZSCORE R q m s of None \<Rightarrow> of_int due | Some y \<Rightarrow> y)
      else if q \<in> set keys then None else ZSCORE R q m s)"
proof -
  have "add_target R keys member s \<noteq> heads" "add_target R keys member s \<noteq> payload_key"
    using add_target_in [of keys] keys by (metis, metis)
  then show ?thesis
    using assms by (auto simp: add_script_def Let_def zset_laws zscore_zrem_others zscore_set NX_score add_target_def split: option.splits)
qed

lemma add_script_index:
  assumes keys: "heads \<notin> set keys" "payload_key \<notin> set keys" "payload_key \<noteq> heads" "keys \<noteq> []"
  shows "ZSCORE R heads q (add_script R heads payload_key keys member due payload s) =
     (if q = add_target R keys member s
      then zadd_score LT (case find_owned R keys member s of Some (_, x) \<Rightarrow> x | None \<Rightarrow> of_int due) (ZSCORE R heads q s)
      else ZSCORE R heads q s)"
proof -
  have "add_target R keys member s \<noteq> heads" using add_target_in [of keys] keys by metis
  then show ?thesis
    using assms by (auto simp: add_script_def Let_def zset_laws zscore_zrem_others zscore_set add_target_def split: option.splits)
qed

lemma add_script_get:
  assumes "k \<notin> set keys" "k \<noteq> heads" "keys \<noteq> []"
  shows "GET R k (add_script R heads payload_key keys member due payload s) = (if k = payload_key then Some payload else GET R k s)"
proof -
  have "k \<noteq> add_target R keys member s" using add_target_in [of keys] assms by metis
  then show ?thesis
    using assms by (auto simp: add_script_def Let_def get_zadd get_zrem_others get_set add_target_def split: option.splits)
qed

lemma add_script_covered:
  assumes keys: "heads \<notin> set keys" "payload_key \<notin> set keys" "payload_key \<noteq> heads" "keys \<noteq> []"
    and q: "q \<noteq> heads" "q \<noteq> payload_key" and cov: "shard_covered R heads q s"
  shows "shard_covered R heads q (add_script R heads payload_key keys member due payload s)"
  unfolding shard_covered_def
proof (intro allI impI)
  let ?s = "add_script R heads payload_key keys member due payload s"
  fix m x assume x: "ZSCORE R q m ?s = Some x"
  note scores = add_script_scores [OF keys q] and index = add_script_index [OF keys]
  consider (old) "ZSCORE R q m s = Some x"
    | (new) "q = add_target R keys member s" "m = member" "ZSCORE R q m s = None" "x = of_int due"
    using x unfolding scores by (auto split: if_splits option.splits)
  then show "\<exists>h. ZSCORE R heads q ?s = Some h \<and> h \<le> x"
  proof cases
    case old
    then obtain h where "ZSCORE R heads q s = Some h" "h \<le> x" by (rule coveredD [OF cov])
    then show ?thesis unfolding index by (auto simp: LT_score)
  next
    case new
    then have "find_owned R keys member s = None"
      by (auto simp: add_target_def dest: find_owned_some split: option.splits)
    then show ?thesis using new unfolding index by (auto simp: LT_score split: option.splits)
  qed
qed

text \<open>An addition leaves its member in one shard, and every leased member where it is.\<close>

lemma add_script_single:
  assumes keys: "heads \<notin> set keys" "payload_key \<notin> set keys" "payload_key \<noteq> heads" "keys \<noteq> []"
    and qs: "qs \<subseteq> set keys" and single: "single_shard R qs s"
  shows "single_shard R qs (add_script R heads payload_key keys member due payload s)"
  unfolding single_shard_def
proof (intro allI ballI impI)
  let ?s = "add_script R heads payload_key keys member due payload s"
  fix m q q' assume q: "q \<in> qs" and q': "q' \<in> qs" and m: "ZSCORE R q m ?s \<noteq> None" "ZSCORE R q' m ?s \<noteq> None"
  have "q \<in> set keys" "q' \<in> set keys" "q \<noteq> heads" "q' \<noteq> heads" "q \<noteq> payload_key" "q' \<noteq> payload_key"
    using q q' qs keys by blast+
  then show "q = q'"
    using m single q q' unfolding add_script_scores [OF keys \<open>q \<noteq> heads\<close> \<open>q \<noteq> payload_key\<close>]
      add_script_scores [OF keys \<open>q' \<noteq> heads\<close> \<open>q' \<noteq> payload_key\<close>]
    by (auto simp: single_shard_def split: if_splits)
qed

lemma add_script_keeps_lease:
  assumes keys: "heads \<notin> set keys" "payload_key \<notin> set keys" "payload_key \<noteq> heads" "keys \<noteq> []"
    and single: "single_shard R (set keys) s" and q: "q \<in> set keys" and lease: "ZSCORE R q m s = Some x" "is_lease x"
  shows "ZSCORE R q m (add_script R heads payload_key keys member due payload s) = Some x"
proof -
  have q': "q \<noteq> heads" "q \<noteq> payload_key" using q keys by blast+
  show ?thesis
  proof (cases "m = member")
    case False
    then show ?thesis using lease by (simp add: add_script_scores [OF keys q'])
  next
    case True
    obtain q0 x0 where owned: "find_owned R keys member s = Some (q0, x0)"
      using find_owned_none [of R keys member s q x] q lease True by (cases "find_owned R keys member s") auto
    then have "q0 = q"
      using find_owned_some [OF owned] single_shardD [OF single _ q] lease True by blast
    then show ?thesis
      using lease owned True by (simp add: add_script_scores [OF keys q'] add_target_def)
  qed
qed

end

subsection \<open>The queue invariant and the rounds of a pop\<close>

text \<open>Every shard is indexed early enough, only shards are indexed, and a member is in one shard.\<close>

definition queue_inv :: "'r redis_ops \<Rightarrow> string \<Rightarrow> string set \<Rightarrow> 'r \<Rightarrow> bool" where
  "queue_inv R heads qs s \<longleftrightarrow>
     heads_cover R heads qs s \<and> (\<forall>q. ZSCORE R heads q s \<noteq> None \<longrightarrow> q \<in> qs) \<and> single_shard R qs s"

lemma queue_invI:
  assumes "\<And>q. q \<in> qs \<Longrightarrow> shard_covered R heads q s"
    and "\<And>q x. ZSCORE R heads q s = Some x \<Longrightarrow> q \<in> qs" and "single_shard R qs s"
  shows "queue_inv R heads qs s"
  using assms by (auto simp: queue_inv_def heads_cover_def)

lemma queue_invD:
  assumes "queue_inv R heads qs s"
  shows "q \<in> qs \<Longrightarrow> shard_covered R heads q s" "ZSCORE R heads q s = Some x \<Longrightarrow> q \<in> qs" "single_shard R qs s"
  using assms by (auto simp: queue_inv_def heads_cover_def)

text \<open>What the rounds that do not answer may do: refresh an index entry, after dropping a member whose payload is gone.\<close>

inductive repairs :: "'r redis_ops \<Rightarrow> string \<Rightarrow> string \<Rightarrow> string set \<Rightarrow> 'r \<Rightarrow> 'r \<Rightarrow> bool"
  for R heads prefix qs s where
  unchanged: "repairs R heads prefix qs s s"
| index: "repairs R heads prefix qs s t \<Longrightarrow> q \<in> qs \<Longrightarrow> repairs R heads prefix qs s (refresh_head R heads q t)"
| orphan: "repairs R heads prefix qs s t \<Longrightarrow> q \<in> qs \<Longrightarrow> GET R (prefix @ m) t = None \<Longrightarrow>
    repairs R heads prefix qs s (refresh_head R heads q (ZREM R q m t))"

lemma repairs_trans:
  assumes "repairs R heads prefix qs t u" and "repairs R heads prefix qs s t"
  shows "repairs R heads prefix qs s u"
  using assms by (induction rule: repairs.induct) (auto intro: repairs.intros)

inductive pop_answers :: "'r redis_ops \<Rightarrow> string \<Rightarrow> string \<Rightarrow> int \<Rightarrow> int \<Rightarrow> 'r \<Rightarrow> go_value \<times> 'r \<Rightarrow> bool"
  for R heads prefix now lease s where
  idle: "pop_answers R heads prefix now lease s (pop_miss (-1), s)"
| later: "ZHEAD R heads s = Some (q, x) \<Longrightarrow> ZHEAD R q s = Some (m, x) \<Longrightarrow> of_int now < x \<Longrightarrow>
    pop_answers R heads prefix now lease s (pop_miss \<lfloor>x\<rfloor>, s)"
| claim: "ZHEAD R heads s = Some (q, x) \<Longrightarrow> ZHEAD R q s = Some (m, x) \<Longrightarrow> x \<le> of_int now \<Longrightarrow> GET R (prefix @ m) s = Some d \<Longrightarrow>
    pop_answers R heads prefix now lease s
      (pop_hit m d \<lfloor>x\<rfloor> q, refresh_head R heads q (ZADD R ZAny q (lease_score (now + lease)) m s))"

inductive_cases pop_answersE: "pop_answers R heads prefix now lease s r"

context redis_store
begin

lemma repairs_get:
  assumes "repairs R heads prefix qs s t" "k \<notin> qs" "k \<noteq> heads"
  shows "GET R k t = GET R k s"
  using assms(1)
proof (induction rule: repairs.induct)
  case (orphan t q' m')
  then have "k \<noteq> q'" using assms(2) by blast
  with orphan show ?case using assms(3) by (simp add: get_refresh_head get_zrem)
qed (use assms(3) in \<open>simp_all add: get_refresh_head\<close>)

lemma repairs_scores:
  assumes rep: "repairs R heads prefix qs s t" and key: "prefix @ m \<notin> qs" "prefix @ m \<noteq> heads" and q: "q \<noteq> heads"
  shows "ZSCORE R q m t = ZSCORE R q m s \<or> (ZSCORE R q m t = None \<and> GET R (prefix @ m) s = None)"
  using rep
proof (induction rule: repairs.induct)
  case (orphan t q' m')
  then have "m' = m \<Longrightarrow> GET R (prefix @ m) s = None" using repairs_get key by metis
  with orphan.IH show ?case using q by (auto simp: zscore_refresh_head zset_laws)
qed (use q in \<open>auto simp: zscore_refresh_head\<close>)

lemma refresh_head_inv:
  assumes "heads \<notin> qs" "q \<in> qs" "\<And>q'. q' \<in> qs \<Longrightarrow> q' \<noteq> q \<Longrightarrow> shard_covered R heads q' s"
    "\<And>q' x. ZSCORE R heads q' s = Some x \<Longrightarrow> q' \<in> qs" "single_shard R qs s"
  shows "queue_inv R heads qs (refresh_head R heads q s)"
proof (rule queue_invI)
  show "shard_covered R heads q' (refresh_head R heads q s)" if "q' \<in> qs" for q'
    using refresh_head_keeps that assms(1,3) by metis
  show "q' \<in> qs" if "ZSCORE R heads q' (refresh_head R heads q s) = Some x" for q' x
    using that assms(2,4) by (auto simp: refresh_head_index split: if_splits)
  show "single_shard R qs (refresh_head R heads q s)"
  proof (rule single_shard_subset [OF assms(5)])
    fix q' m assume "q' \<in> qs" "ZSCORE R q' m (refresh_head R heads q s) \<noteq> None"
    then show "ZSCORE R q' m s \<noteq> None" using assms(1) zscore_refresh_head by metis
  qed
qed

lemma single_shard_zrem: "single_shard R qs s \<Longrightarrow> single_shard R qs (ZREM R q m s)"
  by (erule single_shard_subset) (auto simp: zset_laws split: if_splits)

lemma zrem_inv:
  assumes "heads \<notin> qs" "q \<in> qs" "queue_inv R heads qs s"
  shows "queue_inv R heads qs (ZREM R q m s)"
proof (rule queue_invI)
  have q: "q \<noteq> heads" using assms by blast
  show "shard_covered R heads q' (ZREM R q m s)" if "q' \<in> qs" for q'
    using covered_zrem [OF _ q queue_invD(1) [OF assms(3) that]] that assms(1) by metis
  show "q' \<in> qs" if "ZSCORE R heads q' (ZREM R q m s) = Some x" for q' x
    using that q queue_invD(2) [OF assms(3)] by (auto simp: zset_laws split: if_splits)
  show "single_shard R qs (ZREM R q m s)" using single_shard_zrem queue_invD(3) [OF assms(3)] .
qed

lemma repairs_inv:
  assumes "repairs R heads prefix qs s t" "heads \<notin> qs" "queue_inv R heads qs s"
  shows "queue_inv R heads qs t"
  using assms(1)
proof (induction rule: repairs.induct)
  case unchanged
  show ?case by (rule assms(3))
next
  case (index t q)
  show ?case by (rule refresh_head_inv [OF assms(2) index.hyps(2) queue_invD [OF index.IH]])
next
  case (orphan t q m)
  have inv: "queue_inv R heads qs (ZREM R q m t)" by (rule zrem_inv [OF assms(2) orphan.hyps(2) orphan.IH])
  show ?case by (rule refresh_head_inv [OF assms(2) orphan.hyps(2) queue_invD [OF inv]])
qed

lemma index_head_in:
  "queue_inv R heads qs s \<Longrightarrow> ZHEAD R heads s = Some (q, x) \<Longrightarrow> q \<in> qs"
  by (rule queue_invD(2) [OF _ head_some(1)])

lemma pop_loop_answers:
  assumes "heads \<notin> qs" "queue_inv R heads qs s" "pop_loop R heads prefix now lease n s = r"
  shows "\<exists>t. repairs R heads prefix qs s t \<and> pop_answers R heads prefix now lease t r"
  using assms(2,3)
proof (induction n arbitrary: s)
  case 0
  then show ?case by (auto intro: repairs.unchanged pop_answers.idle)
next
  case (Suc n)
  have again: ?case if step: "repairs R heads prefix qs s u" and run: "pop_loop R heads prefix now lease n u = r" for u
    using Suc.IH [OF repairs_inv [OF step assms(1) Suc.prems(1)] run] repairs_trans step by metis
  show ?case
  proof (cases "ZHEAD R heads s")
    case None
    then show ?thesis using Suc.prems(2) by (auto intro: repairs.unchanged pop_answers.idle)
  next
    case (Some qx)
    then obtain q ix where head: "ZHEAD R heads s = Some (q, ix)" by (cases qx) auto
    have q: "q \<in> qs" using index_head_in [OF Suc.prems(1) head] .
    have fix_index: "repairs R heads prefix qs s (refresh_head R heads q s)"
      using repairs.index [OF repairs.unchanged q] .
    show ?thesis
    proof (cases "ZHEAD R q s")
      case None
      then have "refresh_head R heads q s = ZREM R heads q s" by (simp add: refresh_head_def)
      then show ?thesis using again [OF fix_index] Suc.prems(2) head None by simp
    next
      case (Some mx)
      then obtain m x where entry: "ZHEAD R q s = Some (m, x)" by (cases mx) auto
      then have fx: "refresh_head R heads q s = ZADD R ZAny heads x q s" by (simp add: refresh_head_def)
      consider (stale) "x \<noteq> ix" | (late) "x = ix" "of_int now < x"
        | (orphaned) "x = ix" "\<not> of_int now < x" "GET R (prefix @ m) s = None"
        | (due) d where "x = ix" "\<not> of_int now < x" "GET R (prefix @ m) s = Some d" by fastforce
      then show ?thesis
      proof cases
        case stale
        then show ?thesis using again [OF fix_index] Suc.prems(2) head entry fx by simp
      next
        case late
        have "pop_answers R heads prefix now lease s (pop_miss \<lfloor>x\<rfloor>, s)"
          using pop_answers.later [OF _ entry late(2)] head late(1) by simp
        then show ?thesis using Suc.prems(2) head entry late repairs.unchanged [of R heads prefix qs s] by auto
      next
        case orphaned
        have "repairs R heads prefix qs s (refresh_head R heads q (ZREM R q m s))"
          using repairs.orphan [OF repairs.unchanged q orphaned(3)] .
        then show ?thesis using again Suc.prems(2) head entry orphaned by simp
      next
        case due
        have "r = (pop_hit m d \<lfloor>x\<rfloor> q, refresh_head R heads q (ZADD R ZAny q (lease_score (now + lease)) m s))"
          using Suc.prems(2) head entry due by (simp add: lease_score_def)
        moreover have "pop_answers R heads prefix now lease s
            (pop_hit m d \<lfloor>x\<rfloor> q, refresh_head R heads q (ZADD R ZAny q (lease_score (now + lease)) m s))"
          using head due by (intro pop_answers.claim [OF _ entry]) simp_all
        ultimately show ?thesis using repairs.unchanged [of R heads prefix qs s] by blast
      qed
    qed
  qed
qed

end

context redis_store
begin

lemma claim_inv:
  assumes "heads \<notin> qs" "queue_inv R heads qs s" "q \<in> qs" "ZSCORE R q m s = Some y"
  shows "queue_inv R heads qs (refresh_head R heads q (ZADD R f q x m s))"
proof (rule refresh_head_inv [OF assms(1,3)])
  have q: "q \<noteq> heads" using assms by blast
  show "shard_covered R heads q' (ZADD R f q x m s)" if "q' \<in> qs" "q' \<noteq> q" for q'
    using queue_invD(1) [OF assms(2) that(1)] that(2) q by (simp add: shard_covered_def zset_laws)
  show "q' \<in> qs" if "ZSCORE R heads q' (ZADD R f q x m s) = Some z" for q' z
    using that q queue_invD(2) [OF assms(2)] by (simp add: zset_laws)
  show "single_shard R qs (ZADD R f q x m s)"
    using assms(4) by (intro single_shard_subset [OF queue_invD(3) [OF assms(2)]]) (auto simp: zset_laws split: if_splits)
qed

lemma pop_answers_inv:
  assumes "heads \<notin> qs" "queue_inv R heads qs s" "pop_answers R heads prefix now lease s r"
  shows "queue_inv R heads qs (snd r)"
  using assms(3)
proof cases
  case (claim q x m d)
  then show ?thesis
    using claim_inv [OF assms(1,2) index_head_in [OF assms(2) claim(2)] head_some(1) [OF claim(3)]] by simp
qed (use assms(2) in simp_all)

lemma pop_inv:
  assumes "heads \<notin> qs" "queue_inv R heads qs s"
  shows "queue_inv R heads qs (snd (pop_script R heads prefix now lease s))"
proof -
  obtain t where t: "repairs R heads prefix qs s t" "pop_answers R heads prefix now lease t (pop_script R heads prefix now lease s)"
    using pop_loop_answers [OF assms refl] unfolding pop_script_def by blast
  show ?thesis by (rule pop_answers_inv [OF assms(1) repairs_inv [OF t(1) assms] t(2)])
qed

text \<open>The head of the index is a lower bound for every member of every shard.\<close>

lemma index_head_least:
  assumes "queue_inv R heads qs s" "ZHEAD R heads s = Some (q0, x0)" "q \<in> qs" "ZSCORE R q m s = Some x"
  shows "x0 \<le> x"
proof -
  obtain h where "ZSCORE R heads q s = Some h" "h \<le> x" by (rule coveredD [OF queue_invD(1) [OF assms(1,3)] assms(4)])
  with head_some(2) [OF assms(2)] show ?thesis by force
qed

lemma pop_later:
  assumes keys: "heads \<notin> qs" "prefix @ m \<notin> qs" "prefix @ m \<noteq> heads" and inv: "queue_inv R heads qs s"
    and pop: "pop_script R heads prefix now lease s = (pop_miss t, s')" and t: "t \<noteq> -1"
    and m: "q \<in> qs" "ZSCORE R q m s = Some x" "GET R (prefix @ m) s \<noteq> None"
  shows "of_int now < x \<and> of_int t \<le> x"
proof -
  obtain u where u: "repairs R heads prefix qs s u" "pop_answers R heads prefix now lease u (pop_miss t, s')"
    using pop_loop_answers [OF keys(1) inv pop [unfolded pop_script_def]] by blast
  have "q \<noteq> heads" using m(1) keys(1) by blast
  then have same: "ZSCORE R q m u = Some x" using repairs_scores [OF u(1) keys(2,3)] m by metis
  from u(2) obtain q0 m0 x0 where "ZHEAD R heads u = Some (q0, x0)" and x0: "of_int now < x0" "t = \<lfloor>x0\<rfloor>"
    using t by (auto elim!: pop_answersE simp: pop_miss_def pop_hit_def)
  then have "x0 \<le> x" using index_head_least [OF repairs_inv [OF u(1) keys(1) inv]] m(1) same by blast
  moreover have "of_int t \<le> x0" using x0(2) of_int_floor_le by simp
  ultimately show ?thesis using x0(1) by simp
qed

lemma pop_claims_due:
  assumes keys: "heads \<notin> qs" "\<And>q m. q \<in> qs \<Longrightarrow> q \<noteq> prefix @ m" "\<And>m. prefix @ m \<noteq> heads" and inv: "queue_inv R heads qs s"
    and pop: "pop_script R heads prefix now lease s = (pop_hit m d t q, s')"
  shows "q \<in> qs \<and> (\<exists>x. ZSCORE R q m s = Some x \<and> x \<le> of_int now \<and> t = \<lfloor>x\<rfloor> \<and>
            (\<forall>q' \<in> qs. \<forall>m' y. ZSCORE R q' m' s = Some y \<longrightarrow> GET R (prefix @ m') s \<noteq> None \<longrightarrow> x \<le> y)) \<and>
         GET R (prefix @ m) s = Some d \<and> GET R (prefix @ m) s' = Some d \<and> ZSCORE R q m s' = Some (lease_score (now + lease)) \<and>
         (\<forall>q' \<in> qs. \<forall>m'. (q', m') \<noteq> (q, m) \<longrightarrow> GET R (prefix @ m') s \<noteq> None \<longrightarrow> ZSCORE R q' m' s' = ZSCORE R q' m' s)"
proof -
  obtain u where u: "repairs R heads prefix qs s u" "pop_answers R heads prefix now lease u (pop_hit m d t q, s')"
    using pop_loop_answers [OF keys(1) inv pop [unfolded pop_script_def]] by blast
  from u(2) obtain x where x: "ZHEAD R heads u = Some (q, x)" "ZHEAD R q u = Some (m, x)" "x \<le> of_int now" "t = \<lfloor>x\<rfloor>"
    and d: "GET R (prefix @ m) u = Some d" and s': "s' = refresh_head R heads q (ZADD R ZAny q (lease_score (now + lease)) m u)"
    by (auto elim!: pop_answersE simp: pop_miss_def pop_hit_def)
  have key: "prefix @ m' \<notin> qs" for m' using keys(2) by blast
  have inv_u: "queue_inv R heads qs u" by (rule repairs_inv [OF u(1) keys(1) inv])
  have q: "q \<in> qs" by (rule index_head_in [OF inv_u x(1)])
  have q_ne: "q \<noteq> heads" "q \<noteq> prefix @ m" using q keys by blast+
  have gets: "GET R (prefix @ m') u = GET R (prefix @ m') s" for m' by (rule repairs_get [OF u(1) key keys(3)])
  have stays: "ZSCORE R q' m' u = ZSCORE R q' m' s" if "q' \<in> qs" "GET R (prefix @ m') s \<noteq> None" for q' m'
    using repairs_scores [OF u(1) key keys(3), of q' m'] that keys(1) by auto
  have here: "ZSCORE R q m s = Some x" using head_some(1) [OF x(2)] stays [OF q, of m] d gets by simp
  have least: "x \<le> y" if "q' \<in> qs" "ZSCORE R q' m' s = Some y" "GET R (prefix @ m') s \<noteq> None" for q' m' y
    by (rule index_head_least [OF inv_u x(1) that(1)]) (use stays [OF that(1,3)] that(2) in simp)
  have others: "ZSCORE R q' m' s' = ZSCORE R q' m' s" if "q' \<in> qs" "(q', m') \<noteq> (q, m)" "GET R (prefix @ m') s \<noteq> None" for q' m'
  proof -
    have "q' \<noteq> heads" using that(1) keys(1) by blast
    then show ?thesis using that stays by (auto simp: s' zscore_refresh_head zset_laws)
  qed
  have "GET R (prefix @ m) s' = Some d" using d q_ne keys(3) by (simp add: s' get_refresh_head get_zadd)
  moreover have "ZSCORE R q m s' = Some (lease_score (now + lease))" using q_ne by (simp add: s' zscore_refresh_head zset_laws)
  ultimately show ?thesis
    using q here x(3,4) least others d gets by (intro conjI exI [of _ x] ballI allI impI) simp_all
qed

lemma head_score_cong:
  assumes "\<And>m. ZSCORE R q m s' = ZSCORE R q m s"
  shows "map_option snd (ZHEAD R q s') = map_option snd (ZHEAD R q s)"
proof (cases "ZHEAD R q s")
  case None
  then have "ZHEAD R q s' = None" using assms by (simp add: head_none)
  with None show ?thesis by simp
next
  case (Some p)
  then obtain m x where mx: "ZHEAD R q s = Some (m, x)" by (cases p) auto
  obtain m' x' where mx': "ZHEAD R q s' = Some (m', x')" "x' \<le> x"
    using head_of_member [of q m s' x] head_some(1) [OF mx] assms by metis
  have "x \<le> x'" using head_some(2) [OF mx] head_some(1) [OF mx'(1)] assms by metis
  then show ?thesis using mx mx' by simp
qed

end

text \<open>The shards whose index entry is not exactly the score of their earliest member.\<close>

definition stale_shards :: "'r redis_ops \<Rightarrow> string \<Rightarrow> string set \<Rightarrow> 'r \<Rightarrow> string set" where
  "stale_shards R heads qs s = {q \<in> qs. ZSCORE R heads q s \<noteq> map_option snd (ZHEAD R q s)}"

context redis_store
begin

lemma stale_after_refresh:
  assumes "heads \<notin> qs"
  shows "stale_shards R heads qs (refresh_head R heads q s) = stale_shards R heads qs s - {q}"
proof -
  have "map_option snd (ZHEAD R q' (refresh_head R heads q s)) = map_option snd (ZHEAD R q' s)" if "q' \<in> qs" for q'
  proof (rule head_score_cong)
    show "ZSCORE R q' m (refresh_head R heads q s) = ZSCORE R q' m s" for m
      using that assms zscore_refresh_head by metis
  qed
  then show ?thesis by (auto simp: stale_shards_def refresh_head_index)
qed

text \<open>Each round that does not answer repairs one outdated entry, so enough rounds reach a due member.\<close>

lemma pop_loop_finds:
  assumes "heads \<notin> qs" "finite qs" "\<And>k m. k = prefix @ m \<Longrightarrow> k \<noteq> heads"
    and "queue_inv R heads qs s" "card (stale_shards R heads qs s) < n"
    and "\<And>q m x. q \<in> qs \<Longrightarrow> ZSCORE R q m s = Some x \<Longrightarrow> GET R (prefix @ m) s \<noteq> None"
    and "q1 \<in> qs" "ZSCORE R q1 m1 s = Some x1" "x1 \<le> of_int now"
  shows "\<exists>m d t q. fst (pop_loop R heads prefix now lease n s) = pop_hit m d t q"
  using assms(4,5,6,8) 
proof (induction n arbitrary: s)
  case 0
  then show ?case by simp
next
  case (Suc n)
  obtain h where h: "ZSCORE R heads q1 s = Some h" "h \<le> x1"
    by (rule coveredD [OF queue_invD(1) [OF Suc.prems(1) assms(7)] Suc.prems(4)])
  obtain q ix where head: "ZHEAD R heads s = Some (q, ix)" "ix \<le> h" by (rule head_of_member [OF h(1)])
  have q: "q \<in> qs" by (rule index_head_in [OF Suc.prems(1) head(1)])
  have again: "\<exists>m d t q'. fst (pop_loop R heads prefix now lease n (refresh_head R heads q s)) = pop_hit m d t q'"
    if stale: "q \<in> stale_shards R heads qs s"
  proof (rule Suc.IH)
    have keep: "ZSCORE R q' m (refresh_head R heads q s) = ZSCORE R q' m s" if "q' \<in> qs" for q' m
      using that assms(1) zscore_refresh_head by metis
    show "queue_inv R heads qs (refresh_head R heads q s)"
      by (rule refresh_head_inv [OF assms(1) q queue_invD [OF Suc.prems(1)]])
    have fin: "finite (stale_shards R heads qs s)" using assms(2) by (simp add: stale_shards_def)
    show "card (stale_shards R heads qs (refresh_head R heads q s)) < n"
      using Suc.prems(2) stale fin card_Diff1_less [OF fin stale] by (simp add: stale_after_refresh [OF assms(1)])
    show "GET R (prefix @ m) (refresh_head R heads q s) \<noteq> None"
      if "q' \<in> qs" "ZSCORE R q' m (refresh_head R heads q s) = Some x" for q' m x
      using Suc.prems(3) [OF that(1)] that keep assms(3) by (simp add: get_refresh_head)
    show "ZSCORE R q1 m1 (refresh_head R heads q s) = Some x1" using keep assms(7) Suc.prems(4) by simp
  qed
  have indexed: "ZSCORE R heads q s = Some ix" by (rule head_some(1) [OF head(1)])
  show ?case
  proof (cases "ZHEAD R q s")
    case None
    then have "q \<in> stale_shards R heads qs s" "refresh_head R heads q s = ZREM R heads q s"
      using q indexed by (simp_all add: stale_shards_def refresh_head_def)
    then show ?thesis using again head None by simp
  next
    case (Some p)
    then obtain m x where entry: "ZHEAD R q s = Some (m, x)" by (cases p) auto
    show ?thesis
    proof (cases "x = ix")
      case False
      then have "q \<in> stale_shards R heads qs s" "refresh_head R heads q s = ZADD R ZAny heads x q s"
        using q indexed entry by (auto simp: stale_shards_def refresh_head_def)
      then show ?thesis using again head entry False by simp
    next
      case True
      then have due: "\<not> of_int now < x" using head(2) h(2) assms(9) by simp
      obtain d where "GET R (prefix @ m) s = Some d" using Suc.prems(3) [OF q head_some(1) [OF entry]] by blast
      then show ?thesis using head entry True due by auto
    qed
  qed
qed

end

end
