(* ===== verification/Proxy_Leases.thy ===== *)
theory Proxy_Leases
  imports Proxy_Queue
begin

text \<open>
  Correctness of the proxy queue. Every script keeps the queue invariant, so it holds after any interleaving of
  operations of any number of workers; a claim is a claim of the earliest due proxy; leases are exclusive and a
  worker whose lease was taken over is fenced out; scheduling and imports never disturb a lease.
\<close>

subsection \<open>Scripts keep the invariant\<close>

context redis_store
begin

lemma set_inv [inv_intro]:
  assumes "k \<notin> qs" "k \<noteq> heads" "queue_inv R heads qs s"
  shows "queue_inv R heads qs (SET R k v s)"
proof (rule queue_invI)
  show "shard_covered R heads q (SET R k v s)" if "q \<in> qs" for q
    using that assms covered_set queue_invD(1) by metis
  show "q \<in> qs" if "ZSCORE R heads q (SET R k v s) = Some x" for q x
    using that assms by (simp add: zscore_set queue_invD(2))
  show "single_shard R qs (SET R k v s)"
    using assms by (intro single_shard_subset [OF queue_invD(3) [OF assms(3)]]) (metis zscore_set)
qed

lemma del_inv [inv_intro]:
  assumes "k \<notin> qs" "k \<noteq> heads" "queue_inv R heads qs s"
  shows "queue_inv R heads qs (DEL R k s)"
proof (rule queue_invI)
  show "shard_covered R heads q (DEL R k s)" if "q \<in> qs" for q
    using that assms covered_del queue_invD(1) by metis
  show "q \<in> qs" if "ZSCORE R heads q (DEL R k s) = Some x" for q x
    using that assms by (simp add: zscore_del queue_invD(2))
  show "single_shard R qs (DEL R k s)"
    using assms by (intro single_shard_subset [OF queue_invD(3) [OF assms(3)]]) (metis zscore_del)
qed

text \<open>Scheduling a member in a shard, with the index lowered to its score.\<close>

lemma schedule_inv:
  assumes "heads \<notin> qs" "q \<in> qs" "queue_inv R heads qs s" "\<And>q'. q' \<in> qs \<Longrightarrow> q' \<noteq> q \<Longrightarrow> ZSCORE R q' m s = None"
  shows "queue_inv R heads qs (ZADD R LT heads x q (ZADD R f q x m s))"
proof (rule queue_invI)
  let ?s = "ZADD R LT heads x q (ZADD R f q x m s)"
  have q: "q \<noteq> heads" using assms by blast
  show "shard_covered R heads q' ?s" if "q' \<in> qs" for q'
    by (rule covered_zadd_index [OF queue_invD(1) [OF assms(3) that] _ q]) (use that assms(1) in blast)
  show "q' \<in> qs" if "ZSCORE R heads q' ?s = Some y" for q' y
    using that q assms(2) queue_invD(2) [OF assms(3)] by (auto simp: zset_laws split: if_splits)
  show "single_shard R qs ?s"
    unfolding single_shard_def
  proof (intro allI ballI impI)
    fix m' q1 q2 assume q1: "q1 \<in> qs" and q2: "q2 \<in> qs" and at: "ZSCORE R q1 m' ?s \<noteq> None" "ZSCORE R q2 m' ?s \<noteq> None"
    have ne: "q1 \<noteq> heads" "q2 \<noteq> heads" using q1 q2 assms(1) by blast+
    show "q1 = q2"
    proof (cases "m' = m")
      case True
      then have "q1 = q" "q2 = q" using at ne assms(4) q1 q2 by (auto simp: zset_laws split: if_splits)
      then show ?thesis by simp
    next
      case False
      then show ?thesis using at ne q1 q2 queue_invD(3) [OF assms(3)] by (simp add: zset_laws single_shard_def)
    qed
  qed
qed

lemma complete_inv:
  assumes keys: "heads \<notin> qs" "payload_key \<notin> qs" "payload_key \<noteq> heads" "queue \<in> qs" "legacy \<in> qs" "old_queue \<in> qs"
    and inv: "queue_inv R heads qs s" and lease: "0 < expected"
  shows "queue_inv R heads qs (snd (complete_script E R heads queue legacy payload_key old_queue m expected next_score payload snapshot s))"
    (is "queue_inv R heads qs (snd ?r)")
proof (cases "ZSCORE R old_queue m s = Some (lease_score expected)")
  case False
  then show ?thesis using inv lease by (simp add: complete_script_def)
next
  case True
  define stored where "stored = (if payload = [] then Some s
      else map_option (\<lambda>v. SET R payload_key v s) (completed_payload E (GET R payload_key s) payload snapshot))"
  show ?thesis
  proof (cases stored)
    case None
    then show ?thesis using True inv by (simp add: complete_script_def stored_def)
  next
    case (Some t)
    have t: "queue_inv R heads qs t \<and> (\<forall>q \<in> qs. ZSCORE R q m t = ZSCORE R q m s)"
    proof (cases "payload = []")
      case True
      then show ?thesis using Some inv by (simp add: stored_def)
    next
      case False
      then obtain v where "t = SET R payload_key v s" using Some by (auto simp: stored_def)
      then show ?thesis using set_inv [OF keys(2,3) inv] keys(2) by (metis zscore_set)
    qed
    define u where "u = (if old_queue \<noteq> queue then ZREM R old_queue m t else t)"
    define w where "w = (if legacy \<noteq> queue \<and> legacy \<noteq> old_queue then ZREM R legacy m u else u)"
    have inv_w: "queue_inv R heads qs w"
      using t zrem_inv keys by (auto simp: u_def w_def)
    have alone: "ZSCORE R q m w = None" if "q \<in> qs" "q \<noteq> queue" for q
    proof (cases "q = old_queue")
      case True
      then show ?thesis using that by (auto simp: u_def w_def zset_laws)
    next
      case False
      then have "ZSCORE R q m s = None"
        using single_shardD [OF queue_invD(3) [OF inv] that(1) keys(6)] True by (cases "ZSCORE R q m s") auto
      then show ?thesis using t that by (auto simp: u_def w_def zset_laws)
    qed
    have "snd ?r = ZADD R LT heads (of_int next_score) queue (ZADD R ZAny queue (of_int next_score) m w)"
      using True Some by (simp add: complete_script_def stored_def [symmetric] Let_def u_def w_def)
    then show ?thesis using schedule_inv [OF keys(1,4) inv_w alone] by simp
  qed
qed

lemma renew_inv:
  assumes "heads \<notin> qs" "queue \<in> qs" "queue_inv R heads qs s" "expected \<le> renewed"
  shows "queue_inv R heads qs (snd (renew_script R queue m expected now renewed s))"
proof (cases "ZSCORE R queue m s = Some (lease_score expected) \<and> now < expected")
  case False
  then show ?thesis using assms(3) by (auto simp: renew_script_def)
next
  case True
  have q: "queue \<noteq> heads" using assms by blast
  have "queue_inv R heads qs (ZADD R XX queue (lease_score renewed) m s)"
  proof (rule queue_invI)
    show "shard_covered R heads q' (ZADD R XX queue (lease_score renewed) m s)" if "q' \<in> qs" for q'
    proof (rule covered_zadd_later [OF queue_invD(1) [OF assms(3) that] _ q])
      show "q' \<noteq> heads" using that assms(1) by blast
      show "ZSCORE R queue m s = Some (lease_score expected)" using True by blast
      show "lease_score expected \<le> lease_score renewed" using assms(4) by (simp add: lease_score_def)
    qed
    show "q' \<in> qs" if "ZSCORE R heads q' (ZADD R XX queue (lease_score renewed) m s) = Some x" for q' x
      using that q queue_invD(2) [OF assms(3)] by (simp add: zset_laws)
    show "single_shard R qs (ZADD R XX queue (lease_score renewed) m s)"
      using True by (intro single_shard_subset [OF queue_invD(3) [OF assms(3)]]) (auto simp: zset_laws split: if_splits)
  qed
  then show ?thesis using True by (simp add: renew_script_def)
qed

lemma remove_inv:
  assumes "heads \<notin> qs" "payload_key \<notin> qs" "payload_key \<noteq> heads" "queue \<in> qs" "legacy \<in> qs" "queue_inv R heads qs s"
  shows "queue_inv R heads qs (snd (remove_script R payload_key queue legacy m expected snapshot s))"
  using assms zrem_inv [OF assms(1)] del_inv [OF assms(2,3)] by (simp add: remove_script_def Let_def)

subsection \<open>Bulk scheduling\<close>

lemma requeue_members_scores:
  assumes "requeue_members R queue args n s = (n', s')"
  shows "(q \<noteq> queue \<longrightarrow> ZSCORE R q m s' = ZSCORE R q m s) \<and> (ZSCORE R q m s = None \<longleftrightarrow> ZSCORE R q m s' = None) \<and>
         (\<forall>x. ZSCORE R q m s = Some x \<and> is_lease x \<longrightarrow> ZSCORE R q m s' = Some x)"
  using assms
proof (induction args arbitrary: n s)
  case Nil
  then show ?case by simp
next
  case (Cons a args)
  obtain member due where a: "a = (member, due)" by (cases a)
  consider "requeue_members R queue args n s = (n', s')"
    | x where "ZSCORE R queue member s = Some x" "\<not> is_lease x"
        "requeue_members R queue args (n + 1) (ZADD R XX queue (of_int due) member s) = (n', s')"
    using Cons.prems by (auto simp: a split: option.splits if_splits)
  then show ?case
  proof cases
    case 1
    then show ?thesis by (rule Cons.IH)
  next
    case 2
    show ?thesis using Cons.IH [OF 2(3)] 2(1,2) by (auto simp: zset_laws split: if_splits)
  qed
qed

lemma requeue_all_inv:
  assumes "heads \<notin> qs" "queue \<in> qs" "queue_inv R heads qs s"
  shows "queue_inv R heads qs (snd (requeue_all_script R queue heads args s))"
proof -
  obtain n s' where run: "requeue_members R queue args 0 s = (n, s')" by fastforce
  note sc = requeue_members_scores [OF run]
  have heads: "heads \<noteq> queue" using assms by blast
  have "queue_inv R heads qs (refresh_head R heads queue s')"
  proof (rule refresh_head_inv [OF assms(1,2)])
    show "shard_covered R heads q' s'" if "q' \<in> qs" "q' \<noteq> queue" for q'
      using queue_invD(1) [OF assms(3) that(1)] sc that(2) heads by (simp add: shard_covered_def)
    show "q' \<in> qs" if "ZSCORE R heads q' s' = Some x" for q' x
      using that sc heads queue_invD(2) [OF assms(3)] by simp
    show "single_shard R qs s'" using single_shard_subset [OF queue_invD(3) [OF assms(3)]] sc by metis
  qed
  then show ?thesis by (simp add: requeue_all_script_def run)
qed

lemma requeue_all_keeps_lease:
  assumes "heads \<noteq> q" "ZSCORE R q m s = Some x" "is_lease x"
  shows "ZSCORE R q m (snd (requeue_all_script R queue heads args s)) = Some x"
proof -
  obtain n s' where run: "requeue_members R queue args 0 s = (n, s')" by fastforce
  then show ?thesis using requeue_members_scores [OF run, of q m] assms
    by (auto simp: requeue_all_script_def zscore_refresh_head)
qed

subsection \<open>Migration\<close>

lemma RefreshHeads_index_in:
  "ZSCORE R heads q (RefreshHeads R heads qs s) = Some x \<Longrightarrow> q \<in> set qs \<or> (\<exists>y. ZSCORE R heads q s = Some y)"
  unfolding RefreshHeads_def
proof (induction qs arbitrary: s)
  case (Cons a qs)
  then have "q \<in> set qs \<or> (\<exists>y. ZSCORE R heads q (refresh_head R heads a s) = Some y)" by simp
  then show ?case by (auto simp: refresh_head_index split: if_splits)
qed simp

lemma migrate_clear_scores:
  "ZSCORE R q m (migrate_clear R queue old_member member queues s) =
     (if q \<in> set queues \<and> (m = old_member \<or> (m = member \<and> q \<noteq> queue)) then None else ZSCORE R q m s)"
  unfolding migrate_clear_def by (induction queues arbitrary: s) (auto simp: Let_def zset_laws)

lemma migrate_clear_get:
  "k \<notin> set queues \<Longrightarrow> GET R k (migrate_clear R queue old_member member queues s) = GET R k s"
  unfolding migrate_clear_def by (induction queues arbitrary: s) (auto simp: Let_def get_zrem)

lemma migrate_release_inv:
  assumes "heads \<notin> qs" "old_queue \<in> qs" "queue_inv R heads qs s" "ZSCORE R old_queue old_member s = Some x"
  shows "queue_inv R heads qs (migrate_release R heads old_queue old_member now source s)"
proof (cases source)
  case None
  have "queue_inv R heads qs (ZREM R old_queue old_member s)" by (rule zrem_inv [OF assms(1,2,3)])
  then show ?thesis
    using None refresh_head_inv [OF assms(1,2) queue_invD] by (auto simp: migrate_release_def)
next
  case (Some v)
  then show ?thesis using claim_inv [OF assms(1,3,2,4)] by (simp add: migrate_release_def)
qed

text \<open>
  The move itself: payloads first, then both members leave every queue but the owner's, the canonical member is
  claimed when nobody owns it, and the changed shards are re-indexed.
\<close>

lemma migrate_move_inv:
  assumes keys: "heads \<notin> qs" "queue \<in> qs" "set queues = qs" "member \<noteq> old_member" and inv: "queue_inv R heads qs s"
    and same: "\<And>q m. q \<in> qs \<or> q = heads \<Longrightarrow> ZSCORE R q m t = ZSCORE R q m s"
    and u: "u = (if claimed then ZADD R ZAny queue x member (migrate_clear R queue old_member member queues t)
                 else migrate_clear R queue old_member member queues t)"
  shows "queue_inv R heads qs (fold (refresh_head R heads) (migrate_dirty R queue old_member member claimed queues s) u)"
    (is "queue_inv R heads qs (fold _ ?dirty u)")
proof -
  have scores: "ZSCORE R q m u =
      (if claimed \<and> q = queue \<and> m = member then Some x
       else if m = old_member \<or> (m = member \<and> q \<noteq> queue) then None else ZSCORE R q m s)" if "q \<in> qs" for q m
    using that keys(3,4) same by (auto simp: u migrate_clear_scores zset_laws)
  have index: "ZSCORE R heads q u = ZSCORE R heads q s" for q
    using keys(1,2,3) same by (auto simp: u migrate_clear_scores zset_laws)
  have dirty: "set ?dirty \<subseteq> qs" using keys(3) by (auto simp: migrate_dirty_def)
  have clean: "ZSCORE R q m u = ZSCORE R q m s" if "q \<in> qs" "q \<notin> set ?dirty" for q m
    using that keys(3) by (auto simp: scores migrate_dirty_def)
  have single: "single_shard R qs u"
    unfolding single_shard_def
  proof (intro allI ballI impI)
    fix m q1 q2 assume q: "q1 \<in> qs" "q2 \<in> qs" and at: "ZSCORE R q1 m u \<noteq> None" "ZSCORE R q2 m u \<noteq> None"
    have "q1 = queue \<and> q2 = queue \<or> (ZSCORE R q1 m s \<noteq> None \<and> ZSCORE R q2 m s \<noteq> None)"
      using at by (cases "m = member"; cases "q1 = queue"; cases "q2 = queue") (simp_all add: scores q keys(2) split: if_split_asm)
    then show "q1 = q2" using queue_invD(3) [OF inv] q unfolding single_shard_def by metis
  qed
  show ?thesis
    unfolding RefreshHeads_def [symmetric]
  proof (rule queue_invI)
    fix q assume q: "q \<in> qs"
    have "q \<in> set ?dirty \<or> shard_covered R heads q u"
      using queue_invD(1) [OF inv q] clean [OF q] by (auto simp: shard_covered_def index)
    then show "shard_covered R heads q (RefreshHeads R heads ?dirty u)"
      using RefreshHeads_covers q keys(1) by metis
  next
    fix q y assume "ZSCORE R heads q (RefreshHeads R heads ?dirty u) = Some y"
    then have "q \<in> set ?dirty \<or> (\<exists>y. ZSCORE R heads q u = Some y)" by (rule RefreshHeads_index_in)
    then show "q \<in> qs" using dirty index queue_invD(2) [OF inv] by auto
  next
    show "single_shard R qs (RefreshHeads R heads ?dirty u)"
      using single zscore_RefreshHeads keys(1) by (metis single_shard_subset)
  qed
qed

lemma migrate_inv:
  assumes keys: "heads \<notin> qs" "old_key \<notin> qs" "old_key \<noteq> heads" "new_key \<notin> qs" "new_key \<noteq> heads" "set ks = qs" "2 \<le> length ks"
    and inv: "queue_inv R heads qs s"
  shows "queue_inv R heads qs (snd (migrate_script E R heads old_key new_key ks old_member member expected now payload snapshot encrypt s))"
    (is "queue_inv R heads qs (snd ?r)")
proof -
  have ks: "ks ! 0 \<in> qs" "ks ! 1 \<in> qs" using keys(6,7) by (auto simp del: One_nat_def intro!: nth_mem)
  consider (fenced) "ZSCORE R (ks ! 0) old_member s \<noteq> Some (lease_score expected) \<or> expected \<le> now"
    | (changed) "ZSCORE R (ks ! 0) old_member s = Some (lease_score expected)" "now < expected" "GET R old_key s \<noteq> Some snapshot"
    | (rewrite) "ZSCORE R (ks ! 0) old_member s = Some (lease_score expected)" "now < expected" "GET R old_key s = Some snapshot"
        "old_member = member"
    | (raised) "ZSCORE R (ks ! 0) old_member s = Some (lease_score expected)" "now < expected" "GET R old_key s = Some snapshot"
        "old_member \<noteq> member" "migrated_payload E encrypt (GET R new_key s) payload = None"
    | (move) v where "ZSCORE R (ks ! 0) old_member s = Some (lease_score expected)" "now < expected" "GET R old_key s = Some snapshot"
        "old_member \<noteq> member" "migrated_payload E encrypt (GET R new_key s) payload = Some v"
    by fastforce
  then show ?thesis
  proof cases
    case fenced
    then have "?r = (Some (False, [], []), s)" by (auto simp: migrate_script_def Let_def)
    then show ?thesis using inv by simp
  next
    case changed
    then have "?r = (Some (False, [], []), migrate_release R heads (ks ! 0) old_member now (GET R old_key s) s)"
      by (auto simp: migrate_script_def Let_def)
    then show ?thesis using migrate_release_inv [OF keys(1) ks(1) inv changed(1)] by simp
  next
    case rewrite
    then have "?r = (Some (True, payload, ks ! 0), SET R new_key payload s)" by (auto simp: migrate_script_def Let_def)
    then show ?thesis using set_inv [OF keys(4,5) inv] by simp
  next
    case raised
    then have "?r = (None, s)" by (auto simp: migrate_script_def Let_def)
    then show ?thesis using inv by simp
  next
    case (move v)
    define owned where "owned = find (\<lambda>k. live_lease now (ZSCORE R k member s)) (dedup_onto [] ks)"
    define queue where "queue = (case owned of Some k \<Rightarrow> k | None \<Rightarrow> ks ! 1)"
    define t where "t = DEL R old_key (if Some v \<noteq> GET R new_key s then SET R new_key v s else s)"
    define c where "c = migrate_clear R queue old_member member (dedup_onto [] ks) t"
    define u where "u = (if owned = None then ZADD R ZAny queue (lease_score expected) member c else c)"
    have run: "snd ?r = fold (refresh_head R heads) (migrate_dirty R queue old_member member (owned = None) (dedup_onto [] ks) s) u"
      using move by (cases owned) (simp_all add: migrate_script_def Let_def owned_def [symmetric] queue_def t_def c_def u_def)
    have queue: "queue \<in> qs"
      using ks(2) keys(6) by (auto simp: queue_def owned_def find_Some_iff split: option.splits)
        (metis nth_mem set_dedup_onto Un_iff empty_iff list.set(1))
    have same: "ZSCORE R q m t = ZSCORE R q m s" if "q \<in> qs \<or> q = heads" for q m
    proof -
      have "old_key \<noteq> q" "new_key \<noteq> q" using that keys(2-5) by blast+
      then show ?thesis by (simp add: t_def zscore_set zscore_del)
    qed
    show ?thesis unfolding run
      by (rule migrate_move_inv [OF keys(1) queue _ _ inv same]) (use keys(6) move(4) in \<open>auto simp: u_def c_def\<close>)
  qed
qed

end

subsection \<open>Steps of the running system\<close>

text \<open>
  One step is one atomic script or command, as any worker, importer or administrator of the deployment may issue it.
  Scheduling steps come from imports, administrators and settings; completions and removals by a worker carry the
  lease it was given.
\<close>

inductive sched_step :: "'r redis_ops \<Rightarrow> RedisProxyQueue \<Rightarrow> 'r \<Rightarrow> 'r \<Rightarrow> bool"
  for R :: "'r redis_ops" and rpq :: RedisProxyQueue where
  add: "sched_step R rpq s (add_command R rpq proxy due payload s)"
| requeue: "q \<in> set (popKeys rpq) \<Longrightarrow> sched_step R rpq s (snd (requeue_all_script R q proxyQueueHeadKey args s))"
| refresh: "sched_step R rpq s (RefreshHeads R proxyQueueHeadKey (popKeys rpq) s)"
| interval: "sched_step R rpq s (SET R queueRescheduleStateKey v s)"

inductive queue_step :: "queue_env \<Rightarrow> 'r redis_ops \<Rightarrow> RedisProxyQueue \<Rightarrow> 'r \<Rightarrow> 'r \<Rightarrow> bool"
  for E :: queue_env and R :: "'r redis_ops" and rpq :: RedisProxyQueue where
  sched: "sched_step R rpq s s' \<Longrightarrow> queue_step E R rpq s s'"
| pop: "queue_step E R rpq s (snd (pop_script R proxyQueueHeadKey proxyKeyPrefix now lease_ms s))"
| migrate: "q \<in> set (popKeys rpq) \<Longrightarrow>
    queue_step E R rpq s (snd (migrate_script E R proxyQueueHeadKey (proxyKeyPrefix @ m) (proxyKeyPrefix @ m')
      (q # queueKeyForMember rpq m' # popKeys rpq) m m' expected now payload snapshot encrypt s))"
| complete: "q \<in> set (popKeys rpq) \<Longrightarrow> 0 < expected \<Longrightarrow>
    queue_step E R rpq s (snd (complete_script E R proxyQueueHeadKey (queueKeyForMember rpq m) legacyQueueKey (proxyKeyPrefix @ m) q
      m expected next_score payload snapshot s))"
| renew: "q \<in> set (popKeys rpq) \<Longrightarrow> expected \<le> renewed \<Longrightarrow>
    queue_step E R rpq s (snd (renew_script R q m expected now renewed s))"
| remove: "q \<in> set (popKeys rpq) \<Longrightarrow>
    queue_step E R rpq s (snd (remove_script R (proxyKeyPrefix @ m) q legacyQueueKey m expected snapshot s))"
| remove_payload: "queue_step E R rpq s (DEL R (proxyKeyPrefix @ m) s)"
| remove_member: "q \<in> set (popKeys rpq) \<Longrightarrow> queue_step E R rpq s (ZREM R q m s)"

inductive_cases queue_stepE: "queue_step E R rpq s s'"

abbreviation sched_steps :: "'r redis_ops \<Rightarrow> RedisProxyQueue \<Rightarrow> 'r \<Rightarrow> 'r \<Rightarrow> bool" where
  "sched_steps R rpq \<equiv> (sched_step R rpq)\<^sup>*\<^sup>*"

abbreviation queue_steps :: "queue_env \<Rightarrow> 'r redis_ops \<Rightarrow> RedisProxyQueue \<Rightarrow> 'r \<Rightarrow> 'r \<Rightarrow> bool" where
  "queue_steps E R rpq \<equiv> (queue_step E R rpq)\<^sup>*\<^sup>*"

abbreviation proxy_queue_inv :: "'r redis_ops \<Rightarrow> RedisProxyQueue \<Rightarrow> 'r \<Rightarrow> bool" where
  "proxy_queue_inv R rpq \<equiv> queue_inv R proxyQueueHeadKey (set (popKeys rpq))"

lemma payload_key_not_head [simp]: "proxyKeyPrefix @ m \<noteq> proxyQueueHeadKey" "proxyQueueHeadKey \<noteq> proxyKeyPrefix @ m"
  by (auto simp: proxyKeyPrefix_def proxyQueueHeadKey_def)

lemma interval_key_not_head [simp]: "queueRescheduleStateKey \<noteq> proxyQueueHeadKey"
  by (simp add: queueRescheduleStateKey_def proxyQueueHeadKey_def)

lemma queue_okD:
  assumes "queue_ok rpq"
  shows "proxyQueueHeadKey \<notin> set (popKeys rpq)" "legacyQueueKey \<in> set (popKeys rpq)" "proxyKeyPrefix @ m \<notin> set (popKeys rpq)"
    "queueRescheduleStateKey \<notin> set (popKeys rpq)" "q \<in> set (popKeys rpq) \<Longrightarrow> q \<noteq> proxyKeyPrefix @ m"
  using assms unfolding queue_ok_def by blast+

text \<open>The key list an addition inspects is the pop keys with the target in front.\<close>

lemma add_keys:
  assumes "queue_ok rpq"
  shows "set (queueKeyForMember rpq m # popKeys rpq) = set (popKeys rpq)"
  using queueKeyForMember_in [OF assms] by auto

context redis_store
begin

lemma add_command_inv:
  assumes ok: "queue_ok rpq" and inv: "proxy_queue_inv R rpq s"
  shows "proxy_queue_inv R rpq (add_command R rpq proxy due payload s)"
proof -
  let ?keys = "queueKeyForMember rpq (px_Hash proxy) # popKeys rpq"
  note keys = add_keys [OF ok, of "px_Hash proxy"] and okD = queue_okD [OF ok]
  have ks: "proxyQueueHeadKey \<notin> set ?keys" "proxyKeyPrefix @ px_Hash proxy \<notin> set ?keys"
    "proxyKeyPrefix @ px_Hash proxy \<noteq> proxyQueueHeadKey" "?keys \<noteq> []"
    unfolding keys using okD by auto
  let ?s = "add_script R proxyQueueHeadKey (proxyKeyPrefix @ px_Hash proxy) ?keys (px_Hash proxy) due payload s"
  have "proxy_queue_inv R rpq ?s"
  proof (rule queue_invI)
    fix q assume q: "q \<in> set (popKeys rpq)"
    have "q \<noteq> proxyQueueHeadKey" "q \<noteq> proxyKeyPrefix @ px_Hash proxy" using q okD by blast+
    then show "shard_covered R proxyQueueHeadKey q ?s"
      using add_script_covered [OF ks] queue_invD(1) [OF inv q] by blast
  next
    fix q x assume "ZSCORE R proxyQueueHeadKey q ?s = Some x"
    then show "q \<in> set (popKeys rpq)"
      unfolding add_script_index [OF ks] using add_target_in [OF ks(4), of R "px_Hash proxy" s] keys queue_invD(2) [OF inv]
      by (auto split: if_splits)
  next
    show "single_shard R (set (popKeys rpq)) ?s"
      using add_script_single [OF ks _ queue_invD(3) [OF inv]] keys by simp
  qed
  then show ?thesis by (simp add: add_command_def Let_def)
qed

lemma refresh_inv:
  assumes "heads \<notin> set qs" "queue_inv R heads (set qs) s"
  shows "queue_inv R heads (set qs) (RefreshHeads R heads qs s)"
proof (rule queue_invI)
  show "shard_covered R heads q (RefreshHeads R heads qs s)" if "q \<in> set qs" for q
    using RefreshHeads_covers that assms(1) by metis
  show "q \<in> set qs" if "ZSCORE R heads q (RefreshHeads R heads qs s) = Some x" for q x
    using RefreshHeads_index_in [OF that] queue_invD(2) [OF assms(2)] by auto
  show "single_shard R (set qs) (RefreshHeads R heads qs s)"
    using zscore_RefreshHeads assms(1) by (intro single_shard_subset [OF queue_invD(3) [OF assms(2)]]) metis
qed

lemma sched_step_inv:
  assumes ok: "queue_ok rpq" and "sched_step R rpq s s'" and inv: "proxy_queue_inv R rpq s"
  shows "proxy_queue_inv R rpq s'"
  using assms(2)
  by cases (simp_all add: inv ok add_command_inv requeue_all_inv refresh_inv set_inv queue_okD)

lemma queue_step_inv:
  assumes ok: "queue_ok rpq" and "queue_step E R rpq s s'" and inv: "proxy_queue_inv R rpq s"
  shows "proxy_queue_inv R rpq s'"
  using assms(2)
proof cases
  case (migrate q m m' expected now payload snapshot encrypt)
  have "set (q # queueKeyForMember rpq m' # popKeys rpq) = set (popKeys rpq)"
    using migrate(2) queueKeyForMember_in [OF ok] by auto
  moreover have "2 \<le> length (q # queueKeyForMember rpq m' # popKeys rpq)" by simp
  ultimately show ?thesis
    unfolding migrate(1) by (intro migrate_inv inv queue_okD [OF ok]) simp_all
next
  case sched
  then show ?thesis using sched_step_inv [OF ok] inv by blast
qed (simp_all add: inv ok pop_inv complete_inv renew_inv remove_inv del_inv zrem_inv queue_okD queueKeyForMember_in)

lemma queue_steps_inv:
  assumes "queue_ok rpq" "queue_steps E R rpq s s'" "proxy_queue_inv R rpq s"
  shows "proxy_queue_inv R rpq s'"
  using assms(2,3) by (induction rule: rtranclp_induct) (use queue_step_inv [OF assms(1)] in blast)+

lemma empty_queue_inv: "\<forall>q m. ZSCORE R q m s = None \<Longrightarrow> queue_inv R heads qs s"
  by (simp add: queue_inv_def heads_cover_def shard_covered_def single_shard_def)

end

subsection \<open>The methods are sequences of steps\<close>

datatype 'r queue_op =
    DoAdd bool add_event "Proxy list"
  | DoPoll "'r poll_event"
  | DoRequeue requeue_event Proxy instant bool
  | DoRenew bool int call Proxy
  | DoRemove bool "nat \<Rightarrow> call" "nat \<Rightarrow> exec_outcome" "Proxy list"
  | DoRequeueAll requeue_all_event
  | DoReschedule call call duration
  | DoRefresh call

fun do_op :: "queue_env \<Rightarrow> 'r redis_ops \<Rightarrow> RedisProxyQueue \<Rightarrow> 'r queue_op \<Rightarrow> secret_state \<times> 'r \<Rightarrow> secret_state \<times> 'r" where
  "do_op E R rpq (DoAdd haveClient ev proxies) w = snd (AddToQueue E R rpq haveClient ev proxies w)"
| "do_op E R rpq (DoPoll ev) w = snd (poll_once E R rpq ev w)"
| "do_op E R rpq (DoRequeue ev proxy lastCheck persist) w = snd (requeueProxy E R rpq ev proxy lastCheck persist w)"
| "do_op E R rpq (DoRenew ctxErr now c proxy) w = (fst w, snd (RenewLeaseIfNeeded R ctxErr now c proxy (snd w)))"
| "do_op E R rpq (DoRemove haveClient calls execs proxies) w = (fst w, snd (RemoveFromQueue R rpq haveClient calls execs proxies (snd w)))"
| "do_op E R rpq (DoRequeueAll ev) w = (fst w, snd (snd (RequeueAll R rpq ev (snd w))))"
| "do_op E R rpq (DoReschedule c c' interval) w = (fst w, snd (Reschedule R rpq c c' interval (snd w)))"
| "do_op E R rpq (DoRefresh c) w = (fst w, snd (refreshQueueHeads R rpq c (snd w)))"

text \<open>Workers pass on leases they were given: on a shard of the queue, with a positive expiry.\<close>

definition lease_ok :: "RedisProxyQueue \<Rightarrow> Proxy \<Rightarrow> bool" where
  "lease_ok rpq proxy = (case px_QueueLease proxy of Some l \<Rightarrow> QueueKey l \<in> set (popKeys rpq) \<and> 0 < ScoreMS l | None \<Rightarrow> True)"

fun op_ok :: "RedisProxyQueue \<Rightarrow> 'r queue_op \<Rightarrow> bool" where
  "op_ok rpq (DoRequeue _ proxy _ _) \<longleftrightarrow> lease_ok rpq proxy \<and> px_QueueLease proxy \<noteq> None"
| "op_ok rpq (DoRenew _ _ _ proxy) \<longleftrightarrow> lease_ok rpq proxy"
| "op_ok rpq (DoRemove _ _ _ proxies) \<longleftrightarrow> list_all (lease_ok rpq) proxies"
| "op_ok rpq _ \<longleftrightarrow> True"

lemma run_call_steps:
  assumes "run_call c f s = (r, s')" "step s (snd (f s))"
  shows "step\<^sup>*\<^sup>* s s'"
  using assms by (cases c) (auto simp: run_call_def)

lemma sched_steps_queue_steps: "sched_steps R rpq s s' \<Longrightarrow> queue_steps E R rpq s s'"
  by (erule rtranclp_mono [THEN predicate2D, rotated]) (auto intro: queue_step.sched)

lemma run_call_read: "run_call c (\<lambda>s. (g s, s)) s = (r, s') \<Longrightarrow> s' = s"
  by (cases c) (auto simp: run_call_def)

definition step_cmds :: "('r \<Rightarrow> 'r \<Rightarrow> bool) \<Rightarrow> ('r \<Rightarrow> 'r) list \<Rightarrow> bool" where
  "step_cmds step cmds \<longleftrightarrow> (\<forall>f \<in> set cmds. \<forall>s. step s (f s))"

lemma fold_cmds_steps: "step_cmds step cmds \<Longrightarrow> step\<^sup>*\<^sup>* s (fold (\<lambda>f. f) cmds s)"
proof (induction cmds arbitrary: s)
  case (Cons f cmds)
  then have "step s (f s)" "step\<^sup>*\<^sup>* (f s) (fold (\<lambda>f. f) cmds (f s))"
    by (simp_all add: step_cmds_def)
  then show ?case by (simp add: converse_rtranclp_into_rtranclp)
qed simp

lemma pipe_exec_steps:
  assumes "step_cmds step cmds" "pipe_exec x cmds s = (b, s')"
  shows "step\<^sup>*\<^sup>* s s'"
proof (cases x)
  case ExecOk
  then show ?thesis using assms fold_cmds_steps by (auto simp: pipe_exec_def)
next
  case (ExecFailed n)
  have "step_cmds step (take n cmds)" using assms(1) by (auto simp: step_cmds_def dest: in_set_takeD)
  then show ?thesis using assms(2) ExecFailed fold_cmds_steps by (auto simp: pipe_exec_def)
qed

lemma add_loop_steps:
  "step_cmds (sched_step R rpq) pipe \<Longrightarrow> add_loop E R rpq ev n i b pipe proxies (st, s) = (r, st', s') \<Longrightarrow> sched_steps R rpq s s'"
proof (induction proxies arbitrary: i b pipe st s)
  case Nil
  then show ?case by (auto dest: pipe_exec_steps split: prod.splits bool.splits)
next
  case (Cons p ps)
  obtain m st1 where m: "marshalQueuedProxy E (ae_nonces ev i) p st = (m, st1)" by fastforce
  show ?case
  proof (cases m)
    case (Inl e)
    then show ?thesis using Cons.prems(2) m by simp
  next
    case (Inr payload)
    define pipe' where "pipe' = pipe @ [add_command R rpq p (UnixMilli (ae_now ev + check_offset (ae_interval ev) i n)) payload]"
    have step: "step_cmds (sched_step R rpq) pipe'" using Cons.prems(1) by (auto simp: step_cmds_def pipe'_def intro: sched_step.add)
    show ?thesis
    proof (cases "i mod 500 = 0 \<and> 0 < i")
      case False
      then have "add_loop E R rpq ev n (i + 1) b pipe' ps (st1, s) = (r, st', s')"
        using Cons.prems(2) m Inr by (auto simp: Let_def pipe'_def)
      then show ?thesis using Cons.IH [OF step] by blast
    next
      case True
      obtain okay u where ex: "pipe_exec (ae_exec ev b) pipe' s = (okay, u)" by fastforce
      have su: "sched_steps R rpq s u" by (rule pipe_exec_steps [OF step ex])
      have nil: "step_cmds (sched_step R rpq) []" by (simp add: step_cmds_def)
      have "s' = u \<or> add_loop E R rpq ev n (i + 1) (b + 1) [] ps (st1, u) = (r, st', s')"
        using Cons.prems(2) m Inr True ex by (cases okay) (auto simp: Let_def pipe'_def [symmetric])
      then show ?thesis using su Cons.IH [OF nil] by (auto intro: rtranclp_trans)
    qed
  qed
qed

lemma remove_commands_steps:
  assumes "queue_ok rpq" shows "step_cmds (queue_step E R rpq) (remove_commands R rpq proxy)"
  using queueKeyForMember_in [OF assms] queue_okD(2) [OF assms]
  by (auto simp: step_cmds_def remove_commands_def Let_def intro: queue_step.remove_payload queue_step.remove_member)

lemma remove_loop_steps:
  assumes ok: "queue_ok rpq"
  shows "step_cmds (queue_step E R rpq) pipe \<Longrightarrow> list_all (lease_ok rpq) proxies \<Longrightarrow>
    remove_loop R rpq calls execs i b pipe proxies s = (r, s') \<Longrightarrow> queue_steps E R rpq s s'"
proof (induction proxies arbitrary: i b pipe s)
  case Nil
  then show ?case by (auto dest: pipe_exec_steps split: if_splits prod.splits bool.splits)
next
  case (Cons p ps)
  have rest: "list_all (lease_ok rpq) ps" using Cons.prems(2) by simp
  have trans: "queue_steps E R rpq s s'"
    if "queue_steps E R rpq s u" "step_cmds (queue_step E R rpq) pipe'" "s' = u \<or> remove_loop R rpq calls execs (i + 1) b' pipe' ps u = (r, s')" for u b' pipe'
    using that Cons.IH [OF that(2) rest] by (auto intro: rtranclp_trans)
  show ?case
  proof (cases "px_Hash p = []")
    case True
    then have "remove_loop R rpq calls execs (i + 1) b pipe ps s = (r, s')" using Cons.prems(3) by simp
    then show ?thesis using trans [OF rtranclp.rtrancl_refl Cons.prems(1)] by blast
  next
    case hash: False
    show ?thesis
    proof (cases "px_QueueLease p")
      case (Some l)
      let ?f = "remove_script R (proxyKeyPrefix @ px_Hash p) (QueueKey l) legacyQueueKey (px_Hash p) (ScoreMS l) (Payload l)"
      obtain x u where x: "run_call (calls i) ?f s = (x, u)" by fastforce
      have "queue_step E R rpq s (snd (?f s))"
        using Cons.prems(2) Some by (intro queue_step.remove) (simp add: lease_ok_def)
      then have su: "queue_steps E R rpq s u" by (rule run_call_steps [OF x])
      have "s' = u \<or> remove_loop R rpq calls execs (i + 1) b pipe ps u = (r, s')"
        using Cons.prems(3) hash Some x by (cases x) (auto split: if_splits)
      then show ?thesis using trans [OF su Cons.prems(1)] by blast
    next
      case None
      define pipe' where "pipe' = pipe @ remove_commands R rpq p"
      have step: "step_cmds (queue_step E R rpq) pipe'"
        using Cons.prems(1) remove_commands_steps [OF ok, of E R p] by (auto simp: step_cmds_def pipe'_def)
      have nil: "step_cmds (queue_step E R rpq) []" by (simp add: step_cmds_def)
      obtain okay u where ex: "pipe_exec (execs b) pipe' s = (okay, u)" by fastforce
      have su: "queue_steps E R rpq s u" by (rule pipe_exec_steps [OF step ex])
      consider "remove_loop R rpq calls execs (i + 1) b pipe' ps s = (r, s')"
        | "s' = u \<or> remove_loop R rpq calls execs (i + 1) (b + 1) [] ps u = (r, s')"
        using Cons.prems(3) hash None ex by (cases okay) (auto simp: Let_def pipe'_def [symmetric] split: if_splits)
      then show ?thesis using trans [OF _ step] trans [OF su nil] by cases auto
    qed
  qed
qed

lemma refreshQueueHeads_steps: "refreshQueueHeads R rpq c s = (r, s') \<Longrightarrow> sched_steps R rpq s s'"
  unfolding refreshQueueHeads_def by (erule run_call_steps) (simp add: sched_step.refresh)

lemma requeue_batches_steps:
  assumes "key \<in> set (popKeys rpq)"
  shows "requeue_batches R key calls b batches acc s = (e, acc', s') \<Longrightarrow> sched_steps R rpq s s'"
proof (induction batches arbitrary: b acc s)
  case (Cons args batches)
  obtain x u where x: "run_call (calls b) (requeue_all_script R key proxyQueueHeadKey args) s = (x, u)" by fastforce
  have su: "sched_steps R rpq s u" by (rule run_call_steps [OF x]) (rule sched_step.requeue [OF assms])
  show ?case
  proof (cases x)
    case (Inl e)
    then show ?thesis using Cons.prems x su by simp
  next
    case (Inr n)
    then show ?thesis using Cons.prems Cons.IH [of "b + 1" "acc + n" u] x su by (simp add: rtranclp_trans)
  qed
qed simp

lemma requeue_keys_steps:
  "set keys \<subseteq> set (popKeys rpq) \<Longrightarrow> requeue_keys R calls now interval keys acc s = (e, acc', s') \<Longrightarrow> sched_steps R rpq s s'"
proof (induction keys arbitrary: acc s)
  case (Cons key keys)
  obtain x u where x: "run_call (calls key 0) (\<lambda>s. (ZCARD R key s, s)) s = (x, u)" by fastforce
  have [simp]: "u = s" by (rule run_call_read [OF x])
  show ?case
  proof (cases x)
    case (Inl e)
    then show ?thesis using Cons.prems x by simp
  next
    case (Inr n)
    obtain y v where y: "run_call (calls key 1) (\<lambda>s. (take n (ZMEMBERS R key s), s)) s = (y, v)" by fastforce
    have [simp]: "v = s" by (rule run_call_read [OF y])
    show ?thesis
    proof (cases "n = 0")
      case True
      then show ?thesis using Cons x Inr by simp
    next
      case nz: False
      show ?thesis
      proof (cases y)
        case (Inl e)
        then show ?thesis using Cons.prems x y \<open>x = Inr n\<close> nz by simp
      next
        case members: (Inr members)
        obtain e1 acc1 w where w: "requeue_batches R key (\<lambda>b. calls key (b + 2)) 0 (chunks 500 (requeue_args now interval members)) acc s = (e1, acc1, w)"
          by (metis prod_cases3)
        have sw: "sched_steps R rpq s w" by (rule requeue_batches_steps [OF _ w]) (use Cons.prems(1) in simp)
        have "s' = w \<or> requeue_keys R calls now interval keys acc1 w = (e, acc', s')"
          using Cons.prems(2) x y \<open>x = Inr n\<close> nz members w by (cases e1) auto
        then show ?thesis using sw Cons.IH Cons.prems(1) by (auto intro: rtranclp_trans)
      qed
    qed
  qed
qed simp

lemma RequeueAll_steps: "RequeueAll R rpq ev s = (e, n, s') \<Longrightarrow> sched_steps R rpq s s'"
proof -
  assume run: "RequeueAll R rpq ev s = (e, n, s')"
  define interval where "interval = (let i = getEffectiveCheckInterval R (ra_interval ev) (ra_fallback ev) s in if i \<le> 0 then second else i)"
  obtain e1 n1 u where u: "requeue_keys R (ra_calls ev) (ra_now ev) interval (popKeys rpq) 0 s = (e1, n1, u)" by (metis prod_cases3)
  have su: "sched_steps R rpq s u" by (rule requeue_keys_steps [OF _ u]) simp
  obtain x v where x: "refreshQueueHeads R rpq (ra_refresh ev) u = (x, v)" by fastforce
  have uv: "sched_steps R rpq u v" by (rule refreshQueueHeads_steps [OF x])
  have "s' = s \<or> s' = u \<or> s' = v"
    using run u x by (auto simp: RequeueAll_def Let_def interval_def split: if_splits option.splits prod.splits sum.splits)
  then show ?thesis using su uv by (auto intro: rtranclp_trans)
qed

lemma Reschedule_steps: "Reschedule R rpq c c' interval s = (r, s') \<Longrightarrow> sched_steps R rpq s s'"
proof -
  assume run: "Reschedule R rpq c c' interval s = (r, s')"
  let ?f = "\<lambda>s. ((), SET R queueRescheduleStateKey (FormatInt ((if interval \<le> 0 then second else interval) div millisecond)) s)"
  obtain x u where x: "run_call c ?f s = (x, u)" by fastforce
  have su: "sched_steps R rpq s u" by (rule run_call_steps [OF x]) (simp add: sched_step.interval)
  have "s' = u \<or> refreshQueueHeads R rpq c' u = (r, s')"
    using run x by (cases x) (auto simp: Reschedule_def Let_def)
  then show ?thesis using su refreshQueueHeads_steps [of R rpq c' u r s'] by (auto intro: rtranclp_trans)
qed

lemma Renew_steps:
  assumes ok: "lease_ok rpq proxy" and run: "RenewLeaseIfNeeded R ctxErr now c proxy s = (r, s')"
  shows "queue_steps E R rpq s s'"
proof (cases "px_QueueLease proxy")
  case None
  then show ?thesis using run by (simp add: RenewLeaseIfNeeded_def)
next
  case (Some l)
  let ?f = "renew_script R (QueueKey l) (px_Hash proxy) (ScoreMS l) now (now + lease_ms)"
  obtain x u where x: "run_call c ?f s = (x, u)" by fastforce
  show ?thesis
  proof (cases "ctxErr \<or> 2 * minute div millisecond < ScoreMS l - now")
    case True
    then have "s' = s" using run Some by (auto simp: RenewLeaseIfNeeded_def split: if_splits)
    then show ?thesis by simp
  next
    case False
    then have "ScoreMS l \<le> now + lease_ms" by (simp add: lease_ms_def processingLease_def)
    then have su: "queue_steps E R rpq s u"
      using ok Some by (intro run_call_steps [OF x] queue_step.renew) (simp_all add: lease_ok_def)
    have "s' = u" using run Some False x by (cases x) (auto simp: RenewLeaseIfNeeded_def split: if_splits)
    then show ?thesis using su by simp
  qed
qed

lemma complete_call_steps:
  assumes ok: "lease_ok rpq proxy" "px_QueueLease proxy \<noteq> None"
    and run: "complete_call E R rpq c proxy nextCheck payload snapshot s = (r, s')"
  shows "queue_steps E R rpq s s'"
proof -
  obtain l where l: "px_QueueLease proxy = Some l" using ok(2) by blast
  let ?f = "complete_script E R proxyQueueHeadKey (queueKeyForMember rpq (px_Hash proxy)) legacyQueueKey (proxyKeyPrefix @ px_Hash proxy)
      (QueueKey l) (px_Hash proxy) (ScoreMS l) (UnixMilli nextCheck) payload snapshot"
  obtain x u where x: "run_call c ?f s = (x, u)" by fastforce
  have su: "queue_steps E R rpq s u"
    using ok(1) l by (intro run_call_steps [OF x] queue_step.complete) (simp_all add: lease_ok_def)
  have "s' = u"
    using run x by (auto simp: complete_call_def l Let_def split: sum.splits option.splits if_splits)
  then show ?thesis using su by simp
qed

lemma requeueProxy_steps:
  assumes ok: "lease_ok rpq proxy" "px_QueueLease proxy \<noteq> None"
    and run: "requeueProxy E R rpq ev proxy lastCheck persist (st, s) = (r, st', s')"
  shows "queue_steps E R rpq s s'"
  using run complete_call_steps [OF ok, where R = R]
  by (auto simp: requeueProxy_def Let_def split: if_splits prod.splits sum.splits)

lemma migrateDequeued_steps:
  assumes "pr_QueueKey pop \<in> set (popKeys rpq)"
    and "migrateDequeuedProxyMember E R rpq c now nonces pop proxy leaseScoreMs rewritePayload (st, s) = (r, st', s')"
  shows "queue_steps E R rpq s s'"
proof -
  obtain m st1 where m: "marshalQueuedProxy E nonces proxy st = (m, st1)" by fastforce
  have step: "queue_steps E R rpq s u"
    if "run_call c (migrate_script E R proxyQueueHeadKey (proxyKeyPrefix @ pr_Member pop) (proxyKeyPrefix @ px_Hash proxy)
          (pr_QueueKey pop # queueKeyForMember rpq (px_Hash proxy) # popKeys rpq) (pr_Member pop) (px_Hash proxy) leaseScoreMs now
          payload (pr_ProxyJSON pop) (qe_encrypt E)) s = (x, u)" for payload x u
    by (rule run_call_steps [OF that]) (rule queue_step.migrate [OF assms(1)])
  show ?thesis
    using assms(2) m step
    by (auto simp: migrateDequeuedProxyMember_def Let_def split: if_splits prod.splits sum.splits option.splits)
qed

lemma parse_pop_hit:
  "parseProxyPopResult (pop_hit m d t q) =
     Inr \<lparr>pr_Found = True, pr_Member = m, pr_ProxyJSON = d, pr_ScoreMs = t, pr_NextReadyMs = -1, pr_QueueKey = q\<rparr>"
  by (simp add: parseProxyPopResult_def pop_hit_def)

lemma parse_pop_miss: "parseProxyPopResult (pop_miss t) = Inr (miss_result t)"
  by (simp add: parseProxyPopResult_def pop_miss_def)

context redis_store
begin

text \<open>The reply of a pop is a hit on one of the shards, or a miss.\<close>

lemma pop_reply_cases:
  assumes "heads \<notin> qs" "queue_inv R heads qs s"
  obtains (hit) m d t q where "fst (pop_script R heads prefix now lease s) = pop_hit m d t q" "q \<in> qs"
    | (miss) t where "fst (pop_script R heads prefix now lease s) = pop_miss t"
proof -
  obtain t where t: "repairs R heads prefix qs s t" "pop_answers R heads prefix now lease t (pop_script R heads prefix now lease s)"
    using pop_loop_answers [OF assms refl] unfolding pop_script_def by blast
  from t(2) show ?thesis
  proof cases
    case (claim q x m d)
    then show ?thesis using hit index_head_in [OF repairs_inv [OF t(1) assms] claim(2)] by simp
  qed (use miss in simp_all)
qed

lemma poll_once_steps:
  assumes ok: "queue_ok rpq" and inv: "proxy_queue_inv R rpq s" and run: "poll_once E R rpq ev (st, s) = (r, st', s')"
  shows "queue_steps E R rpq s s'"
proof (cases "pe_ctxDone ev")
  case True
  then show ?thesis using run by (simp add: poll_once_def)
next
  case False
  let ?f = "pop_script R proxyQueueHeadKey proxyKeyPrefix (pe_now ev) lease_ms"
  obtain x u where x: "run_call (pe_pop ev) ?f s = (x, u)" by fastforce
  have su: "queue_steps E R rpq s u" by (rule run_call_steps [OF x]) (rule queue_step.pop)
  show ?thesis
  proof (cases x)
    case (Inl e)
    then show ?thesis using run False x su by (simp add: poll_once_def)
  next
    case (Inr reply)
    have reply: "reply = fst (?f s)" using x Inr by (cases "pe_pop ev") (simp_all add: run_call_def)
    from queue_okD(1) [OF ok] inv show ?thesis
    proof (cases rule: pop_reply_cases [where prefix = proxyKeyPrefix and now = "pe_now ev" and lease = lease_ms])
      case (miss t)
      then show ?thesis using run False x Inr su reply by (simp add: poll_once_def parse_pop_miss miss_result_def)
    next
      case (hit m d t q)
      let ?pop = "\<lparr>pr_Found = True, pr_Member = m, pr_ProxyJSON = d, pr_ScoreMs = t, pr_NextReadyMs = -1, pr_QueueKey = q\<rparr>"
      have claim: "claim_popped E R rpq ev ?pop (st, u) = (r, st', s')"
        using run False x Inr reply hit by (simp add: poll_once_def parse_pop_hit)
      have "pr_QueueKey ?pop \<in> set (popKeys rpq)" using hit by simp
      from migrateDequeued_steps [OF this, where nonces = "pe_nonces ev"] have "queue_steps E R rpq u s'"
        using claim by (auto simp: claim_popped_def Let_def split: option.splits prod.splits sum.splits if_splits)
      then show ?thesis using su by (rule rtranclp_trans [rotated])
    qed
  qed
qed

lemma do_op_steps:
  assumes "queue_ok rpq" "op_ok rpq op" "proxy_queue_inv R rpq s"
  shows "queue_steps E R rpq s (snd (do_op E R rpq op (st, s)))"
proof (cases op)
  case (DoAdd haveClient ev proxies)
  obtain r st' s' where run: "AddToQueue E R rpq haveClient ev proxies (st, s) = (r, st', s')" by (metis prod_cases3)
  have nil: "step_cmds (sched_step R rpq) []" by (simp add: step_cmds_def)
  have "s' = s \<or> add_loop E R rpq ev (length (filter (\<lambda>p. hasQueuedWorkspace (px_Workspaces p)) proxies)) 0 0 []
      (filter (\<lambda>p. hasQueuedWorkspace (px_Workspaces p)) proxies) (st, s) = (r, st', s')"
    using run by (auto simp: AddToQueue_def Let_def split: if_splits)
  then show ?thesis using sched_steps_queue_steps [OF add_loop_steps [OF nil]] DoAdd run by auto
next
  case (DoPoll ev)
  then show ?thesis using poll_once_steps [OF assms(1,3)] by (metis do_op.simps(2) prod.collapse)
next
  case (DoRequeue ev proxy lastCheck persist)
  then show ?thesis using requeueProxy_steps assms(2) by (metis do_op.simps(3) op_ok.simps(1) prod.collapse)
next
  case (DoRenew ctxErr now c proxy)
  then show ?thesis using Renew_steps assms(2) by (metis do_op.simps(4) op_ok.simps(2) prod.collapse snd_conv)
next
  case (DoRemove haveClient calls execs proxies)
  have nil: "step_cmds (queue_step E R rpq) []" by (simp add: step_cmds_def)
  obtain r s' where run: "RemoveFromQueue R rpq haveClient calls execs proxies s = (r, s')" by fastforce
  then have "s' = s \<or> remove_loop R rpq calls execs 0 0 [] proxies s = (r, s')"
    by (auto simp: RemoveFromQueue_def split: if_splits)
  then show ?thesis using remove_loop_steps [OF assms(1) nil] DoRemove run assms(2) by auto
next
  case (DoRequeueAll ev)
  then show ?thesis using sched_steps_queue_steps [OF RequeueAll_steps] by (metis do_op.simps(6) prod.collapse snd_conv)
next
  case (DoReschedule c c' interval)
  then show ?thesis using sched_steps_queue_steps [OF Reschedule_steps] by (metis do_op.simps(7) prod.collapse snd_conv)
next
  case (DoRefresh c)
  then show ?thesis using sched_steps_queue_steps [OF refreshQueueHeads_steps] by (metis do_op.simps(8) prod.collapse snd_conv)
qed

end

subsection \<open>A claim is a lease\<close>

lemma run_call_Inr: "run_call c f s = (Inr a, s') \<Longrightarrow> f s = (a, s')"
  by (cases c) (auto simp: run_call_def)

context redis_store
begin

lemma migrate_claims:
  assumes keys: "heads \<notin> set ks" "\<And>m. prefix @ m \<notin> set ks" "\<And>m. prefix @ m \<noteq> heads" "2 \<le> length ks"
    and run: "migrate_script E R heads (prefix @ old_member) (prefix @ member) ks old_member member expected now payload snapshot encrypt s =
      (Some (True, p, q), s')"
  shows "q \<in> set ks \<and> ZSCORE R q member s' = Some (lease_score expected) \<and> GET R (prefix @ member) s' = Some p"
proof -
  let ?new = "prefix @ member" and ?old = "prefix @ old_member"
  have ks: "ks ! 0 \<in> set ks" "ks ! 1 \<in> set ks" using keys(4) by (auto simp del: One_nat_def intro!: nth_mem)
  have lease: "ZSCORE R (ks ! 0) old_member s = Some (lease_score expected)"
    using run by (auto simp: migrate_script_def Let_def split: if_splits)
  show ?thesis
  proof (cases "old_member = member")
    case True
    then have "p = payload" "q = ks ! 0" "s' = SET R ?new payload s"
      using run by (auto simp: migrate_script_def Let_def split: if_splits)
    moreover have "?new \<noteq> ks ! 0" using keys(2) [of member] ks(1) by metis
    ultimately show ?thesis using ks True lease by (simp add: zscore_set get_set)
  next
    case False
    define queues where "queues = dedup_onto [] ks"
    define t where "t = DEL R ?old (if Some p \<noteq> GET R ?new s then SET R ?new p s else s)"
    define u where "u = ZADD R ZAny q (lease_score expected) member (migrate_clear R q old_member member queues t)"
    obtain dirty where q: "q = ks ! 1" and s': "s' = RefreshHeads R heads dirty u"
      using run False
      by (auto simp: migrate_script_def Let_def u_def t_def queues_def RefreshHeads_def split: if_splits option.splits)
    have q_in: "q \<in> set ks" using q ks(2) by simp
    have q_ne: "q \<noteq> heads" "?new \<noteq> q" using q_in keys(1,2) by blast+
    have "?new \<notin> set queues" using keys(2) by (simp add: queues_def)
    then have "GET R ?new u = GET R ?new t" using q_ne by (simp add: u_def get_zadd migrate_clear_get)
    also have "\<dots> = Some p" using False by (simp add: t_def get_del get_set)
    finally have "GET R ?new u = Some p" .
    moreover have "ZSCORE R q member u = Some (lease_score expected)" by (simp add: u_def zset_laws)
    ultimately show ?thesis using q_in q_ne keys(3) by (simp add: s' zscore_RefreshHeads get_RefreshHeads)
  qed
qed

lemma migrateDequeued_claims:
  assumes ok: "queue_ok rpq" and pop: "pr_QueueKey pop \<in> set (popKeys rpq)"
      "ZSCORE R (pr_QueueKey pop) (pr_Member pop) s = Some (lease_score ms)" "GET R (proxyKeyPrefix @ pr_Member pop) s = Some (pr_ProxyJSON pop)"
    and run: "migrateDequeuedProxyMember E R rpq c now nonces pop proxy ms rewritePayload (st, s) = (Inr (True, pop', proxy'), st', s')"
  shows "pr_QueueKey pop' \<in> set (popKeys rpq) \<and> ZSCORE R (pr_QueueKey pop') (px_Hash proxy') s' = Some (lease_score ms) \<and>
         GET R (proxyKeyPrefix @ px_Hash proxy') s' = Some (pr_ProxyJSON pop') \<and> pr_ScoreMs pop' = pr_ScoreMs pop"
proof (cases "pr_Member pop = px_Hash proxy \<and> \<not> rewritePayload")
  case True
  then show ?thesis using run pop by (auto simp: migrateDequeuedProxyMember_def Let_def split: if_splits)
next
  case False
  let ?ks = "pr_QueueKey pop # queueKeyForMember rpq (px_Hash proxy) # popKeys rpq"
  have ks: "set ?ks = set (popKeys rpq)" using pop(1) queueKeyForMember_in [OF ok] by auto
  obtain m st1 where m: "marshalQueuedProxy E nonces proxy st = (m, st1)" by fastforce
  obtain payload where payload: "m = Inr payload"
    using run False m by (cases m) (auto simp: migrateDequeuedProxyMember_def Let_def split: if_splits)
  define f where "f = migrate_script E R proxyQueueHeadKey (proxyKeyPrefix @ pr_Member pop) (proxyKeyPrefix @ px_Hash proxy) ?ks
       (pr_Member pop) (px_Hash proxy) ms now payload (pr_ProxyJSON pop) (qe_encrypt E)"
  obtain current queueKey where call: "run_call c f s = (Inr (Some (True, current, queueKey)), s')"
    and adopt: "adopt_migrated E payload current queueKey (px_Hash proxy) pop proxy st1 = (Inr (True, pop', proxy'), st')"
    using run False m payload
    by (auto simp: migrateDequeuedProxyMember_def Let_def f_def split: if_splits prod.splits sum.splits option.splits)
  note script = run_call_Inr [OF call, unfolded f_def]
  have "px_Hash proxy' = px_Hash proxy" "pr_QueueKey pop' = queueKey" "pr_ProxyJSON pop' = current" "pr_ScoreMs pop' = pr_ScoreMs pop"
    using adopt by (auto simp: adopt_migrated_def Let_def split: if_splits option.splits prod.splits sum.splits)
  moreover have "queueKey \<in> set ?ks \<and> ZSCORE R queueKey (px_Hash proxy) s' = Some (lease_score ms) \<and>
      GET R (proxyKeyPrefix @ px_Hash proxy) s' = Some current"
  proof (rule migrate_claims [OF _ _ _ _ script])
    show "proxyQueueHeadKey \<notin> set ?ks" unfolding ks by (rule queue_okD(1) [OF ok])
    show "proxyKeyPrefix @ m \<notin> set ?ks" for m unfolding ks by (rule queue_okD(3) [OF ok])
  qed simp_all
  ultimately show ?thesis unfolding ks by simp
qed

lemma proxy_pop_claims:
  assumes ok: "queue_ok rpq" and inv: "proxy_queue_inv R rpq s"
    and pop: "pop_script R proxyQueueHeadKey proxyKeyPrefix now lease s = (pop_hit m d t q, s')"
  shows "q \<in> set (popKeys rpq) \<and> (\<exists>x. ZSCORE R q m s = Some x \<and> x \<le> of_int now \<and> t = \<lfloor>x\<rfloor> \<and>
            (\<forall>q' \<in> set (popKeys rpq). \<forall>m' y. ZSCORE R q' m' s = Some y \<longrightarrow> GET R (proxyKeyPrefix @ m') s \<noteq> None \<longrightarrow> x \<le> y)) \<and>
         GET R (proxyKeyPrefix @ m) s = Some d \<and> GET R (proxyKeyPrefix @ m) s' = Some d \<and> ZSCORE R q m s' = Some (lease_score (now + lease)) \<and>
         (\<forall>q' \<in> set (popKeys rpq). \<forall>m'. (q', m') \<noteq> (q, m) \<longrightarrow> GET R (proxyKeyPrefix @ m') s \<noteq> None \<longrightarrow>
            ZSCORE R q' m' s' = ZSCORE R q' m' s)"
proof (rule pop_claims_due [OF queue_okD(1) [OF ok] _ _ inv pop])
  show "q' \<noteq> proxyKeyPrefix @ m'" if "q' \<in> set (popKeys rpq)" for q' m' by (rule queue_okD(5) [OF ok that])
qed simp

lemma poll_claims:
  assumes ok: "queue_ok rpq" and inv: "proxy_queue_inv R rpq s"
    and run: "poll_once E R rpq ev (st, s) = (PollDone proxy scoreMs, st', s')"
  shows "\<exists>l. px_QueueLease proxy = Some l \<and> ScoreMS l = pe_now ev + lease_ms \<and> QueueKey l \<in> set (popKeys rpq) \<and>
           ZSCORE R (QueueKey l) (px_Hash proxy) s' = Some (lease_score (ScoreMS l)) \<and>
           GET R (proxyKeyPrefix @ px_Hash proxy) s' = Some (Payload l) \<and> scoreMs \<le> pe_now ev"
proof -
  let ?f = "pop_script R proxyQueueHeadKey proxyKeyPrefix (pe_now ev) lease_ms"
  have call: "run_call (pe_pop ev) ?f s = (Inr (fst (?f s)), snd (?f s))"
    using run by (cases "pe_pop ev") (auto simp: poll_once_def run_call_def split: if_splits)
  from queue_okD(1) [OF ok] inv show ?thesis
  proof (cases rule: pop_reply_cases [where prefix = proxyKeyPrefix and now = "pe_now ev" and lease = lease_ms])
    case (miss t)
    then show ?thesis using run call by (auto simp: poll_once_def parse_pop_miss miss_result_def split: if_splits)
  next
    case (hit m d t q)
    let ?pop = "\<lparr>pr_Found = True, pr_Member = m, pr_ProxyJSON = d, pr_ScoreMs = t, pr_NextReadyMs = -1, pr_QueueKey = q\<rparr>"
    have got: "?f s = (pop_hit m d t q, snd (?f s))" using hit(1) by (metis prod.collapse)
    note due = proxy_pop_claims [OF ok inv got]
    have c: "ZSCORE R q m (snd (?f s)) = Some (lease_score (pe_now ev + lease_ms))" using due by (elim conjE)
    have d: "GET R (proxyKeyPrefix @ m) (snd (?f s)) = Some d" using due by (elim conjE)
    have "t \<le> pe_now ev" using due by (elim conjE exE) (simp add: floor_le_iff)
    obtain pop' proxy' st1 payload where mig: "migrateDequeuedProxyMember E R rpq (pe_migrate ev) (pe_migrateNow ev) (pe_nonces ev) ?pop payload
        (pe_now ev + lease_ms) (needsRewrite E (the (json_Unmarshal E d))) (st1, snd (?f s)) = (Inr (True, pop', proxy'), st', s')"
      and proxy: "proxy = proxy'\<lparr>px_QueueLease := Some \<lparr>ScoreMS = pe_now ev + lease_ms, QueueKey = pr_QueueKey pop', Payload = pr_ProxyJSON pop'\<rparr>\<rparr>"
      and score: "scoreMs = pr_ScoreMs pop'"
      using run call hit(1)
      by (auto simp: poll_once_def parse_pop_hit claim_popped_def Let_def split: if_splits option.splits prod.splits sum.splits)
    show ?thesis
      using migrateDequeued_claims [OF ok _ _ _ mig] hit(2) c d \<open>t \<le> pe_now ev\<close> by (simp add: proxy score)
  qed
qed

end

subsection \<open>Scheduling and leases\<close>

fun is_scheduling :: "'r queue_op \<Rightarrow> bool" where
  "is_scheduling (DoAdd _ _ _) = True"
| "is_scheduling (DoRequeueAll _) = True"
| "is_scheduling (DoReschedule _ _ _) = True"
| "is_scheduling (DoRefresh _) = True"
| "is_scheduling _ = False"

lemma scheduling_steps:
  assumes "is_scheduling op"
  shows "sched_steps R rpq s (snd (do_op E R rpq op (st, s)))"
proof (cases op)
  case (DoAdd haveClient ev proxies)
  obtain r st' s' where run: "AddToQueue E R rpq haveClient ev proxies (st, s) = (r, st', s')" by (metis prod_cases3)
  have nil: "step_cmds (sched_step R rpq) []" by (simp add: step_cmds_def)
  have "s' = s \<or> add_loop E R rpq ev (length (filter (\<lambda>p. hasQueuedWorkspace (px_Workspaces p)) proxies)) 0 0 []
      (filter (\<lambda>p. hasQueuedWorkspace (px_Workspaces p)) proxies) (st, s) = (r, st', s')"
    using run by (auto simp: AddToQueue_def Let_def split: if_splits)
  then show ?thesis using add_loop_steps [OF nil] DoAdd run by auto
next
  case (DoRequeueAll ev)
  then show ?thesis using RequeueAll_steps by (metis do_op.simps(6) prod.collapse snd_conv)
next
  case (DoReschedule c c' interval)
  then show ?thesis using Reschedule_steps by (metis do_op.simps(7) prod.collapse snd_conv)
next
  case (DoRefresh c)
  then show ?thesis using refreshQueueHeads_steps by (metis do_op.simps(8) prod.collapse snd_conv)
qed (use assms in simp_all)

context redis_store
begin

lemma sched_step_keeps_lease:
  assumes ok: "queue_ok rpq" and inv: "proxy_queue_inv R rpq s" and step: "sched_step R rpq s s'"
    and lease: "q \<in> set (popKeys rpq)" "ZSCORE R q m s = Some x" "is_lease x"
  shows "ZSCORE R q m s' = Some x"
  using step
proof cases
  case (add proxy due payload)
  let ?keys = "queueKeyForMember rpq (px_Hash proxy) # popKeys rpq"
  note keys = add_keys [OF ok, of "px_Hash proxy"]
  have "ZSCORE R q m (add_script R proxyQueueHeadKey (proxyKeyPrefix @ px_Hash proxy) ?keys (px_Hash proxy) due payload s) = Some x"
  proof (rule add_script_keeps_lease [OF _ _ _ _ _ _ lease(2,3)])
    show "proxyQueueHeadKey \<notin> set ?keys" unfolding keys by (rule queue_okD(1) [OF ok])
    show "proxyKeyPrefix @ px_Hash proxy \<notin> set ?keys" unfolding keys by (rule queue_okD(3) [OF ok])
    show "single_shard R (set ?keys) s" unfolding keys by (rule queue_invD(3) [OF inv])
    show "q \<in> set ?keys" unfolding keys by (rule lease(1))
  qed simp_all
  then show ?thesis by (simp add: add add_command_def Let_def)
next
  case (requeue q' args)
  then show ?thesis using requeue_all_keeps_lease lease queue_okD(1) [OF ok] by metis
next
  case refresh
  then show ?thesis using zscore_RefreshHeads lease queue_okD(1) [OF ok] by metis
next
  case (interval v)
  then show ?thesis using zscore_set lease queue_okD(4) [OF ok] by metis
qed

lemma sched_steps_keep_lease:
  assumes ok: "queue_ok rpq" and inv: "proxy_queue_inv R rpq s" and steps: "sched_steps R rpq s s'"
    and lease: "q \<in> set (popKeys rpq)" "ZSCORE R q m s = Some x" "is_lease x"
  shows "proxy_queue_inv R rpq s' \<and> ZSCORE R q m s' = Some x"
  using steps
proof (induction rule: rtranclp_induct)
  case base
  then show ?case using inv lease by simp
next
  case (step t u)
  then show ?case using sched_step_inv [OF ok step(2)] sched_step_keeps_lease [OF ok _ step(2) lease(1) _ lease(3)] by blast
qed

text \<open>A worker whose member was popped again by somebody else no longer matches the stored score.\<close>

lemma fenced_complete:
  assumes "px_QueueLease a = Some l" "0 < ScoreMS l" "ZSCORE R (QueueKey l) (px_Hash a) s \<noteq> Some (lease_score (ScoreMS l))"
  shows "complete_call E R rpq Answered a nextCheck payload snapshot s = (Inl ProxyLeaseLost, s)"
  using assms by (simp add: complete_call_def Let_def run_call_def complete_script_def)

lemma fenced_requeue:
  assumes "px_QueueLease a = Some l" "0 < ScoreMS l" "ZSCORE R (QueueKey l) (px_Hash a) s \<noteq> Some (lease_score (ScoreMS l))"
    and "re_interval ev \<noteq> NoClient" "re_complete ev = Answered" "requeueProxy E R rpq ev a lastCheck persist (st, s) = (r, st', s')"
  shows "s' = s \<and> (\<not> persist \<longrightarrow> r = Inl ProxyLeaseLost) \<and> \<not> is_ok r"
  using assms(4-6) fenced_complete [OF assms(1-3), of E rpq]
  by (auto simp: requeueProxy_def Let_def split: if_splits prod.splits sum.splits)

lemma fenced_renew:
  assumes "px_QueueLease a = Some l" "ZSCORE R (QueueKey l) (px_Hash a) s \<noteq> Some (lease_score (ScoreMS l))"
    and "ScoreMS l - now \<le> 2 * minute div millisecond"
  shows "RenewLeaseIfNeeded R False now Answered a s = (Inl ProxyLeaseLost, s)"
  using assms by (simp add: RenewLeaseIfNeeded_def run_call_def renew_script_def)

lemma fenced_remove:
  assumes "px_QueueLease a = Some l" "0 < ScoreMS l" "px_Hash a \<noteq> []"
    "ZSCORE R (QueueKey l) (px_Hash a) s \<noteq> Some (lease_score (ScoreMS l))"
  shows "RemoveFromQueue R rpq True (\<lambda>_. Answered) execs [a] s = (Inl ProxyLeaseLost, s)"
  using assms by (simp add: RemoveFromQueue_def run_call_def remove_script_def)

end

lemma lease_score_inj [simp]: "lease_score a = lease_score b \<longleftrightarrow> a = b"
  by (simp add: lease_score_def)

subsection \<open>Ownership merges\<close>

lemma set_merge_live: "set (merge_live old desired merged live) = set merged \<union> {x \<in> set live. x \<notin> set old \<or> x \<in> set desired}"
  by (induction live arbitrary: merged) auto

lemma distinct_merge_live: "distinct merged \<Longrightarrow> distinct (merge_live old desired merged live)"
  by (induction live arbitrary: merged) auto

text \<open>\<open>pairs\<close> enumerates each key once, in an order Lua does not specify.\<close>

definition pairs_law :: "queue_env \<Rightarrow> bool" where
  "pairs_law E \<longleftrightarrow> (\<forall>xs. distinct xs \<longrightarrow> distinct (lua_pairs E xs) \<and> set (lua_pairs E xs) = set xs)"

lemma merge_owners_set:
  assumes "pairs_law E"
  shows "set (merge_owners E live old desired) = (set live - (set old - set desired)) \<union> (set desired - set old)"
    and "distinct (merge_owners E live old desired)"
proof -
  have p: "distinct (lua_pairs E (remdups desired))" "set (lua_pairs E (remdups desired)) = set desired"
    using assms by (simp_all add: pairs_law_def)
  show "set (merge_owners E live old desired) = (set live - (set old - set desired)) \<union> (set desired - set old)"
    by (auto simp: merge_owners_def Let_def set_merge_live p(2))
  show "distinct (merge_owners E live old desired)"
    using p(1) by (auto simp: merge_owners_def Let_def distinct_merge_live)
qed

lemma lua_owners_set_owners [simp]: "lua_owners (set_owners ids p) = ids"
  by (simp add: lua_owners_def set_owners_def)

end
