(* ===== verification/Lease_Properties.thy ===== *)
theory Lease_Properties
  imports Proxy_Leases
begin

text \<open>
  The properties of the proxy queue, stated for every store that satisfies the Redis laws and every configured
  number of shards, with an in-memory deployment on which their hypotheses hold.
\<close>

subsection \<open>A small deployment\<close>

definition demo_queued :: queuedProxy where
  "demo_queued = \<lparr>qp_Version = 3, qp_ID = 7, qp_IP = ''10.0.0.1'', qp_Port = 8080, qp_UsernameEncrypted = [], qp_PasswordEncrypted = [],
     qp_Username = ''u'', qp_Password = ''p'', qp_Hash = ''h1'', qp_WorkspaceIDs = [3], qp_UserIDs = [], qp_Users = []\<rparr>"

definition demo_lua :: "nat list \<Rightarrow> luaPayload" where
  "demo_lua ids = \<lparr>lp_Version = Some 3, lp_Hash = Some ''h1'', lp_UsernameEncrypted = None, lp_PasswordEncrypted = None,
     lp_Username = Some ''u'', lp_Password = Some ''p'', lp_WorkspaceIDs = Some ids, lp_UserIDs = None, lp_Users = None, lp_rest = []\<rparr>"

definition demo_queue_env :: queue_env where
  "demo_queue_env = \<lparr>qe_crypto = demo_crypto, qe_text = demo_text, qe_secret = demo_env, qe_encrypt = False,
     json_Marshal = (\<lambda>_. ''P''), json_Unmarshal = (\<lambda>s. if s = ''P'' then Some demo_queued else None),
     cjson_decode = (\<lambda>s. if s = ''P'' then Some (demo_lua [3]) else if s = ''Q'' then Some (demo_lua [3, 5])
                        else if s = ''W'' then Some (demo_lua [9]) else None),
     cjson_encode = (\<lambda>p. case lp_WorkspaceIDs p of Some ids \<Rightarrow> map char_of ids | None \<Rightarrow> []), lua_pairs = (\<lambda>xs. xs)\<rparr>"

definition demo_route :: Proxy where
  "demo_route = demo_proxy\<lparr>px_IP := ''10.0.0.1'', px_Hash := ''h1''\<rparr>"

definition demo_store :: mem_store where
  "demo_store = add_command mem_redis (queue_config 1) demo_route 1000 ''P'' mem_empty"

definition demo_poll :: "int \<Rightarrow> mem_store poll_event" where
  "demo_poll now = \<lparr>pe_ctxDone = False, pe_now = now, pe_migrateNow = now, pe_pop = Answered, pe_migrate = Answered,
     pe_nonces = (None, None), pe_cancelled = False, pe_others = (\<lambda>s. s)\<rparr>"

lemma mem_empty_scores: "ZSCORE mem_redis q m mem_empty = None"
  by (simp add: mem_redis_def mem_empty_def)

lemma demo_store_step: "queue_step E mem_redis (queue_config 1) mem_empty demo_store"
  unfolding demo_store_def by (rule queue_step.sched, rule sched_step.add)

lemma demo_store_inv: "proxy_queue_inv mem_redis (queue_config 1) demo_store"
  using mem.queue_step_inv [OF queue_config_ok demo_store_step] mem.empty_queue_inv mem_empty_scores by blast

subsection \<open>Properties\<close>

text \<open>
  C7. A completion merges ownership. When an import replaced the payload while the worker was checking, the worker's completion
  stores the current payload with only its owners changed: it keeps the owners published meanwhile, drops exactly those the
  worker dropped and adds exactly those it added, each once; and the proxy is scheduled at the next check.
\<close>

theorem completion_merges_owners:
  assumes "redis_store R" and "pairs_law E"
    and "heads \<notin> {payload_key, queue, legacy, old_queue}" and "payload_key \<notin> {queue, legacy, old_queue}"
    and "ZSCORE R old_queue m s = Some (lease_score expected)" and "payload \<noteq> []" and "snapshot \<noteq> []"
    and "GET R payload_key s = Some cur" and "cur \<noteq> snapshot"
    and "cjson_decode E cur = Some live" and "cjson_decode E snapshot = Some before" and "cjson_decode E payload = Some after"
    and "complete_script E R heads queue legacy payload_key old_queue m expected next_score payload snapshot s = (r, s')"
  shows "r = Some 1 \<and> ZSCORE R queue m s' = Some (of_int next_score) \<and>
         (\<exists>ids. GET R payload_key s' = Some (cjson_encode E (set_owners ids live)) \<and> distinct ids \<and>
            set ids = (set (lua_owners live) - (set (lua_owners before) - set (lua_owners after))) \<union>
                      (set (lua_owners after) - set (lua_owners before)))"
proof -
  let ?ids = "merge_owners E (lua_owners live) (lua_owners before) (lua_owners after)"
  note ids = merge_owners_set [OF assms(2), of "lua_owners live" "lua_owners before" "lua_owners after"]
  let ?t = "SET R payload_key (cjson_encode E (set_owners ?ids live)) s"
  define u where "u = (if old_queue \<noteq> queue then ZREM R old_queue m ?t else ?t)"
  define w where "w = (if legacy \<noteq> queue \<and> legacy \<noteq> old_queue then ZREM R legacy m u else u)"
  have "completed_payload E (GET R payload_key s) payload snapshot = Some (cjson_encode E (set_owners ?ids live))"
    by (simp add: completed_payload_def assms(7-12))
  then have "complete_script E R heads queue legacy payload_key old_queue m expected next_score payload snapshot s =
      (Some 1, ZADD R LT heads (of_int next_score) queue (ZADD R ZAny queue (of_int next_score) m w))"
    unfolding complete_script_def Let_def u_def w_def by (simp add: assms(5,6))
  with assms(13) have run: "r = Some 1" "s' = ZADD R LT heads (of_int next_score) queue (ZADD R ZAny queue (of_int next_score) m w)"
    by simp_all
  note laws = redis_store.get_zadd [OF assms(1)] redis_store.get_zrem [OF assms(1)] redis_store.get_set [OF assms(1)]
    redis_store.zscore_zadd [OF assms(1)]
  have "GET R payload_key s' = Some (cjson_encode E (set_owners ?ids live))"
    using run assms(3,4) by (auto simp: laws u_def w_def)
  moreover have "ZSCORE R queue m s' = Some (of_int next_score)" using run assms(3) by (auto simp: laws)
  ultimately show ?thesis using run ids by blast
qed

definition demo_leased :: mem_store where
  "demo_leased = SET mem_redis ''proxy:h1'' ''Q'' (ZADD mem_redis ZAny ''proxy_queue:0'' (lease_score 302000) ''h1'' mem_empty)"

text \<open>The worker took owner 3 and replaces it by 9 while an import adds 5: the result is 5 and 9.\<close>

theorem completion_merges_owners_witness:
  "\<exists>r s'. complete_script demo_queue_env mem_redis proxyQueueHeadKey ''proxy_queue:0'' ''proxy_queue'' ''proxy:h1'' ''proxy_queue:0'' ''h1''
       302000 400000 ''W'' ''P'' demo_leased = (r, s') \<and>
     (\<exists>ids. GET mem_redis ''proxy:h1'' s' = Some (cjson_encode demo_queue_env (set_owners ids (demo_lua [3, 5]))) \<and> set ids = {5, 9})"
proof -
  obtain r s' where run: "complete_script demo_queue_env mem_redis proxyQueueHeadKey ''proxy_queue:0'' ''proxy_queue'' ''proxy:h1''
      ''proxy_queue:0'' ''h1'' 302000 400000 ''W'' ''P'' demo_leased = (r, s')" by fastforce
  have pairs: "pairs_law demo_queue_env" by (simp add: pairs_law_def demo_queue_env_def)
  have score: "ZSCORE mem_redis ''proxy_queue:0'' ''h1'' demo_leased = Some (lease_score 302000)"
    by (simp add: demo_leased_def mem.zscore_zadd mem.zscore_set)
  have cur: "GET mem_redis ''proxy:h1'' demo_leased = Some ''Q''" by (simp add: demo_leased_def mem.get_set)
  have owners: "lua_owners (demo_lua ids) = ids" for ids by (simp add: lua_owners_def demo_lua_def)
  have "{3, 5 :: nat} - ({3} - {9}) \<union> ({9} - {3}) = {5, 9}" by auto
  then show ?thesis
    using completion_merges_owners [OF mem.redis_store_axioms pairs _ _ score _ _ cur _ _ _ _ run, of "demo_lua [3, 5]" "demo_lua [3]" "demo_lua [9]"] run
    by (auto simp: owners demo_queue_env_def proxyQueueHeadKey_def)
qed

text \<open>
  C1. However imports, pops, migrations, completions, renewals, removals and bulk scheduling of any number of workers
  interleave, starting from an empty Redis: every shard with a member is in the index no later than its earliest
  member, only shards are indexed, and no proxy is in two shards.
\<close>

theorem proxy_queue_invariant:
  assumes "redis_store R" and "\<forall>q m. ZSCORE R q m s = None" and "queue_steps E R (queue_config n) s s'"
  shows "queue_inv R proxyQueueHeadKey (set (popKeys (queue_config n))) s'"
  using redis_store.queue_steps_inv [OF assms(1) queue_config_ok assms(3)] redis_store.empty_queue_inv [OF assms(1,2)] .

theorem proxy_queue_invariant_witness:
  "queue_inv mem_redis proxyQueueHeadKey (set (popKeys (queue_config 1))) demo_store \<and>
   ZSCORE mem_redis ''proxy_queue:0'' ''h1'' demo_store = Some 1000"
proof
  show "queue_inv mem_redis proxyQueueHeadKey (set (popKeys (queue_config 1))) demo_store"
    by (rule proxy_queue_invariant [OF mem.redis_store_axioms, where s = mem_empty and E = demo_queue_env])
      (simp_all add: mem_empty_scores demo_store_step r_into_rtranclp)
  show "ZSCORE mem_redis ''proxy_queue:0'' ''h1'' demo_store = Some 1000" by code_simp
qed



text \<open>
  C3. The lease a worker is handed is the one Redis holds: when a poll returns a proxy, directly or after moving it to its
  canonical member, the proxy's score in the shard named by the lease is the lease's expiry with the lease mark,
  the stored payload is the lease's snapshot, the expiry is five minutes ahead, and the proxy was due.
\<close>

theorem polled_proxy_is_leased:
  assumes "redis_store R" and "proxy_queue_inv R (queue_config n) s"
    and "poll_once E R (queue_config n) ev (st, s) = (PollDone proxy scoreMs, st', s')"
  shows "\<exists>l. px_QueueLease proxy = Some l \<and> ScoreMS l = pe_now ev + 300000 \<and> QueueKey l \<in> set (popKeys (queue_config n)) \<and>
           ZSCORE R (QueueKey l) (px_Hash proxy) s' = Some (lease_score (ScoreMS l)) \<and>
           GET R (proxyKeyPrefix @ px_Hash proxy) s' = Some (Payload l) \<and> scoreMs \<le> pe_now ev"
  using redis_store.poll_claims [OF assms(1) queue_config_ok assms(2,3)] by (simp add: lease_ms_def processingLease_def)

lemma demo_poll_done:
  "fst (poll_once demo_queue_env mem_redis (queue_config 1) (demo_poll 2000) (fresh_secrets, demo_store)) =
     PollDone (demo_route\<lparr>px_QueueLease := Some \<lparr>ScoreMS = 302000, QueueKey = ''proxy_queue:0'', Payload = ''P''\<rparr>\<rparr>) 1000"
  by code_simp

theorem polled_proxy_is_leased_witness:
  "\<exists>proxy st' s'. poll_once demo_queue_env mem_redis (queue_config 1) (demo_poll 2000) (fresh_secrets, demo_store) =
       (PollDone proxy 1000, st', s') \<and> px_Hash proxy = ''h1'' \<and>
     ZSCORE mem_redis ''proxy_queue:0'' ''h1'' s' = Some (lease_score 302000)"
proof -
  let ?p = "demo_route\<lparr>px_QueueLease := Some \<lparr>ScoreMS = 302000, QueueKey = ''proxy_queue:0'', Payload = ''P''\<rparr>\<rparr>"
  obtain st' s' where run: "poll_once demo_queue_env mem_redis (queue_config 1) (demo_poll 2000) (fresh_secrets, demo_store) =
      (PollDone ?p 1000, st', s')"
    using demo_poll_done by (metis prod.collapse)
  show ?thesis
    using polled_proxy_is_leased [OF mem.redis_store_axioms demo_store_inv run] run by (auto simp: demo_route_def demo_poll_def)
qed

text \<open>
  C6. A pop that names a time to come back hides nothing: no proxy of any shard, leased or not, is due at that moment, and none
  becomes due before the time it names.
\<close>

theorem pop_miss_sound:
  assumes "redis_store R" and "proxy_queue_inv R (queue_config n) s"
    and "pop_script R proxyQueueHeadKey proxyKeyPrefix now lease_ms s = (pop_miss t, s')" and "t \<noteq> -1"
    and "q \<in> set (popKeys (queue_config n))" and "ZSCORE R q m s = Some x" and "GET R (proxyKeyPrefix @ m) s \<noteq> None"
  shows "of_int now < x \<and> of_int t \<le> x"
  by (rule redis_store.pop_later [OF assms(1) _ _ _ assms(2-7)]) (simp_all add: queue_okD [OF queue_config_ok])

lemma demo_miss:
  "fst (pop_script mem_redis proxyQueueHeadKey proxyKeyPrefix 400 lease_ms demo_store) = pop_miss 1000"
  by code_simp

theorem pop_miss_sound_witness:
  "\<exists>s'. pop_script mem_redis proxyQueueHeadKey proxyKeyPrefix 400 lease_ms demo_store = (pop_miss 1000, s') \<and> (400::rat) < 1000"
proof -
  obtain s' where run: "pop_script mem_redis proxyQueueHeadKey proxyKeyPrefix 400 lease_ms demo_store = (pop_miss 1000, s')"
    using demo_miss by (metis prod.collapse)
  have q: "''proxy_queue:0'' \<in> set (popKeys (queue_config 1))" by code_simp
  have x: "ZSCORE mem_redis ''proxy_queue:0'' ''h1'' demo_store = Some 1000" by code_simp
  have d: "GET mem_redis (proxyKeyPrefix @ ''h1'') demo_store \<noteq> None" by code_simp
  show ?thesis using pop_miss_sound [OF mem.redis_store_axioms demo_store_inv run _ q x d] run by simp
qed

text \<open>
  C5. Due work is found: while fewer than eight shards have an outdated index entry and stored members have their payload,
  a pop with a due proxy in some shard claims a proxy, and no proxy of any shard was due earlier.
\<close>

theorem pop_finds_earliest:
  assumes "redis_store R" and "proxy_queue_inv R (queue_config n) s"
    and "card (stale_shards R proxyQueueHeadKey (set (popKeys (queue_config n))) s) < 8"
    and "\<forall>q \<in> set (popKeys (queue_config n)). \<forall>m. ZSCORE R q m s \<noteq> None \<longrightarrow> GET R (proxyKeyPrefix @ m) s \<noteq> None"
    and "q1 \<in> set (popKeys (queue_config n))" and "ZSCORE R q1 m1 s = Some x1" and "x1 \<le> of_int now"
  shows "\<exists>m d t q x s'. pop_script R proxyQueueHeadKey proxyKeyPrefix now lease_ms s = (pop_hit m d t q, s') \<and>
           ZSCORE R q m s = Some x \<and> x \<le> of_int now \<and> ZSCORE R q m s' = Some (lease_score (now + lease_ms)) \<and>
           (\<forall>q' \<in> set (popKeys (queue_config n)). \<forall>m' y. ZSCORE R q' m' s = Some y \<longrightarrow> x \<le> y)"
proof -
  have "\<exists>m d t q. fst (pop_loop R proxyQueueHeadKey proxyKeyPrefix now lease_ms 8 s) = pop_hit m d t q"
    by (rule redis_store.pop_loop_finds [OF assms(1) queue_okD(1) [OF queue_config_ok] _ _ assms(2,3) _ assms(5-7)]) (use assms(4) in auto)
  then obtain m d t q s' where run: "pop_script R proxyQueueHeadKey proxyKeyPrefix now lease_ms s = (pop_hit m d t q, s')"
    unfolding pop_script_def by (metis prod.collapse)
  then show ?thesis
    using redis_store.proxy_pop_claims [OF assms(1) queue_config_ok assms(2) run] assms(4) by (metis option.distinct(1))
qed

lemma demo_members: "ZSCORE mem_redis q m demo_store = (if q = ''proxy_queue:0'' \<and> m = ''h1'' then Some 1000
    else if q = proxyQueueHeadKey \<and> m = ''proxy_queue:0'' then Some 1000 else None)"
proof -
  have cfg: "popKeys (queue_config 1) = [legacyQueueKey, ''proxy_queue:0'']" "queueKeyForMember (queue_config 1) ''h1'' = ''proxy_queue:0''"
    by code_simp+
  show ?thesis
    by (simp add: demo_store_def add_command_def Let_def cfg demo_route_def add_script_def zrem_others_def mem.zscore_zadd mem.zscore_zrem
        mem.zscore_set mem_empty_scores proxyKeyPrefix_def legacyQueueKey_def proxyQueueHeadKey_def)
      (simp add: mem_redis_def mem_empty_def zset_put_def)
qed

theorem pop_finds_earliest_witness:
  "\<exists>m d t q x s'. pop_script mem_redis proxyQueueHeadKey proxyKeyPrefix 2000 lease_ms demo_store = (pop_hit m d t q, s') \<and>
     ZSCORE mem_redis q m s' = Some (lease_score (2000 + lease_ms)) \<and> x \<le> (2000 :: rat)"
proof -
  have q: "''proxy_queue:0'' \<in> set (popKeys (queue_config 1))" by code_simp
  have d: "GET mem_redis (proxyKeyPrefix @ ''h1'') demo_store \<noteq> None" by code_simp
  have "card (stale_shards mem_redis proxyQueueHeadKey (set (popKeys (queue_config 1))) demo_store) \<le> card (set (popKeys (queue_config 1)))"
    by (rule card_mono) (auto simp: stale_shards_def)
  moreover have "length (popKeys (queue_config 1)) = 2" by code_simp
  ultimately have "card (stale_shards mem_redis proxyQueueHeadKey (set (popKeys (queue_config 1))) demo_store) < 8"
    using card_length [of "popKeys (queue_config 1)"] by linarith
  moreover have "\<forall>q \<in> set (popKeys (queue_config 1)). \<forall>m. ZSCORE mem_redis q m demo_store \<noteq> None \<longrightarrow>
      GET mem_redis (proxyKeyPrefix @ m) demo_store \<noteq> None"
    using d queue_okD(1) [OF queue_config_ok, of 1] by (auto simp: demo_members split: if_splits)
  moreover have "ZSCORE mem_redis ''proxy_queue:0'' ''h1'' demo_store = Some 1000" by (simp add: demo_members)
  moreover have "(1000 :: rat) \<le> of_int 2000" by simp
  ultimately show ?thesis
    using pop_finds_earliest [OF mem.redis_store_axioms demo_store_inv _ _ q] by (metis of_int_numeral)
qed

text \<open>
  C2. Stale workers are fenced out. When another worker has popped the same proxy since, at a moment that gives a lease other than
  the first worker's, then the first worker's \<open>RequeueProxy\<close>, \<open>RequeueProxyWithPayload\<close> and \<open>RemoveFromQueue\<close> fail and leave
  Redis untouched, and so does its \<open>RenewLeaseIfNeeded\<close> once renewal is due.
\<close>

theorem takeover_fences_worker:
  assumes "redis_store R" and "proxy_queue_inv R (queue_config n) s"
    and "pop_script R proxyQueueHeadKey proxyKeyPrefix now lease_ms s = (pop_hit m d t q, s')"
    and "px_QueueLease a = Some l" and "px_Hash a = m" and "QueueKey l = q" and "0 < ScoreMS l" and "ScoreMS l \<noteq> now + lease_ms"
    and "m \<noteq> []" and "re_interval ev \<noteq> NoClient" and "re_complete ev = Answered" and "ScoreMS l - later \<le> 120000"
  shows "fst (RequeueProxy E R (queue_config n) ev a lastCheck (st, s')) = Inl ProxyLeaseLost \<and>
         snd (snd (RequeueProxy E R (queue_config n) ev a lastCheck (st, s'))) = s' \<and>
         \<not> is_ok (fst (RequeueProxyWithPayload E R (queue_config n) ev a lastCheck (st, s'))) \<and>
         snd (snd (RequeueProxyWithPayload E R (queue_config n) ev a lastCheck (st, s'))) = s' \<and>
         RemoveFromQueue R (queue_config n) True (\<lambda>_. Answered) execs [a] s' = (Inl ProxyLeaseLost, s') \<and>
         RenewLeaseIfNeeded R False later Answered a s' = (Inl ProxyLeaseLost, s')"
proof -
  have "ZSCORE R q m s' = Some (lease_score (now + lease_ms))"
    using redis_store.proxy_pop_claims [OF assms(1) queue_config_ok assms(2,3)] by (elim conjE)
  then have stale: "ZSCORE R (QueueKey l) (px_Hash a) s' \<noteq> Some (lease_score (ScoreMS l))" using assms(5,6,8) by simp
  obtain r1 st1 u1 where r1: "requeueProxy E R (queue_config n) ev a lastCheck False (st, s') = (r1, st1, u1)" by (metis prod_cases3)
  obtain r2 st2 u2 where r2: "requeueProxy E R (queue_config n) ev a lastCheck True (st, s') = (r2, st2, u2)" by (metis prod_cases3)
  note requeue = redis_store.fenced_requeue [OF assms(1,4,7) stale assms(10,11)]
  have "RenewLeaseIfNeeded R False later Answered a s' = (Inl ProxyLeaseLost, s')"
    by (rule redis_store.fenced_renew [OF assms(1,4) stale]) (use assms(12) in simp)
  moreover have "RemoveFromQueue R (queue_config n) True (\<lambda>_. Answered) execs [a] s' = (Inl ProxyLeaseLost, s')"
    by (rule redis_store.fenced_remove [OF assms(1,4,7) _ stale]) (use assms(5,9) in simp)
  ultimately show ?thesis
    using requeue [OF r1] requeue [OF r2] by (simp add: RequeueProxy_def RequeueProxyWithPayload_def r1 r2)
qed

definition demo_requeue :: requeue_event where
  "demo_requeue = \<lparr>re_now = 0, re_fallback = second, re_nonces = (None, None), re_interval = Refused, re_complete = Answered\<rparr>"

theorem takeover_fences_worker_witness:
  "\<exists>s'. fst (RequeueProxy demo_queue_env mem_redis (queue_config 1) demo_requeue
       (demo_route\<lparr>px_QueueLease := Some \<lparr>ScoreMS = 1000, QueueKey = ''proxy_queue:0'', Payload = ''P''\<rparr>\<rparr>) 0 (fresh_secrets, s')) =
     Inl ProxyLeaseLost"
proof -
  have "fst (pop_script mem_redis proxyQueueHeadKey proxyKeyPrefix 2000 lease_ms demo_store) = pop_hit ''h1'' ''P'' 1000 ''proxy_queue:0''"
    by code_simp
  then obtain s' where run: "pop_script mem_redis proxyQueueHeadKey proxyKeyPrefix 2000 lease_ms demo_store =
      (pop_hit ''h1'' ''P'' 1000 ''proxy_queue:0'', s')"
    by (metis prod.collapse)
  let ?l = "\<lparr>ScoreMS = 1000, QueueKey = ''proxy_queue:0'', Payload = ''P''\<rparr>"
  have "fst (RequeueProxy demo_queue_env mem_redis (queue_config 1) demo_requeue (demo_route\<lparr>px_QueueLease := Some ?l\<rparr>) 0 (fresh_secrets, s')) =
      Inl ProxyLeaseLost"
    by (rule conjunct1, rule takeover_fences_worker [OF mem.redis_store_axioms demo_store_inv run,
          where l = ?l and later = 1000 and execs = "\<lambda>_. ExecOk"])
      (simp_all add: demo_route_def demo_requeue_def lease_ms_def processingLease_def)
  then show ?thesis by blast
qed

text \<open>
  C4. Scheduling never takes a proxy away from its worker: an import (\<open>AddToQueue\<close> with any outcome of its pipelines), \<open>RequeueAll\<close>,
  \<open>Reschedule\<close> and a head refresh leave every lease, expired ones included, in its shard with its score.
\<close>

theorem scheduling_keeps_leases:
  assumes "redis_store R" and "proxy_queue_inv R (queue_config n) s" and "is_scheduling op"
    and "q \<in> set (popKeys (queue_config n))" and "ZSCORE R q m s = Some x" and "is_lease x"
  shows "ZSCORE R q m (snd (do_op E R (queue_config n) op (st, s))) = Some x"
  using redis_store.sched_steps_keep_lease [OF assms(1) queue_config_ok assms(2) scheduling_steps [OF assms(3)] assms(4-6)] by blast

theorem scheduling_keeps_leases_witness:
  "\<exists>s'. ZSCORE mem_redis ''proxy_queue:0'' ''h1'' s' = Some (lease_score 302000) \<and>
     ZSCORE mem_redis ''proxy_queue:0'' ''h1'' (snd (do_op demo_queue_env mem_redis (queue_config 1)
       (DoAdd True \<lparr>ae_now = 0, ae_interval = second, ae_nonces = (\<lambda>_. (None, None)), ae_exec = (\<lambda>_. ExecOk)\<rparr> [demo_route]) (fresh_secrets, s'))) =
     Some (lease_score 302000)"
proof -
  define s' where "s' = snd (pop_script mem_redis proxyQueueHeadKey proxyKeyPrefix 2000 lease_ms demo_store)"
  have lease: "ZSCORE mem_redis ''proxy_queue:0'' ''h1'' s' = Some (lease_score 302000)"
    unfolding s'_def by code_simp
  have q: "''proxy_queue:0'' \<in> set (popKeys (queue_config 1))" by code_simp
  have "proxy_queue_inv mem_redis (queue_config 1) s'"
    unfolding s'_def by (rule mem.pop_inv [OF queue_okD(1) [OF queue_config_ok] demo_store_inv])
  from scheduling_keeps_leases [OF mem.redis_store_axioms this _ q lease is_lease_score] lease show ?thesis
    by (metis is_scheduling.simps(1))
qed

subsection \<open>Payloads\<close>

lemma collect_ids_dedup: "collect_ids out ws = dedup_onto out (filter (\<lambda>w. w \<noteq> 0) ws)"
  by (induction out ws rule: collect_ids.induct) auto

lemma collect_ids_again: "collect_ids [] (collect_ids [] ws) = collect_ids [] ws"
proof -
  have "0 \<notin> set (collect_ids [] ws)" by (simp add: collect_ids_dedup)
  then have "filter (\<lambda>w. w \<noteq> 0) (collect_ids [] ws) = collect_ids [] ws" by (intro filter_True) (metis)
  then show ?thesis by (simp add: collect_ids_dedup dedup_onto_distinct)
qed

text \<open>What was encrypted decrypts in every later state in which the cipher is the same.\<close>

lemma encrypt_some:
  assumes "EncryptProxySecret C env nonce plain st = (Inr v, st')"
  shows "(plain = [] \<and> v = [] \<and> st' = st) \<or>
         (\<exists>key n. plain \<noteq> [] \<and> nonce = Some n \<and> proxyCipherOnce st' = Some (Inr key) \<and>
            v = ProxyEncryptionPrefix @ b64_Encode C (n @ gcm_Seal C key n plain))"
  using assms by (auto simp: EncryptProxySecret_def getProxyCipher_def Let_def split: if_splits prod.splits sum.splits option.splits)

lemma cipher_kept:
  "EncryptProxySecret C env nonce plain st = (r, st') \<Longrightarrow> proxyCipherOnce st = Some k \<Longrightarrow> st' = st"
  by (auto simp: EncryptProxySecret_def getProxyCipher_def split: if_splits prod.splits sum.splits option.splits)

lemma decrypt_later:
  assumes laws: "crypto_laws (qe_crypto E)" "\<forall>n. nonce = Some n \<longrightarrow> length n = NonceSize"
    and enc: "EncryptProxySecret (qe_crypto E) (qe_secret E) nonce plain st = (Inr v, st')"
    and later: "plain \<noteq> [] \<Longrightarrow> proxyCipherOnce st'' = proxyCipherOnce st'"
  shows "decrypt_if_set E v [] st'' = (Inr plain, st'')"
  using encrypt_some [OF enc]
proof
  assume "plain = [] \<and> v = [] \<and> st' = st"
  then show ?thesis by (simp add: decrypt_if_set_def)
next
  assume "\<exists>key n. plain \<noteq> [] \<and> nonce = Some n \<and> proxyCipherOnce st' = Some (Inr key) \<and>
            v = ProxyEncryptionPrefix @ b64_Encode (qe_crypto E) (n @ gcm_Seal (qe_crypto E) key n plain)"
  then obtain key n where n: "plain \<noteq> []" "nonce = Some n" "proxyCipherOnce st' = Some (Inr key)"
    and v: "v = ProxyEncryptionPrefix @ b64_Encode (qe_crypto E) (n @ gcm_Seal (qe_crypto E) key n plain)" by blast
  have "getProxyCipher (qe_crypto E) (qe_secret E) st'' = (Inr key, st'')"
    using later n by (simp add: getProxyCipher_def)
  from decrypt_sealed [OF laws(1) _ this, of n plain] laws(2) n(2) show ?thesis
    by (simp add: decrypt_if_set_def v) (simp add: ProxyEncryptionPrefix_def)
qed

text \<open>
  A queued route comes back as it was published: decoding the payload built for a hashed proxy gives its identity, host, port,
  credentials and hash, in plain and in encrypted mode, with its workspaces without zeros and duplicates; and a payload just
  written needs no rewrite.
\<close>

lemma queued_payload_round_trip:
  assumes "newQueuedProxy E nonces p st = (Inr q, st')" and "px_Hash p \<noteq> []"
    and "qe_encrypt E \<longrightarrow> crypto_laws (qe_crypto E) \<and> (\<forall>n. n \<in> {fst nonces, snd nonces} \<longrightarrow> (\<forall>x. n = Some x \<longrightarrow> length x = NonceSize))"
  shows "toDomainProxy E q st' =
           (Inr \<lparr>px_ID = px_ID p, px_IP = GetHost p, px_IPAddress = None, px_Port = px_Port p, px_Username = px_Username p,
                 px_Password = px_Password p, px_Workspaces = dedup_onto [] (filter (\<lambda>w. w \<noteq> 0) (px_Workspaces p)),
                 px_QueueLease = None, px_Hash = px_Hash p\<rparr>, st') \<and>
         \<not> needsRewrite E q"
proof -
  have owners: "collect_ids [] (payload_owners q) = dedup_onto [] (filter (\<lambda>w. w \<noteq> 0) (px_Workspaces p))"
    if "qp_WorkspaceIDs q = collectQueuedWorkspaceIDs (px_Workspaces p)" "qp_UserIDs q = []" "qp_Users q = []"
  proof -
    have "payload_owners q = collect_ids [] (px_Workspaces p)"
      using that by (auto simp: payload_owners_def Let_def collectQueuedWorkspaceIDs_def)
    then show ?thesis by (metis collect_ids_again collect_ids_dedup)
  qed
  show ?thesis
  proof (cases "qe_encrypt E")
    case False
    then show ?thesis
      using assms(1,2) owners
      by (auto simp: newQueuedProxy_def toDomainProxy_def Let_def decrypt_if_set_def needsRewrite_def GetIp_def queuedProxyVersion_def)
  next
    case True
    let ?enc = "EncryptProxySecret (qe_crypto E) (qe_secret E)"
    obtain user st1 pass where u: "?enc (fst nonces) (px_Username p) st = (Inr user, st1)" and w: "?enc (snd nonces) (px_Password p) st1 = (Inr pass, st')"
      and q: "q = \<lparr>qp_Version = queuedProxyVersion, qp_ID = px_ID p, qp_IP = GetIp p, qp_Port = px_Port p, qp_UsernameEncrypted = user,
         qp_PasswordEncrypted = pass, qp_Username = [], qp_Password = [], qp_Hash = px_Hash p,
         qp_WorkspaceIDs = collectQueuedWorkspaceIDs (px_Workspaces p), qp_UserIDs = [], qp_Users = []\<rparr>"
      using assms(1) True by (auto simp: newQueuedProxy_def Let_def split: prod.splits sum.splits)
    have laws: "crypto_laws (qe_crypto E)" "\<forall>n. fst nonces = Some n \<longrightarrow> length n = NonceSize" "\<forall>n. snd nonces = Some n \<longrightarrow> length n = NonceSize"
      using assms(3) True by auto
    have "decrypt_if_set E user [] st' = (Inr (px_Username p), st')"
      by (rule decrypt_later [OF laws(1,2) u]) (use encrypt_some [OF u] cipher_kept [OF w] in auto)
    moreover have "decrypt_if_set E pass [] st' = (Inr (px_Password p), st')"
      by (rule decrypt_later [OF laws(1,3) w]) simp
    ultimately show ?thesis
      using assms(2) True owners by (simp add: q toDomainProxy_def needsRewrite_def GetIp_def queuedProxyVersion_def)
  qed
qed

theorem queued_payload_round_trip_witness:
  "\<exists>q st'. newQueuedProxy (demo_queue_env\<lparr>qe_encrypt := True\<rparr>) (Some (replicate 12 (CHR ''n'')), Some (replicate 12 (CHR ''m''))) demo_route fresh_secrets =
       (Inr q, st') \<and> qp_Username q = [] \<and>
     (\<exists>p. toDomainProxy (demo_queue_env\<lparr>qe_encrypt := True\<rparr>) q st' = (Inr p, st') \<and> px_Username p = ''u'' \<and> px_Password p = ''p'')"
proof -
  let ?E = "demo_queue_env\<lparr>qe_encrypt := True\<rparr>"
  let ?n = "(Some (replicate 12 (CHR ''n'')), Some (replicate 12 (CHR ''m'')))"
  have "is_ok (fst (newQueuedProxy ?E ?n demo_route fresh_secrets)) \<and>
      (case fst (newQueuedProxy ?E ?n demo_route fresh_secrets) of Inr q \<Rightarrow> qp_Username q = [] | Inl _ \<Rightarrow> False)" by code_simp
  then obtain q st' where run: "newQueuedProxy ?E ?n demo_route fresh_secrets = (Inr q, st')" and q: "qp_Username q = []"
    by (cases "newQueuedProxy ?E ?n demo_route fresh_secrets") (auto split: sum.splits)
  have enc: "qe_encrypt ?E \<longrightarrow> crypto_laws (qe_crypto ?E) \<and>
      (\<forall>n. n \<in> {fst ?n, snd ?n} \<longrightarrow> (\<forall>x. n = Some x \<longrightarrow> length x = NonceSize))"
    using demo_crypto_laws by (auto simp: demo_queue_env_def NonceSize_def)
  have hash: "px_Hash demo_route \<noteq> []" by (simp add: demo_route_def)
  have creds: "px_Username demo_route = ''u''" "px_Password demo_route = ''p''" by (simp_all add: demo_route_def demo_proxy_def)
  show ?thesis using queued_payload_round_trip [OF run hash enc] run q creds by auto
qed

end
