(* ===== verification/Failure_Tracker.thy ===== *)
theory Failure_Tracker
  imports Checker_Settings
begin

text \<open>
  The failure tracker of \<open>internal/jobs/checker/failure_tracker.go\<close>, with the two ownership actions of
  \<open>internal/database/database_proxy_lifecycle.go\<close> it triggers. The table \<open>user_proxies\<close> is a list of
  rows, each SQL statement a function on it; a statement that fails leaves the table alone (the
  database's atomicity) and which ones fail is a list of outcomes the theorems quantify over.
  A batch resets streaks, increments streaks in chunks and applies the actions that are due; the
  lemmas say what every row is afterwards, and that a removal is always justified and reported.
\<close>

subsection \<open>Data\<close>

record ManagedProxy =
  mp_WorkspaceID :: u64
  mp_ProxyID :: u64
  mp_ConsecutiveFailures :: u16
  mp_State :: string
  mp_PauseReason :: string

type_synonym route_key = "u64 \<times> u64"

definition row_key :: "ManagedProxy \<Rightarrow> route_key" where
  "row_key m = (mp_WorkspaceID m, mp_ProxyID m)"

definition active_row :: "ManagedProxy \<Rightarrow> bool" where
  "active_row m \<longleftrightarrow> mp_State m = ''active''"

text \<open>
  The database handle: nil or open, its dialect, the tables, and the outcomes of the statements to
  come (\<open>None\<close> succeeds; an exhausted list succeeds).
\<close>

record failure_db =
  fd_open :: bool
  fd_postgres :: bool
  fd_rows :: "ManagedProxy list"
  fd_proxies :: "u64 list"
  fd_faults :: "string option list"

definition exec_stmt :: "(ManagedProxy list \<Rightarrow> ManagedProxy list \<times> 'a) \<Rightarrow> failure_db \<Rightarrow> (string, 'a) result \<times> failure_db" where
  "exec_stmt stmt db = (case fd_faults db of
      Some e # fs \<Rightarrow> (Inl e, db\<lparr>fd_faults := fs\<rparr>)
    | fs \<Rightarrow> (case stmt (fd_rows db) of (rows, a) \<Rightarrow> (Inr a, db\<lparr>fd_rows := rows, fd_faults := tl fs\<rparr>)))"

record failureEvent =
  ev_WorkspaceID :: u64
  ev_Success :: bool
  ev_AutoRemove :: bool
  ev_FailureThreshold :: u8
  ev_FailureAction :: string
  ev_HasEligibleChecks :: bool

record failureResponse =
  fr_removedWorkspaces :: "u64 set"
  fr_orphaned :: "u64 list"
  fr_err :: "string option"

text \<open>A request carries the error of its context, if that is done.\<close>

record failureRequest =
  rq_ctx_err :: "string option"
  rq_proxyID :: u64
  rq_events :: "failureEvent list"

record failureIncrementEntry =
  fe_request :: nat
  fe_workspaceID :: u64
  fe_proxyID :: u64
  fe_autoRemove :: bool
  fe_threshold :: u8
  fe_action :: string

definition entry_key :: "failureIncrementEntry \<Rightarrow> route_key" where
  "entry_key e = (fe_workspaceID e, fe_proxyID e)"

definition failureBatchMaxItems :: nat where "failureBatchMaxItems = 8192"
definition failureSQLChunkSize :: nat where "failureSQLChunkSize = 200"
definition failureStreakSaturation :: u16 where "failureStreakSaturation = 255"

definition not_initialised :: string where "not_initialised = ''database not initialised''"

subsection \<open>Chunks\<close>

text \<open>The slices \<open>xs[start:end]\<close> of the chunking loops.\<close>

function chunks_of :: "nat \<Rightarrow> 'a list \<Rightarrow> 'a list list" where
  "chunks_of n xs = (if xs = [] \<or> n = 0 then [] else take n xs # chunks_of n (drop n xs))"
  by pat_completeness auto
termination by (relation "measure (\<lambda>(n, xs). length xs)") auto

declare chunks_of.simps [simp del]

lemma chunks_of_Nil [simp]: "chunks_of n [] = []"
  by (simp add: chunks_of.simps)

lemma concat_chunks_of [simp]: "0 < n \<Longrightarrow> concat (chunks_of n xs) = xs"
proof (induction n xs rule: chunks_of.induct)
  case (1 n xs)
  then show ?case by (cases "xs = []") (simp_all add: chunks_of.simps [of n xs])
qed

lemma chunks_of_short: "xs \<noteq> [] \<Longrightarrow> length xs \<le> n \<Longrightarrow> chunks_of n xs = [xs]"
  by (cases n) (simp_all add: chunks_of.simps [of _ xs])

subsection \<open>Resets\<close>

definition reset_row :: "ManagedProxy \<Rightarrow> ManagedProxy" where
  "reset_row m = (if mp_ConsecutiveFailures m \<noteq> 0 then m\<lparr>mp_ConsecutiveFailures := 0\<rparr> else m)"

definition reset_rows :: "route_key list \<Rightarrow> ManagedProxy list \<Rightarrow> ManagedProxy list \<times> unit" where
  "reset_rows pairs rows = (map (\<lambda>m. if row_key m \<in> set pairs then reset_row m else m) rows, ())"

text \<open>The dialects without \<open>UPDATE ... FROM\<close> issue one statement per pair.\<close>

fun reset_each :: "route_key list \<Rightarrow> failure_db \<Rightarrow> (string, unit) result \<times> failure_db" where
  "reset_each [] db = (Inr (), db)"
| "reset_each (p # pairs) db = (case exec_stmt (reset_rows [p]) db of
      (Inl e, db) \<Rightarrow> (Inl e, db)
    | (Inr _, db) \<Rightarrow> reset_each pairs db)"

definition execResetChunk :: "route_key list \<Rightarrow> failure_db \<Rightarrow> (string, unit) result \<times> failure_db" where
  "execResetChunk pairs db =
     (if pairs = [] then (Inr (), db)
      else if \<not> fd_open db then (Inl not_initialised, db)
      else if \<not> fd_postgres db then reset_each pairs db
      else exec_stmt (reset_rows pairs) db)"

fun reset_chunks :: "route_key list list \<Rightarrow> failure_db \<Rightarrow> (string, unit) result \<times> failure_db" where
  "reset_chunks [] db = (Inr (), db)"
| "reset_chunks (c # cs) db = (case execResetChunk c db of
      (Inl e, db) \<Rightarrow> (Inl e, db)
    | (Inr _, db) \<Rightarrow> reset_chunks cs db)"

text \<open>
  The candidates are a Go map from workspace to proxies, here the list of its entries; \<open>order\<close> is
  the order in which \<open>range\<close> visits them, which Go leaves open.
\<close>

type_synonym candidates = "(u64 \<times> u64 list) list"

fun add_candidate :: "u64 \<Rightarrow> u64 \<Rightarrow> candidates \<Rightarrow> candidates" where
  "add_candidate w p [] = [(w, [p])]"
| "add_candidate w p ((v, ps) # cs) = (if v = w then (v, ps @ [p]) # cs else (v, ps) # add_candidate w p cs)"

definition candidate_pairs :: "candidates \<Rightarrow> route_key list" where
  "candidate_pairs cs = concat (map (\<lambda>(w, ps). map (Pair w) ps) cs)"

definition applyFailureResets :: "(candidates \<Rightarrow> candidates) \<Rightarrow> candidates \<Rightarrow> failure_db \<Rightarrow>
    (string, unit) result \<times> failure_db" where
  "applyFailureResets order cs db =
     (if cs = [] then (Inr (), db)
      else if \<not> fd_open db then (Inl not_initialised, db)
      else reset_chunks (chunks_of failureSQLChunkSize (candidate_pairs (order cs))) db)"

subsection \<open>Increments\<close>

type_synonym counts = "route_key \<rightharpoonup> u16"

definition unsaturated :: "ManagedProxy \<Rightarrow> bool" where
  "unsaturated m \<longleftrightarrow> mp_ConsecutiveFailures m < failureStreakSaturation"

definition bump_row :: "ManagedProxy \<Rightarrow> ManagedProxy" where
  "bump_row m = m\<lparr>mp_ConsecutiveFailures := mp_ConsecutiveFailures m + 1\<rparr>"

text \<open>\<open>UPDATE ... FROM updates ... RETURNING\<close>: a row is updated once, however often its key is listed.\<close>

definition increment_rows :: "route_key list \<Rightarrow> ManagedProxy list \<Rightarrow> ManagedProxy list \<times> counts" where
  "increment_rows ks rows =
     (let hit = (\<lambda>m. row_key m \<in> set ks \<and> unsaturated m) in
      (map (\<lambda>m. if hit m then bump_row m else m) rows,
       map_of (rev (map (\<lambda>m. (row_key m, mp_ConsecutiveFailures m)) (map bump_row (filter hit rows))))))"

definition record_not_found :: string where "record_not_found = ''record not found''"

text \<open>The fallback reads each row and writes it back, and fails on a row that is not there.\<close>

definition write_row :: "route_key \<Rightarrow> u16 \<Rightarrow> ManagedProxy list \<Rightarrow> ManagedProxy list \<times> unit" where
  "write_row k v rows = (map (\<lambda>m. if row_key m = k then m\<lparr>mp_ConsecutiveFailures := v\<rparr> else m) rows, ())"

fun execIncrementChunkFallback :: "route_key list \<Rightarrow> counts \<Rightarrow> failure_db \<Rightarrow> (string, counts) result \<times> failure_db" where
  "execIncrementChunkFallback [] acc db = (Inr acc, db)"
| "execIncrementChunkFallback (k # ks) acc db =
     (case exec_stmt (\<lambda>rows. (rows, find (\<lambda>m. row_key m = k) rows)) db of
        (Inl e, db) \<Rightarrow> (Inl e, db)
      | (Inr None, db) \<Rightarrow> (Inl record_not_found, db)
      | (Inr (Some m), db) \<Rightarrow>
          if failureStreakSaturation \<le> mp_ConsecutiveFailures m
          then execIncrementChunkFallback ks (acc(k \<mapsto> mp_ConsecutiveFailures m)) db
          else (let newVal = mp_ConsecutiveFailures m + 1 in
            (case exec_stmt (write_row k newVal) db of
               (Inl e, db) \<Rightarrow> (Inl e, db)
             | (Inr _, db) \<Rightarrow> execIncrementChunkFallback ks (acc(k \<mapsto> newVal)) db)))"

definition execIncrementChunk :: "route_key list \<Rightarrow> failure_db \<Rightarrow> (string, counts) result \<times> failure_db" where
  "execIncrementChunk ks db =
     (if ks = [] then (Inr Map.empty, db)
      else if \<not> fd_open db then (Inl not_initialised, db)
      else if \<not> fd_postgres db then execIncrementChunkFallback ks Map.empty db
      else exec_stmt (increment_rows ks) db)"

fun increment_chunks :: "route_key list list \<Rightarrow> counts \<Rightarrow> failure_db \<Rightarrow> (string, counts) result \<times> failure_db" where
  "increment_chunks [] acc db = (Inr acc, db)"
| "increment_chunks (c # cs) acc db = (case execIncrementChunk c db of
      (Inl e, db) \<Rightarrow> (Inl e, db)
    | (Inr chunkCounts, db) \<Rightarrow> increment_chunks cs (acc ++ chunkCounts) db)"

definition applyFailureIncrements :: "failureIncrementEntry list \<Rightarrow> failure_db \<Rightarrow> (string, counts) result \<times> failure_db" where
  "applyFailureIncrements entries db =
     (if entries = [] then (Inr Map.empty, db)
      else if \<not> fd_open db then (Inl not_initialised, db)
      else increment_chunks (chunks_of failureSQLChunkSize (map entry_key entries)) Map.empty db)"

definition failureCount :: "counts \<Rightarrow> failureIncrementEntry \<Rightarrow> u16" where
  "failureCount counts e = (case counts (entry_key e) of Some c \<Rightarrow> c | None \<Rightarrow> failureStreakSaturation)"

subsection \<open>Ownership actions\<close>

text \<open>
  Both actions are one transaction (the row and the read models derived from it, which are not part
  of this model) and then a lookup of the routes nobody manages actively any more. The model of a
  transaction is one statement: it happens as a whole or not at all.
\<close>

definition matches_active :: "route_key \<Rightarrow> ManagedProxy \<Rightarrow> bool" where
  "matches_active k m \<longleftrightarrow> row_key m = k \<and> active_row m"

definition pause_row :: "string \<Rightarrow> ManagedProxy \<Rightarrow> ManagedProxy" where
  "pause_row reason m = m\<lparr>mp_State := ''paused'', mp_PauseReason := reason\<rparr>"

definition pause_rows :: "route_key \<Rightarrow> string \<Rightarrow> ManagedProxy list \<Rightarrow> ManagedProxy list \<times> nat" where
  "pause_rows k reason rows =
     (map (\<lambda>m. if matches_active k m then pause_row reason m else m) rows, length (filter (matches_active k) rows))"

definition delete_rows :: "route_key \<Rightarrow> ManagedProxy list \<Rightarrow> ManagedProxy list \<times> nat" where
  "delete_rows k rows = (filter (\<lambda>m. \<not> matches_active k m) rows, length (filter (matches_active k) rows))"

definition proxiesWithoutActiveManagement :: "u64 list \<Rightarrow> failure_db \<Rightarrow> (u64 list \<times> string option) \<times> failure_db" where
  "proxiesWithoutActiveManagement ids db =
     (if ids = [] then (([], None), db)
      else (case exec_stmt (\<lambda>rows. (rows, filter (\<lambda>p. p \<in> set ids \<and>
                  \<not> list_ex (\<lambda>m. mp_ProxyID m = p \<and> active_row m) rows) (fd_proxies db))) db of
          (Inl e, db) \<Rightarrow> (([], Some e), db)
        | (Inr ps, db) \<Rightarrow> ((ps, None), db)))"

type_synonym action_result = "bool \<times> u64 list \<times> string option"

definition after_action :: "u64 \<Rightarrow> (string, nat) result \<times> failure_db \<Rightarrow> action_result \<times> failure_db" where
  "after_action p r = (case r of
      (Inl e, db) \<Rightarrow> ((False, [], Some e), db)
    | (Inr n, db) \<Rightarrow>
        if n = 0 then ((False, [], None), db)
        else (case proxiesWithoutActiveManagement [p] db of ((inactive, err), db) \<Rightarrow> ((True, inactive, err), db)))"

definition PauseManagedProxy :: "u64 \<Rightarrow> u64 \<Rightarrow> string \<Rightarrow> failure_db \<Rightarrow> action_result \<times> failure_db" where
  "PauseManagedProxy w p reason db =
     (if \<not> fd_open db then ((False, [], Some not_initialised), db)
      else after_action p (exec_stmt (pause_rows (w, p) reason) db))"

definition DeleteActiveManagedProxy :: "u64 \<Rightarrow> u64 \<Rightarrow> failure_db \<Rightarrow> action_result \<times> failure_db" where
  "DeleteActiveManagedProxy w p db =
     (if \<not> fd_open db then ((False, [], Some not_initialised), db)
      else after_action p (exec_stmt (delete_rows (w, p)) db))"

text \<open>\<open>domain.Workspace{FailureAction: action}.EffectiveFailureAction()\<close>, on the field alone.\<close>

definition effective_action :: "string \<Rightarrow> string" where
  "effective_action action = (if action = ''delete'' then ''delete'' else ''pause'')"

lemma effective_action_eq: "EffectiveFailureAction w = effective_action (ws_FailureAction w)"
  by (simp add: EffectiveFailureAction_def effective_action_def)

definition failure_action :: "failureIncrementEntry \<Rightarrow> failure_db \<Rightarrow> action_result \<times> failure_db" where
  "failure_action e db =
     (if effective_action (fe_action e) = ''delete'' then DeleteActiveManagedProxy (fe_workspaceID e) (fe_proxyID e) db
      else PauseManagedProxy (fe_workspaceID e) (fe_proxyID e) ''failure'' db)"

subsection \<open>A batch\<close>

definition action_due :: "counts \<Rightarrow> failureIncrementEntry \<Rightarrow> bool" where
  "action_due counts e \<longleftrightarrow> fe_autoRemove e \<and> fe_threshold e \<noteq> 0 \<and>
     \<not> failureCount counts e < (ucast (fe_threshold e) :: u16)"

definition markRemoved :: "u64 \<Rightarrow> u64 list \<Rightarrow> failureResponse \<Rightarrow> failureResponse" where
  "markRemoved w inactive resp =
     resp\<lparr>fr_removedWorkspaces := insert w (fr_removedWorkspaces resp), fr_orphaned := fr_orphaned resp @ inactive\<rparr>"

fun act_loop :: "failureIncrementEntry list \<Rightarrow> counts \<Rightarrow> failureResponse list \<Rightarrow> failure_db \<Rightarrow>
    failureResponse list \<times> failure_db" where
  "act_loop [] counts rs db = (rs, db)"
| "act_loop (e # es) counts rs db =
     (if \<not> action_due counts e then act_loop es counts rs db
      else (case failure_action e db of ((changed, inactive, err), db) \<Rightarrow>
        let rs = (if changed then rs[fe_request e := markRemoved (fe_workspaceID e) inactive (rs ! fe_request e)] else rs) in
        (case err of
           Some x \<Rightarrow> (map (\<lambda>r. r\<lparr>fr_err := Some x\<rparr>) rs, db)
         | None \<Rightarrow> act_loop es counts rs db)))"

fun collect_events :: "nat \<Rightarrow> u64 \<Rightarrow> failureEvent list \<Rightarrow> candidates \<times> failureIncrementEntry list \<Rightarrow>
    candidates \<times> failureIncrementEntry list" where
  "collect_events i p [] acc = acc"
| "collect_events i p (ev # evs) (cs, es) =
     (if \<not> ev_HasEligibleChecks ev then collect_events i p evs (cs, es)
      else if ev_Success ev then collect_events i p evs (add_candidate (ev_WorkspaceID ev) p cs, es)
      else collect_events i p evs (cs, es @ [\<lparr>fe_request = i, fe_workspaceID = ev_WorkspaceID ev, fe_proxyID = p,
        fe_autoRemove = ev_AutoRemove ev, fe_threshold = ev_FailureThreshold ev, fe_action = ev_FailureAction ev\<rparr>]))"

fun collect_requests :: "nat \<Rightarrow> failureRequest list \<Rightarrow> candidates \<times> failureIncrementEntry list \<Rightarrow>
    candidates \<times> failureIncrementEntry list" where
  "collect_requests i [] acc = acc"
| "collect_requests i (rq # rqs) acc = collect_requests (Suc i) rqs (collect_events i (rq_proxyID rq) (rq_events rq) acc)"

definition empty_response :: failureResponse where
  "empty_response = \<lparr>fr_removedWorkspaces = {}, fr_orphaned = [], fr_err = None\<rparr>"

definition process_active :: "(candidates \<Rightarrow> candidates) \<Rightarrow> failureRequest list \<Rightarrow> failure_db \<Rightarrow> failureResponse list \<times> failure_db" where
  "process_active order reqs db =
     (case collect_requests 0 reqs ([], []) of (cs, entries) \<Rightarrow>
      (case applyFailureResets order cs db of
         (Inl e, db) \<Rightarrow> (map (\<lambda>_. empty_response\<lparr>fr_err := Some e\<rparr>) reqs, db)
       | (Inr _, db) \<Rightarrow>
          (case applyFailureIncrements entries db of
             (Inl e, db) \<Rightarrow> (map (\<lambda>_. empty_response\<lparr>fr_err := Some e\<rparr>) reqs, db)
           | (Inr counts, db) \<Rightarrow> act_loop entries counts (map (\<lambda>_. empty_response) reqs) db)))"

text \<open>
  The whole batch: nil requests get no response, cancelled ones the error of their context, the
  others their share of the batch, in order.
\<close>

definition is_active_request :: "failureRequest option \<Rightarrow> bool" where
  "is_active_request r \<longleftrightarrow> (case r of None \<Rightarrow> False | Some rq \<Rightarrow> rq_ctx_err rq = None)"

fun hand_out :: "failureRequest option list \<Rightarrow> failureResponse list \<Rightarrow> failureResponse option list" where
  "hand_out [] rs = []"
| "hand_out (None # batch) rs = None # hand_out batch rs"
| "hand_out (Some rq # batch) rs = (case rq_ctx_err rq of
      Some e \<Rightarrow> Some (empty_response\<lparr>fr_err := Some e\<rparr>) # hand_out batch rs
    | None \<Rightarrow> Some (hd rs) # hand_out batch (tl rs))"

definition processBatch :: "(candidates \<Rightarrow> candidates) \<Rightarrow> failureRequest option list \<Rightarrow> failure_db \<Rightarrow>
    failureResponse option list \<times> failure_db" where
  "processBatch order batch db =
     (let active = map the (filter is_active_request batch) in
      if active = [] then (hand_out batch [], db)
      else (case process_active order active db of (rs, db) \<Rightarrow> (hand_out batch rs, db)))"

subsection \<open>The table as a map\<close>

definition rows_map :: "ManagedProxy list \<Rightarrow> route_key \<rightharpoonup> ManagedProxy" where
  "rows_map rows = map_of (map (\<lambda>m. (row_key m, m)) rows)"

text \<open>The primary key of \<open>user_proxies\<close>.\<close>

definition keys_ok :: "ManagedProxy list \<Rightarrow> bool" where
  "keys_ok rows \<longleftrightarrow> distinct (map row_key rows)"

lemma rows_map_simps [simp]:
  "rows_map [] k = None"
  "rows_map (m # rows) k = (if row_key m = k then Some m else rows_map rows k)"
  by (simp_all add: rows_map_def)

lemma rows_map_key: "rows_map rows k = Some m \<Longrightarrow> row_key m = k"
  by (induction rows) (auto split: if_splits)

lemma rows_map_None: "rows_map rows k = None \<longleftrightarrow> k \<notin> row_key ` set rows"
  by (induction rows) auto

lemma rows_map_map:
  assumes "\<And>m. row_key (f m) = row_key m"
  shows "rows_map (map f rows) k = map_option f (rows_map rows k)"
  by (induction rows) (simp_all add: assms)

lemma keys_ok_map: "(\<And>m. row_key (f m) = row_key m) \<Longrightarrow> keys_ok rows \<Longrightarrow> keys_ok (map f rows)"
  by (simp add: keys_ok_def comp_def)

lemma keys_ok_filter: "keys_ok rows \<Longrightarrow> keys_ok (filter P rows)"
  by (simp add: keys_ok_def distinct_map_filter)

lemma rows_map_filter:
  "keys_ok rows \<Longrightarrow> rows_map (filter P rows) k = (case rows_map rows k of
     Some m \<Rightarrow> if P m then Some m else None | None \<Rightarrow> None)"
proof (induction rows)
  case (Cons m rows)
  then have "keys_ok rows" "row_key m = k \<Longrightarrow> rows_map rows k = None"
    by (auto simp: keys_ok_def rows_map_None)
  with Cons.IH show ?case by (auto split: option.splits)
qed simp

lemma find_row: "find (\<lambda>m. row_key m = k) rows = rows_map rows k"
  by (induction rows) auto

lemma row_key_updates [simp]:
  "row_key (m\<lparr>mp_ConsecutiveFailures := c\<rparr>) = row_key m"
  "row_key (reset_row m) = row_key m" "row_key (bump_row m) = row_key m" "row_key (pause_row r m) = row_key m"
  by (simp_all add: row_key_def reset_row_def bump_row_def pause_row_def)

lemma reset_row_eq: "reset_row m = m\<lparr>mp_ConsecutiveFailures := 0\<rparr>"
  by (simp add: reset_row_def)

lemma map_of_streaks:
  "map_of (map (\<lambda>m. (row_key m, mp_ConsecutiveFailures m)) rows) k = map_option mp_ConsecutiveFailures (rows_map rows k)"
  by (induction rows) auto

lemma filter_matches_active:
  "keys_ok rows \<Longrightarrow> filter (matches_active k) rows =
     (case rows_map rows k of Some m \<Rightarrow> if active_row m then [m] else [] | None \<Rightarrow> [])"
proof (induction rows)
  case (Cons m rows)
  then have "keys_ok rows" "row_key m = k \<Longrightarrow> rows_map rows k = None"
    by (auto simp: keys_ok_def rows_map_None)
  with Cons.IH show ?case by (auto simp: matches_active_def split: option.splits)
qed simp

subsection \<open>Statements\<close>

definition same_handle :: "failure_db \<Rightarrow> failure_db \<Rightarrow> bool" where
  "same_handle db db' \<longleftrightarrow> fd_open db' = fd_open db \<and> fd_postgres db' = fd_postgres db \<and> fd_proxies db' = fd_proxies db"

lemma same_handle_refl [simp]: "same_handle db db"
  by (simp add: same_handle_def)

lemma same_handle_trans [trans]: "same_handle a b \<Longrightarrow> same_handle b c \<Longrightarrow> same_handle a c"
  by (simp add: same_handle_def)

lemma exec_stmt_cases:
  assumes "exec_stmt stmt db = (r, db')"
  obtains (fails) e where "r = Inl e" "fd_rows db' = fd_rows db" "same_handle db db'" "fd_faults db \<noteq> []"
    | (runs) a where "r = Inr a" "stmt (fd_rows db) = (fd_rows db', a)" "same_handle db db'"
        "fd_faults db = [] \<Longrightarrow> fd_faults db' = []"
proof (cases "\<exists>e fs. fd_faults db = Some e # fs")
  case True
  with assms fails show ?thesis by (auto simp: exec_stmt_def same_handle_def)
next
  case False
  obtain rows a where s: "stmt (fd_rows db) = (rows, a)" by (cases "stmt (fd_rows db)")
  from False assms have "(r, db') = (Inr a, db\<lparr>fd_rows := rows, fd_faults := tl (fd_faults db)\<rparr>)"
    by (auto simp: exec_stmt_def s split: list.splits option.splits)
  with runs s show ?thesis by (auto simp: same_handle_def)
qed

lemma exec_stmt_ok:
  "fd_faults db = [] \<Longrightarrow> exec_stmt stmt db = (Inr (snd (stmt (fd_rows db))), db\<lparr>fd_rows := fst (stmt (fd_rows db))\<rparr>)"
  by (simp add: exec_stmt_def split: prod.splits)

text \<open>
  What a phase that succeeded did to the table: every row went through a function of its key.
\<close>

definition rows_through :: "(route_key \<Rightarrow> ManagedProxy \<Rightarrow> ManagedProxy) \<Rightarrow> failure_db \<Rightarrow> failure_db \<Rightarrow> bool" where
  "rows_through f db db' \<longleftrightarrow> same_handle db db' \<and> (keys_ok (fd_rows db) \<longrightarrow> keys_ok (fd_rows db')) \<and>
     (fd_faults db = [] \<longrightarrow> fd_faults db' = []) \<and>
     (\<forall>k. rows_map (fd_rows db') k = map_option (f k) (rows_map (fd_rows db) k))"

lemma rows_throughD:
  assumes "rows_through f db db'"
  shows "same_handle db db'" "keys_ok (fd_rows db) \<Longrightarrow> keys_ok (fd_rows db')" "fd_faults db = [] \<Longrightarrow> fd_faults db' = []"
    "rows_map (fd_rows db') k = map_option (f k) (rows_map (fd_rows db) k)"
  using assms by (simp_all add: rows_through_def del: split_paired_All)

lemma rows_through_id [simp]: "rows_through (\<lambda>_ m. m) db db"
  by (simp add: rows_through_def option.map_ident)

lemma rows_through_comp:
  "rows_through f a b \<Longrightarrow> rows_through g b c \<Longrightarrow> rows_through (\<lambda>k m. g k (f k m)) a c"
  unfolding rows_through_def
  by (auto intro: same_handle_trans simp: option.map_comp comp_def simp del: split_paired_All)

lemma rows_through_stmt:
  assumes "exec_stmt stmt db = (Inr a, db')"
    and "fst (stmt (fd_rows db)) = map (\<lambda>m. f (row_key m) m) (fd_rows db)" "\<And>k m. row_key (f k m) = row_key m"
  shows "rows_through f db db'"
  using assms(1)
proof (cases rule: exec_stmt_cases)
  case (runs a)
  with assms(2) have r: "fd_rows db' = map (\<lambda>m. f (row_key m) m) (fd_rows db)" by simp
  have "rows_map (map (\<lambda>m. f (row_key m) m) (fd_rows db)) k = map_option (f k) (rows_map (fd_rows db) k)" for k
    using rows_map_map [of "\<lambda>m. f (row_key m) m" "fd_rows db" k] rows_map_key [of "fd_rows db" k]
    by (cases "rows_map (fd_rows db) k") (simp_all add: assms(3))
  with runs r show ?thesis by (simp add: rows_through_def keys_ok_map assms(3))
qed simp

subsection \<open>Resets and increments, whatever fails\<close>

text \<open>A phase touches streaks only, even one that stops half-way.\<close>

definition only_streaks :: "failure_db \<Rightarrow> failure_db \<Rightarrow> bool" where
  "only_streaks db db' \<longleftrightarrow> (\<exists>f. rows_through (\<lambda>k m. m\<lparr>mp_ConsecutiveFailures := f k m\<rparr>) db db')"

lemma only_streaksI: "rows_through g db db' \<Longrightarrow> g = (\<lambda>k m. m\<lparr>mp_ConsecutiveFailures := f k m\<rparr>) \<Longrightarrow> only_streaks db db'"
  unfolding only_streaks_def by blast

lemma only_streaks_refl [simp]: "only_streaks db db"
  by (rule only_streaksI [where f = "\<lambda>_ m. mp_ConsecutiveFailures m"], rule rows_through_id) simp

lemma only_streaks_trans [trans]:
  assumes "only_streaks a b" "only_streaks b c" shows "only_streaks a c"
proof -
  from assms obtain f g where
    "rows_through (\<lambda>k m. m\<lparr>mp_ConsecutiveFailures := f k m\<rparr>) a b"
    "rows_through (\<lambda>k m. m\<lparr>mp_ConsecutiveFailures := g k m\<rparr>) b c"
    unfolding only_streaks_def by blast
  from rows_through_comp [OF this] show ?thesis
    by (rule only_streaksI [where f = "\<lambda>k m. g k (m\<lparr>mp_ConsecutiveFailures := f k m\<rparr>)"]) (simp add: fun_eq_iff)
qed

lemma only_streaks_fails:
  "exec_stmt stmt db = (Inl e, db') \<Longrightarrow> only_streaks db db' \<and> fd_faults db \<noteq> []"
  by (erule exec_stmt_cases, rule conjI, rule only_streaksI [where f = "\<lambda>_ m. mp_ConsecutiveFailures m" and g = "\<lambda>_ m. m"])
    (simp_all add: rows_through_def option.map_ident)

definition holds_active :: "ManagedProxy list \<Rightarrow> route_key \<Rightarrow> bool" where
  "holds_active rows k \<longleftrightarrow> (case rows_map rows k of Some m \<Rightarrow> active_row m | None \<Rightarrow> False)"

lemma only_streaks_active:
  assumes "only_streaks db db'"
  shows "holds_active (fd_rows db') k = holds_active (fd_rows db) k"
proof -
  from assms obtain f where r: "rows_through (\<lambda>k m. m\<lparr>mp_ConsecutiveFailures := f k m\<rparr>) db db'"
    unfolding only_streaks_def by blast
  show ?thesis using rows_throughD(4) [OF r, of k]
    by (cases "rows_map (fd_rows db) k") (simp_all add: holds_active_def active_row_def)
qed

definition reset_in :: "route_key set \<Rightarrow> route_key \<Rightarrow> ManagedProxy \<Rightarrow> ManagedProxy" where
  "reset_in K k m = (if k \<in> K then reset_row m else m)"

lemma reset_in_streak: "reset_in K = (\<lambda>k m. m\<lparr>mp_ConsecutiveFailures := if k \<in> K then 0 else mp_ConsecutiveFailures m\<rparr>)"
  by (simp add: reset_in_def reset_row_eq fun_eq_iff)

lemma reset_in_comp [simp]: "reset_in B k (reset_in A k m) = reset_in (A \<union> B) k m"
  by (simp add: reset_in_streak)

lemma reset_in_empty [simp]: "reset_in {} = (\<lambda>_ m. m)"
  by (simp add: reset_in_def fun_eq_iff)

definition reset_done :: "route_key set \<Rightarrow> failure_db \<Rightarrow> (string, unit) result \<Rightarrow> failure_db \<Rightarrow> bool" where
  "reset_done K db r db' \<longleftrightarrow> only_streaks db db' \<and> (r = Inr () \<longrightarrow> rows_through (reset_in K) db db') \<and>
     (fd_open db \<and> fd_faults db = [] \<longrightarrow> r = Inr ())"

lemma reset_done_through: "rows_through (reset_in K) db db' \<Longrightarrow> reset_done K db (Inr ()) db'"
  by (simp add: reset_done_def only_streaksI reset_in_streak)

lemma reset_done_none [simp]: "reset_done {} db (Inr ()) db"
  by (rule reset_done_through) simp

lemma reset_done_error: "\<not> fd_open db \<Longrightarrow> reset_done K db (Inl e) db"
  by (simp add: reset_done_def)

lemma reset_done_seq:
  assumes "reset_done A db (Inr ()) db1" "reset_done B db1 r db'"
  shows "reset_done (A \<union> B) db r db'"
proof -
  from assms(1) have t: "rows_through (reset_in A) db db1" and o: "only_streaks db db1"
    by (simp_all add: reset_done_def)
  have "rows_through (reset_in (A \<union> B)) db db'" if "r = Inr ()"
    using rows_through_comp [OF t, of "reset_in B" db'] assms(2) that by (simp add: reset_done_def)
  moreover have "r = Inr ()" if "fd_open db" "fd_faults db = []"
    using rows_throughD(1,3) [OF t] that assms(2) by (simp add: reset_done_def same_handle_def)
  ultimately show ?thesis
    using o assms(2) only_streaks_trans by (auto simp: reset_done_def)
qed

lemma reset_stmt:
  assumes "exec_stmt (reset_rows ps) db = (r, db')"
  shows "reset_done (set ps) db r db'"
proof (cases r)
  case (Inl e)
  with assms only_streaks_fails [of "reset_rows ps" db e db'] show ?thesis by (auto simp: reset_done_def)
next
  case (Inr u)
  have "rows_through (reset_in (set ps)) db db'"
    by (rule rows_through_stmt [OF assms [unfolded Inr]]) (simp_all add: reset_rows_def reset_in_def)
  with Inr show ?thesis by (simp add: reset_done_through)
qed

lemma reset_each_done: "reset_each ps db = (r, db') \<Longrightarrow> reset_done (set ps) db r db'"
proof (induction ps arbitrary: db)
  case Nil
  then show ?case by auto
next
  case (Cons p ps)
  obtain r1 db1 where s: "exec_stmt (reset_rows [p]) db = (r1, db1)" by (cases "exec_stmt (reset_rows [p]) db")
  show ?case
  proof (cases r1)
    case (Inl e)
    with s Cons.prems reset_stmt [OF s] show ?thesis by (auto simp: reset_done_def)
  next
    case (Inr u)
    then have r1: "r1 = Inr ()" by simp
    with Cons.prems s have "reset_each ps db1 = (r, db')" by simp
    from reset_done_seq [OF reset_stmt [OF s, unfolded r1] Cons.IH [OF this]] show ?thesis by simp
  qed
qed

lemma execResetChunk_done: "execResetChunk ps db = (r, db') \<Longrightarrow> reset_done (set ps) db r db'"
  by (auto simp: execResetChunk_def intro: reset_each_done reset_stmt reset_done_error split: if_splits)

lemma reset_chunks_done: "reset_chunks cs db = (r, db') \<Longrightarrow> reset_done (set (concat cs)) db r db'"
proof (induction cs arbitrary: db)
  case Nil
  then show ?case by auto
next
  case (Cons c cs)
  obtain r1 db1 where s: "execResetChunk c db = (r1, db1)" by (cases "execResetChunk c db")
  show ?case
  proof (cases r1)
    case (Inl e)
    with s Cons.prems execResetChunk_done [OF s] show ?thesis by (auto simp: reset_done_def)
  next
    case (Inr u)
    then have r1: "r1 = Inr ()" by simp
    with Cons.prems s have "reset_chunks cs db1 = (r, db')" by simp
    from reset_done_seq [OF execResetChunk_done [OF s, unfolded r1] Cons.IH [OF this]] show ?thesis by simp
  qed
qed

lemma applyFailureResets_done:
  assumes "applyFailureResets order cs db = (r, db')" "set (order cs) = set cs"
  shows "reset_done (set (candidate_pairs cs)) db r db'"
proof -
  have e: "set (concat (chunks_of failureSQLChunkSize (candidate_pairs (order cs)))) = set (candidate_pairs cs)"
    by (subst concat_chunks_of) (simp_all add: failureSQLChunkSize_def candidate_pairs_def assms(2))
  consider "cs = []" | "cs \<noteq> []" "\<not> fd_open db" | "cs \<noteq> []" "fd_open db" by blast
  then show ?thesis
  proof cases
    case 3
    with assms(1) have "reset_chunks (chunks_of failureSQLChunkSize (candidate_pairs (order cs))) db = (r, db')"
      by (simp add: applyFailureResets_def)
    from reset_chunks_done [OF this] show ?thesis unfolding e .
  qed (use assms(1) in \<open>auto simp: applyFailureResets_def candidate_pairs_def intro: reset_done_error\<close>)
qed

text \<open>One increment of a streak stops at the saturation value; larger values of older rows stay.\<close>

definition sat_bump :: "u16 \<Rightarrow> u16" where
  "sat_bump c = (if c < failureStreakSaturation then c + 1 else c)"

definition bump_n :: "nat \<Rightarrow> ManagedProxy \<Rightarrow> ManagedProxy" where
  "bump_n n m = m\<lparr>mp_ConsecutiveFailures := (sat_bump ^^ n) (mp_ConsecutiveFailures m)\<rparr>"

lemma unat_sat_bump: "unat (sat_bump c) = (if unat c < 255 then unat c + 1 else unat c)"
proof (cases "c < 255")
  case True
  then have "unat c < 255" by (simp add: word_less_nat_alt)
  then have "unat (c + 1) = unat c + 1" by (subst unat_add_lem [THEN iffD1]) simp_all
  with True \<open>unat c < 255\<close> show ?thesis by (simp add: sat_bump_def failureStreakSaturation_def)
qed (simp add: sat_bump_def failureStreakSaturation_def word_less_nat_alt)

lemma unat_sat_bump_n: "unat ((sat_bump ^^ n) c) = max (unat c) (min 255 (unat c + n))"
proof (induction n)
  case (Suc n)
  then show ?case by (simp add: unat_sat_bump max_def min_def)
qed (simp add: max_def)

lemma bump_n_simps [simp]:
  "bump_n 0 m = m" "bump_n j (bump_n i m) = bump_n (i + j) m" "row_key (bump_n n m) = row_key m"
  by (simp_all add: bump_n_def add.commute [of i] funpow_add)

lemma bump_n_0 [simp]: "bump_n 0 = (\<lambda>m. m)"
  by (simp add: fun_eq_iff)

lemma bump_n_streak: "bump_n n m = m\<lparr>mp_ConsecutiveFailures := (sat_bump ^^ n) (mp_ConsecutiveFailures m)\<rparr>"
  by (fact bump_n_def)

lemma bump_row_sat: "unsaturated m \<Longrightarrow> bump_row m = bump_n 1 m"
  by (simp add: bump_row_def bump_n_def unsaturated_def sat_bump_def)

lemma saturated_bump_n: "\<not> unsaturated m \<Longrightarrow> bump_n n m = m"
proof -
  assume "\<not> unsaturated m"
  then have "(sat_bump ^^ n) (mp_ConsecutiveFailures m) = mp_ConsecutiveFailures m"
    by (induction n) (simp_all add: unsaturated_def sat_bump_def)
  then show ?thesis by (simp add: bump_n_def)
qed

text \<open>
  How many increments a chunk gives a route: one for a joined \<open>UPDATE\<close>, one per listing in the
  fallback.
\<close>

definition chunk_hits :: "bool \<Rightarrow> route_key list \<Rightarrow> route_key \<Rightarrow> nat" where
  "chunk_hits postgres c k = (if postgres then of_bool (k \<in> set c) else count_list c k)"

definition batch_hits :: "bool \<Rightarrow> route_key list list \<Rightarrow> route_key \<Rightarrow> nat" where
  "batch_hits postgres cs k = sum_list (map (\<lambda>c. chunk_hits postgres c k) cs)"

lemma batch_hits_simps [simp]:
  "batch_hits pg [] k = 0" "batch_hits pg (c # cs) k = chunk_hits pg c k + batch_hits pg cs k"
  by (simp_all add: batch_hits_def)

lemma chunk_hits_le: "chunk_hits pg c k \<le> count_list c k"
  using count_list_0_iff [of c k] by (cases "count_list c k") (auto simp: chunk_hits_def)

lemma batch_hits_le: "batch_hits pg cs k \<le> count_list (concat cs) k"
  by (induction cs) (simp_all add: add_mono chunk_hits_le)

lemma batch_hits_pos: "k \<in> set (concat cs) \<Longrightarrow> 0 < batch_hits pg cs k"
proof (induction cs)
  case (Cons c cs)
  have "k \<in> set c \<Longrightarrow> 0 < chunk_hits pg c k"
    using count_list_0_iff [of c k] by (cases "count_list c k") (auto simp: chunk_hits_def)
  with Cons show ?case by (cases "k \<in> set c") auto
qed simp

lemma chunk_hits_distinct: "distinct c \<Longrightarrow> chunk_hits pg c k = of_bool (k \<in> set c)"
  by (induction c) (auto simp: chunk_hits_def of_bool_def count_list_0_iff)

text \<open>
  What the counts a chunk returns say about the rows it leaves: the streak of each listed route,
  or nothing for one that was saturated already.
\<close>

definition counts_rows :: "route_key set \<Rightarrow> counts \<Rightarrow> ManagedProxy list \<Rightarrow> bool" where
  "counts_rows K acc rows \<longleftrightarrow> dom acc \<subseteq> K \<and>
     (\<forall>k\<in>K. \<forall>m. rows_map rows k = Some m \<longrightarrow>
        acc k = Some (mp_ConsecutiveFailures m) \<or> acc k = None \<and> \<not> unsaturated m)"

lemma counts_rowsD:
  assumes "counts_rows K acc rows" "k \<in> K" "rows_map rows k = Some m"
  shows "acc k = Some (mp_ConsecutiveFailures m) \<or> acc k = None \<and> \<not> unsaturated m"
  using assms unfolding counts_rows_def by blast

lemma counts_rows_empty [simp]: "counts_rows {} Map.empty rows"
  by (simp add: counts_rows_def)

lemma counts_rows_seq:
  assumes a: "counts_rows A acc (fd_rows db)" and c: "counts_rows B cc (fd_rows db')"
    and through: "rows_through (\<lambda>k. bump_n (h k)) db db'" and h: "\<And>k. k \<notin> B \<Longrightarrow> h k = 0"
    and silent: "\<And>k m. k \<in> B \<Longrightarrow> cc k = None \<Longrightarrow> rows_map (fd_rows db') k = Some m \<Longrightarrow> rows_map (fd_rows db) k = Some m"
  shows "counts_rows (A \<union> B) (acc ++ cc) (fd_rows db')"
  unfolding counts_rows_def
proof (intro conjI ballI allI impI)
  show "dom (acc ++ cc) \<subseteq> A \<union> B" using a c by (auto simp: counts_rows_def)
next
  fix k m assume k: "k \<in> A \<union> B" and m: "rows_map (fd_rows db') k = Some m"
  have cB: "cc k = None" if "k \<notin> B" using c that by (auto simp: counts_rows_def)
  have aA: "acc k = None" if "k \<notin> A" using a that by (auto simp: counts_rows_def)
  have before: "rows_map (fd_rows db) k = Some m" if "cc k = None"
  proof (cases "k \<in> B")
    case False
    from rows_throughD(4) [OF through, of k] h [OF False] m show ?thesis
      by (cases "rows_map (fd_rows db) k") simp_all
  qed (use silent that m in blast)
  show "(acc ++ cc) k = Some (mp_ConsecutiveFailures m) \<or> (acc ++ cc) k = None \<and> \<not> unsaturated m"
  proof (cases "cc k")
    case None
    with before have old: "rows_map (fd_rows db) k = Some m" by blast
    show ?thesis
    proof (cases "k \<in> A")
      case True
      from counts_rowsD [OF a True old] None show ?thesis by (simp add: map_add_def)
    next
      case False
      with k counts_rowsD [OF c, of k m] m None aA show ?thesis by (auto simp: map_add_def)
    qed
  next
    case (Some v)
    with cB k have "k \<in> B" by fastforce
    from counts_rowsD [OF c this m] Some show ?thesis by (simp add: map_add_def)
  qed
qed

text \<open>The outcome of an increment phase, over the routes \<open>K\<close> it lists, \<open>h\<close> times each.\<close>

definition incremented ::
    "route_key set \<Rightarrow> (route_key \<Rightarrow> nat) \<Rightarrow> failure_db \<Rightarrow> (string, counts) result \<Rightarrow> failure_db \<Rightarrow> bool" where
  "incremented K h db r db' \<longleftrightarrow> only_streaks db db' \<and> (\<forall>k. k \<notin> K \<longrightarrow> h k = 0) \<and>
     (\<forall>cc. r = Inr cc \<longrightarrow> rows_through (\<lambda>k. bump_n (h k)) db db' \<and> (keys_ok (fd_rows db) \<longrightarrow> counts_rows K cc (fd_rows db')) \<and>
        (\<forall>k m. k \<in> K \<longrightarrow> cc k = None \<longrightarrow> rows_map (fd_rows db') k = Some m \<longrightarrow> rows_map (fd_rows db) k = Some m)) \<and>
     (fd_open db \<and> fd_postgres db \<and> fd_faults db = [] \<longrightarrow> is_ok r)"

lemma incrementedI:
  assumes through: "rows_through (\<lambda>k. bump_n (h k)) db db'" and h: "\<And>k. k \<notin> K \<Longrightarrow> h k = 0"
    and counts: "keys_ok (fd_rows db) \<Longrightarrow> counts_rows K cc (fd_rows db')"
    and silent: "\<And>k m. k \<in> K \<Longrightarrow> cc k = None \<Longrightarrow> rows_map (fd_rows db') k = Some m \<Longrightarrow> rows_map (fd_rows db) k = Some m"
  shows "incremented K h db (Inr cc) db'"
  unfolding incremented_def
proof (intro conjI allI impI)
  show "only_streaks db db'"
    by (rule only_streaksI [OF through, where f = "\<lambda>k m. (sat_bump ^^ h k) (mp_ConsecutiveFailures m)"]) (simp add: bump_n_def fun_eq_iff)
qed (use assms in \<open>auto\<close>)

lemma incremented_error:
  "only_streaks db db' \<Longrightarrow> \<not> (fd_open db \<and> fd_postgres db \<and> fd_faults db = []) \<Longrightarrow> (\<And>k. k \<notin> K \<Longrightarrow> h k = 0) \<Longrightarrow>
     incremented K h db (Inl e) db'"
  by (simp add: incremented_def)

lemma incrementedD:
  assumes "incremented K h db (Inr cc) db'"
  shows "rows_through (\<lambda>k. bump_n (h k)) db db'" "keys_ok (fd_rows db) \<Longrightarrow> counts_rows K cc (fd_rows db')"
    "k \<in> K \<Longrightarrow> cc k = None \<Longrightarrow> rows_map (fd_rows db') k = Some m \<Longrightarrow> rows_map (fd_rows db) k = Some m"
    "k \<notin> K \<Longrightarrow> h k = 0"
  using assms by (simp_all add: incremented_def del: split_paired_All)

lemma incremented_only: "incremented K h db r db' \<Longrightarrow> only_streaks db db'"
  by (simp add: incremented_def)

lemma incremented_none [simp]: "incremented {} (\<lambda>_. 0) db (Inr Map.empty) db"
  by (rule incrementedI) simp_all

lemma incremented_seq:
  assumes a: "incremented A g db (Inr acc) db1" and b: "incremented B h db1 (Inr cc) db'"
  shows "incremented (A \<union> B) (\<lambda>k. g k + h k) db (Inr (acc ++ cc)) db'"
proof (rule incrementedI)
  note A = incrementedD [OF a] and B = incrementedD [OF b]
  show "rows_through (\<lambda>k. bump_n (g k + h k)) db db'" using rows_through_comp [OF A(1) B(1)] by simp
  show "g k + h k = 0" if "k \<notin> A \<union> B" for k using that A(4) [of k] B(4) [of k] by simp
  show "counts_rows (A \<union> B) (acc ++ cc) (fd_rows db')" if k: "keys_ok (fd_rows db)"
    by (rule counts_rows_seq [OF A(2) [OF k] B(2) B(1) B(4) B(3)]) (use rows_throughD(2) [OF A(1) k] in auto)
  show "rows_map (fd_rows db) k = Some m"
    if k: "k \<in> A \<union> B" and none: "(acc ++ cc) k = None" and m: "rows_map (fd_rows db') k = Some m" for k m
  proof -
    have n: "acc k = None" "cc k = None" using none by (auto simp: map_add_def split: option.splits)
    have "rows_map (fd_rows db1) k = Some m"
    proof (cases "k \<in> B")
      case False
      from rows_throughD(4) [OF B(1), of k] B(4) [OF False] m show ?thesis by (cases "rows_map (fd_rows db1) k") simp_all
    qed (use B(3) n m in blast)
    then show ?thesis
    proof (cases "k \<in> A")
      case False
      from rows_throughD(4) [OF A(1), of k] A(4) [OF False] \<open>rows_map (fd_rows db1) k = Some m\<close> show ?thesis
        by (cases "rows_map (fd_rows db) k") simp_all
    qed (use A(3) n in blast)
  qed
qed

lemma incremented_seq_error:
  assumes a: "incremented A g db (Inr acc) db1" and b: "incremented B h db1 (Inl e) db'"
  shows "incremented (A \<union> B) (\<lambda>k. g k + h k) db (Inl e) db'"
proof -
  note A = incrementedD [OF a]
  have "\<not> (fd_open db \<and> fd_postgres db \<and> fd_faults db = [])"
    using b rows_throughD(1,3) [OF A(1)] by (simp add: incremented_def same_handle_def del: split_paired_All) blast
  moreover have "only_streaks db db'" by (rule only_streaks_trans [OF incremented_only [OF a] incremented_only [OF b]])
  moreover have "g k + h k = 0" if "k \<notin> A \<union> B" for k
    using that A(4) [of k] b by (simp add: incremented_def del: split_paired_All)
  ultimately show ?thesis by (intro incremented_error) simp_all
qed

lemma increment_stmt:
  assumes "exec_stmt (increment_rows c) db = (r, db')"
  shows "incremented (set c) (\<lambda>k. of_bool (k \<in> set c)) db r db'"
  using assms
proof (cases rule: exec_stmt_cases)
  case (fails e)
  with assms only_streaks_fails [of "increment_rows c" db e db'] show ?thesis
    by (auto intro: incremented_error)
next
  case (runs cc)
  let ?f = "\<lambda>k m. if k \<in> set c \<and> unsaturated m then bump_row m else m"
  let ?hits = "filter (\<lambda>m. row_key m \<in> set c \<and> unsaturated m) (fd_rows db)"
  from runs(2) have rows: "fd_rows db' = map (\<lambda>m. ?f (row_key m) m) (fd_rows db)"
    and cc: "cc = map_of (rev (map (\<lambda>m. (row_key m, mp_ConsecutiveFailures m)) (map bump_row ?hits)))"
    by (simp_all add: increment_rows_def)
  have f: "?f k m = bump_n (of_bool (k \<in> set c)) m" for k m
    by (simp add: bump_row_sat saturated_bump_n)
  have through: "rows_through (\<lambda>k. bump_n (of_bool (k \<in> set c))) db db'"
    using rows_through_stmt [of "increment_rows c" db cc db' "\<lambda>k. bump_n (of_bool (k \<in> set c))"] assms runs(1) rows
    by (simp add: increment_rows_def f)
  have counts: "cc k = (case rows_map (fd_rows db) k of
      Some m \<Rightarrow> if k \<in> set c \<and> unsaturated m then Some (mp_ConsecutiveFailures (bump_row m)) else None | None \<Rightarrow> None)"
    if ok: "keys_ok (fd_rows db)" for k
  proof -
    have d: "distinct (map row_key (map bump_row ?hits))"
      using keys_ok_map [of bump_row, OF _ keys_ok_filter [OF ok]] by (simp add: keys_ok_def)
    have "cc k = map_of (map (\<lambda>m. (row_key m, mp_ConsecutiveFailures m)) (map bump_row ?hits)) k"
      unfolding cc by (rule fun_cong [OF map_of_inject_set [THEN iffD2]]) (use d in \<open>auto simp: comp_def simp flip: rev_map\<close>)
    also have "\<dots> = map_option mp_ConsecutiveFailures (rows_map (map bump_row ?hits) k)"
      by (rule map_of_streaks)
    also have "\<dots> = (case rows_map (fd_rows db) k of
      Some m \<Rightarrow> if k \<in> set c \<and> unsaturated m then Some (mp_ConsecutiveFailures (bump_row m)) else None | None \<Rightarrow> None)"
      using rows_map_key [of "fd_rows db" k]
      by (auto simp: rows_map_map rows_map_filter [OF ok] split: option.splits)
    finally show ?thesis .
  qed
  show ?thesis unfolding runs(1)
  proof (rule incrementedI [OF through])
    show "counts_rows (set c) cc (fd_rows db')" if ok: "keys_ok (fd_rows db)"
      unfolding counts_rows_def
    proof (intro conjI ballI allI impI)
      show "dom cc \<subseteq> set c" by (auto simp: counts [OF ok] split: option.splits if_splits)
      fix k m assume k: "k \<in> set c" and m: "rows_map (fd_rows db') k = Some m"
      from m rows_throughD(4) [OF through, of k] obtain m0 where
        "rows_map (fd_rows db) k = Some m0" "m = bump_n 1 m0" using k by auto
      with counts [OF ok, of k] k bump_row_sat [of m0] saturated_bump_n [of m0 1]
      show "cc k = Some (mp_ConsecutiveFailures m) \<or> cc k = None \<and> \<not> unsaturated m" by (cases "unsaturated m0") simp_all
    qed
    show "rows_map (fd_rows db) k = Some m"
      if k: "k \<in> set c" and none: "cc k = None" and m: "rows_map (fd_rows db') k = Some m" for k m
    proof -
      from m rows_throughD(4) [OF through, of k] k obtain m0 where
        m0: "rows_map (fd_rows db) k = Some m0" "m = bump_n 1 m0" by auto
      have "\<not> unsaturated m0"
      proof
        assume "unsaturated m0"
        with m0(1) k have "(k, mp_ConsecutiveFailures (bump_row m0)) \<in>
            set (rev (map (\<lambda>m. (row_key m, mp_ConsecutiveFailures m)) (map bump_row ?hits)))"
          using rows_map_key [OF m0(1)] by (auto simp: rows_map_def image_iff dest!: map_of_SomeD)
        with none show False unfolding cc map_of_eq_None_iff by force
      qed
      with m0 show ?thesis by (simp add: saturated_bump_n)
    qed
  qed simp
qed

text \<open>The fallback: one read and at most one write per listing.\<close>

definition listed :: "counts \<Rightarrow> route_key set \<Rightarrow> ManagedProxy list \<Rightarrow> bool" where
  "listed acc K rows \<longleftrightarrow> dom acc = K \<and> (\<forall>k\<in>K. map_option mp_ConsecutiveFailures (rows_map rows k) = acc k)"

lemma rows_through_write:
  assumes "exec_stmt (write_row k v) db = (Inr u, db')"
  shows "rows_through (\<lambda>j m. if j = k then m\<lparr>mp_ConsecutiveFailures := v\<rparr> else m) db db'"
  by (rule rows_through_stmt [OF assms]) (simp_all add: write_row_def)

lemma bump_listed:
  assumes through: "rows_through (\<lambda>j m. if j = k then m\<lparr>mp_ConsecutiveFailures := v\<rparr> else m) db db'"
    and m: "rows_map (fd_rows db) k = Some m" and v: "v = sat_bump (mp_ConsecutiveFailures m)" and l: "listed acc K (fd_rows db)"
  shows "rows_through (\<lambda>j. bump_n (of_bool (j = k))) db db' \<and> listed (acc(k \<mapsto> v)) (insert k K) (fd_rows db')"
proof -
  note T = rows_throughD [OF through]
  have t: "rows_map (fd_rows db') j = map_option (bump_n (of_bool (j = k))) (rows_map (fd_rows db) j)" for j
    using T(4) [of j] m v by (simp add: bump_n_def)
  with T(1-3) have "rows_through (\<lambda>j. bump_n (of_bool (j = k))) db db'"
    unfolding rows_through_def by (simp del: split_paired_All)
  moreover have "listed (acc(k \<mapsto> v)) (insert k K) (fd_rows db')"
    unfolding listed_def
  proof (intro conjI ballI)
    show "dom (acc(k \<mapsto> v)) = insert k K" using l by (simp add: listed_def)
    fix j assume "j \<in> insert k K"
    with l have "j \<noteq> k \<Longrightarrow> map_option mp_ConsecutiveFailures (rows_map (fd_rows db) j) = acc j" by (simp add: listed_def)
    then show "map_option mp_ConsecutiveFailures (rows_map (fd_rows db') j) = (acc(k \<mapsto> v)) j"
      using t m v by (cases "j = k") (simp_all add: bump_n_def option.map_ident)
  qed
  ultimately show ?thesis ..
qed

lemma bump_seq:
  assumes "rows_through (\<lambda>j. bump_n (of_bool (j = k))) a b" "rows_through (\<lambda>j. bump_n (count_list ks j)) b c"
  shows "rows_through (\<lambda>j. bump_n (count_list (k # ks) j)) a c"
proof -
  have "(\<lambda>j. bump_n (of_bool (j = k) + count_list ks j)) = (\<lambda>j. bump_n (count_list (k # ks) j))"
    by (auto simp: fun_eq_iff)
  with rows_through_comp [OF assms] show ?thesis by simp
qed

lemma fallback_incremented:
  "execIncrementChunkFallback ks acc db = (r, db') \<Longrightarrow> listed acc K (fd_rows db) \<Longrightarrow> only_streaks db db' \<and>
     (\<forall>cc. r = Inr cc \<longrightarrow> rows_through (\<lambda>k. bump_n (count_list ks k)) db db' \<and> listed cc (K \<union> set ks) (fd_rows db'))"
proof (induction ks arbitrary: acc db K)
  case Nil
  then show ?case by auto
next
  case (Cons k ks)
  obtain r1 db1 where s: "exec_stmt (\<lambda>rows. (rows, find (\<lambda>m. row_key m = k) rows)) db = (r1, db1)"
    by (cases "exec_stmt (\<lambda>rows. (rows, find (\<lambda>m. row_key m = k) rows)) db")
  have "only_streaks db db1 \<and> fd_rows db1 = fd_rows db \<and> (\<forall>a. r1 = Inr a \<longrightarrow> a = rows_map (fd_rows db) k \<and> rows_through (\<lambda>_ m. m) db db1)"
    using s by (cases rule: exec_stmt_cases)
      (use s only_streaks_fails in \<open>auto simp: find_row rows_through_def option.map_ident
         intro: only_streaksI [where f = "\<lambda>_ m. mp_ConsecutiveFailures m" and g = "\<lambda>_ m. m"]\<close>)
  then have o1: "only_streaks db db1" and rows1: "fd_rows db1 = fd_rows db"
    and r1: "\<And>a. r1 = Inr a \<Longrightarrow> a = rows_map (fd_rows db) k \<and> rows_through (\<lambda>_ m. m) db db1" by blast+
  consider (stop) e where "r1 = Inl e" | (missing) "r1 = Inr None" | (found) m where "r1 = Inr (Some m)"
    by (cases r1) (auto simp: option.exhaust_sel)
  then show ?case
  proof cases
    case (found m)
    from r1 [OF found] have m: "rows_map (fd_rows db) k = Some m" and id: "rows_through (\<lambda>_ m. m) db db1" by auto
    have l1: "listed acc K (fd_rows db1)" using Cons.prems(2) rows1 by simp
    define v where "v = sat_bump (mp_ConsecutiveFailures m)"
    show ?thesis
    proof (cases "unsaturated m")
      case False
      then have v: "mp_ConsecutiveFailures m = v" and sat: "failureStreakSaturation \<le> mp_ConsecutiveFailures m"
        by (auto simp: v_def sat_bump_def unsaturated_def)
      have eq: "execIncrementChunkFallback ks (acc(k \<mapsto> v)) db1 = (r, db')"
        using Cons.prems(1) s found sat v by simp
      have "rows_through (\<lambda>j m'. if j = k then m'\<lparr>mp_ConsecutiveFailures := v\<rparr> else m') db db1"
      proof -
        have "map_option (\<lambda>m'. if j = k then m'\<lparr>mp_ConsecutiveFailures := v\<rparr> else m') (rows_map (fd_rows db) j) =
            map_option (\<lambda>m. m) (rows_map (fd_rows db) j)" for j
          using m v by (cases "j = k") auto
        with id show ?thesis unfolding rows_through_def by (simp del: split_paired_All)
      qed
      from bump_listed [OF this m v_def Cons.prems(2)] have b: "rows_through (\<lambda>j. bump_n (of_bool (j = k))) db db1"
        "listed (acc(k \<mapsto> v)) (insert k K) (fd_rows db1)" by auto
      from Cons.IH [OF eq b(2)] bump_seq [OF b(1)] only_streaks_trans [OF o1] show ?thesis by simp
    next
      case True
      then have v: "mp_ConsecutiveFailures m + 1 = v" and sat: "\<not> failureStreakSaturation \<le> mp_ConsecutiveFailures m"
        by (auto simp: v_def sat_bump_def unsaturated_def)
      obtain r2 db2 where w: "exec_stmt (write_row k v) db1 = (r2, db2)" by (cases "exec_stmt (write_row k v) db1")
      show ?thesis
      proof (cases r2)
        case (Inl e)
        then have "r = Inl e" "db' = db2" using Cons.prems(1) s found sat v w by (auto simp: Let_def)
        with w Inl only_streaks_fails o1 only_streaks_trans show ?thesis by blast
      next
        case (Inr u)
        then have eq: "execIncrementChunkFallback ks (acc(k \<mapsto> v)) db2 = (r, db')"
          using Cons.prems(1) s found sat v w by (simp add: Let_def)
        have t: "rows_through (\<lambda>j m'. if j = k then m'\<lparr>mp_ConsecutiveFailures := v\<rparr> else m') db db2"
          using rows_through_comp [OF id rows_through_write] w Inr by simp
        from bump_listed [OF this m v_def Cons.prems(2)] have b: "rows_through (\<lambda>j. bump_n (of_bool (j = k))) db db2"
          "listed (acc(k \<mapsto> v)) (insert k K) (fd_rows db2)" by auto
        have o2: "only_streaks db db2"
          by (rule only_streaksI [OF b(1), where f = "\<lambda>j m. (sat_bump ^^ of_bool (j = k)) (mp_ConsecutiveFailures m)"])
            (simp add: bump_n_def fun_eq_iff)
        from Cons.IH [OF eq b(2)] bump_seq [OF b(1)] only_streaks_trans [OF o2] show ?thesis by simp
      qed
    qed
  qed (use Cons.prems(1) s o1 in auto)
qed

lemma chunk_hits_outside: "k \<notin> set c \<Longrightarrow> chunk_hits pg c k = 0"
  by (simp add: chunk_hits_def)

lemma fallback_chunk:
  assumes "execIncrementChunkFallback ks Map.empty db = (r, db')" "\<not> fd_postgres db"
  shows "incremented (set ks) (chunk_hits False ks) db r db'"
proof -
  have "listed Map.empty {} (fd_rows db)" by (simp add: listed_def)
  from fallback_incremented [OF assms(1) this] have o: "only_streaks db db'"
    and ok: "\<And>cc. r = Inr cc \<Longrightarrow> rows_through (\<lambda>k. bump_n (count_list ks k)) db db' \<and> listed cc (set ks) (fd_rows db')"
    by simp_all
  show ?thesis
  proof (cases r)
    case (Inl e)
    with o assms(2) show ?thesis by (auto intro: incremented_error chunk_hits_outside)
  next
    case (Inr cc)
    from ok [OF Inr] have l: "listed cc (set ks) (fd_rows db')" and t: "rows_through (\<lambda>k. bump_n (chunk_hits False ks k)) db db'"
      by (simp_all add: chunk_hits_def)
    show ?thesis unfolding Inr
    proof (rule incrementedI [OF t])
      show "counts_rows (set ks) cc (fd_rows db')" using l by (force simp: listed_def counts_rows_def)
    qed (use l in \<open>auto simp: listed_def chunk_hits_outside\<close>)
  qed
qed

lemma execIncrementChunk_done:
  assumes "execIncrementChunk c db = (r, db')"
  shows "incremented (set c) (chunk_hits (fd_postgres db) c) db r db'"
proof -
  have h: "chunk_hits True c = (\<lambda>k. of_bool (k \<in> set c))" "chunk_hits pg [] = (\<lambda>_. 0)" for pg
    by (simp_all add: chunk_hits_def fun_eq_iff)
  consider "c = []" | "c \<noteq> []" "\<not> fd_open db" | "c \<noteq> []" "fd_open db" "\<not> fd_postgres db" | "c \<noteq> []" "fd_open db" "fd_postgres db"
    by blast
  then show ?thesis
  proof cases
    case 1
    with assms show ?thesis by (auto simp: execIncrementChunk_def h)
  next
    case 2
    with assms show ?thesis by (auto simp: execIncrementChunk_def intro: incremented_error chunk_hits_outside)
  next
    case 3
    with assms fallback_chunk [of c db r db'] show ?thesis by (simp add: execIncrementChunk_def)
  next
    case 4
    with assms increment_stmt [of c db r db'] show ?thesis by (simp add: execIncrementChunk_def h)
  qed
qed

lemma increment_chunks_done:
  "increment_chunks cs acc db = (r, db') \<Longrightarrow> incremented A g db0 (Inr acc) db \<Longrightarrow> fd_postgres db = pg \<Longrightarrow>
     incremented (A \<union> set (concat cs)) (\<lambda>k. g k + batch_hits pg cs k) db0 r db'"
proof (induction cs arbitrary: acc db A g)
  case Nil
  then show ?case by auto
next
  case (Cons c cs)
  obtain r1 db1 where s: "execIncrementChunk c db = (r1, db1)" by (cases "execIncrementChunk c db")
  note chunk = execIncrementChunk_done [OF s, unfolded Cons.prems(3)]
  show ?case
  proof (cases r1)
    case (Inl e)
    with Cons.prems(1) s have "r = Inl e" "db' = db1" by simp_all
    with incremented_seq_error [OF Cons.prems(2) chunk [unfolded Inl]] show ?thesis
      unfolding incremented_def by (auto simp: batch_hits_def chunk_hits_outside simp del: split_paired_All)
  next
    case (Inr cc)
    with Cons.prems(1) s have eq: "increment_chunks cs (acc ++ cc) db1 = (r, db')" by simp
    have "fd_postgres db1 = pg"
      using rows_throughD(1) [OF incrementedD(1) [OF chunk [unfolded Inr]]] Cons.prems(3) by (simp add: same_handle_def)
    from Cons.IH [OF eq incremented_seq [OF Cons.prems(2) chunk [unfolded Inr]] this] show ?thesis
      by (simp add: Un_assoc add.assoc)
  qed
qed

definition entry_chunks :: "failureIncrementEntry list \<Rightarrow> route_key list list" where
  "entry_chunks entries = chunks_of failureSQLChunkSize (map entry_key entries)"

lemma concat_entry_chunks [simp]: "concat (entry_chunks entries) = map entry_key entries"
  by (simp add: entry_chunks_def failureSQLChunkSize_def)

lemma applyFailureIncrements_done:
  assumes "applyFailureIncrements entries db = (r, db')"
  shows "incremented (entry_key ` set entries) (batch_hits (fd_postgres db) (entry_chunks entries)) db r db'"
proof -
  have out: "batch_hits pg (entry_chunks entries) k = 0" if "k \<notin> entry_key ` set entries" for pg k
    using batch_hits_le [of pg "entry_chunks entries" k] that by simp
  consider "entries = []" | "entries \<noteq> []" "\<not> fd_open db" | "entries \<noteq> []" "fd_open db" by blast
  then show ?thesis
  proof cases
    case 1
    then have "batch_hits pg (entry_chunks entries) = (\<lambda>_. 0)" for pg by (simp add: entry_chunks_def fun_eq_iff)
    with 1 assms show ?thesis by (auto simp: applyFailureIncrements_def)
  next
    case 2
    with assms out show ?thesis by (auto simp: applyFailureIncrements_def intro: incremented_error)
  next
    case 3
    with assms have "increment_chunks (entry_chunks entries) Map.empty db = (r, db')"
      by (simp add: applyFailureIncrements_def entry_chunks_def)
    from increment_chunks_done [OF this incremented_none refl] show ?thesis
      using concat_entry_chunks [of entries] by (simp del: set_concat concat_entry_chunks)
  qed
qed

subsection \<open>Actions\<close>

definition removal :: "failureIncrementEntry \<Rightarrow> ManagedProxy \<Rightarrow> ManagedProxy option" where
  "removal e m = (if effective_action (fe_action e) = ''delete'' then None else Some (pause_row ''failure'' m))"

definition idle_proxies :: "u64 \<Rightarrow> failure_db \<Rightarrow> u64 list" where
  "idle_proxies p db = filter (\<lambda>q. q = p \<and> \<not> list_ex (\<lambda>m. mp_ProxyID m = q \<and> active_row m) (fd_rows db)) (fd_proxies db)"

definition acted :: "failureIncrementEntry \<Rightarrow> failure_db \<Rightarrow> action_result \<Rightarrow> failure_db \<Rightarrow> bool" where
  "acted e db r db' \<longleftrightarrow> (case r of (changed, inactive, err) \<Rightarrow>
     same_handle db db' \<and> keys_ok (fd_rows db') \<and> (changed \<longrightarrow> holds_active (fd_rows db) (entry_key e)) \<and>
     (\<forall>k. rows_map (fd_rows db') k =
        (if changed \<and> k = entry_key e then Option.bind (rows_map (fd_rows db) k) (removal e) else rows_map (fd_rows db) k)) \<and>
     (\<not> changed \<or> err \<noteq> None \<longrightarrow> inactive = []) \<and> (changed \<and> err = None \<longrightarrow> inactive = idle_proxies (fe_proxyID e) db') \<and>
     (fd_open db \<and> fd_faults db = [] \<longrightarrow>
        err = None \<and> fd_faults db' = [] \<and> changed = holds_active (fd_rows db) (entry_key e)))"

lemma idle_lookup:
  assumes "proxiesWithoutActiveManagement [p] db = ((inactive, err), db')"
  shows "same_handle db db' \<and> fd_rows db' = fd_rows db \<and> (fd_faults db = [] \<longrightarrow> err = None \<and> fd_faults db' = []) \<and>
    (err \<noteq> None \<longrightarrow> inactive = []) \<and> (err = None \<longrightarrow> inactive = idle_proxies p db')"
proof -
  let ?stmt = "\<lambda>rows. (rows, filter (\<lambda>q. q \<in> set [p] \<and> \<not> list_ex (\<lambda>m. mp_ProxyID m = q \<and> active_row m) rows) (fd_proxies db))"
  obtain r db1 where s: "exec_stmt ?stmt db = (r, db1)" by (cases "exec_stmt ?stmt db")
  from s show ?thesis
  proof (cases rule: exec_stmt_cases)
    case (fails e)
    with assms s show ?thesis by (auto simp: proxiesWithoutActiveManagement_def)
  next
    case (runs a)
    with assms s show ?thesis by (auto simp: proxiesWithoutActiveManagement_def idle_proxies_def same_handle_def)
  qed
qed

lemma acted_stmt:
  assumes ok: "keys_ok (fd_rows db)" and r: "after_action (fe_proxyID e) (exec_stmt stmt db) = (r, db')" and "fd_open db"
    and stmt: "snd (stmt (fd_rows db)) = length (filter (matches_active (entry_key e)) (fd_rows db))"
      "keys_ok (fst (stmt (fd_rows db)))"
      "\<And>k. rows_map (fst (stmt (fd_rows db))) k =
         (if holds_active (fd_rows db) (entry_key e) \<and> k = entry_key e then Option.bind (rows_map (fd_rows db) k) (removal e)
          else rows_map (fd_rows db) k)"
  shows "acted e db r db'"
proof -
  have n: "length (filter (matches_active (entry_key e)) (fd_rows db)) = of_bool (holds_active (fd_rows db) (entry_key e))"
    by (simp add: filter_matches_active [OF ok] holds_active_def split: option.splits)
  obtain r1 db1 where s: "exec_stmt stmt db = (r1, db1)" by (cases "exec_stmt stmt db")
  from s show ?thesis
  proof (cases rule: exec_stmt_cases)
    case (fails x)
    with r s ok show ?thesis by (auto simp: after_action_def acted_def simp del: split_paired_All)
  next
    case (runs a)
    show ?thesis
    proof (cases "holds_active (fd_rows db) (entry_key e)")
      case False
      with runs n stmt r s show ?thesis
        by (auto simp: after_action_def acted_def simp del: split_paired_All)
    next
      case True
      obtain inactive err db2 where l: "proxiesWithoutActiveManagement [fe_proxyID e] db1 = ((inactive, err), db2)"
        by (metis prod.collapse)
      from True runs n stmt r s l have "r = (True, inactive, err)" "db' = db2" by (auto simp: after_action_def)
      with True runs stmt idle_lookup [OF l] show ?thesis
        by (auto simp: acted_def same_handle_def simp del: split_paired_All)
    qed
  qed
qed

lemma rows_map_pause:
  "keys_ok rows \<Longrightarrow> rows_map (fst (pause_rows kk reason rows)) k =
     (if holds_active rows kk \<and> k = kk then map_option (pause_row reason) (rows_map rows k) else rows_map rows k)"
proof -
  have e: "rows_map (map (\<lambda>m. if matches_active kk m then pause_row reason m else m) rows) k =
      map_option (\<lambda>m. if matches_active kk m then pause_row reason m else m) (rows_map rows k)"
    by (rule rows_map_map) simp
  then show ?thesis
  proof (cases "rows_map rows k")
    case (Some m)
    with rows_map_key [OF Some] e show ?thesis by (auto simp: pause_rows_def holds_active_def matches_active_def)
  qed (use e in \<open>auto simp: pause_rows_def\<close>)
qed

lemma rows_map_delete:
  "keys_ok rows \<Longrightarrow> rows_map (fst (delete_rows kk rows)) k =
     (if holds_active rows kk \<and> k = kk then None else rows_map rows k)"
  using rows_map_key [of rows k]
  by (auto simp: delete_rows_def rows_map_filter holds_active_def matches_active_def split: option.splits)

lemma failure_action_acted:
  assumes ok: "keys_ok (fd_rows db)" and r: "failure_action e db = (r, db')"
  shows "acted e db r db'"
proof (cases "fd_open db")
  case False
  with r have "r = (False, [], Some not_initialised)" "db' = db"
    by (auto simp: failure_action_def DeleteActiveManagedProxy_def PauseManagedProxy_def split: if_splits)
  with ok False show ?thesis by (auto simp: acted_def simp del: split_paired_All)
next
  case True
  show ?thesis
  proof (cases "effective_action (fe_action e) = ''delete''")
    case d: True
    show ?thesis
    proof (rule acted_stmt [OF ok _ True])
      show "after_action (fe_proxyID e) (exec_stmt (delete_rows (entry_key e)) db) = (r, db')"
        using r d True by (simp add: failure_action_def DeleteActiveManagedProxy_def entry_key_def)
      show "keys_ok (fst (delete_rows (entry_key e) (fd_rows db)))" using ok by (simp add: delete_rows_def keys_ok_filter)
      show "rows_map (fst (delete_rows (entry_key e) (fd_rows db))) k =
          (if holds_active (fd_rows db) (entry_key e) \<and> k = entry_key e then Option.bind (rows_map (fd_rows db) k) (removal e)
           else rows_map (fd_rows db) k)" for k
        using d by (simp add: rows_map_delete [OF ok] removal_def [abs_def])
    qed (simp add: delete_rows_def)
  next
    case d: False
    have kp: "keys_ok (fst (pause_rows kk reason (fd_rows db)))" for kk reason
      using ok by (simp add: pause_rows_def keys_ok_map)
    show ?thesis
    proof (rule acted_stmt [OF ok _ True])
      show "after_action (fe_proxyID e) (exec_stmt (pause_rows (entry_key e) ''failure'') db) = (r, db')"
        using r d True by (simp add: failure_action_def PauseManagedProxy_def entry_key_def)
      show "keys_ok (fst (pause_rows (entry_key e) ''failure'' (fd_rows db)))" by (rule kp)
      show "rows_map (fst (pause_rows (entry_key e) ''failure'' (fd_rows db))) k =
          (if holds_active (fd_rows db) (entry_key e) \<and> k = entry_key e then Option.bind (rows_map (fd_rows db) k) (removal e)
           else rows_map (fd_rows db) k)" for k
        using d by (cases "rows_map (fd_rows db) k") (auto simp: rows_map_pause [OF ok] removal_def)
    qed (simp add: pause_rows_def)
  qed
qed

lemma actedD:
  assumes "acted e db (changed, inactive, err) db'"
  shows "same_handle db db'" "keys_ok (fd_rows db')" "changed \<Longrightarrow> holds_active (fd_rows db) (entry_key e)"
    "k \<noteq> entry_key e \<or> \<not> changed \<Longrightarrow> rows_map (fd_rows db') k = rows_map (fd_rows db) k"
    "changed \<Longrightarrow> rows_map (fd_rows db') (entry_key e) = Option.bind (rows_map (fd_rows db) (entry_key e)) (removal e)"
    "fd_open db \<Longrightarrow> fd_faults db = [] \<Longrightarrow> err = None \<and> fd_faults db' = [] \<and> changed = holds_active (fd_rows db) (entry_key e)"
  using assms by (auto simp: acted_def simp del: split_paired_All)

lemma removal_inactive [simp]:
  "rows_map rows k = Option.bind r (removal e) \<Longrightarrow> \<not> holds_active rows k"
  by (cases r) (auto simp: holds_active_def removal_def pause_row_def active_row_def)

lemma holds_active_cong: "rows_map rows' k = rows_map rows k \<Longrightarrow> holds_active rows' k = holds_active rows k"
  by (simp add: holds_active_def)

text \<open>What the loop may have done to a route, and what it reports, whatever failed on the way.\<close>

definition removed_by ::
    "failureIncrementEntry \<Rightarrow> counts \<Rightarrow> failureResponse list \<Rightarrow> failure_db \<Rightarrow> failure_db \<Rightarrow> route_key \<Rightarrow> bool" where
  "removed_by e counts rs db db' k \<longleftrightarrow> entry_key e = k \<and> action_due counts e \<and> holds_active (fd_rows db) k \<and>
     rows_map (fd_rows db') k = Option.bind (rows_map (fd_rows db) k) (removal e) \<and>
     fe_workspaceID e \<in> fr_removedWorkspaces (rs ! fe_request e)"

definition loop_safe ::
    "failureIncrementEntry list \<Rightarrow> counts \<Rightarrow> failureResponse list \<Rightarrow> failure_db \<Rightarrow> failureResponse list \<Rightarrow> failure_db \<Rightarrow> bool" where
  "loop_safe es counts rs db rs' db' \<longleftrightarrow> length rs' = length rs \<and> keys_ok (fd_rows db') \<and>
     (\<forall>i < length rs. fr_removedWorkspaces (rs ! i) \<subseteq> fr_removedWorkspaces (rs' ! i)) \<and>
     (\<forall>k. rows_map (fd_rows db') k = rows_map (fd_rows db) k \<or> (\<exists>e \<in> set es. removed_by e counts rs' db db' k)) \<and>
     (\<forall>i < length rs. \<forall>w \<in> fr_removedWorkspaces (rs' ! i) - fr_removedWorkspaces (rs ! i).
        \<exists>e \<in> set es. fe_request e = i \<and> fe_workspaceID e = w \<and> removed_by e counts rs' db db' (entry_key e))"

lemma loop_safeD:
  assumes "loop_safe es counts rs db rs' db'"
  shows "length rs' = length rs" "keys_ok (fd_rows db')"
    "i < length rs \<Longrightarrow> fr_removedWorkspaces (rs ! i) \<subseteq> fr_removedWorkspaces (rs' ! i)"
    "rows_map (fd_rows db') k = rows_map (fd_rows db) k \<or> (\<exists>e \<in> set es. removed_by e counts rs' db db' k)"
    "i < length rs \<Longrightarrow> w \<in> fr_removedWorkspaces (rs' ! i) \<Longrightarrow> w \<notin> fr_removedWorkspaces (rs ! i) \<Longrightarrow>
       \<exists>e \<in> set es. fe_request e = i \<and> fe_workspaceID e = w \<and> removed_by e counts rs' db db' (entry_key e)"
  using assms unfolding loop_safe_def by blast+

lemma loop_safe_refl: "keys_ok (fd_rows db) \<Longrightarrow> loop_safe es counts rs db rs db"
  by (simp add: loop_safe_def)

lemma loop_safe_skip: "loop_safe es counts rs db rs' db' \<Longrightarrow> loop_safe (e # es) counts rs db rs' db'"
  unfolding loop_safe_def by (auto simp del: split_paired_All split_paired_Ex)

text \<open>One action in front of the rest of the loop.\<close>

lemma loop_safe_act:
  assumes due: "action_due counts e" and i: "fe_request e < length rs"
    and act: "acted e db (changed, inactive, err) db1"
    and rest: "loop_safe es counts rs1 db1 rs' db'"
    and rs1: "rs1 = (if changed then rs[fe_request e := markRemoved (fe_workspaceID e) inactive (rs ! fe_request e)] else rs)"
  shows "loop_safe (e # es) counts rs db rs' db'"
proof -
  note A = actedD [OF act] and L = loop_safeD [OF rest]
  have len: "length rs1 = length rs" by (simp add: rs1)
  have sub: "fr_removedWorkspaces (rs ! j) \<subseteq> fr_removedWorkspaces (rs1 ! j)" if "j < length rs" for j
    using that i by (cases "j = fe_request e") (auto simp: rs1 markRemoved_def)
  show ?thesis
  proof (cases changed)
    case False
    with A(4) have same: "rows_map (fd_rows db1) k = rows_map (fd_rows db) k" for k by blast
    then have "removed_by x counts rs' db db' k = removed_by x counts rs' db1 db' k" for x k
      by (simp add: removed_by_def holds_active_def)
    with loop_safe_skip [OF rest, of e] False same show ?thesis
      unfolding loop_safe_def rs1 by (simp del: split_paired_All split_paired_Ex)
  next
    case True
    let ?k = "entry_key e"
    have act: "holds_active (fd_rows db) ?k" using A(3) True .
    have gone: "\<not> holds_active (fd_rows db1) ?k" using A(5) True by (intro removal_inactive) blast
    have k': "rows_map (fd_rows db') ?k = rows_map (fd_rows db1) ?k"
      using L(4) [of ?k] gone by (auto simp: removed_by_def)
    have reported: "fe_workspaceID e \<in> fr_removedWorkspaces (rs' ! fe_request e)"
      using L(3) [of "fe_request e"] i True len by (auto simp: rs1 markRemoved_def)
    have e: "removed_by e counts rs' db db' ?k"
      using due act k' A(5) True reported by (simp add: removed_by_def)
    have lift: "removed_by x counts rs' db db' k" if "removed_by x counts rs' db1 db' k" for x k
    proof -
      have "k \<noteq> ?k" using that gone by (auto simp: removed_by_def)
      with A(4) have "rows_map (fd_rows db1) k = rows_map (fd_rows db) k" by blast
      with that show ?thesis by (simp add: removed_by_def holds_active_def)
    qed
    show ?thesis
      unfolding loop_safe_def
    proof (intro conjI allI impI ballI)
      show "length rs' = length rs" using L(1) len by simp
      show "keys_ok (fd_rows db')" by (rule L(2))
      show "fr_removedWorkspaces (rs ! j) \<subseteq> fr_removedWorkspaces (rs' ! j)" if "j < length rs" for j
        using sub [OF that] L(3) [of j] that len by auto
      show "rows_map (fd_rows db') k = rows_map (fd_rows db) k \<or> (\<exists>x\<in>set (e # es). removed_by x counts rs' db db' k)" for k
      proof (cases "k = ?k")
        case False
        with A(4) have "rows_map (fd_rows db1) k = rows_map (fd_rows db) k" by blast
        with L(4) [of k] lift [of _ k] show ?thesis by (metis list.set_intros(2))
      qed (use e in auto)
      show "\<exists>x\<in>set (e # es). fe_request x = j \<and> fe_workspaceID x = w \<and> removed_by x counts rs' db db' (entry_key x)"
        if j: "j < length rs" and w: "w \<in> fr_removedWorkspaces (rs' ! j) - fr_removedWorkspaces (rs ! j)" for j w
      proof (cases "w \<in> fr_removedWorkspaces (rs1 ! j)")
        case True
        with w j i have "j = fe_request e" "w = fe_workspaceID e"
          by (auto simp: rs1 markRemoved_def nth_list_update split: if_splits)
        with e show ?thesis by auto
      next
        case False
        with L(5) [of j w] w j len obtain x where x: "x \<in> set es" "fe_request x = j" "fe_workspaceID x = w"
          "removed_by x counts rs' db1 db' (entry_key x)" by auto
        from lift [OF x(4)] x show ?thesis by auto
      qed
    qed
  qed
qed

lemma loop_safe_stop: "keys_ok (fd_rows db) \<Longrightarrow> loop_safe es counts rs db (map (\<lambda>r. r\<lparr>fr_err := x\<rparr>) rs) db"
  by (simp add: loop_safe_def)

lemma act_loop_safe:
  "act_loop es counts rs db = (rs', db') \<Longrightarrow> keys_ok (fd_rows db) \<Longrightarrow> \<forall>e\<in>set es. fe_request e < length rs \<Longrightarrow>
     loop_safe es counts rs db rs' db'"
proof (induction es arbitrary: rs db)
  case Nil
  then show ?case by (simp add: loop_safe_refl)
next
  case (Cons e es)
  show ?case
  proof (cases "action_due counts e")
    case False
    with Cons show ?thesis by (simp add: loop_safe_skip)
  next
    case True
    obtain changed inactive err db1 where f: "failure_action e db = ((changed, inactive, err), db1)"
      by (metis prod.collapse)
    note act = failure_action_acted [OF Cons.prems(2) f]
    define rs1 where "rs1 = (if changed then rs[fe_request e := markRemoved (fe_workspaceID e) inactive (rs ! fe_request e)] else rs)"
    have "loop_safe es counts rs1 db1 rs' db'"
    proof (cases err)
      case None
      with Cons.prems(1) True f have "act_loop es counts rs1 db1 = (rs', db')" by (simp add: rs1_def Let_def)
      from Cons.IH [OF this actedD(2) [OF act]] Cons.prems(3) show ?thesis by (simp add: rs1_def)
    next
      case (Some x)
      with Cons.prems(1) True f have "rs' = map (\<lambda>r. r\<lparr>fr_err := Some x\<rparr>) rs1" "db' = db1" by (auto simp: rs1_def Let_def)
      with loop_safe_stop [OF actedD(2) [OF act]] show ?thesis by simp
    qed
    from loop_safe_act [OF True _ act this rs1_def] Cons.prems(3) show ?thesis by simp
  qed
qed

text \<open>Without failing statements the first entry that is due decides what happens to its route.\<close>

definition first_due :: "failureIncrementEntry list \<Rightarrow> counts \<Rightarrow> route_key \<Rightarrow> failureIncrementEntry option" where
  "first_due es counts k = find (\<lambda>e. entry_key e = k \<and> action_due counts e) es"

definition after_actions :: "failureIncrementEntry option \<Rightarrow> ManagedProxy option \<Rightarrow> ManagedProxy option" where
  "after_actions due row = (case (due, row) of
      (Some e, Some m) \<Rightarrow> if active_row m then removal e m else Some m | _ \<Rightarrow> row)"

lemma after_actions_inactive: "\<not> holds_active rows k \<Longrightarrow> after_actions d (rows_map rows k) = rows_map rows k"
  by (auto simp: after_actions_def holds_active_def split: option.splits)

lemma act_loop_exact:
  "act_loop es counts rs db = (rs', db') \<Longrightarrow> keys_ok (fd_rows db) \<Longrightarrow> fd_open db \<Longrightarrow> fd_faults db = [] \<Longrightarrow>
     \<forall>r\<in>set rs. fr_err r = None \<Longrightarrow> \<forall>e\<in>set es. fe_request e < length rs \<Longrightarrow>
     (\<forall>k. rows_map (fd_rows db') k = after_actions (first_due es counts k) (rows_map (fd_rows db) k)) \<and>
     (\<forall>r\<in>set rs'. fr_err r = None)"
proof (induction es arbitrary: rs db)
  case Nil
  then show ?case by (auto simp: after_actions_def first_due_def simp del: split_paired_All)
next
  case (Cons e es)
  show ?case
  proof (cases "action_due counts e")
    case False
    with Cons show ?thesis by (simp add: first_due_def del: split_paired_All)
  next
    case True
    obtain changed inactive err db1 where f: "failure_action e db = ((changed, inactive, err), db1)"
      by (metis prod.collapse)
    note act = failure_action_acted [OF Cons.prems(2) f]
    note A = actedD [OF act]
    from A(6) Cons.prems(3,4) have err: "err = None" and fl: "fd_faults db1 = []"
      and ch: "changed = holds_active (fd_rows db) (entry_key e)" by auto
    define rs1 where "rs1 = (if changed then rs[fe_request e := markRemoved (fe_workspaceID e) inactive (rs ! fe_request e)] else rs)"
    have eq: "act_loop es counts rs1 db1 = (rs', db')" using Cons.prems(1) True f err by (simp add: rs1_def Let_def)
    have none: "\<forall>r\<in>set rs1. fr_err r = None" "\<forall>x\<in>set es. fe_request x < length rs1"
      using Cons.prems(5,6) by (auto simp: rs1_def markRemoved_def all_set_conv_all_nth nth_list_update)
    from A(1) Cons.prems(3) have "fd_open db1" by (simp add: same_handle_def)
    from Cons.IH [OF eq A(2) this fl none] have
      IH: "\<And>k. rows_map (fd_rows db') k = after_actions (first_due es counts k) (rows_map (fd_rows db1) k)"
        "\<forall>r\<in>set rs'. fr_err r = None" by auto
    have "rows_map (fd_rows db') k = after_actions (first_due (e # es) counts k) (rows_map (fd_rows db) k)" for k
    proof (cases "k = entry_key e")
      case k: True
      show ?thesis
      proof (cases changed)
        case c: True
        from A(5) [OF c] have "\<not> holds_active (fd_rows db1) k" using k by simp
        with IH(1) [of k] A(5) [OF c] c ch k True show ?thesis
          by (auto simp: after_actions_inactive first_due_def after_actions_def holds_active_def split: option.splits)
      next
        case c: False
        with A(4) have s: "rows_map (fd_rows db1) k = rows_map (fd_rows db) k" by blast
        with c ch k have "\<not> holds_active (fd_rows db1) k" "\<not> holds_active (fd_rows db) k" by (simp_all add: holds_active_def)
        with IH(1) [of k] s show ?thesis by (simp add: after_actions_inactive)
      qed
    next
      case False
      with A(4) have "rows_map (fd_rows db1) k = rows_map (fd_rows db) k" by blast
      with IH(1) [of k] False show ?thesis by (auto simp: first_due_def)
    qed
    with IH(2) show ?thesis by blast
  qed
qed

subsection \<open>What a batch lists\<close>

definition failing :: "failureEvent \<Rightarrow> bool" where
  "failing ev \<longleftrightarrow> ev_HasEligibleChecks ev \<and> \<not> ev_Success ev"

definition entry_of :: "nat \<Rightarrow> u64 \<Rightarrow> failureEvent \<Rightarrow> failureIncrementEntry" where
  "entry_of i p ev = \<lparr>fe_request = i, fe_workspaceID = ev_WorkspaceID ev, fe_proxyID = p,
     fe_autoRemove = ev_AutoRemove ev, fe_threshold = ev_FailureThreshold ev, fe_action = ev_FailureAction ev\<rparr>"

fun entries_from :: "nat \<Rightarrow> failureRequest list \<Rightarrow> failureIncrementEntry list" where
  "entries_from i [] = []"
| "entries_from i (rq # rqs) = map (entry_of i (rq_proxyID rq)) (filter failing (rq_events rq)) @ entries_from (Suc i) rqs"

abbreviation batch_entries :: "failureRequest list \<Rightarrow> failureIncrementEntry list" where
  "batch_entries \<equiv> entries_from 0"

text \<open>The routes with a successful cycle in the batch.\<close>

definition succeeded :: "failureRequest list \<Rightarrow> route_key set" where
  "succeeded reqs = (\<Union>rq \<in> set reqs. (\<lambda>ev. (ev_WorkspaceID ev, rq_proxyID rq)) `
     set (filter (\<lambda>ev. ev_HasEligibleChecks ev \<and> ev_Success ev) (rq_events rq)))"

lemma add_candidate_pairs: "set (candidate_pairs (add_candidate w p cs)) = insert (w, p) (set (candidate_pairs cs))"
  by (induction w p cs rule: add_candidate.induct) (auto simp: candidate_pairs_def)

lemma collect_events_eq:
  "collect_events i p evs (cs, es) = (cs', es') \<Longrightarrow> es' = es @ map (entry_of i p) (filter failing evs) \<and>
     set (candidate_pairs cs') = set (candidate_pairs cs) \<union>
       {(ev_WorkspaceID ev, p) | ev. ev \<in> set evs \<and> ev_HasEligibleChecks ev \<and> ev_Success ev}"
proof (induction evs arbitrary: cs es)
  case (Cons ev evs)
  consider "\<not> ev_HasEligibleChecks ev" | "ev_HasEligibleChecks ev" "ev_Success ev" | "ev_HasEligibleChecks ev" "\<not> ev_Success ev"
    by blast
  then show ?case
  proof cases
    case 1
    with Cons.prems Cons.IH [of cs es] show ?thesis by (auto simp: failing_def)
  next
    case 2
    with Cons.prems Cons.IH [of "add_candidate (ev_WorkspaceID ev) p cs" es] show ?thesis
      by (auto simp: failing_def add_candidate_pairs)
  next
    case 3
    with Cons.prems Cons.IH [of cs "es @ [entry_of i p ev]"] show ?thesis by (auto simp: failing_def entry_of_def)
  qed
qed auto

lemma collect_requests_eq:
  "collect_requests i reqs (cs, es) = (cs', es') \<Longrightarrow> es' = es @ entries_from i reqs \<and>
     set (candidate_pairs cs') = set (candidate_pairs cs) \<union> succeeded reqs"
proof (induction reqs arbitrary: i cs es)
  case (Cons rq reqs)
  obtain cs1 es1 where c: "collect_events i (rq_proxyID rq) (rq_events rq) (cs, es) = (cs1, es1)"
    by (metis prod.collapse)
  with Cons.prems have "collect_requests (Suc i) reqs (cs1, es1) = (cs', es')" by simp
  from Cons.IH [OF this] collect_events_eq [OF c] show ?case by (auto simp: succeeded_def)
qed (auto simp: succeeded_def)

lemma entries_fromD:
  "e \<in> set (entries_from i reqs) \<Longrightarrow> \<exists>j < length reqs. \<exists>ev \<in> set (rq_events (reqs ! j)).
     failing ev \<and> e = entry_of (i + j) (rq_proxyID (reqs ! j)) ev"
proof (induction reqs arbitrary: i)
  case (Cons rq reqs)
  show ?case
  proof (cases "e \<in> set (entries_from (Suc i) reqs)")
    case True
    from Cons.IH [OF this] obtain j ev where "j < length reqs" "ev \<in> set (rq_events (reqs ! j))" "failing ev"
      "e = entry_of (Suc i + j) (rq_proxyID (reqs ! j)) ev" by blast
    then show ?thesis by (intro exI [of _ "Suc j"]) auto
  next
    case False
    with Cons.prems show ?thesis by (intro exI [of _ 0]) auto
  qed
qed simp

lemma entry_of_simps [simp]:
  "fe_request (entry_of i p ev) = i" "entry_key (entry_of i p ev) = (ev_WorkspaceID ev, p)"
  "fe_workspaceID (entry_of i p ev) = ev_WorkspaceID ev" "fe_proxyID (entry_of i p ev) = p"
  "fe_autoRemove (entry_of i p ev) = ev_AutoRemove ev" "fe_threshold (entry_of i p ev) = ev_FailureThreshold ev"
  "fe_action (entry_of i p ev) = ev_FailureAction ev"
  by (simp_all add: entry_of_def entry_key_def)

text \<open>
  The streak a batch leaves: from zero after a success, one more per increment up to saturation.
\<close>

definition streak_hits :: "bool \<Rightarrow> failureRequest list \<Rightarrow> route_key \<Rightarrow> nat" where
  "streak_hits pg reqs k = batch_hits pg (entry_chunks (batch_entries reqs)) k"

definition streak_after :: "bool \<Rightarrow> failureRequest list \<Rightarrow> ManagedProxy \<Rightarrow> nat" where
  "streak_after pg reqs m =
     (let s = (if row_key m \<in> succeeded reqs then 0 else unat (mp_ConsecutiveFailures m))
      in max s (min 255 (s + streak_hits pg reqs (row_key m))))"

definition streaked :: "bool \<Rightarrow> failureRequest list \<Rightarrow> ManagedProxy \<Rightarrow> ManagedProxy" where
  "streaked pg reqs m = m\<lparr>mp_ConsecutiveFailures := of_nat (streak_after pg reqs m)\<rparr>"

lemma streaked_eq: "bump_n (streak_hits pg reqs (row_key m)) (reset_in (succeeded reqs) (row_key m) m) = streaked pg reqs m"
  and unat_streaked: "unat (mp_ConsecutiveFailures (streaked pg reqs m)) = streak_after pg reqs m"
proof -
  let ?b = "bump_n (streak_hits pg reqs (row_key m)) (reset_in (succeeded reqs) (row_key m) m)"
  have b: "?b = m\<lparr>mp_ConsecutiveFailures := mp_ConsecutiveFailures ?b\<rparr>"
    by (simp add: bump_n_def reset_in_streak)
  have u: "unat (mp_ConsecutiveFailures ?b) = streak_after pg reqs m"
    by (simp add: bump_n_def reset_in_streak unat_sat_bump_n streak_after_def Let_def)
  have "mp_ConsecutiveFailures ?b = of_nat (unat (mp_ConsecutiveFailures ?b))" by simp
  then have "mp_ConsecutiveFailures ?b = of_nat (streak_after pg reqs m)" unfolding u .
  with b show "?b = streaked pg reqs m" by (metis streaked_def)
  with u show "unat (mp_ConsecutiveFailures (streaked pg reqs m)) = streak_after pg reqs m" by simp
qed

lemma unat_u8_u16: "unat (ucast (x :: u8) :: u16) = unat x"
  by transfer (simp add: take_bit_eq_mod)

lemma due_iff:
  assumes "counts_rows K counts rows" "entry_key e \<in> K" "rows_map rows (entry_key e) = Some m"
  shows "action_due counts e \<longleftrightarrow>
    fe_autoRemove e \<and> fe_threshold e \<noteq> 0 \<and> unat (fe_threshold e) \<le> unat (mp_ConsecutiveFailures m)"
proof -
  have t: "unat (ucast (fe_threshold e) :: u16) = unat (fe_threshold e)" by (rule unat_u8_u16)
  have b: "unat (fe_threshold e) \<le> 255" using unsigned_less [of "fe_threshold e", where 'a = nat] by simp
  from counts_rowsD [OF assms] consider "counts (entry_key e) = Some (mp_ConsecutiveFailures m)"
    | "counts (entry_key e) = None" "255 \<le> unat (mp_ConsecutiveFailures m)"
    by (auto simp: unsaturated_def failureStreakSaturation_def word_less_nat_alt)
  then show ?thesis
  proof cases
    case 2
    with b t show ?thesis by (auto simp: action_due_def failureCount_def failureStreakSaturation_def word_less_nat_alt)
  qed (simp add: action_due_def failureCount_def word_less_nat_alt t not_less)
qed

subsection \<open>What a batch does\<close>

text \<open>Both update phases of a batch, from the rows before it.\<close>

lemma collected: "collect_requests 0 reqs ([], []) = (cs, es) \<Longrightarrow> es = batch_entries reqs \<and> set (candidate_pairs cs) = succeeded reqs"
  by (drule collect_requests_eq) (simp add: candidate_pairs_def)

definition counted_phase :: "failureRequest list \<Rightarrow> failure_db \<Rightarrow> counts \<Rightarrow> failure_db \<Rightarrow> bool" where
  "counted_phase reqs db counts db2 \<longleftrightarrow> same_handle db db2 \<and> keys_ok (fd_rows db2) \<and> (fd_faults db = [] \<longrightarrow> fd_faults db2 = []) \<and>
     (\<forall>k. rows_map (fd_rows db2) k = map_option (streaked (fd_postgres db) reqs) (rows_map (fd_rows db) k)) \<and>
     counts_rows (entry_key ` set (batch_entries reqs)) counts (fd_rows db2)"

lemma process_active_cases:
  assumes p: "process_active order reqs db = (rs, db')" and ok: "keys_ok (fd_rows db)" and order: "\<And>cs. set (order cs) = set cs"
  obtains (stopped) e where "rs = map (\<lambda>_. empty_response\<lparr>fr_err := Some e\<rparr>) reqs" "only_streaks db db'"
      "\<not> (fd_open db \<and> fd_postgres db \<and> fd_faults db = [])"
    | (counted) counts db2 where "counted_phase reqs db counts db2"
        "act_loop (batch_entries reqs) counts (map (\<lambda>_. empty_response) reqs) db2 = (rs, db')"
proof -
  obtain cs es where c: "collect_requests 0 reqs ([], []) = (cs, es)" by (metis prod.collapse)
  note ces = collected [OF c]
  obtain r1 db1 where r1: "applyFailureResets order cs db = (r1, db1)" by (metis prod.collapse)
  note R = applyFailureResets_done [OF r1 order]
  show ?thesis
  proof (cases r1)
    case (Inl e)
    with p c r1 R show ?thesis by (intro stopped) (auto simp: process_active_def reset_done_def)
  next
    case (Inr u)
    then have R1: "rows_through (reset_in (succeeded reqs)) db db1" using R ces by (simp add: reset_done_def)
    obtain r2 db2 where r2: "applyFailureIncrements es db1 = (r2, db2)" by (metis prod.collapse)
    note I = applyFailureIncrements_done [OF r2]
    have pg: "fd_postgres db1 = fd_postgres db" "fd_open db1 = fd_open db"
      using rows_throughD(1) [OF R1] by (simp_all add: same_handle_def)
    show ?thesis
    proof (cases r2)
      case (Inl e)
      have "only_streaks db db'" "rs = map (\<lambda>_. empty_response\<lparr>fr_err := Some e\<rparr>) reqs"
        using p c r1 r2 Inl \<open>r1 = Inr u\<close> R incremented_only [OF I] only_streaks_trans
        by (auto simp: process_active_def reset_done_def)
      moreover have "\<not> (fd_open db \<and> fd_postgres db \<and> fd_faults db = [])"
        using I Inl pg rows_throughD(3) [OF R1] by (auto simp: incremented_def simp del: split_paired_All)
      ultimately show ?thesis by (intro stopped)
    next
      case (Inr counts)
      note I2 = incrementedD [OF I [unfolded Inr]]
      have th: "rows_through (\<lambda>k m. bump_n (streak_hits (fd_postgres db) reqs k) (reset_in (succeeded reqs) k m)) db db2"
        using rows_through_comp [OF R1 I2(1)] ces pg by (simp add: streak_hits_def)
      have "rows_map (fd_rows db2) k = map_option (streaked (fd_postgres db) reqs) (rows_map (fd_rows db) k)" for k
        using rows_throughD(4) [OF th, of k] rows_map_key [of "fd_rows db" k] streaked_eq [of "fd_postgres db" reqs]
        by (cases "rows_map (fd_rows db) k") auto
      then have "counted_phase reqs db counts db2"
        using rows_throughD(1-3) [OF th] I2(2) rows_throughD(2) [OF R1 ok] ok ces by (simp add: counted_phase_def)
      moreover have "act_loop (batch_entries reqs) counts (map (\<lambda>_. empty_response) reqs) db2 = (rs, db')"
        using p c r1 r2 Inr \<open>r1 = Inr u\<close> ces by (simp add: process_active_def)
      ultimately show ?thesis by (rule counted)
    qed
  qed
qed

text \<open>An entry that is due, in terms of the rows before the batch.\<close>

definition entry_due :: "bool \<Rightarrow> failureRequest list \<Rightarrow> ManagedProxy \<Rightarrow> failureIncrementEntry \<Rightarrow> bool" where
  "entry_due pg reqs m e \<longleftrightarrow> entry_key e = row_key m \<and> fe_autoRemove e \<and> fe_threshold e \<noteq> 0 \<and>
     unat (fe_threshold e) \<le> streak_after pg reqs m"

lemma counted_due:
  assumes c: "counted_phase reqs db counts db2" and e: "e \<in> set (batch_entries reqs)"
    and m: "rows_map (fd_rows db) (entry_key e) = Some m"
  shows "action_due counts e \<longleftrightarrow> entry_due (fd_postgres db) reqs m e"
proof -
  from c have cr: "counts_rows (entry_key ` set (batch_entries reqs)) counts (fd_rows db2)"
    and "rows_map (fd_rows db2) (entry_key e) = Some (streaked (fd_postgres db) reqs m)"
    using m by (simp_all add: counted_phase_def del: split_paired_All)
  from due_iff [OF cr _ this(2)] e unat_streaked [of "fd_postgres db" reqs m] rows_map_key [OF m] show ?thesis
    by (simp add: entry_due_def)
qed

lemma streaked_simps [simp]: "row_key (streaked pg reqs m) = row_key m" "active_row (streaked pg reqs m) = active_row m"
  by (simp_all add: streaked_def active_row_def)

lemma counted_active: "counted_phase reqs db counts db2 \<Longrightarrow> holds_active (fd_rows db2) k = holds_active (fd_rows db) k"
  by (cases "rows_map (fd_rows db) k") (simp_all add: counted_phase_def holds_active_def del: split_paired_All)

lemma entries_request: "e \<in> set (batch_entries reqs) \<Longrightarrow> fe_request e < length reqs"
  by (auto dest!: entries_fromD)

text \<open>A route lost its active owner exactly when a request of that route was told so, and then for cause.\<close>

definition removal_cause :: "bool \<Rightarrow> failureRequest list \<Rightarrow> failureRequest \<Rightarrow> u64 \<Rightarrow> ManagedProxy \<Rightarrow> bool" where
  "removal_cause pg reqs rq w m \<longleftrightarrow> (\<exists>ev \<in> set (rq_events rq). ev_WorkspaceID ev = w \<and> failing ev \<and> ev_AutoRemove ev \<and>
     ev_FailureThreshold ev \<noteq> 0 \<and> unat (ev_FailureThreshold ev) \<le> streak_after pg reqs m)"

lemma process_active_removals:
  assumes p: "process_active order reqs db = (rs, db')" and ok: "keys_ok (fd_rows db)" and order: "\<And>cs. set (order cs) = set cs"
  shows "length rs = length reqs"
    and "holds_active (fd_rows db) (w, pid) \<and> \<not> holds_active (fd_rows db') (w, pid) \<longleftrightarrow>
      (\<exists>i < length reqs. rq_proxyID (reqs ! i) = pid \<and> w \<in> fr_removedWorkspaces (rs ! i))"
    and "i < length reqs \<Longrightarrow> w \<in> fr_removedWorkspaces (rs ! i) \<Longrightarrow>
      \<exists>m. rows_map (fd_rows db) (w, rq_proxyID (reqs ! i)) = Some m \<and> active_row m \<and> removal_cause (fd_postgres db) reqs (reqs ! i) w m"
proof -
  have main: "length rs = length reqs \<and>
     (holds_active (fd_rows db) (w, pid) \<and> \<not> holds_active (fd_rows db') (w, pid) \<longleftrightarrow>
      (\<exists>i < length reqs. rq_proxyID (reqs ! i) = pid \<and> w \<in> fr_removedWorkspaces (rs ! i))) \<and>
     (\<forall>i < length reqs. w \<in> fr_removedWorkspaces (rs ! i) \<longrightarrow>
      (\<exists>m. rows_map (fd_rows db) (w, rq_proxyID (reqs ! i)) = Some m \<and> active_row m \<and> removal_cause (fd_postgres db) reqs (reqs ! i) w m))"
    for w pid
    using p ok order
  proof (cases rule: process_active_cases)
    case (stopped e)
    then show ?thesis by (simp add: only_streaks_active empty_response_def)
  next
    case (counted counts db2)
    have "keys_ok (fd_rows db2)" using counted(1) by (simp add: counted_phase_def)
    from act_loop_safe [OF counted(2) this] entries_request
    have safe: "loop_safe (batch_entries reqs) counts (map (\<lambda>_. empty_response) reqs) db2 rs db'" by auto
    note L = loop_safeD [OF safe]
    have told: "\<exists>e \<in> set (batch_entries reqs). fe_request e = i \<and> fe_workspaceID e = w \<and>
        removed_by e counts rs db2 db' (entry_key e) \<and> entry_key e = (w, rq_proxyID (reqs ! i))"
      if "i < length reqs" "w \<in> fr_removedWorkspaces (rs ! i)" for i w
      using L(5) [of i w] that entries_fromD [of _ 0 reqs] by (fastforce simp: empty_response_def)
    show ?thesis
    proof (intro conjI allI impI iffI)
      show "length rs = length reqs" using L(1) by simp
    next
      assume a: "holds_active (fd_rows db) (w, pid) \<and> \<not> holds_active (fd_rows db') (w, pid)"
      with L(4) [of "(w, pid)"] counted_active [OF counted(1)] obtain e where
        e: "e \<in> set (batch_entries reqs)" "removed_by e counts rs db2 db' (w, pid)"
        by (auto simp: holds_active_def)
      from entries_fromD [OF e(1)] e(2) show "\<exists>i < length reqs. rq_proxyID (reqs ! i) = pid \<and> w \<in> fr_removedWorkspaces (rs ! i)"
        by (auto simp: removed_by_def)
    next
      assume "\<exists>i < length reqs. rq_proxyID (reqs ! i) = pid \<and> w \<in> fr_removedWorkspaces (rs ! i)"
      with told obtain e where "removed_by e counts rs db2 db' (w, pid)" by metis
      then show "holds_active (fd_rows db) (w, pid)" "\<not> holds_active (fd_rows db') (w, pid)"
        using counted_active [OF counted(1)] removal_inactive by (auto simp: removed_by_def)
    next
      fix i assume i: "i < length reqs" "w \<in> fr_removedWorkspaces (rs ! i)"
      from told [OF i] obtain e where e: "e \<in> set (batch_entries reqs)" "fe_request e = i" "fe_workspaceID e = w"
        "removed_by e counts rs db2 db' (entry_key e)" "entry_key e = (w, rq_proxyID (reqs ! i))" by blast
      then have act: "holds_active (fd_rows db) (entry_key e)" and due: "action_due counts e"
        using counted_active [OF counted(1)] by (simp_all add: removed_by_def)
      from act obtain m where m: "rows_map (fd_rows db) (entry_key e) = Some m" "active_row m"
        by (auto simp: holds_active_def split: option.splits)
      from counted_due [OF counted(1) e(1) m(1)] due have "entry_due (fd_postgres db) reqs m e" by simp
      with entries_fromD [OF e(1)] e m have "removal_cause (fd_postgres db) reqs (reqs ! i) w m"
        by (auto simp: entry_due_def removal_cause_def)
      with m e(5) show "\<exists>m. rows_map (fd_rows db) (w, rq_proxyID (reqs ! i)) = Some m \<and> active_row m \<and>
          removal_cause (fd_postgres db) reqs (reqs ! i) w m" by auto
    qed
  qed
  from main show "length rs = length reqs" by blast
  from main show "holds_active (fd_rows db) (w, pid) \<and> \<not> holds_active (fd_rows db') (w, pid) \<longleftrightarrow>
      (\<exists>i < length reqs. rq_proxyID (reqs ! i) = pid \<and> w \<in> fr_removedWorkspaces (rs ! i))" by blast
  from main show "i < length reqs \<Longrightarrow> w \<in> fr_removedWorkspaces (rs ! i) \<Longrightarrow>
      \<exists>m. rows_map (fd_rows db) (w, rq_proxyID (reqs ! i)) = Some m \<and> active_row m \<and> removal_cause (fd_postgres db) reqs (reqs ! i) w m"
    by blast
qed

text \<open>The row a fault-free batch leaves of a route.\<close>

definition batch_row :: "failureRequest list \<Rightarrow> ManagedProxy \<Rightarrow> ManagedProxy option" where
  "batch_row reqs m =
     (case find (entry_due True reqs m) (batch_entries reqs) of
        Some e \<Rightarrow> if active_row m then removal e (streaked True reqs m) else Some (streaked True reqs m)
      | None \<Rightarrow> Some (streaked True reqs m))"

lemma process_active_exact:
  assumes p: "process_active order reqs db = (rs, db')" and ok: "keys_ok (fd_rows db)" and order: "\<And>cs. set (order cs) = set cs"
    and db: "fd_open db" "fd_postgres db" "fd_faults db = []"
  shows "rows_map (fd_rows db') k = Option.bind (rows_map (fd_rows db) k) (batch_row reqs)"
    and "r \<in> set rs \<Longrightarrow> fr_err r = None"
proof -
  have main: "rows_map (fd_rows db') k = Option.bind (rows_map (fd_rows db) k) (batch_row reqs) \<and> (\<forall>r\<in>set rs. fr_err r = None)" for k
    using p ok order
  proof (cases rule: process_active_cases)
    case (counted counts db2)
    note C = counted(1)
    from C db have db2: "keys_ok (fd_rows db2)" "fd_open db2" "fd_faults db2 = []"
      by (simp_all add: counted_phase_def same_handle_def)
    from act_loop_exact [OF counted(2) db2] entries_request
    have E: "rows_map (fd_rows db') k = after_actions (first_due (batch_entries reqs) counts k) (rows_map (fd_rows db2) k)"
      and err: "\<forall>r\<in>set rs. fr_err r = None" for k by (simp_all add: empty_response_def del: split_paired_All)
    have row2: "rows_map (fd_rows db2) k = map_option (streaked True reqs) (rows_map (fd_rows db) k)"
      using C db by (simp add: counted_phase_def del: split_paired_All)
    have "rows_map (fd_rows db') k = Option.bind (rows_map (fd_rows db) k) (batch_row reqs)"
    proof (cases "rows_map (fd_rows db) k")
      case None
      with E [of k] row2 show ?thesis by (simp add: after_actions_def split: option.splits)
    next
      case (Some m)
      have "first_due (batch_entries reqs) counts k = find (entry_due True reqs m) (batch_entries reqs)"
        unfolding first_due_def
      proof (rule find_cong [OF refl])
        fix e assume e: "e \<in> set (batch_entries reqs)"
        show "(entry_key e = k \<and> action_due counts e) = entry_due True reqs m e"
          using counted_due [OF C e, of m] Some rows_map_key [OF Some] db by (auto simp: entry_due_def)
      qed
      with E [of k] row2 Some show ?thesis by (simp add: after_actions_def batch_row_def split: option.splits)
    qed
    with err show ?thesis by blast
  qed (use db in blast)
  from main show "rows_map (fd_rows db') k = Option.bind (rows_map (fd_rows db) k) (batch_row reqs)" by blast
  from main show "r \<in> set rs \<Longrightarrow> fr_err r = None" by blast
qed

subsection \<open>Responses\<close>

definition active_requests :: "failureRequest option list \<Rightarrow> failureRequest list" where
  "active_requests batch = map the (filter is_active_request batch)"

lemma active_requests_simps [simp]:
  "active_requests [] = []"
  "active_requests (x # batch) = (if is_active_request x then the x # active_requests batch else active_requests batch)"
  by (simp_all add: active_requests_def)

lemma length_hand_out [simp]: "length (hand_out batch rs) = length batch"
  by (induction batch rs rule: hand_out.induct) (auto split: option.splits)

text \<open>Some request of the route was told that the workspace no longer manages it.\<close>

definition told :: "failureRequest option list \<Rightarrow> failureResponse option list \<Rightarrow> u64 \<Rightarrow> u64 \<Rightarrow> bool" where
  "told batch resps w pid \<longleftrightarrow> (\<exists>i < length batch. \<exists>rq r. batch ! i = Some rq \<and> resps ! i = Some r \<and>
     rq_proxyID rq = pid \<and> w \<in> fr_removedWorkspaces r)"

lemma told_Cons:
  "told (x # batch) (y # ys) w pid \<longleftrightarrow>
     (\<exists>rq r. x = Some rq \<and> y = Some r \<and> rq_proxyID rq = pid \<and> w \<in> fr_removedWorkspaces r) \<or> told batch ys w pid"
  unfolding told_def by (auto simp: less_Suc_eq_0_disj)

lemma told_hand_out:
  "length rs = length (active_requests batch) \<Longrightarrow> told batch (hand_out batch rs) w pid \<longleftrightarrow>
     (\<exists>i < length (active_requests batch). rq_proxyID (active_requests batch ! i) = pid \<and> w \<in> fr_removedWorkspaces (rs ! i))"
proof (induction batch rs rule: hand_out.induct)
  case (3 rq batch rs)
  show ?case
  proof (cases "rq_ctx_err rq")
    case None
    with 3 show ?thesis
      by (cases rs) (auto simp: told_Cons is_active_request_def less_Suc_eq_0_disj)
  next
    case (Some e)
    with 3 show ?thesis by (simp add: told_Cons is_active_request_def empty_response_def)
  qed
qed (simp_all add: told_Cons is_active_request_def, simp add: told_def)

lemma processBatch_cases:
  assumes "processBatch order batch db = (resps, db')"
  obtains (idle) "active_requests batch = []" "resps = hand_out batch []" "db' = db"
    | (busy) rs where "process_active order (active_requests batch) db = (rs, db')" "resps = hand_out batch rs"
  using assms by (auto simp: processBatch_def Let_def active_requests_def split: if_splits prod.splits)

subsection \<open>Batching\<close>

text \<open>
  The loop of \<open>run\<close>: a request arrives or the window's timer fires. The state is the batch being
  filled and whether a timer is set; a step may hand a batch to \<open>processBatch\<close>.
\<close>

datatype tracker_event = Arrive failureRequest | Window

type_synonym tracker_state = "failureRequest list \<times> bool"

fun run_step :: "tracker_event \<Rightarrow> tracker_state \<Rightarrow> failureRequest list option \<times> tracker_state" where
  "run_step (Arrive rq) (batch, timer) =
     (let batch = batch @ [rq] in
      if failureBatchMaxItems \<le> length batch then (Some batch, [], False) else (None, batch, True))"
| "run_step Window (batch, timer) =
     (if \<not> timer then (None, batch, timer) else (if batch = [] then None else Some batch, [], False))"

fun run_tracker :: "tracker_event list \<Rightarrow> tracker_state \<Rightarrow> failureRequest list list \<times> tracker_state" where
  "run_tracker [] s = ([], s)"
| "run_tracker (e # es) s = (case run_step e s of (out, s1) \<Rightarrow>
     (case run_tracker es s1 of (outs, s2) \<Rightarrow> ((case out of None \<Rightarrow> outs | Some b \<Rightarrow> b # outs), s2)))"

definition arrivals :: "tracker_event list \<Rightarrow> failureRequest list" where
  "arrivals es = concat (map (\<lambda>e. case e of Arrive rq \<Rightarrow> [rq] | Window \<Rightarrow> []) es)"

definition tracker_ok :: "tracker_state \<Rightarrow> bool" where
  "tracker_ok s \<longleftrightarrow> length (fst s) < failureBatchMaxItems \<and> (fst s \<noteq> [] \<longrightarrow> snd s)"

lemma run_step_ok:
  assumes "run_step e s = (out, s1)" "tracker_ok s"
  shows "tracker_ok s1 \<and> (case out of None \<Rightarrow> True | Some b \<Rightarrow> b \<noteq> [] \<and> length b \<le> failureBatchMaxItems) \<and>
    (case out of None \<Rightarrow> [] | Some b \<Rightarrow> b) @ fst s1 = fst s @ arrivals [e]"
  using assms by (cases e; cases s) (auto simp: tracker_ok_def arrivals_def Let_def failureBatchMaxItems_def split: if_splits)

lemma run_tracker_ok:
  "run_tracker es s = (outs, s') \<Longrightarrow> tracker_ok s \<Longrightarrow> tracker_ok s' \<and>
     (\<forall>b\<in>set outs. b \<noteq> [] \<and> length b \<le> failureBatchMaxItems) \<and> concat outs @ fst s' = fst s @ arrivals es"
proof (induction es arbitrary: s outs)
  case Nil
  then show ?case by (simp add: arrivals_def)
next
  case (Cons e es)
  obtain out s1 where s1: "run_step e s = (out, s1)" by (metis prod.collapse)
  obtain outs2 where o2: "run_tracker es s1 = (outs2, s')" "outs = (case out of None \<Rightarrow> outs2 | Some b \<Rightarrow> b # outs2)"
    using Cons.prems(1) s1 by (auto split: prod.splits)
  note S = run_step_ok [OF s1 Cons.prems(2)]
  from Cons.IH [OF o2(1)] S o2(2) show ?case
    by (cases out) (simp_all add: arrivals_def)
qed

lemma hand_out_error:
  "length rs = length (active_requests batch) \<Longrightarrow> Some r \<in> set (hand_out batch rs) \<Longrightarrow>
     r \<in> set rs \<or> (\<exists>rq. Some rq \<in> set batch \<and> rq_ctx_err rq = fr_err r \<and> fr_err r \<noteq> None)"
proof (induction batch rs rule: hand_out.induct)
  case (3 rq batch rs)
  show ?case
  proof (cases "rq_ctx_err rq")
    case None
    with 3 show ?thesis by (cases rs) (auto simp: is_active_request_def)
  next
    case (Some e)
    with 3 show ?thesis by (auto simp: is_active_request_def)
  qed
qed (auto simp: is_active_request_def)

lemma batch_row_Nil [simp]: "batch_row [] m = Some m"
proof -
  have "streak_after pg [] m = unat (mp_ConsecutiveFailures m)" for pg
    by (simp add: streak_after_def succeeded_def streak_hits_def entry_chunks_def max_def min_def Let_def)
  then show ?thesis by (simp add: batch_row_def streaked_def)
qed

lemma processBatch_removals:
  assumes p: "processBatch order batch db = (resps, db')" and ok: "keys_ok (fd_rows db)" and order: "\<And>cs. set (order cs) = set cs"
  shows "holds_active (fd_rows db) (w, pid) \<and> \<not> holds_active (fd_rows db') (w, pid) \<longleftrightarrow> told batch resps w pid"
    and "told batch resps w pid \<Longrightarrow> \<exists>m rq. rows_map (fd_rows db) (w, pid) = Some m \<and> active_row m \<and>
      rq \<in> set (active_requests batch) \<and> rq_proxyID rq = pid \<and>
      removal_cause (fd_postgres db) (active_requests batch) rq w m"
proof -
  have "(holds_active (fd_rows db) (w, pid) \<and> \<not> holds_active (fd_rows db') (w, pid) \<longleftrightarrow> told batch resps w pid) \<and>
    (told batch resps w pid \<longrightarrow> (\<exists>m rq. rows_map (fd_rows db) (w, pid) = Some m \<and> active_row m \<and>
      rq \<in> set (active_requests batch) \<and> rq_proxyID rq = pid \<and>
      removal_cause (fd_postgres db) (active_requests batch) rq w m))"
    using p
  proof (cases rule: processBatch_cases)
    case idle
    then show ?thesis using told_hand_out [of "[]" batch w pid] by simp
  next
    case (busy rs)
    note R = process_active_removals [OF busy(1) ok order]
    show ?thesis unfolding busy(2) told_hand_out [OF R(1)]
    proof (intro conjI impI R(2))
      assume "\<exists>i < length (active_requests batch). rq_proxyID (active_requests batch ! i) = pid \<and> w \<in> fr_removedWorkspaces (rs ! i)"
      then obtain i where i: "i < length (active_requests batch)" "rq_proxyID (active_requests batch ! i) = pid"
        "w \<in> fr_removedWorkspaces (rs ! i)" by blast
      with R(3) [OF i(1,3)] nth_mem [OF i(1)] obtain m where "rows_map (fd_rows db) (w, pid) = Some m" "active_row m"
        "removal_cause (fd_postgres db) (active_requests batch) (active_requests batch ! i) w m" by blast
      with i(2) nth_mem [OF i(1)] show "\<exists>m rq. rows_map (fd_rows db) (w, pid) = Some m \<and> active_row m \<and>
        rq \<in> set (active_requests batch) \<and> rq_proxyID rq = pid \<and>
        removal_cause (fd_postgres db) (active_requests batch) rq w m" by blast
    qed
  qed
  then show "holds_active (fd_rows db) (w, pid) \<and> \<not> holds_active (fd_rows db') (w, pid) \<longleftrightarrow> told batch resps w pid"
    "told batch resps w pid \<Longrightarrow> \<exists>m rq. rows_map (fd_rows db) (w, pid) = Some m \<and> active_row m \<and>
      rq \<in> set (active_requests batch) \<and> rq_proxyID rq = pid \<and>
      removal_cause (fd_postgres db) (active_requests batch) rq w m" by blast+
qed

subsection \<open>Properties\<close>

text \<open>A deployment: two owners of route 7, both about to reach their thresholds, and a paused route.\<close>

definition demo_rows :: "ManagedProxy list" where
  "demo_rows = [
     \<lparr>mp_WorkspaceID = 1, mp_ProxyID = 7, mp_ConsecutiveFailures = 2, mp_State = ''active'', mp_PauseReason = []\<rparr>,
     \<lparr>mp_WorkspaceID = 2, mp_ProxyID = 7, mp_ConsecutiveFailures = 2, mp_State = ''active'', mp_PauseReason = []\<rparr>,
     \<lparr>mp_WorkspaceID = 1, mp_ProxyID = 9, mp_ConsecutiveFailures = 254, mp_State = ''paused'', mp_PauseReason = ''manual''\<rparr>]"

definition demo_event :: "u64 \<Rightarrow> bool \<Rightarrow> string \<Rightarrow> failureEvent" where
  "demo_event w ok action = \<lparr>ev_WorkspaceID = w, ev_Success = ok, ev_AutoRemove = True, ev_FailureThreshold = 3,
     ev_FailureAction = action, ev_HasEligibleChecks = True\<rparr>"

definition demo_batch :: "failureRequest option list" where
  "demo_batch = [None,
     Some \<lparr>rq_ctx_err = None, rq_proxyID = 7, rq_events = [demo_event 1 False ''delete'', demo_event 2 False []]\<rparr>,
     Some \<lparr>rq_ctx_err = Some ''canceled'', rq_proxyID = 9, rq_events = [demo_event 1 False ''pause'']\<rparr>,
     Some \<lparr>rq_ctx_err = None, rq_proxyID = 9, rq_events = [demo_event 1 True ''pause'']\<rparr>]"

definition demo_failure_db :: "string option list \<Rightarrow> failure_db" where
  "demo_failure_db faults = \<lparr>fd_open = True, fd_postgres = True, fd_rows = demo_rows, fd_proxies = [7, 9], fd_faults = faults\<rparr>"

text \<open>
  C15. A failure batch is exact: when no statement fails, every row afterwards is the one the rules
  give. The streak restarts at zero if the batch holds a successful cycle of the route, then grows by
  one per increment statement that lists it and stops at 255; an active row whose streak reached the
  threshold of an automatic-removal event is deleted or paused as the first such event asks, and all
  other rows keep their state. Only a request whose own context was done is answered with an error.
\<close>

theorem failure_batch_exact:
  assumes "processBatch order batch db = (resps, db')" "keys_ok (fd_rows db)" "\<And>cs. set (order cs) = set cs"
    and "fd_open db" "fd_postgres db" "fd_faults db = []"
  shows "(\<forall>k. rows_map (fd_rows db') k = Option.bind (rows_map (fd_rows db) k) (batch_row (active_requests batch))) \<and>
    (\<forall>r. Some r \<in> set resps \<longrightarrow> fr_err r = None \<or> (\<exists>rq. Some rq \<in> set batch \<and> rq_ctx_err rq = fr_err r))"
  using assms(1)
proof (cases rule: processBatch_cases)
  case idle
  have "Option.bind x (batch_row []) = x" for x by (cases x) simp_all
  with idle show ?thesis using hand_out_error [of "[]" batch] by (auto simp del: split_paired_All)
next
  case (busy rs)
  note E = process_active_exact [OF busy(1) assms(2-6)] and R = process_active_removals(1) [OF busy(1) assms(2,3)]
  show ?thesis unfolding busy(2) using E hand_out_error [OF R] by blast
qed

theorem failure_batch_exact_witness:
  "map (rows_map (fd_rows (snd (processBatch (\<lambda>cs. cs) demo_batch (demo_failure_db []))))) [(1, 7), (2, 7), (1, 9)] =
     [None, Some (pause_row ''failure'' ((demo_rows ! 1)\<lparr>mp_ConsecutiveFailures := 3\<rparr>)),
      Some ((demo_rows ! 2)\<lparr>mp_ConsecutiveFailures := 0\<rparr>)]"
proof -
  let ?b = "processBatch (\<lambda>cs. cs) demo_batch (demo_failure_db [])"
  have "keys_ok (fd_rows (demo_failure_db []))" by code_simp
  from failure_batch_exact [of "\<lambda>cs. cs" demo_batch "demo_failure_db []" "fst ?b" "snd ?b", OF _ this]
  have "\<forall>k. rows_map (fd_rows (snd ?b)) k =
      Option.bind (rows_map (fd_rows (demo_failure_db [])) k) (batch_row (active_requests demo_batch))"
    by (simp add: demo_failure_db_def)
  then have e: "map (rows_map (fd_rows (snd ?b))) ks =
      map (\<lambda>k. Option.bind (rows_map (fd_rows (demo_failure_db [])) k) (batch_row (active_requests demo_batch))) ks" for ks
    by (simp del: split_paired_All)
  show ?thesis unfolding e by code_simp
qed


abbreviation (input) demo_run :: "string option list \<Rightarrow> failureResponse option list \<times> failure_db" where
  "demo_run faults \<equiv> processBatch (\<lambda>cs. cs) demo_batch (demo_failure_db faults)"


text \<open>
  The batching loop loses no request and holds none for ever: the batches it hands over and the one
  it is filling are the arrivals in order, no batch is empty or larger than 8192 requests, and a
  non-empty batch always has its timer set.
\<close>

lemma tracker_batches_arrivals:
  assumes "run_tracker es ([], False) = (outs, pending, timer)"
  shows "concat outs @ pending = arrivals es \<and> (\<forall>b\<in>set outs. b \<noteq> [] \<and> length b \<le> 8192) \<and>
    length pending < 8192 \<and> (pending \<noteq> [] \<longrightarrow> timer)"
  using run_tracker_ok [OF assms] by (simp add: tracker_ok_def failureBatchMaxItems_def)

theorem tracker_batches_arrivals_witness:
  "concat (fst (run_tracker [Arrive (the (demo_batch ! 1)), Window, Arrive (the (demo_batch ! 3)), Window] ([], False))) =
     [the (demo_batch ! 1), the (demo_batch ! 3)]"
proof -
  let ?es = "[Arrive (the (demo_batch ! 1)), Window, Arrive (the (demo_batch ! 3)), Window]"
  have "run_tracker ?es ([], False) = (fst (run_tracker ?es ([], False)), [], False)"
    by (simp add: failureBatchMaxItems_def)
  from tracker_batches_arrivals [OF this] show ?thesis by (simp add: arrivals_def)
qed

end
