(* ===== verification/Judge_Pool.thy ===== *)
theory Judge_Pool
  imports Checker_Plans "HOL-Library.AList"
begin

text \<open>
  The judge cache of \<open>internal/jobs/checker/judges\<close>: per workspace and URL scheme a list of judges with
  a rotating counter, replaced or extended by whole-map swaps (\<open>judges_handler.go\<close>), and the events
  that carry the changes to other instances (\<open>redis_sync.go\<close>). Workers use it while no compiled
  snapshot is ready. URL parsing and the host name resolution that \<open>UpdateIp\<close> caches are outside.
\<close>

subsection \<open>Data\<close>

record judgeEntry =
  je_list :: "JudgeWithRegex list"
  je_length :: u32
  je_counter :: u32

text \<open>The two levels of Go maps are association lists: workspace, then scheme.\<close>

type_synonym proto_map = "(string \<times> judgeEntry) list"
type_synonym judge_pool = "(u64 \<times> proto_map) list"

text \<open>\<open>net/url\<close>: the scheme of an address (empty when it does not parse) and its normal form.\<close>

record url_env =
  ue_scheme :: "string \<Rightarrow> string"
  ue_normal :: "string \<Rightarrow> string option"

definition GetScheme :: "url_env \<Rightarrow> Judge \<Rightarrow> string" where
  "GetScheme U judge = ue_scheme U (j_FullString judge)"

definition SetUp :: "url_env \<Rightarrow> Judge \<Rightarrow> Judge option" where
  "SetUp U judge = (case ue_normal U (j_FullString judge) of None \<Rightarrow> None | Some s \<Rightarrow> Some (judge\<lparr>j_FullString := s\<rparr>))"

subsection \<open>Reading\<close>

definition find_entry :: "u64 \<Rightarrow> string \<Rightarrow> judge_pool \<Rightarrow> judgeEntry option" where
  "find_entry workspaceID protocol pool =
     (case map_of pool workspaceID of None \<Rightarrow> None | Some protoMap \<Rightarrow> map_of protoMap protocol)"

text \<open>The counter is bumped in place; the map itself is shared with every reader.\<close>

definition set_entry :: "u64 \<Rightarrow> string \<Rightarrow> judgeEntry \<Rightarrow> judge_pool \<Rightarrow> judge_pool" where
  "set_entry workspaceID protocol je pool =
     AList.map_entry workspaceID (AList.map_entry protocol (\<lambda>_. je)) pool"

definition GetNextJudge :: "u64 \<Rightarrow> string \<Rightarrow> judge_pool \<Rightarrow> (Judge option \<times> string) \<times> judge_pool" where
  "GetNextJudge workspaceID protocol pool =
     (case find_entry workspaceID protocol pool of
        None \<Rightarrow> ((None, []), pool)
      | Some je \<Rightarrow>
          if je_length je = 0 then ((None, []), pool)
          else (let counter = je_counter je + 1;
                    idx = (counter - 1) mod je_length je;
                    item = je_list je ! unat idx
                in ((jr_Judge item, jr_Regex item), set_entry workspaceID protocol (je\<lparr>je_counter := counter\<rparr>) pool)))"

text \<open>All judges once, by identifier; \<open>judgeSet\<close> keeps the last one the map iteration meets.\<close>

definition pool_items :: "judge_pool \<Rightarrow> JudgeWithRegex list" where
  "pool_items pool = concat (map (\<lambda>(_, protoMap). concat (map (\<lambda>(_, je). je_list je) protoMap)) pool)"

definition judge_set :: "judge_pool \<Rightarrow> (u64 \<times> Judge) list" where
  "judge_set pool = fold (\<lambda>jr acc. case jr_Judge jr of None \<Rightarrow> acc | Some judge \<Rightarrow> AList.update (j_ID judge) judge acc)
     (pool_items pool) []"

definition GetSortedJudgesByID :: "judge_pool \<Rightarrow> Judge list" where
  "GetSortedJudgesByID pool = sort_key (\<lambda>judge. unat (j_ID judge)) (map snd (judge_set pool))"

subsection \<open>Writing\<close>

text \<open>The new entry of a scheme after one more judge; a nil judge is skipped.\<close>

definition extend_entry :: "JudgeWithRegex \<Rightarrow> judgeEntry option \<Rightarrow> judgeEntry" where
  "extend_entry jwr old = (case old of
      None \<Rightarrow> \<lparr>je_list = [jwr], je_length = 1, je_counter = 0\<rparr>
    | Some je \<Rightarrow> \<lparr>je_list = je_list je @ [jwr], je_length = je_length je + 1, je_counter = je_counter je\<rparr>)"

definition add_to_proto :: "url_env \<Rightarrow> JudgeWithRegex \<Rightarrow> proto_map \<Rightarrow> proto_map" where
  "add_to_proto U jwr protoMap = (case jr_Judge jwr of
      None \<Rightarrow> protoMap
    | Some judge \<Rightarrow> (let scheme = GetScheme U judge in
        AList.update scheme (extend_entry jwr (map_of protoMap scheme)) protoMap))"

definition proto_of :: "u64 \<Rightarrow> judge_pool \<Rightarrow> proto_map" where
  "proto_of workspaceID pool = (case map_of pool workspaceID of None \<Rightarrow> [] | Some protoMap \<Rightarrow> protoMap)"

definition AddWorkspaceJudge :: "url_env \<Rightarrow> u64 \<Rightarrow> Judge \<Rightarrow> string \<Rightarrow> judge_pool \<Rightarrow> judge_pool" where
  "AddWorkspaceJudge U workspaceID judge regex pool =
     AList.update workspaceID (add_to_proto U \<lparr>jr_Judge = Some judge, jr_Regex = regex\<rparr> (proto_of workspaceID pool)) pool"

fun addJudgesToWorkspacesLocal :: "url_env \<Rightarrow> u64 list \<Rightarrow> JudgeWithRegex list \<Rightarrow> judge_pool \<Rightarrow> judge_pool" where
  "addJudgesToWorkspacesLocal U [] jwrs pool = pool"
| "addJudgesToWorkspacesLocal U (w # ws) jwrs pool =
     addJudgesToWorkspacesLocal U ws jwrs (AList.update w (fold (add_to_proto U) jwrs (proto_of w pool)) pool)"

definition setWorkspaceJudgesLocal :: "url_env \<Rightarrow> u64 \<Rightarrow> JudgeWithRegex list \<Rightarrow> judge_pool \<Rightarrow> judge_pool" where
  "setWorkspaceJudgesLocal U workspaceID jwrs pool = AList.update workspaceID (fold (add_to_proto U) jwrs []) pool"

subsection \<open>Synchronisation\<close>

record judgeSyncJudge =
  sj_ID :: u64
  sj_URL :: string
  sj_Regex :: string

record judgeSyncEvent =
  se_Type :: string
  se_Origin :: string
  se_WorkspaceID :: u64
  se_WorkspaceIDs :: "u64 list"
  se_Judges :: "judgeSyncJudge list"

definition set_event_type :: string where "set_event_type = ''set_user_judges''"
definition add_event_type :: string where "add_event_type = ''add_judges_to_users''"

definition serializeJudges :: "JudgeWithRegex list \<Rightarrow> judgeSyncJudge list" where
  "serializeJudges jwrs = concat (map (\<lambda>jwr. case jr_Judge jwr of
      None \<Rightarrow> [] | Some judge \<Rightarrow> [\<lparr>sj_ID = j_ID judge, sj_URL = j_FullString judge, sj_Regex = jr_Regex jwr\<rparr>]) jwrs)"

definition buildJudgesFromPayload :: "url_env \<Rightarrow> judgeSyncJudge list \<Rightarrow> JudgeWithRegex list" where
  "buildJudgesFromPayload U payload = concat (map (\<lambda>item.
      case SetUp U \<lparr>j_ID = sj_ID item, j_FullString = sj_URL item\<rparr> of
        None \<Rightarrow> [] | Some judge \<Rightarrow> [\<lparr>jr_Judge = Some judge, jr_Regex = sj_Regex item\<rparr>]) payload)"

definition broadcastSetWorkspaceJudges :: "string \<Rightarrow> u64 \<Rightarrow> JudgeWithRegex list \<Rightarrow> judgeSyncEvent option" where
  "broadcastSetWorkspaceJudges node workspaceID jwrs =
     (if workspaceID = 0 then None
      else Some \<lparr>se_Type = set_event_type, se_Origin = node, se_WorkspaceID = workspaceID, se_WorkspaceIDs = [],
                 se_Judges = serializeJudges jwrs\<rparr>)"

definition broadcastAddJudgesToWorkspaces :: "string \<Rightarrow> u64 list \<Rightarrow> JudgeWithRegex list \<Rightarrow> judgeSyncEvent option" where
  "broadcastAddJudgesToWorkspaces node workspaceIDs jwrs =
     (if workspaceIDs = [] then None
      else let serialized = serializeJudges jwrs in
        if serialized = [] then None
        else Some \<lparr>se_Type = add_event_type, se_Origin = node, se_WorkspaceID = 0, se_WorkspaceIDs = workspaceIDs,
                   se_Judges = serialized\<rparr>)"

definition handleJudgeSyncEvent :: "url_env \<Rightarrow> judgeSyncEvent \<Rightarrow> judge_pool \<Rightarrow> judge_pool" where
  "handleJudgeSyncEvent U event pool =
     (if se_Type event = set_event_type then
        (if se_WorkspaceID event = 0 then pool
         else setWorkspaceJudgesLocal U (se_WorkspaceID event) (buildJudgesFromPayload U (se_Judges event)) pool)
      else if se_Type event = add_event_type then
        (if se_WorkspaceIDs event = [] then pool
         else let jwrs = buildJudgesFromPayload U (se_Judges event) in
           if jwrs = [] then pool else addJudgesToWorkspacesLocal U (se_WorkspaceIDs event) jwrs pool)
      else pool)"

text \<open>One turn of the subscription: an instance ignores what it published itself.\<close>

definition receive_event :: "url_env \<Rightarrow> string \<Rightarrow> judgeSyncEvent \<Rightarrow> judge_pool \<Rightarrow> judge_pool" where
  "receive_event U node event pool = (if se_Origin event = node then pool else handleJudgeSyncEvent U event pool)"

text \<open>The exported writes: the local change and the event that goes out, if any.\<close>

definition SetWorkspaceJudges :: "url_env \<Rightarrow> string \<Rightarrow> u64 \<Rightarrow> JudgeWithRegex list \<Rightarrow> judge_pool \<Rightarrow> judgeSyncEvent option \<times> judge_pool" where
  "SetWorkspaceJudges U node workspaceID jwrs pool =
     (broadcastSetWorkspaceJudges node workspaceID jwrs, setWorkspaceJudgesLocal U workspaceID jwrs pool)"

definition AddJudgesToWorkspaces :: "url_env \<Rightarrow> string \<Rightarrow> u64 list \<Rightarrow> JudgeWithRegex list \<Rightarrow> judge_pool \<Rightarrow>
    judgeSyncEvent option \<times> judge_pool" where
  "AddJudgesToWorkspaces U node workspaceIDs jwrs pool =
     (if workspaceIDs = [] \<or> jwrs = [] then (None, pool)
      else (broadcastAddJudgesToWorkspaces node workspaceIDs jwrs, addJudgesToWorkspacesLocal U workspaceIDs jwrs pool))"

subsection \<open>The pool as a table of lists\<close>

definition has_scheme :: "url_env \<Rightarrow> string \<Rightarrow> JudgeWithRegex \<Rightarrow> bool" where
  "has_scheme U s jr \<longleftrightarrow> (case jr_Judge jr of None \<Rightarrow> False | Some judge \<Rightarrow> GetScheme U judge = s)"

definition entry_list :: "judgeEntry option \<Rightarrow> JudgeWithRegex list" where
  "entry_list je = (case je of None \<Rightarrow> [] | Some je \<Rightarrow> je_list je)"

definition pool_list :: "judge_pool \<Rightarrow> u64 \<Rightarrow> string \<Rightarrow> JudgeWithRegex list" where
  "pool_list pool w s = entry_list (find_entry w s pool)"

definition entry_ok :: "url_env \<Rightarrow> string \<Rightarrow> judgeEntry \<Rightarrow> bool" where
  "entry_ok U s je \<longleftrightarrow> je_list je \<noteq> [] \<and> je_length je = of_nat (length (je_list je)) \<and> list_all (has_scheme U s) (je_list je)"

definition proto_ok :: "url_env \<Rightarrow> proto_map \<Rightarrow> bool" where
  "proto_ok U pm \<longleftrightarrow> (\<forall>s je. map_of pm s = Some je \<longrightarrow> entry_ok U s je)"

definition pool_ok :: "url_env \<Rightarrow> judge_pool \<Rightarrow> bool" where
  "pool_ok U pool \<longleftrightarrow> (\<forall>w pm. map_of pool w = Some pm \<longrightarrow> proto_ok U pm)"

lemma entry_list_simps [simp]: "entry_list None = []" "entry_list (Some je) = je_list je"
  by (simp_all add: entry_list_def)

lemma find_entry_proto: "find_entry w s pool = map_of (proto_of w pool) s"
  by (simp add: find_entry_def proto_of_def split: option.splits)

lemma proto_of_update [simp]:
  "proto_of v (AList.update w pm pool) = (if v = w then pm else proto_of v pool)"
  by (simp add: proto_of_def AList.update_conv')

lemma proto_ok_Nil [simp]: "proto_ok U []"
  by (simp add: proto_ok_def)

lemma proto_of_ok: "pool_ok U pool \<Longrightarrow> proto_ok U (proto_of w pool)"
  by (auto simp: pool_ok_def proto_of_def split: option.splits)

lemma pool_ok_update: "pool_ok U pool \<Longrightarrow> proto_ok U pm \<Longrightarrow> pool_ok U (AList.update w pm pool)"
  by (simp add: pool_ok_def AList.update_conv')

lemma entry_ok_extend:
  assumes "has_scheme U s jwr" "\<And>je. old = Some je \<Longrightarrow> entry_ok U s je"
  shows "entry_ok U s (extend_entry jwr old)"
  using assms by (cases old) (auto simp: entry_ok_def extend_entry_def)

lemma add_to_proto_ok: "proto_ok U pm \<Longrightarrow> proto_ok U (add_to_proto U jwr pm)"
  by (auto simp: proto_ok_def add_to_proto_def Let_def AList.update_conv' has_scheme_def intro!: entry_ok_extend
      split: option.splits)

lemma add_to_proto_list:
  "entry_list (map_of (add_to_proto U jwr pm) s) = entry_list (map_of pm s) @ (if has_scheme U s jwr then [jwr] else [])"
  by (auto simp: add_to_proto_def Let_def AList.update_conv' has_scheme_def extend_entry_def split: option.splits)

lemma fold_add_ok: "proto_ok U pm \<Longrightarrow> proto_ok U (fold (add_to_proto U) jwrs pm)"
  by (induction jwrs arbitrary: pm) (simp_all add: add_to_proto_ok)

lemma fold_add_list:
  "entry_list (map_of (fold (add_to_proto U) jwrs pm) s) = entry_list (map_of pm s) @ filter (has_scheme U s) jwrs"
  by (induction jwrs arbitrary: pm) (simp_all add: add_to_proto_list)

lemmas pool_list_simps = pool_list_def find_entry_proto fold_add_list add_to_proto_list

lemma set_judges_list:
  "pool_list (setWorkspaceJudgesLocal U v jwrs pool) w s = (if w = v then filter (has_scheme U s) jwrs else pool_list pool w s)"
  by (simp add: setWorkspaceJudgesLocal_def pool_list_simps)

lemma add_judge_list:
  "pool_list (AddWorkspaceJudge U v judge regex pool) w s = pool_list pool w s @
     (if w = v \<and> GetScheme U judge = s then [\<lparr>jr_Judge = Some judge, jr_Regex = regex\<rparr>] else [])"
  by (simp add: AddWorkspaceJudge_def pool_list_simps has_scheme_def)

lemma add_judges_list:
  "pool_list (addJudgesToWorkspacesLocal U ws jwrs pool) w s =
     pool_list pool w s @ concat (replicate (count_list ws w) (filter (has_scheme U s) jwrs))"
proof (induction ws arbitrary: pool)
  case (Cons v ws)
  have "pool_list (AList.update v (fold (add_to_proto U) jwrs (proto_of v pool)) pool) w s =
      pool_list pool w s @ (if w = v then filter (has_scheme U s) jwrs else [])"
    by (simp add: pool_list_simps)
  then show ?case by (simp add: Cons.IH)
qed simp

lemma pool_ok_writes [inv_intro]:
  assumes "pool_ok U pool"
  shows "pool_ok U (setWorkspaceJudgesLocal U w jwrs pool)" "pool_ok U (AddWorkspaceJudge U w judge regex pool)"
    "pool_ok U (addJudgesToWorkspacesLocal U ws jwrs pool)"
  using assms
  by (simp_all add: setWorkspaceJudgesLocal_def AddWorkspaceJudge_def pool_ok_update fold_add_ok add_to_proto_ok proto_of_ok,
    induction ws arbitrary: pool) (simp_all add: pool_ok_update fold_add_ok proto_of_ok)

lemma set_entry_find:
  "find_entry v t (set_entry w s je pool) =
     (if v = w \<and> t = s \<and> find_entry w s pool \<noteq> None then Some je else find_entry v t pool)"
  by (auto simp: set_entry_def find_entry_def map_of_map_entry split: option.splits)

text \<open>Reading moves one counter and nothing else.\<close>

lemma GetNextJudge_cases:
  assumes ok: "pool_ok U pool" and small: "length (pool_list pool w s) < 2 ^ 32"
  obtains (none) "pool_list pool w s = []" "GetNextJudge w s pool = ((None, []), pool)"
    | (one) je where "find_entry w s pool = Some je" "pool_list pool w s = je_list je" "je_list je \<noteq> []"
        "GetNextJudge w s pool = ((jr_Judge (je_list je ! (unat (je_counter je) mod length (je_list je))),
            jr_Regex (je_list je ! (unat (je_counter je) mod length (je_list je)))),
          set_entry w s (je\<lparr>je_counter := je_counter je + 1\<rparr>) pool)"
proof (cases "find_entry w s pool")
  case None
  with none show ?thesis by (simp add: GetNextJudge_def pool_list_def)
next
  case (Some je)
  then obtain pm where "map_of pool w = Some pm" "map_of pm s = Some je"
    by (auto simp: find_entry_def split: option.splits)
  with ok have e: "entry_ok U s je" by (auto simp: pool_ok_def proto_ok_def)
  from small Some have len: "length (je_list je) < 2 ^ 32" by (simp add: pool_list_def)
  with e have u: "unat (je_length je) = length (je_list je)"
    by (simp add: entry_ok_def unsigned_of_nat take_bit_nat_eq_self)
  with e have ne: "je_length je \<noteq> 0" by (auto simp: entry_ok_def)
  have "unat (je_counter je mod je_length je) = unat (je_counter je) mod length (je_list je)"
    by (simp add: unat_mod_distrib u)
  with one [OF Some] e ne Some show ?thesis by (simp add: GetNextJudge_def Let_def pool_list_def entry_ok_def)
qed

lemma GetNextJudge_list: "pool_list (snd (GetNextJudge w s pool)) v t = pool_list pool v t"
  by (auto simp: GetNextJudge_def pool_list_def set_entry_find Let_def split: option.splits)

lemma set_entry_ok:
  assumes "pool_ok U pool" "entry_ok U s je"
  shows "pool_ok U (set_entry w s je pool)"
  using assms by (auto simp: pool_ok_def proto_ok_def set_entry_def map_of_map_entry split: if_splits option.splits)

lemma GetNextJudge_ok:
  assumes "pool_ok U pool" shows "pool_ok U (snd (GetNextJudge w s pool))"
proof (cases "find_entry w s pool")
  case (Some je)
  then obtain pm where "map_of pool w = Some pm" "map_of pm s = Some je"
    by (auto simp: find_entry_def split: option.splits)
  with assms have "entry_ok U s je" by (auto simp: pool_ok_def proto_ok_def)
  then have "entry_ok U s (je\<lparr>je_counter := c\<rparr>)" for c by (simp add: entry_ok_def)
  with assms Some show ?thesis by (simp add: GetNextJudge_def Let_def set_entry_ok)
qed (use assms in \<open>simp add: GetNextJudge_def\<close>)

subsection \<open>Histories\<close>

datatype judge_op =
    NextJudge_op u64 string
  | AddOne u64 Judge string
  | AddMany "u64 list" "JudgeWithRegex list"
  | SetAll u64 "JudgeWithRegex list"

fun run_op :: "url_env \<Rightarrow> judge_op \<Rightarrow> judge_pool \<Rightarrow> judge_pool" where
  "run_op U (NextJudge_op w s) pool = snd (GetNextJudge w s pool)"
| "run_op U (AddOne w judge regex) pool = AddWorkspaceJudge U w judge regex pool"
| "run_op U (AddMany ws jwrs) pool = addJudgesToWorkspacesLocal U ws jwrs pool"
| "run_op U (SetAll w jwrs) pool = setWorkspaceJudgesLocal U w jwrs pool"

text \<open>The reference: a list of judges per workspace and scheme, no counters, no shared maps.\<close>

type_synonym judge_table = "u64 \<Rightarrow> string \<Rightarrow> JudgeWithRegex list"

fun ref_op :: "url_env \<Rightarrow> judge_op \<Rightarrow> judge_table \<Rightarrow> judge_table" where
  "ref_op U (NextJudge_op w s) t = t"
| "ref_op U (AddOne w judge regex) t =
     (\<lambda>v s. t v s @ (if v = w \<and> GetScheme U judge = s then [\<lparr>jr_Judge = Some judge, jr_Regex = regex\<rparr>] else []))"
| "ref_op U (AddMany ws jwrs) t =
     (\<lambda>v s. t v s @ concat (replicate (count_list ws v) (filter (has_scheme U s) jwrs)))"
| "ref_op U (SetAll w jwrs) t = (\<lambda>v s. if v = w then filter (has_scheme U s) jwrs else t v s)"

lemma run_op_refines: "pool_list (run_op U op pool) = ref_op U op (pool_list pool)"
  by (cases op) (simp_all add: fun_eq_iff GetNextJudge_list add_judge_list add_judges_list set_judges_list)

lemma run_ops_refine: "pool_list (fold (run_op U) ops pool) = fold (ref_op U) ops (pool_list pool)"
  by (induction ops arbitrary: pool) (simp_all add: run_op_refines)

lemma run_op_ok: "pool_ok U pool \<Longrightarrow> pool_ok U (run_op U op pool)"
  by (cases op) (simp_all add: GetNextJudge_ok inv_intro)

lemma run_ops_ok: "pool_ok U pool \<Longrightarrow> pool_ok U (fold (run_op U) ops pool)"
  by (induction ops arbitrary: pool) (simp_all add: run_op_ok)

lemma empty_pool [simp]: "pool_ok U []" "pool_list [] = (\<lambda>_ _. [])"
  by (simp_all add: pool_ok_def pool_list_def find_entry_def fun_eq_iff)

lemma pool_list_has_scheme:
  assumes "pool_ok U pool" "jr \<in> set (pool_list pool w s)" shows "has_scheme U s jr"
proof -
  from assms(2) obtain je where je: "find_entry w s pool = Some je" "jr \<in> set (je_list je)"
    by (cases "find_entry w s pool") (simp_all add: pool_list_def)
  then obtain pm where "map_of pool w = Some pm" "map_of pm s = Some je"
    by (auto simp: find_entry_def split: option.splits)
  with assms(1) have "entry_ok U s je" by (auto simp: pool_ok_def proto_ok_def)
  with je show ?thesis by (auto simp: entry_ok_def list_all_iff)
qed

subsection \<open>Events between instances\<close>

text \<open>Judges in the form \<open>SetUp\<close> stores them: no nil, and addresses that normalise to themselves.\<close>

definition set_up :: "url_env \<Rightarrow> JudgeWithRegex list \<Rightarrow> bool" where
  "set_up U jwrs \<longleftrightarrow> list_all (\<lambda>jr. case jr_Judge jr of None \<Rightarrow> True | Some judge \<Rightarrow> SetUp U judge = Some judge) jwrs"

definition non_nil :: "JudgeWithRegex list \<Rightarrow> JudgeWithRegex list" where
  "non_nil jwrs = filter (\<lambda>jr. jr_Judge jr \<noteq> None) jwrs"

lemma payload_round_trip: "set_up U jwrs \<Longrightarrow> buildJudgesFromPayload U (serializeJudges jwrs) = non_nil jwrs"
proof (induction jwrs)
  case (Cons jr jwrs)
  then have IH: "buildJudgesFromPayload U (serializeJudges jwrs) = non_nil jwrs" by (simp add: set_up_def)
  show ?case
  proof (cases "jr_Judge jr")
    case None
    with IH show ?thesis by (simp add: serializeJudges_def non_nil_def)
  next
    case (Some judge)
    with Cons.prems have "SetUp U \<lparr>j_ID = j_ID judge, j_FullString = j_FullString judge\<rparr> = Some judge"
      by (cases judge) (simp add: set_up_def)
    with Some IH show ?thesis by (simp add: serializeJudges_def buildJudgesFromPayload_def non_nil_def)
  qed
qed (simp add: serializeJudges_def buildJudgesFromPayload_def non_nil_def)

lemma filter_non_nil: "filter (has_scheme U s) (non_nil jwrs) = filter (has_scheme U s) jwrs"
  by (auto simp: non_nil_def has_scheme_def intro!: filter_cong split: option.splits)

lemma serialize_empty: "set_up U jwrs \<Longrightarrow> serializeJudges jwrs = [] \<Longrightarrow> filter (has_scheme U s) jwrs = []"
  using payload_round_trip [of U jwrs] filter_non_nil [of U s jwrs] by (simp add: buildJudgesFromPayload_def)

definition same_judges :: "judge_pool \<Rightarrow> judge_pool \<Rightarrow> bool" where
  "same_judges p q \<longleftrightarrow> pool_list p = pool_list q"

text \<open>A write on one instance, delivered to another; no event means nothing to deliver.\<close>

datatype judge_write = Replace u64 "JudgeWithRegex list" | Extend "u64 list" "JudgeWithRegex list"

fun write_judges :: "url_env \<Rightarrow> string \<Rightarrow> judge_write \<Rightarrow> judge_pool \<Rightarrow> judgeSyncEvent option \<times> judge_pool" where
  "write_judges U node (Replace w jwrs) pool = SetWorkspaceJudges U node w jwrs pool"
| "write_judges U node (Extend ws jwrs) pool = AddJudgesToWorkspaces U node ws jwrs pool"

definition deliver :: "url_env \<Rightarrow> string \<Rightarrow> judgeSyncEvent option \<Rightarrow> judge_pool \<Rightarrow> judge_pool" where
  "deliver U node event pool = (case event of None \<Rightarrow> pool | Some ev \<Rightarrow> receive_event U node ev pool)"

fun write_ok :: "url_env \<Rightarrow> judge_write \<Rightarrow> bool" where
  "write_ok U (Replace w jwrs) \<longleftrightarrow> w \<noteq> 0 \<and> set_up U jwrs"
| "write_ok U (Extend ws jwrs) \<longleftrightarrow> set_up U jwrs"

lemma event_types: "add_event_type \<noteq> set_event_type"
  by (simp add: add_event_type_def set_event_type_def)

lemma deliver_same:
  assumes same: "same_judges p q" and ok: "write_ok U wr" and other: "node' \<noteq> node"
    and wr: "write_judges U node wr p = (event, p')"
  shows "same_judges p' (deliver U node' event q)"
proof (cases wr)
  case (Replace w jwrs)
  with wr ok have p': "p' = setWorkspaceJudgesLocal U w jwrs p"
    and ev: "event = Some \<lparr>se_Type = set_event_type, se_Origin = node, se_WorkspaceID = w, se_WorkspaceIDs = [],
      se_Judges = serializeJudges jwrs\<rparr>"
    by (auto simp: SetWorkspaceJudges_def broadcastSetWorkspaceJudges_def)
  with Replace ok same other show ?thesis
    by (simp add: deliver_def receive_event_def handleJudgeSyncEvent_def payload_round_trip same_judges_def fun_eq_iff
        set_judges_list filter_non_nil)
next
  case (Extend ws jwrs)
  show ?thesis
  proof (cases "ws = [] \<or> jwrs = [] \<or> serializeJudges jwrs = []")
    case True
    with wr Extend have "event = None" and "p' = p \<or> serializeJudges jwrs = [] \<and> p' = addJudgesToWorkspacesLocal U ws jwrs p"
      by (auto simp: AddJudgesToWorkspaces_def broadcastAddJudgesToWorkspaces_def Let_def split: if_splits)
    with Extend ok same show ?thesis
      by (auto simp: deliver_def same_judges_def fun_eq_iff add_judges_list serialize_empty)
  next
    case False
    with wr Extend have p': "p' = addJudgesToWorkspacesLocal U ws jwrs p"
      and ev: "event = Some \<lparr>se_Type = add_event_type, se_Origin = node, se_WorkspaceID = 0, se_WorkspaceIDs = ws,
        se_Judges = serializeJudges jwrs\<rparr>"
      by (auto simp: AddJudgesToWorkspaces_def broadcastAddJudgesToWorkspaces_def Let_def)
    have "non_nil jwrs = [] \<Longrightarrow> filter (has_scheme U s) jwrs = []" for s
      using filter_non_nil [of U s jwrs] by simp
    with p' ev False Extend ok same other event_types show ?thesis
      by (auto simp: deliver_def receive_event_def handleJudgeSyncEvent_def payload_round_trip same_judges_def fun_eq_iff
          add_judges_list filter_non_nil Let_def)
  qed
qed

text \<open>
  Two instances and the writes of both, each delivered before the next: the flag says who writes.
\<close>

fun run_writes :: "url_env \<Rightarrow> (bool \<times> judge_write) list \<Rightarrow> judge_pool \<times> judge_pool \<Rightarrow> judge_pool \<times> judge_pool" where
  "run_writes U [] pq = pq"
| "run_writes U ((first, wr) # wrs) (p, q) =
     (if first then (case write_judges U ''a'' wr p of (ev, p) \<Rightarrow> run_writes U wrs (p, deliver U ''b'' ev q))
      else (case write_judges U ''b'' wr q of (ev, q) \<Rightarrow> run_writes U wrs (deliver U ''a'' ev p, q)))"

lemma run_writes_same:
  "same_judges p q \<Longrightarrow> \<forall>w\<in>set wrs. write_ok U (snd w) \<Longrightarrow>
     same_judges (fst (run_writes U wrs (p, q))) (snd (run_writes U wrs (p, q)))"
proof (induction wrs arbitrary: p q)
  case (Cons x wrs)
  obtain first wr where x: "x = (first, wr)" by (cases x)
  show ?case
  proof (cases first)
    case True
    obtain ev p' where w: "write_judges U ''a'' wr p = (ev, p')" by (metis prod.collapse)
    have "same_judges p' (deliver U ''b'' ev q)"
      by (rule deliver_same [OF Cons.prems(1) _ _ w]) (use Cons.prems(2) x in auto)
    from Cons.IH [OF this] Cons.prems(2) x True w show ?thesis by simp
  next
    case False
    obtain ev q' where w: "write_judges U ''b'' wr q = (ev, q')" by (metis prod.collapse)
    have "same_judges q p" using Cons.prems(1) by (simp add: same_judges_def)
    then have "same_judges q' (deliver U ''a'' ev p)"
      by (rule deliver_same [OF _ _ _ w]) (use Cons.prems(2) x in auto)
    then have "same_judges (deliver U ''a'' ev p) q'" by (simp add: same_judges_def)
    from Cons.IH [OF this] Cons.prems(2) x False w show ?thesis by simp
  qed
qed simp

subsection \<open>Properties\<close>

definition demo_urls :: url_env where
  "demo_urls = \<lparr>ue_scheme = takeWhile (\<lambda>c. c \<noteq> CHR '':''), ue_normal = Some\<rparr>"

definition demo_judge :: "u64 \<Rightarrow> string \<Rightarrow> JudgeWithRegex" where
  "demo_judge i url = \<lparr>jr_Judge = Some \<lparr>j_ID = i, j_FullString = url\<rparr>, jr_Regex = ''default''\<rparr>"

definition demo_ops :: "judge_op list" where
  "demo_ops = [SetAll 7 [demo_judge 1 ''http://a'', demo_judge 2 ''https://b''], AddMany [7, 8] [demo_judge 3 ''http://c''],
     NextJudge_op 7 ''http'']"



text \<open>
  Instances converge: when two instances hold the same judges and every write of either is delivered
  to the other before the next write, they hold the same judges after any number of writes, for every
  workspace and scheme. Judges are in the form they are stored in and no write is for workspace 0.
\<close>

lemma judge_instances_converge:
  assumes "same_judges p q" "\<And>w. w \<in> set wrs \<Longrightarrow> write_ok U (snd w)"
  shows "same_judges (fst (run_writes U wrs (p, q))) (snd (run_writes U wrs (p, q)))"
  using run_writes_same [OF assms(1)] assms(2) by blast

theorem judge_instances_converge_witness:
  "pool_list (snd (run_writes demo_urls
     [(True, Replace 7 [demo_judge 1 ''http://a'']), (False, Extend [7] [demo_judge 2 ''http://b''])] ([], []))) 7 ''http'' =
   pool_list (fst (run_writes demo_urls
     [(True, Replace 7 [demo_judge 1 ''http://a'']), (False, Extend [7] [demo_judge 2 ''http://b''])] ([], []))) 7 ''http''"
proof -
  let ?w = "[(True, Replace 7 [demo_judge 1 ''http://a'']), (False, Extend [7] [demo_judge 2 ''http://b''])]"
  have "same_judges (fst (run_writes demo_urls ?w ([], []))) (snd (run_writes demo_urls ?w ([], [])))"
    by (rule judge_instances_converge) (auto simp: same_judges_def set_up_def SetUp_def demo_judge_def demo_urls_def)
  then show ?thesis by (simp add: same_judges_def)
qed

text \<open>
  Order of delivery matters. Two replacements that cross on the way leave each instance with the
  other's list: nothing in an event says which one is newer.
\<close>

lemma crossing_replacements_swap:
  assumes "w \<noteq> 0" "set_up U xs" "set_up U ys"
  shows "pool_list (deliver U ''a'' (fst (write_judges U ''b'' (Replace w ys) q)) (snd (write_judges U ''a'' (Replace w xs) p))) w s =
      filter (has_scheme U s) ys \<and>
    pool_list (deliver U ''b'' (fst (write_judges U ''a'' (Replace w xs) p)) (snd (write_judges U ''b'' (Replace w ys) q))) w s =
      filter (has_scheme U s) xs"
  using assms
  by (simp add: SetWorkspaceJudges_def broadcastSetWorkspaceJudges_def deliver_def receive_event_def handleJudgeSyncEvent_def
      payload_round_trip set_judges_list filter_non_nil)

end
