(* ===== verification/Checker_Worker.thy ===== *)
theory Checker_Worker
  imports Judge_Pool Failure_Tracker Egress_Guard Work_Queue
begin

text \<open>
  How a checker worker turns a queued route into requests and their results into verdicts
  (\<open>internal/jobs/checker/thread_handler.go\<close>, \<open>request_handler.go\<close>, \<open>support/transport_protocol.go\<close>):
  the refresh of the queued owners, the grouping of their checks into physical requests, the shared
  judge positions of a cycle, response validation with its caches, and the thread target.
\<close>

subsection \<open>Transports and schemes\<close>

definition NormalizeTransportProtocol :: "string \<Rightarrow> string" where
  "NormalizeTransportProtocol v =
     (let v = ToLower (TrimSpace v) in if v \<in> set [''tcp'', ''quic'', ''http3''] then v else ''tcp'')"

definition ResolveCheckerTransportProtocol :: "string \<Rightarrow> string" where
  "ResolveCheckerTransportProtocol v = NormalizeTransportProtocol v"

definition IsHTTP3Transport :: "string \<Rightarrow> bool" where
  "IsHTTP3Transport v = (NormalizeTransportProtocol v \<in> set [''quic'', ''http3''])"

definition determineJudgeScheme :: "string \<Rightarrow> nat \<Rightarrow> bool \<Rightarrow> string" where
  "determineJudgeScheme protocol protocolID useHTTPSForSocks =
     (if protocolID \<le> 2 then protocol else if useHTTPSForSocks then ''https'' else ''http'')"

subsection \<open>Refreshing the queued owners\<close>

record cachedWorkspace =
  cw_workspace :: Workspace
  cw_expiresAt :: instant

definition workspaceCacheTTL :: duration where "workspaceCacheTTL = 5 * second"

text \<open>The identifiers to look up: zero is no workspace, repetitions are looked up once.\<close>

definition refresh_ids :: "Workspace list \<Rightarrow> u64 list" where
  "refresh_ids ws = dedup_onto [] (filter (\<lambda>i. i \<noteq> 0) (map ws_ID ws))"

type_synonym workspace_cache = "u64 \<rightharpoonup> cachedWorkspace"

text \<open>The cache pass: fresh entries are used, expired ones deleted, the rest is missing.\<close>

fun cache_pass :: "instant \<Rightarrow> u64 list \<Rightarrow> workspace_cache \<Rightarrow> (u64 \<rightharpoonup> Workspace) \<Rightarrow> u64 list \<Rightarrow>
    (u64 \<rightharpoonup> Workspace) \<times> u64 list \<times> workspace_cache" where
  "cache_pass now [] cache refreshed missing = (refreshed, missing, cache)"
| "cache_pass now (i # ids) cache refreshed missing =
     (case cache i of
        Some entry \<Rightarrow>
          if now < cw_expiresAt entry then cache_pass now ids cache (refreshed(i \<mapsto> cw_workspace entry)) missing
          else cache_pass now ids (cache(i := None)) refreshed (missing @ [i])
      | None \<Rightarrow> cache_pass now ids cache refreshed (missing @ [i]))"

text \<open>The last loop: the queued owners in order, refreshed, without repetitions.\<close>

fun keep_fresh :: "(u64 \<rightharpoonup> Workspace) \<Rightarrow> Workspace list \<Rightarrow> u64 set \<Rightarrow> Workspace list \<times> bool" where
  "keep_fresh refreshed [] seen = ([], False)"
| "keep_fresh refreshed (q # qs) seen =
     (case refreshed (ws_ID q) of
        None \<Rightarrow> (fst (keep_fresh refreshed qs seen), True)
      | Some fresh \<Rightarrow>
          if ws_ID fresh \<in> seen then (fst (keep_fresh refreshed qs seen), True)
          else (case keep_fresh refreshed qs (insert (ws_ID fresh) seen) of (out, changed) \<Rightarrow> (fresh # out, changed)))"

text \<open>The rows a lookup returned go to the cache under their keys.\<close>

definition store_rows :: "instant \<Rightarrow> (u64 \<rightharpoonup> Workspace) \<Rightarrow> workspace_cache \<Rightarrow> workspace_cache" where
  "store_rows expiry rows cache = (\<lambda>i. case rows i of None \<Rightarrow> cache i | Some w \<Rightarrow> Some \<lparr>cw_workspace = w, cw_expiresAt = expiry\<rparr>)"

type_synonym workspace_loader = "u64 list \<Rightarrow> (string, u64 \<rightharpoonup> Workspace) result"

definition refreshProxyWorkspaces :: "cache_state \<Rightarrow> workspace_loader \<Rightarrow> instant \<Rightarrow> Workspace list \<Rightarrow> workspace_cache \<Rightarrow>
    (Workspace list \<times> bool) \<times> workspace_cache" where
  "refreshProxyWorkspaces st load now ws cache =
     (if ws = [] then ((ws, False), cache)
      else let ids = refresh_ids ws in
        if snd (Lookup 0 st) then
          (let refreshed = concat (map (\<lambda>i. case fst (Lookup i st) of None \<Rightarrow> [] | Some snapshot \<Rightarrow> [wk_Value snapshot]) ids)
           in ((refreshed, length refreshed \<noteq> length ws), cache))
        else (case cache_pass now ids cache Map.empty [] of (refreshed, missing, cache) \<Rightarrow>
          if missing = [] then (keep_fresh refreshed ws {}, cache)
          else (case load missing of
              Inl e \<Rightarrow> ((map (\<lambda>w. case refreshed (ws_ID w) of None \<Rightarrow> w | Some fresh \<Rightarrow> fresh) ws, False), cache)
            | Inr rows \<Rightarrow> (keep_fresh (refreshed ++ rows) ws {}, store_rows (now + workspaceCacheTTL) rows cache))))"

subsection \<open>Requests of a cycle\<close>

record workspaceCheck =
  wc_workspaceID :: u64
  wc_regex :: string
  wc_configKey :: string
  wc_headers :: "string list option"

record requestAssignment =
  ra_judge :: Judge
  ra_proxyProtocol :: string
  ra_transportProtocol :: string
  ra_protocolID :: nat
  ra_timeout :: u16
  ra_retries :: u8
  ra_budgetSet :: bool
  ra_checks :: "workspaceCheck list"

text \<open>
  What selecting judges reads and advances: the positions of the cycle (no map for a single owner),
  the counters of the plans and the judge pool. A plan object is identified by its workspace and its
  content; within one workspace the compiler builds one object per content.
\<close>

type_synonym judge_picks = "(nat \<times> u32) \<rightharpoonup> int"

record judge_state =
  js_picks :: "judge_picks option"
  js_counters :: "u64 \<times> Plan \<Rightarrow> nat \<Rightarrow> u64"
  js_pool :: judge_pool

definition plan_NextJudgeIndex :: "u64 \<Rightarrow> Plan \<Rightarrow> nat \<Rightarrow> judge_state \<Rightarrow> int \<times> judge_state" where
  "plan_NextJudgeIndex w plan index js =
     (case NextJudgeIndex (pl_Judges plan ! index) (js_counters js (w, plan) index) of
        (position, counter) \<Rightarrow> (position, js\<lparr>js_counters := (js_counters js)((w, plan) := (js_counters js (w, plan))(index := counter))\<rparr>))"

definition plan_NextJudge :: "u64 \<Rightarrow> Plan \<Rightarrow> nat \<Rightarrow> judge_state \<Rightarrow> (Judge option \<times> string) \<times> judge_state" where
  "plan_NextJudge w plan index js =
     (case plan_NextJudgeIndex w plan index js of
        (position, js) \<Rightarrow>
          if position < 0 then ((None, []), js)
          else let item = pl_Judges plan ! index ! nat position in ((jr_Judge item, jr_Regex item), js))"

definition nextPlanJudge :: "u64 \<Rightarrow> Plan \<Rightarrow> nat \<Rightarrow> judge_state \<Rightarrow> (Judge option \<times> string) \<times> judge_state" where
  "nextPlanJudge w plan index js =
     (let list = pl_Judges plan ! index; key = (index, pl_JudgeSets plan ! index) in
      case js_picks js of
        None \<Rightarrow> plan_NextJudge w plan index js
      | Some picks \<Rightarrow>
          if length list < 2 \<or> pl_JudgeSets plan ! index = 0 then plan_NextJudge w plan index js
          else (let (position, js) =
                  (case picks key of
                     Some position \<Rightarrow> (position, js)
                   | None \<Rightarrow> (case plan_NextJudgeIndex w plan index js of
                       (position, js) \<Rightarrow> (position, js\<lparr>js_picks := Some (picks(key \<mapsto> position))\<rparr>)))
                in let item = list ! nat position in ((jr_Judge item, jr_Regex item), js)))"

record worker_env =
  we_urls :: url_env
  we_parse :: "string \<Rightarrow> URL option"
  we_blocklist :: "string set"

definition blocked_judge :: "worker_env \<Rightarrow> Judge \<Rightarrow> bool" where
  "blocked_judge E judge = isWebsiteBlocked (we_parse E) (j_FullString judge) (we_blocklist E)"

text \<open>
  The selection for one enabled protocol of one owner: the judge (if any), what its response must
  match, the plan's configuration key and headers.
\<close>

definition select_judge :: "Workspace \<Rightarrow> Plan option \<Rightarrow> nat \<Rightarrow> string \<Rightarrow> judge_state \<Rightarrow>
    ((Judge option \<times> string) \<times> string \<times> string list option) \<times> judge_state" where
  "select_judge workspace plan index transport js =
     (case plan of
        Some p \<Rightarrow> (case nextPlanJudge (ws_ID workspace) p index js of
          (found, js) \<Rightarrow> ((found, pl_Keys p ! index, Some (pl_Headers p)), js))
      | None \<Rightarrow>
          (let scheme = determineJudgeScheme (CheckerProtocols ! index) (index + 1) (ws_UseHttpsForSocks workspace);
               scheme = (if IsHTTP3Transport transport then ''https'' else scheme)
           in (case GetNextJudge (ws_ID workspace) scheme (js_pool js) of
             (found, pool) \<Rightarrow> ((found, [], None), js\<lparr>js_pool := pool\<rparr>))))"

definition request_key :: "Judge \<Rightarrow> string \<Rightarrow> string \<Rightarrow> u16 \<Rightarrow> u8 \<Rightarrow> string" where
  "request_key judge protocol transport timeout retries =
     FormatInt (sint (j_ID judge)) @ ''_'' @ protocol @ ''_'' @ transport @ ''_'' @ FormatInt (uint timeout) @ ''_'' @ FormatInt (uint retries)"

definition new_assignment :: "Judge \<Rightarrow> nat \<Rightarrow> string \<Rightarrow> u16 \<Rightarrow> u8 \<Rightarrow> requestAssignment" where
  "new_assignment judge index transport timeout retries =
     \<lparr>ra_judge = judge, ra_proxyProtocol = CheckerProtocols ! index, ra_transportProtocol = transport, ra_protocolID = index + 1,
      ra_timeout = timeout, ra_retries = retries, ra_budgetSet = True, ra_checks = []\<rparr>"

type_synonym requests = "(string \<times> requestAssignment) list"

text \<open>The assignment of a key, new at first use, with one more check.\<close>

definition add_check :: "string \<Rightarrow> requestAssignment \<Rightarrow> workspaceCheck \<Rightarrow> requests \<Rightarrow> requests" where
  "add_check key fresh check requests =
     (let a = (case map_of requests key of None \<Rightarrow> fresh | Some a \<Rightarrow> a)
      in AList.update key (a\<lparr>ra_checks := ra_checks a @ [check]\<rparr>) requests)"

record build_acc =
  ba_requests :: requests
  ba_success :: "u64 \<rightharpoonup> bool"
  ba_hasChecks :: "u64 \<rightharpoonup> bool"
  ba_maxTimeout :: u16
  ba_maxRetries :: u8
  ba_judges :: judge_state

definition protocol_step :: "worker_env \<Rightarrow> Workspace \<Rightarrow> Plan option \<Rightarrow> nat \<Rightarrow> ProtocolCheckSettings \<Rightarrow> build_acc \<Rightarrow> build_acc" where
  "protocol_step E workspace plan index setting acc =
     (if \<not> pcs_enabled setting then acc
      else let transport = ResolveCheckerTransportProtocol (pcs_transport setting);
               acc = (if ba_maxTimeout acc < pcs_timeout setting then acc\<lparr>ba_maxTimeout := pcs_timeout setting\<rparr> else acc);
               acc = (if ba_maxRetries acc < pcs_retries setting then acc\<lparr>ba_maxRetries := pcs_retries setting\<rparr> else acc)
        in (case select_judge workspace plan index transport (ba_judges acc) of
          (((judge, regex), configKey, headers), js) \<Rightarrow>
            let acc = acc\<lparr>ba_judges := js\<rparr> in
            (case judge of
               None \<Rightarrow> acc
             | Some judge \<Rightarrow>
                 if blocked_judge E judge then acc
                 else let key = request_key judge (CheckerProtocols ! index) transport (pcs_timeout setting) (pcs_retries setting);
                          check = \<lparr>wc_workspaceID = ws_ID workspace, wc_regex = regex, wc_configKey = configKey, wc_headers = headers\<rparr>
                   in acc\<lparr>ba_requests := add_check key (new_assignment judge index transport (pcs_timeout setting) (pcs_retries setting))
                            check (ba_requests acc),
                          ba_hasChecks := (ba_hasChecks acc)(ws_ID workspace \<mapsto> True)\<rparr>)))"

fun protocol_loop :: "worker_env \<Rightarrow> Workspace \<Rightarrow> Plan option \<Rightarrow> nat \<Rightarrow> ProtocolCheckSettings list \<Rightarrow> build_acc \<Rightarrow> build_acc" where
  "protocol_loop E workspace plan index [] acc = acc"
| "protocol_loop E workspace plan index (setting # settings) acc =
     protocol_loop E workspace plan (Suc index) settings (protocol_step E workspace plan index setting acc)"

definition resolved_settings :: "Workspace \<Rightarrow> Plan option \<Rightarrow> ProtocolCheckSettings list" where
  "resolved_settings workspace plan = (case plan of
      Some p \<Rightarrow> pl_Settings p | None \<Rightarrow> ResolveCheckerSettings (DefaultCheckerSettings workspace) {})"

fun workspace_loop :: "worker_env \<Rightarrow> cache_state \<Rightarrow> u64 \<Rightarrow> Workspace list \<Rightarrow> build_acc \<Rightarrow> Workspace list \<times> build_acc" where
  "workspace_loop E st proxyID [] acc = ([], acc)"
| "workspace_loop E st proxyID (queued # rest) acc =
     (let acc = acc\<lparr>ba_success := (ba_success acc)(ws_ID queued \<mapsto> False)\<rparr>; (snapshot, ready) = Lookup (ws_ID queued) st in
      if ready \<and> snapshot = None
      then (case workspace_loop E st proxyID rest acc of (ws, acc) \<Rightarrow> (queued # ws, acc))
      else let workspace = (if ready then wk_Value (the snapshot) else queued);
               plan = (if ready then Some (snapshot_Plan (the snapshot) proxyID) else None);
               acc = protocol_loop E workspace plan 0 (resolved_settings workspace plan) acc
        in (case workspace_loop E st proxyID rest acc of (ws, acc) \<Rightarrow> (workspace # ws, acc)))"

definition empty_acc :: "Workspace list \<Rightarrow> (u64 \<times> Plan \<Rightarrow> nat \<Rightarrow> u64) \<Rightarrow> judge_pool \<Rightarrow> build_acc" where
  "empty_acc ws counters pool =
     \<lparr>ba_requests = [], ba_success = Map.empty, ba_hasChecks = Map.empty, ba_maxTimeout = 0, ba_maxRetries = 0,
      ba_judges = \<lparr>js_picks = (if 1 < length ws then Some Map.empty else None), js_counters = counters, js_pool = pool\<rparr>\<rparr>"

text \<open>
  The slice of owners is shared with the caller, so the refreshed owners are part of the result.
\<close>

definition buildRequestAssignments :: "worker_env \<Rightarrow> cache_state \<Rightarrow> u64 \<Rightarrow> Workspace list \<Rightarrow>
    (u64 \<times> Plan \<Rightarrow> nat \<Rightarrow> u64) \<Rightarrow> judge_pool \<Rightarrow> Workspace list \<times> build_acc" where
  "buildRequestAssignments E st proxyID ws counters pool = workspace_loop E st proxyID ws (empty_acc ws counters pool)"

subsection \<open>The refresh, exactly\<close>

definition snapshots_ok :: "cache_state \<Rightarrow> bool" where
  "snapshots_ok st \<longleftrightarrow> (\<forall>i snapshot. cc_workspaces st i = Some snapshot \<longrightarrow> ws_ID (wk_Value snapshot) = i)"

definition rows_named :: "(u64 \<rightharpoonup> Workspace) \<Rightarrow> bool" where
  "rows_named rows \<longleftrightarrow> (\<forall>i w. rows i = Some w \<longrightarrow> ws_ID w = i)"

definition cache_named :: "workspace_cache \<Rightarrow> bool" where
  "cache_named cache \<longleftrightarrow> (\<forall>i entry. cache i = Some entry \<longrightarrow> ws_ID (cw_workspace entry) = i)"

lemma cache_namedD: "cache_named cache \<Longrightarrow> cache i = Some entry \<Longrightarrow> ws_ID (cw_workspace entry) = i"
  by (simp add: cache_named_def)

lemma filter_full: "length (filter P xs) = length xs \<Longrightarrow> filter P xs = xs"
proof (induction xs)
  case (Cons x xs)
  then show ?case using length_filter_le [of P xs] by (cases "P x") simp_all
qed simp

lemma length_dedup_onto: "length (dedup_onto out xs) \<le> length out + length xs"
proof (induction xs arbitrary: out)
  case (Cons x xs)
  from Cons.IH [of out] Cons.IH [of "out @ [x]"] show ?case by simp
qed simp

lemma dedup_length_eq: "length (dedup_onto [] xs) = length xs \<Longrightarrow> dedup_onto [] xs = xs"
proof -
  assume "length (dedup_onto [] xs) = length xs"
  moreover have "card (set xs) = length (dedup_onto [] xs)"
    using distinct_card [OF distinct_dedup_onto, of "[]" xs] by simp
  ultimately have "distinct xs" by (simp add: card_distinct)
  then show ?thesis by (simp add: dedup_onto_distinct)
qed

lemma refresh_ids_set [simp]: "set (refresh_ids ws) = ws_ID ` set ws - {0}"
  by (auto simp: refresh_ids_def)

lemma distinct_refresh_ids [simp]: "distinct (refresh_ids ws)"
  by (simp add: refresh_ids_def)

text \<open>A filtered list of identifiers is as long as the queued one only when nothing was left out.\<close>

lemma filter_ids_eq:
  "filter P (refresh_ids ws) = map ws_ID ws \<longleftrightarrow> length (filter P (refresh_ids ws)) = length ws"
proof
  assume l: "length (filter P (refresh_ids ws)) = length ws"
  let ?nz = "filter (\<lambda>i. i \<noteq> 0) (map ws_ID ws)"
  have "length (filter P (refresh_ids ws)) \<le> length (refresh_ids ws)" "length (refresh_ids ws) \<le> length ?nz"
    "length ?nz \<le> length ws"
    using length_dedup_onto [of "[]" ?nz] length_filter_le [of "\<lambda>i. i \<noteq> 0" "map ws_ID ws"]
    by (simp_all only: refresh_ids_def length_filter_le list.size length_map add_0)
  with l have eq: "length (filter P (refresh_ids ws)) = length (refresh_ids ws)" "length (refresh_ids ws) = length ?nz"
    "length ?nz = length (map ws_ID ws)" by (simp_all only: length_map)
  have "filter P (refresh_ids ws) = refresh_ids ws" by (rule filter_full [OF eq(1)])
  moreover have "refresh_ids ws = ?nz" using dedup_length_eq [of ?nz] eq(2) by (simp only: refresh_ids_def)
  moreover have "?nz = map ws_ID ws" by (rule filter_full [OF eq(3)])
  ultimately show "filter P (refresh_ids ws) = map ws_ID ws" by simp
qed (metis length_map)

lemma cache_pass_named:
  "cache_pass now ids cache refreshed missing = (r, m, c) \<Longrightarrow> cache_named cache \<Longrightarrow> rows_named refreshed \<Longrightarrow>
     rows_named r \<and> cache_named c \<and> dom r \<subseteq> dom refreshed \<union> set ids"
proof (induction ids arbitrary: cache refreshed missing)
  case (Cons i ids)
  consider (miss) "cache i = None" | (fresh) entry where "cache i = Some entry" "now < cw_expiresAt entry"
    | (old) entry where "cache i = Some entry" "\<not> now < cw_expiresAt entry" by fastforce
  then show ?case
  proof cases
    case miss
    with Cons.prems(1) have "cache_pass now ids cache refreshed (missing @ [i]) = (r, m, c)" by simp
    from Cons.IH [OF this Cons.prems(2,3)] show ?thesis by auto
  next
    case (fresh entry)
    then have "cache_pass now ids cache (refreshed(i \<mapsto> cw_workspace entry)) missing = (r, m, c)" using Cons.prems(1) by simp
    moreover have "rows_named (refreshed(i \<mapsto> cw_workspace entry))"
      using Cons.prems(3) cache_namedD [OF Cons.prems(2) fresh(1)] by (simp add: rows_named_def)
    ultimately show ?thesis using Cons.IH [OF _ Cons.prems(2)] by fastforce
  next
    case (old entry)
    then have "cache_pass now ids (cache(i := None)) refreshed (missing @ [i]) = (r, m, c)" using Cons.prems(1) by simp
    moreover have "cache_named (cache(i := None))" using Cons.prems(2) by (simp add: cache_named_def)
    ultimately show ?thesis using Cons.IH [OF _ _ Cons.prems(3)] by fastforce
  qed
qed simp

lemma keep_fresh_exact:
  "rows_named refreshed \<Longrightarrow> keep_fresh refreshed qs seen = (out, changed) \<Longrightarrow>
     (changed \<longleftrightarrow> length out \<noteq> length qs) \<and> length out \<le> length qs \<and> (\<not> changed \<longrightarrow> map ws_ID out = map ws_ID qs) \<and>
     distinct (map ws_ID out) \<and> ws_ID ` set out = {i \<in> ws_ID ` set qs. refreshed i \<noteq> None} - seen"
proof (induction qs arbitrary: seen out changed)
  case (Cons q qs)
  show ?case
  proof (cases "refreshed (ws_ID q)")
    case None
    obtain out' c' where k: "keep_fresh refreshed qs seen = (out', c')" by (metis prod.collapse)
    with Cons.prems None have "out = out'" "changed" by auto
    with Cons.IH [OF Cons.prems(1) k] None show ?thesis by auto
  next
    case (Some fresh)
    with Cons.prems(1) have e: "ws_ID fresh = ws_ID q" by (simp add: rows_named_def)
    show ?thesis
    proof (cases "ws_ID fresh \<in> seen")
      case True
      obtain out' c' where k: "keep_fresh refreshed qs seen = (out', c')" by (metis prod.collapse)
      with Cons.prems Some True have "out = out'" "changed" by auto
      with Cons.IH [OF Cons.prems(1) k] e True show ?thesis by auto
    next
      case False
      obtain out' c' where k: "keep_fresh refreshed qs (insert (ws_ID fresh) seen) = (out', c')" by (metis prod.collapse)
      with Cons.prems Some False have "out = fresh # out'" "changed = c'" by auto
      with Cons.IH [OF Cons.prems(1) k] e Some False show ?thesis by auto
    qed
  qed
qed simp

lemma store_rows_named: "cache_named cache \<Longrightarrow> rows_named rows \<Longrightarrow> cache_named (store_rows expiry rows cache)"
  by (simp add: cache_named_def rows_named_def store_rows_def split: option.splits)

text \<open>The owners the refresh knows: those of the snapshot, or those cached or loaded.\<close>

lemma ready_refresh:
  assumes "snapshots_ok st"
  shows "map ws_ID (concat (map (\<lambda>i. case cc_workspaces st i of None \<Rightarrow> [] | Some snapshot \<Rightarrow> [wk_Value snapshot]) ids)) =
    filter (\<lambda>i. cc_workspaces st i \<noteq> None) ids"
proof (induction ids)
  case (Cons i ids)
  then show ?case using assms by (cases "cc_workspaces st i") (simp_all add: snapshots_ok_def)
qed simp

lemma cache_pass_covers:
  "cache_pass now ids cache refreshed missing = (r, m, c) \<Longrightarrow> dom refreshed \<union> set missing \<union> set ids \<subseteq> dom r \<union> set m"
proof (induction ids arbitrary: cache refreshed missing)
  case (Cons i ids)
  consider (fresh) entry where "cache i = Some entry" "now < cw_expiresAt entry"
    | (other) cache' where "cache_pass now ids cache' refreshed (missing @ [i]) = (r, m, c)"
    using Cons.prems by (fastforce split: option.splits if_splits)
  then show ?case
  proof cases
    case (fresh entry)
    with Cons.prems have "cache_pass now ids cache (refreshed(i \<mapsto> cw_workspace entry)) missing = (r, m, c)" by simp
    from Cons.IH [OF this, unfolded dom_fun_upd] show ?thesis by simp
  next
    case (other cache')
    from Cons.IH [OF this] show ?thesis by auto
  qed
qed auto

definition loader_named :: "workspace_loader \<Rightarrow> bool" where
  "loader_named load \<longleftrightarrow> (\<forall>ids rows. load ids = Inr rows \<longrightarrow> rows_named rows)"

lemma loader_namedD: "loader_named load \<Longrightarrow> load ids = Inr rows \<Longrightarrow> rows_named rows"
  by (auto simp: loader_named_def)

lemma refresh_exact:
  assumes run: "refreshProxyWorkspaces st load now ws cache = ((out, changed), cache')"
    and ok: "snapshots_ok st" "cache_named cache" "loader_named load"
  shows "changed \<longleftrightarrow> map ws_ID out \<noteq> map ws_ID ws" "cache_named cache'" "ws_ID ` set out \<subseteq> ws_ID ` set ws"
    "changed \<Longrightarrow> distinct (map ws_ID out)"
    "cc_ready st \<Longrightarrow> ws \<noteq> [] \<Longrightarrow> ws_ID ` set out = {i \<in> ws_ID ` set ws - {0}. cc_workspaces st i \<noteq> None}"
    "\<not> cc_ready st \<Longrightarrow> (\<And>ids. \<exists>e. load ids = Inl e) \<Longrightarrow> ws_ID ` set ws - {0} \<subseteq> ws_ID ` set out"
proof -
  have "(changed \<longleftrightarrow> map ws_ID out \<noteq> map ws_ID ws) \<and> cache_named cache' \<and> ws_ID ` set out \<subseteq> ws_ID ` set ws \<and>
    (changed \<longrightarrow> distinct (map ws_ID out)) \<and>
    (cc_ready st \<longrightarrow> ws \<noteq> [] \<longrightarrow> ws_ID ` set out = {i \<in> ws_ID ` set ws - {0}. cc_workspaces st i \<noteq> None}) \<and>
    (\<not> cc_ready st \<longrightarrow> (\<forall>ids. \<exists>e. load ids = Inl e) \<longrightarrow> ws_ID ` set ws - {0} \<subseteq> ws_ID ` set out)"
  proof (cases "ws = []")
    case True
    with run ok show ?thesis by (auto simp: refreshProxyWorkspaces_def)
  next
    case ne: False
    show ?thesis
    proof (cases "cc_ready st")
      case True
      let ?out = "concat (map (\<lambda>i. case cc_workspaces st i of None \<Rightarrow> [] | Some snapshot \<Rightarrow> [wk_Value snapshot]) (refresh_ids ws))"
      from run ne True have o: "out = ?out" "changed \<longleftrightarrow> length ?out \<noteq> length ws" "cache' = cache"
        by (simp_all add: refreshProxyWorkspaces_def Lookup_def Let_def) auto
      have ids: "map ws_ID out = filter (\<lambda>i. cc_workspaces st i \<noteq> None) (refresh_ids ws)"
        unfolding o(1) by (rule ready_refresh [OF ok(1)])
      then have "length out = length (filter (\<lambda>i. cc_workspaces st i \<noteq> None) (refresh_ids ws))" by (metis length_map)
      then have c: "changed \<longleftrightarrow> map ws_ID out \<noteq> map ws_ID ws"
        unfolding ids filter_ids_eq using o by simp
      have s: "ws_ID ` set out = {i \<in> ws_ID ` set ws - {0}. cc_workspaces st i \<noteq> None}"
        using arg_cong [OF ids, of set] by auto
      have "distinct (map ws_ID out)" unfolding ids by simp
      with c s o ok True show ?thesis by auto
    next
      case False
      obtain r m c where p: "cache_pass now (refresh_ids ws) cache Map.empty [] = (r, m, c)" by (metis prod.collapse)
      from cache_pass_named [OF p ok(2)] have r: "rows_named r" "cache_named c" "dom r \<subseteq> ws_ID ` set ws - {0}"
        by (auto simp: rows_named_def)
      have cov: "ws_ID ` set ws - {0} \<subseteq> dom r \<union> set m" using cache_pass_covers [OF p] by simp
      consider (cached) "m = []" "keep_fresh r ws {} = (out, changed)" "cache' = c"
        | (failed) e where "load m = Inl e" "out = map (\<lambda>w. case r (ws_ID w) of None \<Rightarrow> w | Some fresh \<Rightarrow> fresh) ws" "\<not> changed" "cache' = c"
        | (loaded) rows where "load m = Inr rows" "keep_fresh (r ++ rows) ws {} = (out, changed)"
            "cache' = store_rows (now + workspaceCacheTTL) rows c"
        using run ne False p by (auto simp: refreshProxyWorkspaces_def Lookup_def split: if_splits sum.splits)
      then show ?thesis
      proof cases
        case cached
        from keep_fresh_exact [OF r(1) cached(2)] cached r(2) False cov show ?thesis
          by (auto simp: dom_def) (metis length_map)+
      next
        case failed
        have same: "map ws_ID out = map ws_ID ws"
          using failed(2) r(1) by (auto simp: rows_named_def split: option.splits)
        from arg_cong [OF this, of set] have "ws_ID ` set out = ws_ID ` set ws" by simp
        with same failed r(2) False show ?thesis by simp
      next
        case loaded
        have n: "rows_named (r ++ rows)" using r(1) loader_namedD [OF ok(3) loaded(1)] by (auto simp: rows_named_def map_add_Some_iff)
        have "\<not> (\<forall>ids. \<exists>e. load ids = Inl e)" using loaded(1) by (metis Inl_Inr_False)
        with keep_fresh_exact [OF n loaded(2)] loaded store_rows_named [OF r(2) loader_namedD [OF ok(3) loaded(1)]] False show ?thesis
          by auto (metis length_map)+
      qed
    qed
  qed
  then show "changed \<longleftrightarrow> map ws_ID out \<noteq> map ws_ID ws" "cache_named cache'" "ws_ID ` set out \<subseteq> ws_ID ` set ws"
    "changed \<Longrightarrow> distinct (map ws_ID out)"
    "cc_ready st \<Longrightarrow> ws \<noteq> [] \<Longrightarrow> ws_ID ` set out = {i \<in> ws_ID ` set ws - {0}. cc_workspaces st i \<noteq> None}"
    "\<not> cc_ready st \<Longrightarrow> (\<And>ids. \<exists>e. load ids = Inl e) \<Longrightarrow> ws_ID ` set ws - {0} \<subseteq> ws_ID ` set out"
    by blast+
qed

subsection \<open>The decisions behind the requests\<close>

text \<open>
  What the loops decide, as a list: one entry per check that is added, with the judge selected for
  it. The requests of a cycle are these decisions grouped by key.
\<close>

record decision =
  de_index :: nat
  de_setting :: ProtocolCheckSettings
  de_judge :: Judge
  de_check :: workspaceCheck

definition de_transport :: "decision \<Rightarrow> string" where
  "de_transport d = ResolveCheckerTransportProtocol (pcs_transport (de_setting d))"

definition de_key :: "decision \<Rightarrow> string" where
  "de_key d = request_key (de_judge d) (CheckerProtocols ! de_index d) (de_transport d) (pcs_timeout (de_setting d)) (pcs_retries (de_setting d))"

definition de_fresh :: "decision \<Rightarrow> requestAssignment" where
  "de_fresh d = new_assignment (de_judge d) (de_index d) (de_transport d) (pcs_timeout (de_setting d)) (pcs_retries (de_setting d))"

definition place :: "decision \<Rightarrow> requests \<Rightarrow> requests" where
  "place d = add_check (de_key d) (de_fresh d) (de_check d)"

definition decide :: "worker_env \<Rightarrow> Workspace \<Rightarrow> Plan option \<Rightarrow> nat \<Rightarrow> ProtocolCheckSettings \<Rightarrow> judge_state \<Rightarrow>
    decision list \<times> judge_state" where
  "decide E workspace plan index setting js =
     (if \<not> pcs_enabled setting then ([], js)
      else (case select_judge workspace plan index (ResolveCheckerTransportProtocol (pcs_transport setting)) js of
        (((None, regex), configKey, headers), js) \<Rightarrow> ([], js)
      | (((Some judge, regex), configKey, headers), js) \<Rightarrow>
          (if blocked_judge E judge then []
           else [\<lparr>de_index = index, de_setting = setting, de_judge = judge,
                  de_check = \<lparr>wc_workspaceID = ws_ID workspace, wc_regex = regex, wc_configKey = configKey, wc_headers = headers\<rparr>\<rparr>], js)))"

fun decide_protocols :: "worker_env \<Rightarrow> Workspace \<Rightarrow> Plan option \<Rightarrow> nat \<Rightarrow> ProtocolCheckSettings list \<Rightarrow> judge_state \<Rightarrow>
    decision list \<times> judge_state" where
  "decide_protocols E workspace plan index [] js = ([], js)"
| "decide_protocols E workspace plan index (setting # settings) js =
     (case decide E workspace plan index setting js of (ds, js) \<Rightarrow>
        (case decide_protocols E workspace plan (Suc index) settings js of (es, js) \<Rightarrow> (ds @ es, js)))"

text \<open>The settings a cycle uses for a queued owner; none when the snapshot no longer has it.\<close>

definition owner_view :: "cache_state \<Rightarrow> u64 \<Rightarrow> Workspace \<Rightarrow> (Workspace \<times> Plan option) option" where
  "owner_view st proxyID queued =
     (if cc_ready st then map_option (\<lambda>snapshot. (wk_Value snapshot, Some (snapshot_Plan snapshot proxyID))) (cc_workspaces st (ws_ID queued))
      else Some (queued, None))"

fun decide_owners :: "worker_env \<Rightarrow> (Workspace \<times> Plan option) list \<Rightarrow> judge_state \<Rightarrow> decision list \<times> judge_state" where
  "decide_owners E [] js = ([], js)"
| "decide_owners E ((workspace, plan) # owners) js =
     (case decide_protocols E workspace plan 0 (resolved_settings workspace plan) js of (ds, js) \<Rightarrow>
        (case decide_owners E owners js of (es, js) \<Rightarrow> (ds @ es, js)))"

definition owner_views :: "cache_state \<Rightarrow> u64 \<Rightarrow> Workspace list \<Rightarrow> (Workspace \<times> Plan option) list" where
  "owner_views st proxyID ws = List.map_filter (owner_view st proxyID) ws"

text \<open>The loops follow the decisions.\<close>

definition follows :: "decision list \<Rightarrow> judge_state \<Rightarrow> build_acc \<Rightarrow> build_acc \<Rightarrow> bool" where
  "follows ds js acc acc' \<longleftrightarrow> ba_requests acc' = fold place ds (ba_requests acc) \<and> ba_judges acc' = js \<and>
     ba_hasChecks acc' = (\<lambda>w. if w \<in> (wc_workspaceID \<circ> de_check) ` set ds then Some True else ba_hasChecks acc w)"

lemma followsD:
  assumes "follows ds js acc acc'"
  shows "ba_requests acc' = fold place ds (ba_requests acc)" "ba_judges acc' = js"
    "ba_hasChecks acc' w = (if w \<in> (wc_workspaceID \<circ> de_check) ` set ds then Some True else ba_hasChecks acc w)"
  using assms by (simp_all add: follows_def)

lemma follows_Nil: "ba_requests acc' = ba_requests acc \<Longrightarrow> ba_hasChecks acc' = ba_hasChecks acc \<Longrightarrow> ba_judges acc' = js \<Longrightarrow>
    follows [] js acc acc'"
  by (simp add: follows_def)

lemma follows_append: "follows ds js1 acc acc1 \<Longrightarrow> follows es js2 acc1 acc2 \<Longrightarrow> follows (ds @ es) js2 acc acc2"
  by (auto simp: follows_def fun_eq_iff)

lemma protocol_step_follows:
  assumes "decide E workspace plan index setting (ba_judges acc) = (ds, js)"
  shows "follows ds js acc (protocol_step E workspace plan index setting acc)
    \<and> ba_success (protocol_step E workspace plan index setting acc) = ba_success acc"
proof (cases "pcs_enabled setting")
  case False
  with assms show ?thesis by (simp add: decide_def protocol_step_def follows_Nil)
next
  case True
  obtain judge regex configKey headers js1 where s: "select_judge workspace plan index
      (ResolveCheckerTransportProtocol (pcs_transport setting)) (ba_judges acc) = (((judge, regex), configKey, headers), js1)"
    by (metis prod.collapse)
  show ?thesis
  proof (cases "judge = None \<or> blocked_judge E (the judge)")
    case skip: True
    with True s assms have "ds = []" "js = js1" by (auto simp: decide_def split: option.splits)
    with True s skip show ?thesis
      by (auto simp: protocol_step_def Let_def intro!: follows_Nil split: option.splits)
  next
    case False
    with True s assms show ?thesis
      by (auto simp: decide_def protocol_step_def Let_def follows_def place_def de_key_def de_fresh_def de_transport_def fun_eq_iff
          split: option.splits)
  qed
qed

lemma protocol_loop_follows:
  "decide_protocols E workspace plan index settings (ba_judges acc) = (ds, js) \<Longrightarrow>
     follows ds js acc (protocol_loop E workspace plan index settings acc) \<and>
     ba_success (protocol_loop E workspace plan index settings acc) = ba_success acc"
proof (induction settings arbitrary: index acc ds)
  case Nil
  then show ?case by (simp add: follows_Nil)
next
  case (Cons setting settings)
  obtain ds1 js1 where d: "decide E workspace plan index setting (ba_judges acc) = (ds1, js1)" by (metis prod.collapse)
  note S = protocol_step_follows [OF d]
  let ?acc = "protocol_step E workspace plan index setting acc"
  obtain es where e: "decide_protocols E workspace plan (Suc index) settings (ba_judges ?acc) = (es, js)" "ds = ds1 @ es"
    using Cons.prems d S by (auto simp: follows_def split: prod.splits)
  from Cons.IH [OF e(1)] S follows_append show ?case unfolding e(2) by auto
qed

lemma owner_views_simps [simp]:
  "owner_views st proxyID [] = []"
  "owner_views st proxyID (q # qs) =
     (case owner_view st proxyID q of None \<Rightarrow> owner_views st proxyID qs | Some v \<Rightarrow> v # owner_views st proxyID qs)"
  by (simp_all add: owner_views_def map_filter_simps split: option.splits)

lemma workspace_loop_follows:
  "workspace_loop E st proxyID ws acc = (out, acc') \<Longrightarrow>
     decide_owners E (owner_views st proxyID ws) (ba_judges acc) = (ds, js) \<Longrightarrow>
     follows ds js acc acc' \<and> ba_success acc' = (\<lambda>w. if w \<in> ws_ID ` set ws then Some False else ba_success acc w) \<and>
     out = map (\<lambda>q. case owner_view st proxyID q of None \<Rightarrow> q | Some v \<Rightarrow> fst v) ws"
proof (induction ws arbitrary: acc out ds)
  case Nil
  then show ?case by (auto simp: follows_Nil)
next
  case (Cons q qs)
  let ?acc = "acc\<lparr>ba_success := (ba_success acc)(ws_ID q \<mapsto> False)\<rparr>"
  show ?case
  proof (cases "owner_view st proxyID q")
    case None
    then have v: "cc_ready st" "cc_workspaces st (ws_ID q) = None" by (auto simp: owner_view_def split: if_splits)
    with Cons.prems(1) obtain out' where w: "workspace_loop E st proxyID qs ?acc = (out', acc')" "out = q # out'"
      by (auto simp: Lookup_def Let_def split: prod.splits)
    from Cons.prems(2) None have d: "decide_owners E (owner_views st proxyID qs) (ba_judges ?acc) = (ds, js)" by simp
    from Cons.IH [OF w(1) d] w(2) None show ?thesis by (auto simp: follows_def fun_eq_iff)
  next
    case (Some v)
    obtain workspace plan where v: "v = (workspace, plan)" by (cases v)
    let ?acc1 = "protocol_loop E workspace plan 0 (resolved_settings workspace plan) ?acc"
    have view: "workspace = (if cc_ready st then wk_Value (the (cc_workspaces st (ws_ID q))) else q)"
      "plan = (if cc_ready st then Some (snapshot_Plan (the (cc_workspaces st (ws_ID q))) proxyID) else None)"
      "\<not> (cc_ready st \<and> cc_workspaces st (ws_ID q) = None)"
      using Some v by (auto simp: owner_view_def split: if_splits)
    from Cons.prems(1) obtain out' where w: "workspace_loop E st proxyID qs ?acc1 = (out', acc')" "out = workspace # out'"
      using view by (auto simp: Lookup_def Let_def split: prod.splits if_splits)
    obtain ds1 js1 where d1: "decide_protocols E workspace plan 0 (resolved_settings workspace plan) (ba_judges ?acc) = (ds1, js1)"
      by (metis prod.collapse)
    note P = protocol_loop_follows [OF d1]
    then have js1: "ba_judges ?acc1 = js1" by (simp add: follows_def)
    from Cons.prems(2) Some v d1 js1 obtain es where
      e: "decide_owners E (owner_views st proxyID qs) (ba_judges ?acc1) = (es, js)" "ds = ds1 @ es"
      by (auto split: prod.splits)
    note IH = Cons.IH [OF w(1) e(1)]
    have "follows ds1 js1 acc ?acc1" using P by (simp add: follows_def cong: if_cong)
    with IH follows_append have "follows ds js acc acc'" unfolding e(2) by blast
    with IH P w(2) Some v show ?thesis by (auto simp: fun_eq_iff)
  qed
qed

subsection \<open>Grouping by key\<close>

lemma map_of_add_check:
  "map_of (add_check key fresh check reqs) k =
     (if k = key then Some (let a = (case map_of reqs key of None \<Rightarrow> fresh | Some a \<Rightarrow> a) in a\<lparr>ra_checks := ra_checks a @ [check]\<rparr>)
      else map_of reqs k)"
  by (simp add: add_check_def Let_def AList.update_conv')

definition group_of :: "decision list \<Rightarrow> string \<Rightarrow> requestAssignment option \<Rightarrow> requestAssignment option" where
  "group_of ds k start =
     (let es = filter (\<lambda>d. de_key d = k) ds;
          a = (case start of Some a \<Rightarrow> Some a | None \<Rightarrow> (case es of [] \<Rightarrow> None | d # _ \<Rightarrow> Some (de_fresh d)))
      in map_option (\<lambda>a. a\<lparr>ra_checks := ra_checks a @ map de_check es\<rparr>) a)"

lemma map_of_place_all: "map_of (fold place ds reqs) k = group_of ds k (map_of reqs k)"
proof (induction ds arbitrary: reqs)
  case Nil
  then show ?case by (cases "map_of reqs k") (simp_all add: group_of_def)
next
  case (Cons d ds)
  then show ?case
    by (cases "map_of reqs k") (auto simp: place_def map_of_add_check group_of_def Let_def)
qed

lemma distinct_place_all: "distinct (map fst reqs) \<Longrightarrow> distinct (map fst (fold place ds reqs))"
  by (induction ds arbitrary: reqs) (simp_all add: place_def add_check_def Let_def distinct_update)

text \<open>An assignment is its first decision's, with the checks of all decisions that have its key.\<close>

lemma place_all_assignment:
  assumes "(k, a) \<in> set (fold place ds [])"
  obtains d where "d \<in> set ds" "de_key d = k" "a = (de_fresh d)\<lparr>ra_checks := map de_check (filter (\<lambda>d. de_key d = k) ds)\<rparr>"
proof -
  have "map_of (fold place ds []) k = Some a"
    using assms distinct_place_all [of "[]" ds] by (simp add: map_of_is_SomeI)
  then have g: "group_of ds k None = Some a" by (simp add: map_of_place_all)
  then obtain d es where es: "filter (\<lambda>d. de_key d = k) ds = d # es" by (auto simp: group_of_def Let_def split: list.splits)
  have "d \<in> set (filter (\<lambda>d. de_key d = k) ds)" using es by simp
  then have "d \<in> set ds" "de_key d = k" by simp_all
  moreover have "a = (de_fresh d)\<lparr>ra_checks := map de_check (filter (\<lambda>d. de_key d = k) ds)\<rparr>"
    using g es by (simp add: group_of_def Let_def de_fresh_def new_assignment_def)
  ultimately show ?thesis by (rule that)
qed

lemma place_all_check:
  assumes "d \<in> set ds"
  obtains a where "(de_key d, a) \<in> set (fold place ds [])" "de_check d \<in> set (ra_checks a)"
proof -
  have "group_of ds (de_key d) None \<noteq> None"
    using assms by (auto simp: group_of_def Let_def filter_empty_conv split: list.splits)
  then obtain a where "map_of (fold place ds []) (de_key d) = Some a" by (auto simp: map_of_place_all)
  then have m: "(de_key d, a) \<in> set (fold place ds [])" by (rule map_of_SomeD)
  moreover from place_all_assignment [OF m] have "ra_checks a = map de_check (filter (\<lambda>e. de_key e = de_key d) ds)"
    by (metis (no_types, lifting) requestAssignment.select_convs(8) requestAssignment.surjective requestAssignment.update_convs(8))
  ultimately show ?thesis using assms by (intro that [of a]) auto
qed

subsection \<open>Keys\<close>

lemma sep_inject:
  assumes "c \<notin> set a" "c \<notin> set b" "a @ c # x = b @ c # y"
  shows "a = b \<and> x = y"
  using assms
proof (induction a arbitrary: b)
  case Nil
  then show ?case by (cases b) auto
next
  case (Cons d a)
  then show ?case by (cases b) auto
qed

lemma format_nat_inject: "format_nat m = format_nat n \<Longrightarrow> m = n"
  by (metis option.inject parse_format_nat)

lemma digit_char_underscore: "d < 10 \<Longrightarrow> digit_char d \<noteq> CHR ''_'' \<and> digit_char d \<noteq> CHR ''-''"
  by (auto simp: digit_char_def char_of_eq_iff take_bit_nat_eq_self)

lemma format_nat_chars: "CHR ''_'' \<notin> set (format_nat n) \<and> CHR ''-'' \<notin> set (format_nat n)"
  using format_nat_digits [of n] digit_char_underscore by force

lemma FormatInt_chars [simp]: "CHR ''_'' \<notin> set (FormatInt i)"
  using format_nat_chars by (simp add: FormatInt_def)

lemma FormatInt_inject [simp]: "FormatInt i = FormatInt j \<longleftrightarrow> i = j"
proof
  assume e: "FormatInt i = FormatInt j"
  have h: "format_nat n \<noteq> CHR ''-'' # cs" for n cs
    using format_nat_chars [of n] by (metis list.set_intros(1))
  from e h show "i = j"
    by (auto simp: FormatInt_def split: if_splits dest: format_nat_inject) (metis h)+
qed simp

definition no_underscore :: "string \<Rightarrow> bool" where
  "no_underscore s \<longleftrightarrow> CHR ''_'' \<notin> set s"

lemma transport_plain [simp]: "no_underscore (ResolveCheckerTransportProtocol t)"
  by (simp add: no_underscore_def ResolveCheckerTransportProtocol_def NormalizeTransportProtocol_def Let_def)

lemma protocol_plain: "index < 4 \<Longrightarrow> no_underscore (CheckerProtocols ! index)"
  by (auto simp: no_underscore_def CheckerProtocols_def less_Suc_eq numeral_eq_Suc)

lemma protocol_inject: "i < 4 \<Longrightarrow> j < 4 \<Longrightarrow> CheckerProtocols ! i = CheckerProtocols ! j \<Longrightarrow> i = j"
  by (auto simp: CheckerProtocols_def less_Suc_eq numeral_eq_Suc)

lemma request_key_inject:
  assumes "request_key j p t to re = request_key j' p' t' to' re'"
    and "no_underscore p" "no_underscore p'" "no_underscore t" "no_underscore t'"
  shows "j_ID j = j_ID j' \<and> p = p' \<and> t = t' \<and> to = to' \<and> re = re'"
proof -
  note S = sep_inject [of "CHR ''_''"]
  from assms(1) S [of "FormatInt (sint (j_ID j))" "FormatInt (sint (j_ID j'))"]
  have 1: "sint (j_ID j) = sint (j_ID j')"
    and r1: "p @ ''_'' @ t @ ''_'' @ FormatInt (uint to) @ ''_'' @ FormatInt (uint re) =
      p' @ ''_'' @ t' @ ''_'' @ FormatInt (uint to') @ ''_'' @ FormatInt (uint re')"
    by (simp_all add: request_key_def)
  from r1 S [of p p'] assms(2,3) have 2: "p = p'"
    and r2: "t @ ''_'' @ FormatInt (uint to) @ ''_'' @ FormatInt (uint re) =
      t' @ ''_'' @ FormatInt (uint to') @ ''_'' @ FormatInt (uint re')"
    by (simp_all add: no_underscore_def)
  from r2 S [of t t'] assms(4,5) have 3: "t = t'"
    and r3: "FormatInt (uint to) @ ''_'' @ FormatInt (uint re) = FormatInt (uint to') @ ''_'' @ FormatInt (uint re')"
    by (simp_all add: no_underscore_def)
  from r3 S [of "FormatInt (uint to)" "FormatInt (uint to')"] have 4: "uint to = uint to'" by simp
  from r3 [unfolded 4] have 5: "uint re = uint re'" by simp
  from 1 2 3 4 5 show ?thesis by (auto intro: signed_word_eqI unsigned_word_eqI)
qed

subsection \<open>What a decision rests on\<close>

definition plan_shaped :: "Plan option \<Rightarrow> bool" where
  "plan_shaped plan \<longleftrightarrow> (case plan of None \<Rightarrow> True | Some p \<Rightarrow> length (pl_Settings p) = 4)"

lemma length_resolved: "plan_shaped plan \<Longrightarrow> length (resolved_settings workspace plan) = 4"
  by (auto simp: plan_shaped_def resolved_settings_def length_ResolveCheckerSettings split: option.splits)

definition decision_for :: "worker_env \<Rightarrow> Workspace \<Rightarrow> Plan option \<Rightarrow> decision \<Rightarrow> bool" where
  "decision_for E workspace plan d \<longleftrightarrow> de_index d < length (resolved_settings workspace plan) \<and>
     de_setting d = resolved_settings workspace plan ! de_index d \<and> pcs_enabled (de_setting d) \<and> \<not> blocked_judge E (de_judge d) \<and>
     wc_workspaceID (de_check d) = ws_ID workspace \<and>
     (case plan of Some p \<Rightarrow> wc_configKey (de_check d) = pl_Keys p ! de_index d \<and> wc_headers (de_check d) = Some (pl_Headers p)
      | None \<Rightarrow> wc_configKey (de_check d) = [] \<and> wc_headers (de_check d) = None)"

lemma select_judge_key:
  "select_judge workspace plan index transport js = (((judge, regex), configKey, headers), js') \<Longrightarrow>
     (case plan of Some p \<Rightarrow> configKey = pl_Keys p ! index \<and> headers = Some (pl_Headers p) | None \<Rightarrow> configKey = [] \<and> headers = None)"
  by (auto simp: select_judge_def Let_def split: option.splits prod.splits)

lemma decide_sound:
  assumes "decide E workspace plan index setting js = (ds, js')" "d \<in> set ds"
  shows "de_index d = index \<and> de_setting d = setting \<and> pcs_enabled setting \<and> \<not> blocked_judge E (de_judge d) \<and>
    wc_workspaceID (de_check d) = ws_ID workspace \<and> length ds = 1 \<and>
    (case plan of Some p \<Rightarrow> wc_configKey (de_check d) = pl_Keys p ! index \<and> wc_headers (de_check d) = Some (pl_Headers p)
      | None \<Rightarrow> wc_configKey (de_check d) = [] \<and> wc_headers (de_check d) = None)"
proof -
  obtain judge regex configKey headers js1 where s: "select_judge workspace plan index
      (ResolveCheckerTransportProtocol (pcs_transport setting)) js = (((judge, regex), configKey, headers), js1)"
    by (metis prod.collapse)
  from assms s select_judge_key [OF s] show ?thesis
    by (cases judge) (auto simp: decide_def split: if_splits option.splits)
qed

lemma decide_protocols_sound:
  "decide_protocols E workspace plan index settings js = (ds, js') \<Longrightarrow> index + length settings = n \<Longrightarrow>
     n = length (resolved_settings workspace plan) \<Longrightarrow> (\<And>i. i < length settings \<Longrightarrow> settings ! i = resolved_settings workspace plan ! (index + i)) \<Longrightarrow>
     (\<forall>d \<in> set ds. decision_for E workspace plan d \<and> index \<le> de_index d) \<and> distinct (map de_index ds)"
proof (induction settings arbitrary: index js ds)
  case Nil
  then show ?case by auto
next
  case (Cons setting settings)
  obtain ds1 js1 where d: "decide E workspace plan index setting js = (ds1, js1)" by (metis prod.collapse)
  obtain es where e: "decide_protocols E workspace plan (Suc index) settings js1 = (es, js')" "ds = ds1 @ es"
    using Cons.prems(1) d by (auto split: prod.splits)
  have settings: "settings ! i = resolved_settings workspace plan ! (Suc index + i)" if "i < length settings" for i
    using Cons.prems(4) [of "Suc i"] that by simp
  have IH: "(\<forall>d \<in> set es. decision_for E workspace plan d \<and> Suc index \<le> de_index d) \<and> distinct (map de_index es)"
    using Cons.IH [OF e(1) _ Cons.prems(3) settings] Cons.prems(2) by simp
  have one: "decision_for E workspace plan d \<and> de_index d = index" if "d \<in> set ds1" for d
    using decide_sound [OF d that] Cons.prems(2,3) Cons.prems(4) [of 0]
    by (auto simp: decision_for_def split: option.splits)
  have "distinct (map de_index ds1)"
  proof (cases ds1)
    case (Cons x xs)
    with decide_sound [OF d, of x] show ?thesis by auto
  qed simp
  moreover have "index \<notin> de_index ` set es" using IH by fastforce
  ultimately show ?case using IH one unfolding e(2) by (auto dest: one)
qed

lemma decide_owners_sound:
  "decide_owners E owners js = (ds, js') \<Longrightarrow>
     (\<forall>d \<in> set ds. \<exists>(workspace, plan) \<in> set owners. decision_for E workspace plan d) \<and>
     (distinct (map (ws_ID \<circ> fst) owners) \<longrightarrow> distinct (map (\<lambda>d. (wc_workspaceID (de_check d), de_index d)) ds))"
proof (induction owners arbitrary: js ds)
  case Nil
  then show ?case by auto
next
  case (Cons owner owners)
  obtain workspace plan where o: "owner = (workspace, plan)" by (cases owner)
  obtain ds1 js1 where d: "decide_protocols E workspace plan 0 (resolved_settings workspace plan) js = (ds1, js1)"
    by (metis prod.collapse)
  obtain es where e: "decide_owners E owners js1 = (es, js')" "ds = ds1 @ es"
    using Cons.prems d o by (auto split: prod.splits)
  note IH = Cons.IH [OF e(1)]
  have P: "(\<forall>d \<in> set ds1. decision_for E workspace plan d) \<and> distinct (map de_index ds1)"
    using decide_protocols_sound [OF d] by simp
  have "distinct (map (\<lambda>d. (wc_workspaceID (de_check d), de_index d)) ds)" if dist: "distinct (map (ws_ID \<circ> fst) (owner # owners))"
  proof -
    let ?f = "\<lambda>d. (wc_workspaceID (de_check d), de_index d)"
    have "distinct (map ?f ds1)" using P by (auto simp: distinct_map inj_on_def)
    moreover have "distinct (map ?f es)" using IH dist by (simp add: comp_def)
    moreover have "fst x = ws_ID workspace" if "x \<in> set (map ?f ds1)" for x
      using P that by (auto simp: decision_for_def)
    moreover have "fst x \<noteq> ws_ID workspace" if "x \<in> set (map ?f es)" for x
    proof -
      from that obtain d where "d \<in> set es" "fst x = wc_workspaceID (de_check d)" by auto
      moreover from this IH obtain w p where "(w, p) \<in> set owners" "decision_for E w p d" by blast
      ultimately show ?thesis using dist o by (force simp: decision_for_def)
    qed
    ultimately have "set (map ?f ds1) \<inter> set (map ?f es) = {}" by blast
    with \<open>distinct (map ?f ds1)\<close> \<open>distinct (map ?f es)\<close> show ?thesis
      unfolding e(2) map_append distinct_append by blast
  qed
  moreover have "\<exists>(w, p) \<in> set (owner # owners). decision_for E w p d" if "d \<in> set ds" for d
    using that IH P o unfolding e(2) by auto
  ultimately show ?case by blast
qed

lemma build_decisions:
  assumes "buildRequestAssignments E st proxyID ws counters pool = (out, acc)"
  obtains ds js where "decide_owners E (owner_views st proxyID ws) (ba_judges (empty_acc ws counters pool)) = (ds, js)"
    "ba_requests acc = fold place ds []" "ba_judges acc = js"
    "ba_hasChecks acc = (\<lambda>w. if \<exists>d \<in> set ds. wc_workspaceID (de_check d) = w then Some True else None)"
    "ba_success acc = (\<lambda>w. if w \<in> ws_ID ` set ws then Some False else None)"
    "out = map (\<lambda>q. case owner_view st proxyID q of None \<Rightarrow> q | Some v \<Rightarrow> fst v) ws"
proof -
  obtain ds js where d: "decide_owners E (owner_views st proxyID ws) (ba_judges (empty_acc ws counters pool)) = (ds, js)"
    by (metis prod.collapse)
  have "workspace_loop E st proxyID ws (empty_acc ws counters pool) = (out, acc)"
    using assms by (simp add: buildRequestAssignments_def)
  from workspace_loop_follows [OF this d] have f: "follows ds js (empty_acc ws counters pool) acc"
    and s: "ba_success acc = (\<lambda>w. if w \<in> ws_ID ` set ws then Some False else None)"
    and o: "out = map (\<lambda>q. case owner_view st proxyID q of None \<Rightarrow> q | Some v \<Rightarrow> fst v) ws"
    by (simp_all add: empty_acc_def cong: if_cong)
  show ?thesis
    by (rule that [OF d _ _ _ s o]) (use followsD [OF f] in \<open>auto simp: empty_acc_def fun_eq_iff\<close>)
qed

end
