(* ===== verification/Check_Requests.thy ===== *)
theory Check_Requests
  imports Checker_Worker
begin

text \<open>
  What the requests of a cycle guarantee (\<open>jobs/checker/thread_handler.go\<close>): the refresh of the queued
  owners, one physical request per combination of judge, protocol, transport and budget, and judges
  shared by owners whose plans list the same ones.
\<close>

subsection \<open>Requests and the decisions they come from\<close>

lemma placed_fields:
  assumes "(k, a) \<in> set (fold place ds [])"
  obtains d where "d \<in> set ds" "k = de_key d" "ra_judge a = de_judge d" "ra_protocolID a = de_index d + 1"
    "ra_proxyProtocol a = CheckerProtocols ! de_index d" "ra_transportProtocol a = de_transport d" "ra_budgetSet a"
    "ra_timeout a = pcs_timeout (de_setting d)" "ra_retries a = pcs_retries (de_setting d)"
    "ra_checks a = map de_check (filter (\<lambda>e. de_key e = k) ds)"
  using place_all_assignment [OF assms] by (metis (no_types, lifting) de_fresh_def new_assignment_def requestAssignment.select_convs
      requestAssignment.update_convs(8))

lemma key_protocol:
  assumes "de_key d = de_key e" "de_index d < 4" "de_index e < 4"
  shows "de_index d = de_index e \<and> de_transport d = de_transport e \<and> j_ID (de_judge d) = j_ID (de_judge e) \<and>
    pcs_timeout (de_setting d) = pcs_timeout (de_setting e) \<and> pcs_retries (de_setting d) = pcs_retries (de_setting e)"
proof -
  have t: "no_underscore (de_transport x)" for x by (simp add: de_transport_def)
  from assms(1) have "request_key (de_judge d) (CheckerProtocols ! de_index d) (de_transport d) (pcs_timeout (de_setting d)) (pcs_retries (de_setting d))
    = request_key (de_judge e) (CheckerProtocols ! de_index e) (de_transport e) (pcs_timeout (de_setting e)) (pcs_retries (de_setting e))"
    by (simp add: de_key_def)
  from request_key_inject [OF this protocol_plain [OF assms(2)] protocol_plain [OF assms(3)] t t] protocol_inject [OF assms(2,3)]
  show ?thesis by simp
qed

lemma same_fields_key:
  assumes "j_ID (de_judge d) = j_ID (de_judge e)" "de_index d = de_index e" "de_transport d = de_transport e"
    "pcs_timeout (de_setting d) = pcs_timeout (de_setting e)" "pcs_retries (de_setting d) = pcs_retries (de_setting e)"
  shows "de_key d = de_key e"
  using assms by (simp add: de_key_def request_key_def)

lemma placed_unique: "(k, a) \<in> set (fold place ds []) \<Longrightarrow> (k, b) \<in> set (fold place ds []) \<Longrightarrow> a = b"
  using distinct_place_all [of "[]" ds] by (auto dest: eq_key_imp_eq_value)

text \<open>What a request asks for on behalf of one owner.\<close>

definition asked_by :: "worker_env \<Rightarrow> Workspace \<Rightarrow> Plan option \<Rightarrow> requestAssignment \<Rightarrow> workspaceCheck \<Rightarrow> bool" where
  "asked_by E workspace plan a c \<longleftrightarrow>
     (let index = ra_protocolID a - 1; setting = resolved_settings workspace plan ! index in
      0 < ra_protocolID a \<and> index < 4 \<and> pcs_enabled setting \<and> \<not> blocked_judge E (ra_judge a) \<and>
      ra_proxyProtocol a = CheckerProtocols ! index \<and> ra_transportProtocol a = ResolveCheckerTransportProtocol (pcs_transport setting) \<and>
      ra_timeout a = pcs_timeout setting \<and> ra_retries a = pcs_retries setting \<and> wc_workspaceID c = ws_ID workspace \<and>
      (case plan of Some p \<Rightarrow> wc_configKey c = pl_Keys p ! index \<and> wc_headers c = Some (pl_Headers p)
       | None \<Rightarrow> wc_configKey c = [] \<and> wc_headers c = None))"

definition plans_shaped :: "(Workspace \<times> Plan option) list \<Rightarrow> bool" where
  "plans_shaped owners \<longleftrightarrow> (\<forall>(workspace, plan) \<in> set owners. plan_shaped plan)"

lemma decision_index: "decision_for E workspace plan d \<Longrightarrow> plan_shaped plan \<Longrightarrow> de_index d < 4"
  by (simp add: decision_for_def length_resolved)

lemma check_origin:
  assumes "(k, a) \<in> set (fold place ds [])" "c \<in> set (ra_checks a)" "\<forall>d \<in> set ds. de_index d < 4"
  obtains d where "d \<in> set ds" "de_key d = k" "c = de_check d" "ra_protocolID a = de_index d + 1"
    "ra_proxyProtocol a = CheckerProtocols ! de_index d" "ra_transportProtocol a = de_transport d"
    "ra_timeout a = pcs_timeout (de_setting d)" "ra_retries a = pcs_retries (de_setting d)" "j_ID (ra_judge a) = j_ID (de_judge d)"
proof -
  from assms(1) obtain e where e: "e \<in> set ds" "k = de_key e" "ra_judge a = de_judge e" "ra_protocolID a = de_index e + 1"
    "ra_proxyProtocol a = CheckerProtocols ! de_index e" "ra_transportProtocol a = de_transport e"
    "ra_timeout a = pcs_timeout (de_setting e)" "ra_retries a = pcs_retries (de_setting e)"
    "ra_checks a = map de_check (filter (\<lambda>e. de_key e = k) ds)" by (rule placed_fields)
  from e(9) assms(2) obtain d where d: "d \<in> set ds" "de_key d = k" "c = de_check d" by auto
  have "de_key d = de_key e" using d(2) e(2) by simp
  from key_protocol [OF this] d(1) e(1) assms(3) have s: "de_index d = de_index e" "de_transport d = de_transport e"
    "j_ID (de_judge d) = j_ID (de_judge e)" "pcs_timeout (de_setting d) = pcs_timeout (de_setting e)"
    "pcs_retries (de_setting d) = pcs_retries (de_setting e)" by auto
  show ?thesis by (rule that [OF d]) (simp_all add: s e)
qed


lemma requests_exact:
  assumes dec: "\<forall>d \<in> set ds. \<exists>(workspace, plan) \<in> set owners. decision_for E workspace plan d"
    and shaped: "plans_shaped owners"
    and dist: "distinct (map (\<lambda>d. (wc_workspaceID (de_check d), de_index d)) ds)"
  shows "\<lbrakk>(k, a) \<in> set (fold place ds []); (l, b) \<in> set (fold place ds []); j_ID (ra_judge a) = j_ID (ra_judge b);
       ra_protocolID a = ra_protocolID b; ra_transportProtocol a = ra_transportProtocol b;
       ra_timeout a = ra_timeout b; ra_retries a = ra_retries b\<rbrakk> \<Longrightarrow> (k, a) = (l, b)" (is "\<lbrakk>_; _; _; _; _; _; _\<rbrakk> \<Longrightarrow> ?one")
    and "\<lbrakk>(k, a) \<in> set (fold place ds []); c \<in> set (ra_checks a)\<rbrakk> \<Longrightarrow> \<exists>(workspace, plan) \<in> set owners. asked_by E workspace plan a c"
    and "\<lbrakk>(k, a) \<in> set (fold place ds []); (l, b) \<in> set (fold place ds []); c \<in> set (ra_checks a); c' \<in> set (ra_checks b);
       wc_workspaceID c = wc_workspaceID c'; ra_protocolID a = ra_protocolID b\<rbrakk> \<Longrightarrow> (k, a) = (l, b) \<and> c = c'"
    and "(k, a) \<in> set (fold place ds []) \<Longrightarrow> ra_checks a \<noteq> [] \<and> distinct (map wc_workspaceID (ra_checks a))"
proof -
  have index: "\<forall>d \<in> set ds. de_index d < 4"
    using dec shaped by (fastforce simp: plans_shaped_def dest: decision_index)
  have uniq: "d = e" if "d \<in> set ds" "e \<in> set ds" "wc_workspaceID (de_check d) = wc_workspaceID (de_check e)" "de_index d = de_index e" for d e
    using dist that by (auto simp: distinct_map inj_on_def)
  show ?one if a: "(k, a) \<in> set (fold place ds [])" and b: "(l, b) \<in> set (fold place ds [])"
    and same: "j_ID (ra_judge a) = j_ID (ra_judge b)" "ra_protocolID a = ra_protocolID b" "ra_transportProtocol a = ra_transportProtocol b"
      "ra_timeout a = ra_timeout b" "ra_retries a = ra_retries b"
  proof -
    from a obtain d where d: "k = de_key d" "ra_judge a = de_judge d" "ra_protocolID a = de_index d + 1"
      "ra_transportProtocol a = de_transport d" "ra_timeout a = pcs_timeout (de_setting d)" "ra_retries a = pcs_retries (de_setting d)"
      by (rule placed_fields)
    from b obtain e where e: "l = de_key e" "ra_judge b = de_judge e" "ra_protocolID b = de_index e + 1"
      "ra_transportProtocol b = de_transport e" "ra_timeout b = pcs_timeout (de_setting e)" "ra_retries b = pcs_retries (de_setting e)"
      by (rule placed_fields)
    have "k = l" unfolding d(1) e(1) by (rule same_fields_key) (use same d e in simp_all)
    with placed_unique a b show ?thesis by blast
  qed
  show "\<exists>(workspace, plan) \<in> set owners. asked_by E workspace plan a c"
    if a: "(k, a) \<in> set (fold place ds [])" and c: "c \<in> set (ra_checks a)"
  proof -
    from a c index obtain d where d: "d \<in> set ds" "c = de_check d" "ra_protocolID a = de_index d + 1"
      "ra_proxyProtocol a = CheckerProtocols ! de_index d" "ra_transportProtocol a = de_transport d"
      "ra_timeout a = pcs_timeout (de_setting d)" "ra_retries a = pcs_retries (de_setting d)"
      by (rule check_origin)
    from a obtain e where e: "e \<in> set ds" "ra_judge a = de_judge e" by (rule placed_fields)
    from e dec have nb: "\<not> blocked_judge E (ra_judge a)" by (auto simp: decision_for_def)
    from d(1) dec obtain workspace plan where o: "(workspace, plan) \<in> set owners" "decision_for E workspace plan d" by blast
    with index d nb have "asked_by E workspace plan a c"
      by (auto simp: asked_by_def decision_for_def de_transport_def Let_def)
    with o show ?thesis by blast
  qed
  show "(k, a) = (l, b) \<and> c = c'" if a: "(k, a) \<in> set (fold place ds [])" and b: "(l, b) \<in> set (fold place ds [])"
    and c: "c \<in> set (ra_checks a)" and c': "c' \<in> set (ra_checks b)"
    and same: "wc_workspaceID c = wc_workspaceID c'" "ra_protocolID a = ra_protocolID b"
  proof -
    from a c index obtain d where d: "d \<in> set ds" "de_key d = k" "c = de_check d" "ra_protocolID a = de_index d + 1" by (rule check_origin)
    from b c' index obtain e where e: "e \<in> set ds" "de_key e = l" "c' = de_check e" "ra_protocolID b = de_index e + 1" by (rule check_origin)
    from uniq [OF d(1) e(1)] d e same have "d = e" by simp
    with d e placed_unique a b show ?thesis by blast
  qed
  show "ra_checks a \<noteq> [] \<and> distinct (map wc_workspaceID (ra_checks a))" if a: "(k, a) \<in> set (fold place ds [])"
  proof -
    from a obtain d where d: "d \<in> set ds" "k = de_key d" "ra_checks a = map de_check (filter (\<lambda>e. de_key e = k) ds)"
      by (rule placed_fields)
    have i: "de_index x = de_index y" if "de_key x = de_key y" "x \<in> set ds" "y \<in> set ds" for x y
      using key_protocol [OF that(1)] index that(2,3) by blast
    have "distinct ds" using dist by (simp add: distinct_map)
    then have "distinct (map wc_workspaceID (ra_checks a))"
      unfolding d(3) map_map by (auto simp: distinct_map inj_on_def intro!: uniq i)
    moreover have "ra_checks a \<noteq> []" using d by (auto simp: filter_empty_conv)
    ultimately show ?thesis by blast
  qed
qed


lemma owner_views_ids:
  assumes "snapshots_ok st"
  shows "map (ws_ID \<circ> fst) (owner_views st proxyID ws) = filter (\<lambda>i. \<not> cc_ready st \<or> cc_workspaces st i \<noteq> None) (map ws_ID ws)"
proof (induction ws)
  case (Cons q ws)
  then show ?case using assms by (cases "cc_workspaces st (ws_ID q)") (auto simp: owner_view_def snapshots_ok_def)
qed simp

subsection \<open>Positions shared in a cycle\<close>

definition shared_at :: "Plan \<Rightarrow> nat \<Rightarrow> bool" where
  "shared_at p index \<longleftrightarrow> index < 4 \<and> pl_JudgeSets p ! index \<noteq> 0 \<and> 2 \<le> length (pl_Judges p ! index)"

definition judge_key :: "Plan \<Rightarrow> nat \<Rightarrow> nat \<times> u32" where
  "judge_key p index = (index, pl_JudgeSets p ! index)"

definition chosen :: "worker_env \<Rightarrow> Plan \<Rightarrow> nat \<Rightarrow> int \<Rightarrow> Judge set" where
  "chosen E p index position = {j. jr_Judge (pl_Judges p ! index ! nat position) = Some j \<and> \<not> blocked_judge E j}"

text \<open>Plans that name the same nonzero judge set for a protocol list the same judges for it.\<close>

definition sets_agree :: "Plan set \<Rightarrow> bool" where
  "sets_agree plans \<longleftrightarrow> (\<forall>p \<in> plans. \<forall>q \<in> plans. \<forall>i < 4. pl_JudgeSets p ! i = pl_JudgeSets q ! i \<and> pl_JudgeSets p ! i \<noteq> 0 \<longrightarrow>
     map jr_Judge (pl_Judges p ! i) = map jr_Judge (pl_Judges q ! i)) \<and> (\<forall>p \<in> plans. \<forall>i < 4. length (pl_Judges p ! i) < 2 ^ 64)"

definition picks_ok :: "Plan set \<Rightarrow> judge_picks \<Rightarrow> bool" where
  "picks_ok plans m \<longleftrightarrow> (\<forall>p \<in> plans. \<forall>i position. shared_at p i \<and> m (judge_key p i) = Some position \<longrightarrow>
     0 \<le> position \<and> nat position < length (pl_Judges p ! i))"

lemma picks_okD: "picks_ok plans m \<Longrightarrow> p \<in> plans \<Longrightarrow> shared_at p i \<Longrightarrow> m (judge_key p i) = Some position \<Longrightarrow>
    0 \<le> position \<and> nat position < length (pl_Judges p ! i)"
  by (auto simp: picks_ok_def)

lemma plan_NextJudgeIndex_picks: "js_picks (snd (plan_NextJudgeIndex w p index js)) = js_picks js"
  by (simp add: plan_NextJudgeIndex_def split: prod.splits)

lemma plan_NextJudge_picks: "js_picks (snd (plan_NextJudge w p index js)) = js_picks js"
  using plan_NextJudgeIndex_picks [of w p index js] by (auto simp: plan_NextJudge_def Let_def split: prod.splits)

lemma plan_NextJudgeIndex_range:
  assumes "shared_at p index" "length (pl_Judges p ! index) < 2 ^ 64"
  shows "0 \<le> fst (plan_NextJudgeIndex w p index js)" "nat (fst (plan_NextJudgeIndex w p index js)) < length (pl_Judges p ! index)"
proof -
  have ne: "pl_Judges p ! index \<noteq> []" using assms(1) by (auto simp: shared_at_def)
  have "fst (plan_NextJudgeIndex w p index js) = fst (NextJudgeIndex (pl_Judges p ! index) (js_counters js (w, p) index))"
    by (simp add: plan_NextJudgeIndex_def split: prod.splits)
  with NextJudgeIndex_eq [OF ne assms(2)] ne
  show "0 \<le> fst (plan_NextJudgeIndex w p index js)" "nat (fst (plan_NextJudgeIndex w p index js)) < length (pl_Judges p ! index)"
    by (auto split: if_splits)
qed

lemma picks_ok_upd:
  assumes ok: "picks_ok plans m" and agree: "sets_agree plans" and p: "p \<in> plans" "shared_at p index"
    and range: "0 \<le> position" "nat position < length (pl_Judges p ! index)"
  shows "picks_ok plans (m(judge_key p index \<mapsto> position))"
  unfolding picks_ok_def
proof (intro ballI allI impI, elim conjE)
  fix q i position'
  assume q: "q \<in> plans" "shared_at q i" "(m(judge_key p index \<mapsto> position)) (judge_key q i) = Some position'"
  show "0 \<le> position' \<and> nat position' < length (pl_Judges q ! i)"
  proof (cases "judge_key q i = judge_key p index")
    case True
    then have k: "i = index" "pl_JudgeSets q ! index = pl_JudgeSets p ! index" by (auto simp: judge_key_def)
    have "pl_JudgeSets q ! index \<noteq> 0" "index < 4" using k q(2) by (simp_all add: shared_at_def)
    with agree p(1) q(1) k(2) have "map jr_Judge (pl_Judges q ! index) = map jr_Judge (pl_Judges p ! index)"
      unfolding sets_agree_def by blast
    then have "length (pl_Judges q ! index) = length (pl_Judges p ! index)" by (metis length_map)
    with True q(3) k range show ?thesis by simp
  next
    case False
    with q picks_okD [OF ok] show ?thesis by simp
  qed
qed

text \<open>One selection: recorded positions stay, and a shared selection follows the recorded position.\<close>

lemma nextPlanJudge_picks:
  assumes run: "nextPlanJudge w p index js = (found, js')" and m: "js_picks js = Some m"
    and ok: "picks_ok plans m" "sets_agree plans" "p \<in> plans" and small: "index < 4"
  obtains m' where "js_picks js' = Some m'" "m \<subseteq>\<^sub>m m'" "picks_ok plans m'"
    "shared_at p index \<Longrightarrow> \<exists>position. m' (judge_key p index) = Some position \<and> fst found = jr_Judge (pl_Judges p ! index ! nat position)"
proof (cases "shared_at p index")
  case False
  then have "plan_NextJudge w p index js = (found, js')"
    using run m small by (auto simp: nextPlanJudge_def shared_at_def Let_def)
  with plan_NextJudge_picks [of w p index js] m have "js_picks js' = Some m" by simp
  with ok False show ?thesis by (intro that [of m]) (auto simp: map_le_def)
next
  case True
  show ?thesis
  proof (cases "m (judge_key p index)")
    case (Some position)
    with run m True have "js' = js" "fst found = jr_Judge (pl_Judges p ! index ! nat position)"
      by (auto simp: nextPlanJudge_def shared_at_def judge_key_def Let_def)
    with Some m ok True show ?thesis by (intro that [of m]) (auto simp: map_le_def)
  next
    case None
    obtain position js1 where i: "plan_NextJudgeIndex w p index js = (position, js1)" by (metis prod.collapse)
    with run m True None have r: "js' = js1\<lparr>js_picks := Some (m(judge_key p index \<mapsto> position))\<rparr>"
      "fst found = jr_Judge (pl_Judges p ! index ! nat position)"
      by (auto simp: nextPlanJudge_def shared_at_def judge_key_def Let_def)
    have "length (pl_Judges p ! index) < 2 ^ 64" using ok(2,3) small by (simp add: sets_agree_def)
    from plan_NextJudgeIndex_range [OF True this, of w js] i
    have "picks_ok plans (m(judge_key p index \<mapsto> position))"
      by (intro picks_ok_upd [OF ok True]) simp_all
    moreover have "m \<subseteq>\<^sub>m m(judge_key p index \<mapsto> position)" using None by (auto simp: map_le_def)
    ultimately show ?thesis using r by (intro that) auto
  qed
qed


text \<open>What the shared selections of one owner come to, given the positions recorded at the end.\<close>

definition judges_at :: "decision list \<Rightarrow> nat \<Rightarrow> Judge set" where
  "judges_at ds index = de_judge ` {d \<in> set ds. de_index d = index}"

definition shared_follow :: "worker_env \<Rightarrow> Plan \<Rightarrow> nat \<Rightarrow> judge_picks \<Rightarrow> Judge set \<Rightarrow> bool" where
  "shared_follow E p index m found \<longleftrightarrow> (shared_at p index \<longrightarrow> (\<exists>position. m (judge_key p index) = Some position \<and> found = chosen E p index position))"

lemma shared_follow_mono: "shared_follow E p index m found \<Longrightarrow> m \<subseteq>\<^sub>m m' \<Longrightarrow> shared_follow E p index m' found"
  unfolding shared_follow_def by (metis domI map_le_def)

lemma decide_picks:
  assumes run: "decide E workspace (Some p) index setting js = (ds, js')" and m: "js_picks js = Some m"
    and ok: "picks_ok plans m" "sets_agree plans" "p \<in> plans" "index < 4"
  obtains m' where "js_picks js' = Some m'" "m \<subseteq>\<^sub>m m'" "picks_ok plans m'"
    "pcs_enabled setting \<Longrightarrow> shared_follow E p index m' (de_judge ` set ds)"
proof (cases "pcs_enabled setting")
  case False
  with run m ok show ?thesis by (intro that [of m]) (auto simp: decide_def)
next
  case True
  obtain judge regex js1 where n: "nextPlanJudge (ws_ID workspace) p index js = ((judge, regex), js1)" by (metis prod.collapse)
  from nextPlanJudge_picks [OF n m ok] obtain m' where m': "js_picks js1 = Some m'" "m \<subseteq>\<^sub>m m'" "picks_ok plans m'"
    "shared_at p index \<Longrightarrow> \<exists>position. m' (judge_key p index) = Some position \<and> judge = jr_Judge (pl_Judges p ! index ! nat position)"
    by auto
  have s: "select_judge workspace (Some p) index (ResolveCheckerTransportProtocol (pcs_transport setting)) js =
      (((judge, regex), pl_Keys p ! index, Some (pl_Headers p)), js1)"
    by (simp add: select_judge_def n)
  have j: "js' = js1 \<and> de_judge ` set ds = {j. judge = Some j \<and> \<not> blocked_judge E j}"
  proof (cases judge)
    case None
    with run True show ?thesis by (auto simp: decide_def s)
  next
    case (Some j)
    with run True show ?thesis by (auto simp: decide_def s split: if_splits)
  qed
  have "shared_follow E p index m' (de_judge ` set ds)"
    using m'(4) unfolding conjunct2 [OF j] shared_follow_def chosen_def by metis
  with m' j show ?thesis by (intro that [of m']) simp_all
qed

lemma decide_protocols_index: "decide_protocols E workspace plan index settings js = (ds, js') \<Longrightarrow> d \<in> set ds \<Longrightarrow> index \<le> de_index d"
proof (induction settings arbitrary: index js ds)
  case (Cons setting settings)
  obtain ds1 js1 where d: "decide E workspace plan index setting js = (ds1, js1)" by (metis prod.collapse)
  obtain es where e: "decide_protocols E workspace plan (Suc index) settings js1 = (es, js')" "ds = ds1 @ es"
    using Cons.prems(1) d by (auto split: prod.splits)
  from Cons.prems(2) e(2) consider "d \<in> set ds1" | "d \<in> set es" by auto
  then show ?case using decide_sound [OF d] Cons.IH [OF e(1)] by cases (auto dest: Suc_leD)
qed simp

lemma decide_protocols_picks:
  "decide_protocols E workspace (Some p) index settings js = (ds, js') \<Longrightarrow> js_picks js = Some m \<Longrightarrow>
     picks_ok plans m \<Longrightarrow> sets_agree plans \<Longrightarrow> p \<in> plans \<Longrightarrow> index + length settings \<le> 4 \<Longrightarrow>
     \<exists>m'. js_picks js' = Some m' \<and> m \<subseteq>\<^sub>m m' \<and> picks_ok plans m' \<and>
       (\<forall>i < length settings. pcs_enabled (settings ! i) \<longrightarrow> shared_follow E p (index + i) m' (judges_at ds (index + i)))"
proof (induction settings arbitrary: index js ds m)
  case Nil
  then show ?case by auto
next
  case (Cons setting settings)
  obtain ds1 js1 where d: "decide E workspace (Some p) index setting js = (ds1, js1)" by (metis prod.collapse)
  obtain es where e: "decide_protocols E workspace (Some p) (Suc index) settings js1 = (es, js')" "ds = ds1 @ es"
    using Cons.prems(1) d by (auto split: prod.splits)
  have small: "index < 4" "Suc index + length settings \<le> 4" using Cons.prems(6) by simp_all
  from decide_picks [OF d Cons.prems(2-5) small(1)] obtain m1 where m1: "js_picks js1 = Some m1" "m \<subseteq>\<^sub>m m1" "picks_ok plans m1"
    "pcs_enabled setting \<Longrightarrow> shared_follow E p index m1 (de_judge ` set ds1)" by blast
  from Cons.IH [OF e(1) m1(1) m1(3) Cons.prems(4,5) small(2)] obtain m' where m': "js_picks js' = Some m'" "m1 \<subseteq>\<^sub>m m'" "picks_ok plans m'"
    "\<forall>i < length settings. pcs_enabled (settings ! i) \<longrightarrow> shared_follow E p (Suc index + i) m' (judges_at es (Suc index + i))" by blast
  have first: "judges_at ds index = de_judge ` set ds1"
  proof -
    have "{d \<in> set ds. de_index d = index} = set ds1"
      using decide_sound [OF d] decide_protocols_index [OF e(1)] by (auto simp: e(2) dest: Suc_le_lessD)
    then show ?thesis by (simp add: judges_at_def)
  qed
  have later: "judges_at ds (Suc index + i) = judges_at es (Suc index + i)" for i
  proof -
    have "{d \<in> set ds. de_index d = Suc index + i} = {d \<in> set es. de_index d = Suc index + i}"
      using decide_sound [OF d] by (auto simp: e(2))
    then show ?thesis by (simp add: judges_at_def)
  qed
  have "shared_follow E p (index + i) m' (judges_at ds (index + i))"
    if "i < length (setting # settings)" "pcs_enabled ((setting # settings) ! i)" for i
  proof (cases i)
    case 0
    with that have "shared_follow E p index m1 (judges_at ds index)" using m1(4) first by simp
    from shared_follow_mono [OF this m'(2)] 0 show ?thesis by simp
  next
    case (Suc n)
    with that m'(4) later [of n] show ?thesis by simp
  qed
  moreover have "m \<subseteq>\<^sub>m m'" using m1(2) m'(2) by (rule map_le_trans)
  ultimately show ?case using m' by blast
qed

definition of_owner :: "u64 \<Rightarrow> decision list \<Rightarrow> decision list" where
  "of_owner w ds = filter (\<lambda>d. wc_workspaceID (de_check d) = w) ds"

lemma of_owner_append [simp]: "of_owner w (ds @ es) = of_owner w ds @ of_owner w es"
  by (simp add: of_owner_def)

definition all_planned :: "(Workspace \<times> Plan option) list \<Rightarrow> Plan set \<Rightarrow> bool" where
  "all_planned owners plans \<longleftrightarrow> (\<forall>(workspace, plan) \<in> set owners. plan_shaped plan \<and> (\<exists>p \<in> plans. plan = Some p))"

lemma decide_protocols_owner:
  assumes "decide_protocols E workspace plan 0 (resolved_settings workspace plan) js = (ds, js')"
  shows "of_owner w ds = (if w = ws_ID workspace then ds else [])"
  using decide_protocols_sound [OF assms] by (auto simp: of_owner_def decision_for_def filter_empty_conv filter_id_conv)

lemma decide_owners_owner:
  "decide_owners E owners js = (ds, js') \<Longrightarrow> w \<notin> set (map (ws_ID \<circ> fst) owners) \<Longrightarrow> of_owner w ds = []"
proof -
  assume "decide_owners E owners js = (ds, js')" and w: "w \<notin> set (map (ws_ID \<circ> fst) owners)"
  with decide_owners_sound have "\<forall>d \<in> set ds. \<exists>(workspace, plan) \<in> set owners. decision_for E workspace plan d" by blast
  with w have "wc_workspaceID (de_check d) \<noteq> w" if "d \<in> set ds" for d
    using that by (force simp: decision_for_def)
  then show ?thesis by (simp add: of_owner_def filter_empty_conv)
qed

lemma decide_owners_picks:
  "decide_owners E owners js = (ds, js') \<Longrightarrow> js_picks js = Some m \<Longrightarrow> picks_ok plans m \<Longrightarrow> sets_agree plans \<Longrightarrow>
     all_planned owners plans \<Longrightarrow> distinct (map (ws_ID \<circ> fst) owners) \<Longrightarrow>
     \<exists>m'. js_picks js' = Some m' \<and> m \<subseteq>\<^sub>m m' \<and> picks_ok plans m' \<and>
       (\<forall>(workspace, plan) \<in> set owners. \<forall>p i. plan = Some p \<and> i < length (pl_Settings p) \<and> pcs_enabled (pl_Settings p ! i) \<longrightarrow>
          shared_follow E p i m' (judges_at (of_owner (ws_ID workspace) ds) i))"
proof (induction owners arbitrary: js ds m)
  case Nil
  then show ?case by auto
next
  case (Cons owner owners)
  obtain workspace p where o: "owner = (workspace, Some p)" and p: "p \<in> plans" and sh: "plan_shaped (Some p)"
    using Cons.prems(5) by (cases owner) (auto simp: all_planned_def)
  have four: "0 + length (resolved_settings workspace (Some p)) \<le> 4" using length_resolved [OF sh] by simp
  obtain ds1 js1 where d: "decide_protocols E workspace (Some p) 0 (resolved_settings workspace (Some p)) js = (ds1, js1)"
    by (metis prod.collapse)
  obtain es where e: "decide_owners E owners js1 = (es, js')" "ds = ds1 @ es"
    using Cons.prems(1) d o by (auto split: prod.splits)
  from decide_protocols_picks [OF d Cons.prems(2-4) p four] obtain m1 where m1: "js_picks js1 = Some m1" "m \<subseteq>\<^sub>m m1" "picks_ok plans m1"
    "\<forall>i < length (pl_Settings p). pcs_enabled (pl_Settings p ! i) \<longrightarrow> shared_follow E p i m1 (judges_at ds1 i)"
    by (auto simp: resolved_settings_def)
  have rest: "all_planned owners plans" "distinct (map (ws_ID \<circ> fst) owners)" "ws_ID workspace \<notin> set (map (ws_ID \<circ> fst) owners)"
    using Cons.prems(5,6) o by (auto simp: all_planned_def comp_def)
  from Cons.IH [OF e(1) m1(1,3) Cons.prems(4) rest(1,2)] obtain m' where m': "js_picks js' = Some m'" "m1 \<subseteq>\<^sub>m m'" "picks_ok plans m'"
    "\<forall>(workspace, plan) \<in> set owners. \<forall>p i. plan = Some p \<and> i < length (pl_Settings p) \<and> pcs_enabled (pl_Settings p ! i) \<longrightarrow>
       shared_follow E p i m' (judges_at (of_owner (ws_ID workspace) es) i)" by blast
  have own: "of_owner (ws_ID workspace) ds = ds1"
    using decide_protocols_owner [OF d] decide_owners_owner [OF e(1) rest(3)] by (simp add: e(2))
  have other: "of_owner w ds = of_owner w es" if "w \<in> set (map (ws_ID \<circ> fst) owners)" for w
  proof -
    have "w \<noteq> ws_ID workspace" using rest(3) that by blast
    with decide_protocols_owner [OF d, of w] show ?thesis by (simp add: e(2))
  qed
  have "shared_follow E q i m' (judges_at (of_owner (ws_ID v) ds) i)"
    if "(v, Some q) \<in> set (owner # owners)" "i < length (pl_Settings q)" "pcs_enabled (pl_Settings q ! i)" for v q i
  proof (cases "(v, Some q) \<in> set owners")
    case True
    then have "ws_ID v \<in> set (map (ws_ID \<circ> fst) owners)" by force
    with True that m'(4) other show ?thesis by fastforce
  next
    case False
    with that o have "v = workspace" "q = p" by auto
    with that have "shared_follow E q i m1 (judges_at (of_owner (ws_ID v) ds) i)" using m1(4) own by simp
    from shared_follow_mono [OF this m'(2)] show ?thesis .
  qed
  moreover have "m \<subseteq>\<^sub>m m'" using m1(2) m'(2) by (rule map_le_trans)
  ultimately show ?case using m' by blast
qed


lemma requests_of_cycle:
  assumes run: "buildRequestAssignments E st proxyID ws counters pool = (out, acc)"
    and named: "snapshots_ok st" "distinct (map ws_ID ws)" and shaped: "plans_shaped (owner_views st proxyID ws)"
  shows "\<forall>(k, a) \<in> set (ba_requests acc). \<forall>(l, b) \<in> set (ba_requests acc).
      j_ID (ra_judge a) = j_ID (ra_judge b) \<and> ra_protocolID a = ra_protocolID b \<and> ra_transportProtocol a = ra_transportProtocol b \<and>
      ra_timeout a = ra_timeout b \<and> ra_retries a = ra_retries b \<longrightarrow> (k, a) = (l, b)"
    and "\<forall>(k, a) \<in> set (ba_requests acc). \<forall>c \<in> set (ra_checks a).
      \<exists>(workspace, plan) \<in> set (owner_views st proxyID ws). asked_by E workspace plan a c"
    and "\<forall>(k, a) \<in> set (ba_requests acc). \<forall>(l, b) \<in> set (ba_requests acc). \<forall>c \<in> set (ra_checks a). \<forall>c' \<in> set (ra_checks b).
      wc_workspaceID c = wc_workspaceID c' \<and> ra_protocolID a = ra_protocolID b \<longrightarrow> (k, a) = (l, b) \<and> c = c'"
    and "\<forall>(k, a) \<in> set (ba_requests acc). ra_checks a \<noteq> [] \<and> distinct (map wc_workspaceID (ra_checks a))"
    and "ba_hasChecks acc w = (if \<exists>(k, a) \<in> set (ba_requests acc). w \<in> wc_workspaceID ` set (ra_checks a) then Some True else None)"
    and "ba_success acc w = (if w \<in> ws_ID ` set ws then Some False else None)"
proof -
  from run obtain ds js where
    b: "decide_owners E (owner_views st proxyID ws) (ba_judges (empty_acc ws counters pool)) = (ds, js)"
    "ba_requests acc = fold place ds []"
    "ba_hasChecks acc = (\<lambda>w. if \<exists>d \<in> set ds. wc_workspaceID (de_check d) = w then Some True else None)"
    "ba_success acc = (\<lambda>w. if w \<in> ws_ID ` set ws then Some False else None)"
    "ba_judges acc = js" "out = map (\<lambda>q. case owner_view st proxyID q of None \<Rightarrow> q | Some v \<Rightarrow> fst v) ws"
    by (rule build_decisions)
  have d: "distinct (map (ws_ID \<circ> fst) (owner_views st proxyID ws))"
    unfolding owner_views_ids [OF named(1)] using named(2) by simp
  have dec: "\<forall>d \<in> set ds. \<exists>(workspace, plan) \<in> set (owner_views st proxyID ws). decision_for E workspace plan d"
    and dist: "distinct (map (\<lambda>d. (wc_workspaceID (de_check d), de_index d)) ds)"
    using decide_owners_sound [OF b(1)] d by blast+
  note X = requests_exact [OF dec shaped dist, folded b(2)]
  show "\<forall>(k, a) \<in> set (ba_requests acc). \<forall>(l, b) \<in> set (ba_requests acc).
      j_ID (ra_judge a) = j_ID (ra_judge b) \<and> ra_protocolID a = ra_protocolID b \<and> ra_transportProtocol a = ra_transportProtocol b \<and>
      ra_timeout a = ra_timeout b \<and> ra_retries a = ra_retries b \<longrightarrow> (k, a) = (l, b)" using X(1) by blast
  show "\<forall>(k, a) \<in> set (ba_requests acc). \<forall>c \<in> set (ra_checks a).
      \<exists>(workspace, plan) \<in> set (owner_views st proxyID ws). asked_by E workspace plan a c" using X(2) by blast
  show "\<forall>(k, a) \<in> set (ba_requests acc). \<forall>(l, b) \<in> set (ba_requests acc). \<forall>c \<in> set (ra_checks a). \<forall>c' \<in> set (ra_checks b).
      wc_workspaceID c = wc_workspaceID c' \<and> ra_protocolID a = ra_protocolID b \<longrightarrow> (k, a) = (l, b) \<and> c = c'" using X(3) by blast
  show "\<forall>(k, a) \<in> set (ba_requests acc). ra_checks a \<noteq> [] \<and> distinct (map wc_workspaceID (ra_checks a))" using X(4) by blast
  have "(\<exists>d \<in> set ds. wc_workspaceID (de_check d) = w) \<longleftrightarrow> (\<exists>(k, a) \<in> set (ba_requests acc). w \<in> wc_workspaceID ` set (ra_checks a))"
    (is "?L \<longleftrightarrow> ?R")
  proof
    assume ?L
    then obtain d where d: "d \<in> set ds" "wc_workspaceID (de_check d) = w" by blast
    from d(1) obtain a where "(de_key d, a) \<in> set (fold place ds [])" "de_check d \<in> set (ra_checks a)" by (rule place_all_check)
    with d(2) show ?R unfolding b(2) by blast
  next
    assume ?R
    then obtain k a where a: "(k, a) \<in> set (fold place ds [])" "w \<in> wc_workspaceID ` set (ra_checks a)" unfolding b(2) by blast
    from a(1) obtain d where "ra_checks a = map de_check (filter (\<lambda>e. de_key e = k) ds)" by (rule placed_fields)
    with a(2) show ?L by auto
  qed
  then show "ba_hasChecks acc w = (if \<exists>(k, a) \<in> set (ba_requests acc). w \<in> wc_workspaceID ` set (ra_checks a) then Some True else None)"
    by (simp add: b(3))
  show "ba_success acc w = (if w \<in> ws_ID ` set ws then Some False else None)" by (simp add: b(4))
qed

text \<open>Whether a request checks an owner depends only on the judges selected for it.\<close>

definition setting_key :: "ProtocolCheckSettings \<Rightarrow> nat \<Rightarrow> Judge \<Rightarrow> string" where
  "setting_key setting index judge = request_key judge (CheckerProtocols ! index) (ResolveCheckerTransportProtocol (pcs_transport setting))
     (pcs_timeout setting) (pcs_retries setting)"

lemma owner_check_iff:
  assumes b: "decide_owners E owners js = (ds, js')" and dist: "distinct (map (ws_ID \<circ> fst) owners)" and shaped: "plans_shaped owners"
    and v: "(v, Some p) \<in> set owners" and a: "(k, a) \<in> set (fold place ds [])" "ra_protocolID a = index + 1"
  shows "ws_ID v \<in> wc_workspaceID ` set (ra_checks a) \<longleftrightarrow>
    (\<exists>j \<in> judges_at (of_owner (ws_ID v) ds) index. setting_key (pl_Settings p ! index) index j = k)"
proof -
  have dec: "\<forall>d \<in> set ds. \<exists>(workspace, plan) \<in> set owners. decision_for E workspace plan d"
    using decide_owners_sound [OF b] by blast
  have small: "\<forall>d \<in> set ds. de_index d < 4" using dec shaped by (fastforce simp: plans_shaped_def dest: decision_index)
  have setting: "de_setting d = pl_Settings p ! de_index d" if d: "d \<in> set ds" "wc_workspaceID (de_check d) = ws_ID v" for d
  proof -
    from dec d(1) obtain u plan where u: "(u, plan) \<in> set owners" "decision_for E u plan d" by blast
    then have "(ws_ID \<circ> fst) (u, plan) = (ws_ID \<circ> fst) (v, Some p)" using d(2) by (simp add: decision_for_def)
    with dist u(1) v have "(u, plan) = (v, Some p)" unfolding distinct_map inj_on_def by blast
    with u(2) show ?thesis by (simp add: decision_for_def resolved_settings_def)
  qed
  show ?thesis
  proof
    assume "ws_ID v \<in> wc_workspaceID ` set (ra_checks a)"
    then obtain c where c: "c \<in> set (ra_checks a)" "wc_workspaceID c = ws_ID v" by (metis imageE)
    from a(1) c(1) small obtain d where d: "d \<in> set ds" "de_key d = k" "c = de_check d" "ra_protocolID a = de_index d + 1"
      by (rule check_origin)
    with c a(2) have "de_index d = index" "wc_workspaceID (de_check d) = ws_ID v" by auto
    with d setting [of d] show "\<exists>j \<in> judges_at (of_owner (ws_ID v) ds) index. setting_key (pl_Settings p ! index) index j = k"
      by (intro bexI [of _ "de_judge d"]) (auto simp: judges_at_def of_owner_def setting_key_def de_key_def de_transport_def)
  next
    assume "\<exists>j \<in> judges_at (of_owner (ws_ID v) ds) index. setting_key (pl_Settings p ! index) index j = k"
    then obtain d where d: "d \<in> set ds" "wc_workspaceID (de_check d) = ws_ID v" "de_index d = index"
      "setting_key (pl_Settings p ! index) index (de_judge d) = k" by (auto simp: judges_at_def of_owner_def)
    then have k: "de_key d = k" using setting [of d] by (simp add: setting_key_def de_key_def de_transport_def)
    from a(1) obtain e where "ra_checks a = map de_check (filter (\<lambda>e. de_key e = k) ds)" by (rule placed_fields)
    with d k show "ws_ID v \<in> wc_workspaceID ` set (ra_checks a)" by (auto simp: image_iff)
  qed
qed

definition cycle_plans :: "(Workspace \<times> Plan option) list \<Rightarrow> Plan set" where
  "cycle_plans owners = {p. \<exists>v. (v, Some p) \<in> set owners}"

lemma owners_share_positions:
  assumes b: "decide_owners E owners js = (ds, js')" and dist: "distinct (map (ws_ID \<circ> fst) owners)"
    and start: "js_picks js = Some Map.empty" and plans: "all_planned owners (cycle_plans owners)" "sets_agree (cycle_plans owners)"
    and v: "(v, Some p) \<in> set owners" and w: "(w, Some q) \<in> set owners"
    and same: "shared_at p i" "pl_JudgeSets q ! i = pl_JudgeSets p ! i"
    and enabled: "i < length (pl_Settings p)" "i < length (pl_Settings q)" "pcs_enabled (pl_Settings p ! i)" "pcs_enabled (pl_Settings q ! i)"
  shows "judges_at (of_owner (ws_ID v) ds) i = judges_at (of_owner (ws_ID w) ds) i"
proof -
  have in_plans: "p \<in> cycle_plans owners" "q \<in> cycle_plans owners" using v w by (auto simp: cycle_plans_def)
  have "pl_JudgeSets p ! i \<noteq> 0" "i < 4" using same(1) by (simp_all add: shared_at_def)
  with plans(2) in_plans same(2) have lists: "map jr_Judge (pl_Judges p ! i) = map jr_Judge (pl_Judges q ! i)"
    unfolding sets_agree_def by metis
  then have len: "length (pl_Judges p ! i) = length (pl_Judges q ! i)" by (metis length_map)
  with same have q: "shared_at q i" "judge_key q i = judge_key p i" by (simp_all add: shared_at_def judge_key_def)
  have "picks_ok (cycle_plans owners) Map.empty" by (simp add: picks_ok_def)
  from decide_owners_picks [OF b start this plans(2,1) dist] obtain m' where m': "picks_ok (cycle_plans owners) m'"
    "\<forall>(workspace, plan) \<in> set owners. \<forall>p i. plan = Some p \<and> i < length (pl_Settings p) \<and> pcs_enabled (pl_Settings p ! i) \<longrightarrow>
       shared_follow E p i m' (judges_at (of_owner (ws_ID workspace) ds) i)" by blast
  from m'(2) v enabled have "shared_follow E p i m' (judges_at (of_owner (ws_ID v) ds) i)" by blast
  with same(1) obtain position where pos: "m' (judge_key p i) = Some position" "judges_at (of_owner (ws_ID v) ds) i = chosen E p i position"
    by (auto simp: shared_follow_def)
  from m'(2) w enabled have "shared_follow E q i m' (judges_at (of_owner (ws_ID w) ds) i)" by blast
  with q pos(1) have pos': "judges_at (of_owner (ws_ID w) ds) i = chosen E q i position" by (simp add: shared_follow_def)
  from picks_okD [OF m'(1) in_plans(1) same(1) pos(1)] have n: "nat position < length (pl_Judges p ! i)" by simp
  with lists len have "jr_Judge (pl_Judges p ! i ! nat position) = jr_Judge (pl_Judges q ! i ! nat position)"
    by (metis nth_map)
  then show ?thesis by (simp add: pos(2) pos' chosen_def)
qed

subsection \<open>The properties\<close>

text \<open>
  C16. One physical request is made per combination of judge, protocol, transport, timeout and retry
  budget. Every check of a request comes from a queued owner whose effective settings enable the
  protocol with that transport and budget, with the judge not blocked; an owner is checked at most once
  per protocol, an owner has eligible checks exactly when some request checks it, and every queued owner
  starts as not successful. A single request never holds two checks of one owner.
\<close>

theorem one_request_per_combination:
  assumes run: "buildRequestAssignments E st proxyID ws counters pool = (out, acc)"
    and named: "snapshots_ok st" "distinct (map ws_ID ws)" and shaped: "plans_shaped (owner_views st proxyID ws)"
  shows "(\<forall>(k, a) \<in> set (ba_requests acc). \<forall>(l, b) \<in> set (ba_requests acc).
      j_ID (ra_judge a) = j_ID (ra_judge b) \<and> ra_protocolID a = ra_protocolID b \<and> ra_transportProtocol a = ra_transportProtocol b \<and>
      ra_timeout a = ra_timeout b \<and> ra_retries a = ra_retries b \<longrightarrow> (k, a) = (l, b)) \<and>
    (\<forall>(k, a) \<in> set (ba_requests acc). \<forall>c \<in> set (ra_checks a).
      \<exists>(workspace, plan) \<in> set (owner_views st proxyID ws). asked_by E workspace plan a c) \<and>
    (\<forall>(k, a) \<in> set (ba_requests acc). \<forall>(l, b) \<in> set (ba_requests acc). \<forall>c \<in> set (ra_checks a). \<forall>c' \<in> set (ra_checks b).
      wc_workspaceID c = wc_workspaceID c' \<and> ra_protocolID a = ra_protocolID b \<longrightarrow> (k, a) = (l, b) \<and> c = c') \<and>
    (\<forall>(k, a) \<in> set (ba_requests acc). ra_checks a \<noteq> [] \<and> distinct (map wc_workspaceID (ra_checks a))) \<and>
    (\<forall>w. ba_hasChecks acc w = (if \<exists>(k, a) \<in> set (ba_requests acc). w \<in> wc_workspaceID ` set (ra_checks a) then Some True else None)) \<and>
    (\<forall>w. ba_success acc w = (if w \<in> ws_ID ` set ws then Some False else None))"
  by (intro conjI allI requests_of_cycle [OF assms])


lemma ready_all_planned: "cc_ready st \<Longrightarrow> plans_shaped (owner_views st proxyID ws) \<Longrightarrow> all_planned (owner_views st proxyID ws) (cycle_plans (owner_views st proxyID ws))"
  by (force simp: all_planned_def plans_shaped_def cycle_plans_def owner_views_def owner_view_def List.map_filter_def)

definition demo_plan :: "string \<Rightarrow> Plan" where
  "demo_plan regex = \<lparr>pl_Settings = map (\<lambda>on. \<lparr>pcs_enabled = on, pcs_transport = ''tcp'', pcs_timeout = 9, pcs_retries = 1\<rparr>) [False, True, False, False],
     pl_Keys = [''a'', ''b'', ''c'', ''d''],
     pl_Judges = [[], [(demo_judge 3 ''https://j'')\<lparr>jr_Regex := regex\<rparr>, (demo_judge 4 ''https://k'')\<lparr>jr_Regex := regex\<rparr>], [], []],
     pl_JudgeSets = [0, 5, 0, 0], pl_Headers = [''VIA'']\<rparr>"

definition demo_owner :: "u64 \<Rightarrow> Workspace" where
  "demo_owner i = (demo_workspace [])\<lparr>ws_ID := i\<rparr>"

definition demo_snapshot :: "u64 \<Rightarrow> WorkspaceSnapshot" where
  "demo_snapshot i = \<lparr>wk_Value = demo_owner i, wk_Default = demo_plan (if i = 1 then ''default'' else ''ok''), wk_Proxies = None,
     wk_InputSignature = [], wk_BaseSignature = [], wk_Generation = 1\<rparr>"

definition demo_cache :: cache_state where
  "demo_cache = \<lparr>cc_workspaces = [1 \<mapsto> demo_snapshot 1, 2 \<mapsto> demo_snapshot 2], cc_loader = None, cc_client = False, cc_ready = True\<rparr>"

definition demo_worker :: worker_env where
  "demo_worker = \<lparr>we_urls = demo_urls, we_parse = (\<lambda>_. None), we_blocklist = {}\<rparr>"

definition demo_counters :: "u64 \<times> Plan \<Rightarrow> nat \<Rightarrow> u64" where
  "demo_counters = (\<lambda>(w, p) i. w)"

definition demo_build :: build_acc where
  "demo_build = snd (buildRequestAssignments demo_worker demo_cache 9 [demo_owner 1, demo_owner 2] demo_counters [])"

lemma demo_cache_ok: "snapshots_ok demo_cache"
  by (simp add: snapshots_ok_def demo_cache_def demo_snapshot_def demo_owner_def)

lemma demo_views: "owner_views demo_cache 9 [demo_owner 1, demo_owner 2] =
    [(demo_owner 1, Some (demo_plan ''default'')), (demo_owner 2, Some (demo_plan ''ok''))]"
  by (simp add: owner_view_def demo_cache_def demo_owner_def demo_snapshot_def snapshot_Plan_def plans_Get_def)

lemma demo_plans_shaped: "plans_shaped (owner_views demo_cache 9 [demo_owner 1, demo_owner 2])"
  unfolding demo_views by (simp add: plans_shaped_def plan_shaped_def demo_plan_def)

lemma demo_run: "buildRequestAssignments demo_worker demo_cache 9 [demo_owner 1, demo_owner 2] demo_counters [] =
    (fst (buildRequestAssignments demo_worker demo_cache 9 [demo_owner 1, demo_owner 2] demo_counters []), demo_build)"
  by (simp add: demo_build_def)

theorem one_request_per_combination_witness:
  "map (\<lambda>(k, a). (k, map wc_workspaceID (ra_checks a))) (ba_requests demo_build) = [(''4_https_tcp_9_1'', [1, 2])] \<and>
   ba_hasChecks demo_build 2 = Some True \<and> ba_success demo_build 1 = Some False"
proof -
  have d: "distinct (map ws_ID [demo_owner 1, demo_owner 2])" by (simp add: demo_owner_def)
  have r: "map (\<lambda>(k, a). (k, map wc_workspaceID (ra_checks a))) (ba_requests demo_build) = [(''4_https_tcp_9_1'', [1, 2])]"
    by code_simp
  from one_request_per_combination [OF demo_run demo_cache_ok d demo_plans_shaped]
  have "ba_success demo_build 1 = Some False" by (simp add: demo_owner_def)
  moreover have "ba_hasChecks demo_build 2 = Some True" by code_simp
  ultimately show ?thesis using r by blast
qed

text \<open>
  C21. Owners whose plans name the same judge set for a protocol and agree on its settings share their
  requests: whatever the round-robin counters of their plans are, each request of that protocol checks
  either both owners or neither, so a shared route is not requested once per owner.
\<close>

theorem owners_share_judges:
  assumes run: "buildRequestAssignments E st proxyID ws counters pool = (out, acc)"
    and st: "snapshots_ok st" "cc_ready st" "distinct (map ws_ID ws)" "1 < length ws"
    and shaped: "plans_shaped (owner_views st proxyID ws)" and agree: "sets_agree (cycle_plans (owner_views st proxyID ws))"
    and v: "(v, Some p) \<in> set (owner_views st proxyID ws)" and w: "(w, Some q) \<in> set (owner_views st proxyID ws)"
    and same: "shared_at p i" "pl_JudgeSets q ! i = pl_JudgeSets p ! i"
      "pcs_enabled (pl_Settings p ! i)" "pl_Settings q ! i = pl_Settings p ! i"
    and a: "(k, a) \<in> set (ba_requests acc)" "ra_protocolID a = i + 1"
  shows "ws_ID v \<in> wc_workspaceID ` set (ra_checks a) \<longleftrightarrow> ws_ID w \<in> wc_workspaceID ` set (ra_checks a)"
proof -
  from run obtain ds js where
    b: "decide_owners E (owner_views st proxyID ws) (ba_judges (empty_acc ws counters pool)) = (ds, js)"
    "ba_requests acc = fold place ds []"
    by (rule build_decisions)
  have d: "distinct (map (ws_ID \<circ> fst) (owner_views st proxyID ws))"
    unfolding owner_views_ids [OF st(1)] using st(3) by simp
  have start: "js_picks (ba_judges (empty_acc ws counters pool)) = Some Map.empty" using st(4) by (simp add: empty_acc_def)
  have len: "i < length (pl_Settings p)" "i < length (pl_Settings q)"
    using shaped v w same(1) by (auto simp: plans_shaped_def plan_shaped_def shared_at_def)
  have "judges_at (of_owner (ws_ID v) ds) i = judges_at (of_owner (ws_ID w) ds) i"
    by (rule owners_share_positions [OF b(1) d start ready_all_planned [OF st(2) shaped] agree v w same(1,2) len])
      (use same in simp_all)
  then show ?thesis
    using owner_check_iff [OF b(1) d shaped v a [unfolded b(2)]] owner_check_iff [OF b(1) d shaped w a [unfolded b(2)]] same(4) by simp
qed

theorem owners_share_judges_witness:
  "demo_counters (1, demo_plan ''default'') 1 \<noteq> demo_counters (2, demo_plan ''ok'') 1 \<and>
   (\<exists>k a. (k, a) \<in> set (ba_requests demo_build) \<and> 1 \<in> wc_workspaceID ` set (ra_checks a) \<and> 2 \<in> wc_workspaceID ` set (ra_checks a))"
proof -
  have r: "map (\<lambda>(k, a). (ra_protocolID a, map wc_workspaceID (ra_checks a))) (ba_requests demo_build) = [(2, [1, 2])]" by code_simp
  then obtain k a where a: "ba_requests demo_build = [(k, a)]" "ra_protocolID a = 2" "map wc_workspaceID (ra_checks a) = [1, 2]" by auto
  from arg_cong [OF a(3), of set] have one: "1 \<in> wc_workspaceID ` set (ra_checks a)" by simp
  have d: "distinct (map ws_ID [demo_owner 1, demo_owner 2])" by (simp add: demo_owner_def)
  have agree: "sets_agree (cycle_plans (owner_views demo_cache 9 [demo_owner 1, demo_owner 2]))"
  proof -
    have c: "cycle_plans (owner_views demo_cache 9 [demo_owner 1, demo_owner 2]) = {demo_plan ''default'', demo_plan ''ok''}"
      unfolding demo_views cycle_plans_def by auto
    have l: "map jr_Judge (pl_Judges (demo_plan x) ! i) = map jr_Judge (pl_Judges (demo_plan y) ! i) \<and> length (pl_Judges (demo_plan x) ! i) < 2 ^ 64"
      if "i < 4" for x y i
    proof -
      from that consider "i = 0" | "i = 1" | "i = 2" | "i = 3" by linarith
      then show ?thesis by cases (simp_all add: demo_plan_def)
    qed
    show ?thesis unfolding sets_agree_def c using l by blast
  qed
  have v: "(demo_owner 1, Some (demo_plan ''default'')) \<in> set (owner_views demo_cache 9 [demo_owner 1, demo_owner 2])"
    "(demo_owner 2, Some (demo_plan ''ok'')) \<in> set (owner_views demo_cache 9 [demo_owner 1, demo_owner 2])"
    unfolding demo_views by simp_all
  have "cc_ready demo_cache" by (simp add: demo_cache_def)
  moreover have "shared_at (demo_plan ''default'') 1" by (simp add: shared_at_def demo_plan_def)
  moreover have "(k, a) \<in> set (ba_requests demo_build)" "ra_protocolID a = 1 + 1" using a by simp_all
  ultimately have "ws_ID (demo_owner 1) \<in> wc_workspaceID ` set (ra_checks a) \<longleftrightarrow> ws_ID (demo_owner 2) \<in> wc_workspaceID ` set (ra_checks a)"
    by (intro owners_share_judges [OF demo_run demo_cache_ok _ d _ demo_plans_shaped agree v]) (simp_all add: demo_plan_def)
  with one a show ?thesis by (auto simp: demo_owner_def demo_counters_def)
qed


text \<open>
  C22. A refresh reports a change exactly when the list of owner identifiers changed, and a changed list
  has no repetitions. It never adds an owner. With ready snapshots it keeps exactly the queued owners
  the snapshots know; before that, a failed lookup drops no owner, and the cache stays filed under the
  identifiers of its workspaces.
\<close>

theorem refreshed_owners_exact:
  assumes "refreshProxyWorkspaces st load now ws cache = ((out, changed), cache')"
    and "snapshots_ok st" "cache_named cache" "loader_named load"
  shows "(changed \<longleftrightarrow> map ws_ID out \<noteq> map ws_ID ws) \<and> (changed \<longrightarrow> distinct (map ws_ID out)) \<and>
    ws_ID ` set out \<subseteq> ws_ID ` set ws \<and> cache_named cache' \<and>
    (cc_ready st \<and> ws \<noteq> [] \<longrightarrow> ws_ID ` set out = {i \<in> ws_ID ` set ws - {0}. cc_workspaces st i \<noteq> None}) \<and>
    (\<not> cc_ready st \<and> (\<forall>ids. \<exists>e. load ids = Inl e) \<longrightarrow> ws_ID ` set ws - {0} \<subseteq> ws_ID ` set out)"
  using refresh_exact [OF assms] by blast

definition demo_load :: workspace_loader where
  "demo_load ids = Inr (\<lambda>i. if i \<in> set ids \<and> i \<noteq> 3 then Some (demo_owner i) else None)"

definition demo_queued_owners :: "Workspace list" where
  "demo_queued_owners = map demo_owner [2, 3, 2, 1]"

definition demo_refresh :: "(Workspace list \<times> bool) \<times> workspace_cache" where
  "demo_refresh = refreshProxyWorkspaces (demo_cache\<lparr>cc_ready := False\<rparr>) demo_load 100 demo_queued_owners
     [1 \<mapsto> \<lparr>cw_workspace = demo_owner 1, cw_expiresAt = 101\<rparr>]"

theorem refreshed_owners_exact_witness:
  "map ws_ID (fst (fst demo_refresh)) = [2, 1] \<and> snd (fst demo_refresh) \<and> distinct (map ws_ID (fst (fst demo_refresh)))"
proof -
  obtain out changed cache' where r: "demo_refresh = ((out, changed), cache')" by (metis prod.collapse)
  have ids: "map ws_ID (fst (fst demo_refresh)) = [2, 1]" by code_simp
  have "snapshots_ok (demo_cache\<lparr>cc_ready := False\<rparr>)" using demo_cache_ok by (simp add: snapshots_ok_def)
  moreover have "cache_named [1 \<mapsto> \<lparr>cw_workspace = demo_owner 1, cw_expiresAt = 101\<rparr>]" by (simp add: cache_named_def demo_owner_def)
  moreover have "loader_named demo_load"
    by (auto simp: loader_named_def demo_load_def rows_named_def demo_owner_def split: if_splits)
  ultimately have p: "(changed \<longleftrightarrow> map ws_ID out \<noteq> map ws_ID demo_queued_owners) \<and> (changed \<longrightarrow> distinct (map ws_ID out))"
    using refreshed_owners_exact [OF r [unfolded demo_refresh_def]] by blast
  have "map ws_ID demo_queued_owners = [2, 3, 2, 1]" by (simp add: demo_queued_owners_def demo_owner_def)
  with ids p show ?thesis unfolding r by simp
qed

end
