(* ===== verification/Check_Results.thy ===== *)
theory Check_Results
  imports Checker_Worker
begin

text \<open>
  What a worker makes of its requests (\<open>jobs/checker/thread_handler.go\<close>, \<open>request_handler.go\<close>): the
  attempts of one request under a lease, the validation of a response for each owner with the cache of
  compiled patterns, the statistics that are handed off, and the truncation of stored bodies.
\<close>

subsection \<open>Attempts\<close>

datatype check_error = LeaseLost string | RequestFailed string

text \<open>
  What happens at one attempt: the lease renewal (an error, or success), then the request with its
  body or message, its error, and the milliseconds it took.
\<close>

record attempt_io =
  at_renew :: "string option"
  at_html :: string
  at_err :: "string option"
  at_elapsed :: int

record check_run =
  cr_html :: string
  cr_err :: "check_error option"
  cr_time :: int
  cr_attempt :: u8

datatype check_action = Renewal u16 | Request u16

lemma unat_small_u8: "unat (x :: u8) < 256"
proof -
  have "unat x < 2 ^ LENGTH(8)" by (rule unsigned_less)
  then show ?thesis by simp
qed

lemma small_index: "i \<le> (ucast (retries :: u8) :: u16) \<Longrightarrow> unat i \<le> unat retries \<and> unat i < 256 \<and> unat (i + 1) = unat i + 1"
proof -
  assume le: "i \<le> ucast retries"
  have r: "unat (ucast retries :: u16) = unat retries"
    using unat_small_u8 [of retries] by (simp add: unsigned_ucast_eq take_bit_nat_eq_self)
  have lt: "unat retries < 256" using unat_small_u8 [of retries] by simp
  from le r have "unat i \<le> unat retries" by (simp add: word_le_nat_alt)
  with lt show ?thesis by (simp add: unat_word_ariths)
qed

text \<open>The loop counter is wider than the budget, so a budget of 255 retries ends too.\<close>

function retry_loop :: "(u16 \<Rightarrow> attempt_io) \<Rightarrow> u8 \<Rightarrow> u16 \<Rightarrow> string \<Rightarrow> check_error option \<Rightarrow> int \<Rightarrow> check_run \<times> check_action list" where
  "retry_loop io retries i html err responseTime =
     (if i \<le> ucast retries
      then (case at_renew (io i) of
          Some e \<Rightarrow> (\<lparr>cr_html = html, cr_err = Some (LeaseLost e), cr_time = responseTime, cr_attempt = ucast i\<rparr>, [Renewal i])
        | None \<Rightarrow>
            (case at_err (io i) of
               None \<Rightarrow> (\<lparr>cr_html = at_html (io i), cr_err = None, cr_time = at_elapsed (io i), cr_attempt = ucast i\<rparr>, [Renewal i, Request i])
             | Some e \<Rightarrow> (case retry_loop io retries (i + 1) (at_html (io i)) (Some (RequestFailed e)) (at_elapsed (io i)) of
                 (run, actions) \<Rightarrow> (run, Renewal i # Request i # actions))))
      else (\<lparr>cr_html = html, cr_err = err, cr_time = responseTime, cr_attempt = retries\<rparr>, []))"
  by pat_completeness auto

termination
  by (relation "measure (\<lambda>(io, retries, i, html, err, t). 256 - unat (i :: u16))") (auto dest: small_index)

declare retry_loop.simps [simp del]

definition CheckProxyWithRetries :: "(u16 \<Rightarrow> attempt_io) \<Rightarrow> u8 \<Rightarrow> check_run \<times> check_action list" where
  "CheckProxyWithRetries io retries = retry_loop io retries 0 [] None 0"

subsection \<open>Response validation\<close>

record 're cachedRegex =
  rx_re :: "'re option"
  rx_ok :: bool
  rx_expiresAt :: instant

text \<open>
  \<open>regexp.Compile\<close> and \<open>MatchString\<close>, the Unicode tables behind \<open>ToUpper\<close> on strings that are not
  ASCII, the configuration, the current address of the server, and what the clock reads at each call.
\<close>

record 're response_env =
  re_compile :: "string \<Rightarrow> 're option"
  re_match :: "'re \<Rightarrow> string \<Rightarrow> bool"
  re_upper :: "string \<Rightarrow> string"
  re_standardHeader :: "string list"
  re_proxyHeader :: "string list"
  re_currentIp :: string
  re_clock :: "nat \<Rightarrow> instant"

record 're regex_state =
  rs_entries :: "string \<rightharpoonup> 're cachedRegex"
  rs_nextCleanup :: instant
  rs_tick :: nat

definition regexCacheTTL :: duration where "regexCacheTTL = 5 * minute"
definition regexCacheCleanupInterval :: duration where "regexCacheCleanupInterval = 1 * minute"

definition upper_char :: "char \<Rightarrow> char" where
  "upper_char c = (let n = of_char c :: nat in if 97 \<le> n \<and> n \<le> 122 then char_of (n - 32) else c)"

definition ToUpper :: "'re response_env \<Rightarrow> string \<Rightarrow> string" where
  "ToUpper env s = (if list_all (\<lambda>c. (of_char c :: nat) < 128) s then map upper_char s else re_upper env s)"

text \<open>\<open>EqualFold\<close> against an ASCII word without k and s, which no other rune folds to.\<close>

definition is_default :: "string \<Rightarrow> bool" where
  "is_default regex \<longleftrightarrow> ToLower regex = ''default''"

definition evictExpiredRegexEntriesLocked :: "instant \<Rightarrow> (string \<rightharpoonup> 're cachedRegex) \<Rightarrow> (string \<rightharpoonup> 're cachedRegex)" where
  "evictExpiredRegexEntriesLocked now m =
     (\<lambda>p. case m p of None \<Rightarrow> None | Some entry \<Rightarrow> if now < rx_expiresAt entry then Some entry else None)"

definition read_clock :: "'re response_env \<Rightarrow> 're regex_state \<Rightarrow> instant \<times> 're regex_state" where
  "read_clock env st = (re_clock env (rs_tick st), st\<lparr>rs_tick := Suc (rs_tick st)\<rparr>)"

definition compileAndStoreRegex :: "'re response_env \<Rightarrow> string \<Rightarrow> 're regex_state \<Rightarrow> 're option \<times> 're regex_state" where
  "compileAndStoreRegex env pattern st =
     (let re = re_compile env pattern; compiledOK = (re \<noteq> None); (now, st) = read_clock env st;
          entry = \<lparr>rx_re = re, rx_ok = compiledOK, rx_expiresAt = now + regexCacheTTL\<rparr>;
          st = st\<lparr>rs_entries := (rs_entries st)(pattern \<mapsto> entry)\<rparr>
      in (if compiledOK then re else None, st))"

definition getCachedRegex :: "'re response_env \<Rightarrow> string \<Rightarrow> 're regex_state \<Rightarrow> 're option \<times> 're regex_state" where
  "getCachedRegex env pattern st =
     (let (now, st) = read_clock env st;
          st = (if rs_nextCleanup st < now
                then st\<lparr>rs_entries := evictExpiredRegexEntriesLocked now (rs_entries st), rs_nextCleanup := now + regexCacheCleanupInterval\<rparr>
                else st)
      in case rs_entries st pattern of
           Some entry \<Rightarrow>
             if rx_expiresAt entry \<le> now then compileAndStoreRegex env pattern (st\<lparr>rs_entries := (rs_entries st)(pattern := None)\<rparr>)
             else (if rx_ok entry \<and> rx_re entry \<noteq> None then rx_re entry else None, st)
         | None \<Rightarrow> compileAndStoreRegex env pattern st)"

definition checkForValidResponseWithHeaders :: "'re response_env \<Rightarrow> string \<Rightarrow> string \<Rightarrow> string list option \<Rightarrow>
    're regex_state \<Rightarrow> bool \<times> 're regex_state" where
  "checkForValidResponseWithHeaders env html regex headers st =
     (if is_default regex
      then (let html = ToUpper env (map (\<lambda>c. if c = CHR ''_'' then CHR ''-'' else c) html);
                headers = (case headers of None \<Rightarrow> re_standardHeader env | Some hs \<Rightarrow> hs)
            in (list_all (strings_Contains html) headers, st))
      else (case getCachedRegex env regex st of
          (None, st) \<Rightarrow> (False, st)
        | (Some re, st) \<Rightarrow> (re_match env re html, st)))"

definition GetProxyLevel :: "'re response_env \<Rightarrow> string \<Rightarrow> nat" where
  "GetProxyLevel env html =
     (if strings_Contains html (re_currentIp env) then 3
      else if list_ex (strings_Contains html) (re_proxyHeader env) then 2 else 1)"


subsection \<open>The attempts of a request\<close>

definition attempt_stops :: "attempt_io \<Rightarrow> bool" where
  "attempt_stops a \<longleftrightarrow> at_renew a \<noteq> None \<or> at_err a = None"

definition full_attempts :: "nat list \<Rightarrow> check_action list" where
  "full_attempts js = concat (map (\<lambda>j. [Renewal (of_nat j), Request (of_nat j)]) js)"

text \<open>The result when attempt \<open>k\<close> is the one that stops, with what the attempt before it left.\<close>

definition stop_result :: "(u16 \<Rightarrow> attempt_io) \<Rightarrow> nat \<Rightarrow> string \<times> int \<Rightarrow> check_run" where
  "stop_result io k before = (let a = io (of_nat k) in case at_renew a of
      Some e \<Rightarrow> \<lparr>cr_html = fst before, cr_err = Some (LeaseLost e), cr_time = snd before, cr_attempt = of_nat k\<rparr>
    | None \<Rightarrow> \<lparr>cr_html = at_html a, cr_err = None, cr_time = at_elapsed a, cr_attempt = of_nat k\<rparr>)"

definition left_by :: "(u16 \<Rightarrow> attempt_io) \<Rightarrow> nat \<Rightarrow> nat \<Rightarrow> string \<times> int \<Rightarrow> string \<times> int" where
  "left_by io i k start = (if k = i then start else (at_html (io (of_nat (k - 1))), at_elapsed (io (of_nat (k - 1)))))"

lemma full_attempts_Cons: "i < k \<Longrightarrow> full_attempts [i..<k] = Renewal (of_nat i) # Request (of_nat i) # full_attempts [Suc i..<k]"
  by (simp add: full_attempts_def upt_conv_Cons)

lemma of_nat_index: "i < 256 \<Longrightarrow> unat (of_nat i :: u16) = i \<and> unat (of_nat i :: u8) = i"
  by (simp add: unsigned_of_nat take_bit_nat_eq_self)

lemma index_le: "i < 256 \<Longrightarrow> (of_nat i :: u16) \<le> ucast (retries :: u8) \<longleftrightarrow> i \<le> unat retries"
proof -
  assume i: "i < 256"
  have "unat (ucast retries :: u16) = unat retries"
    using unat_small_u8 [of retries] by (simp add: unsigned_ucast_eq take_bit_nat_eq_self)
  with of_nat_index [OF i] show ?thesis by (simp add: word_le_nat_alt)
qed

lemma ucast_index: "i < 256 \<Longrightarrow> (ucast (of_nat i :: u16) :: u8) = of_nat i"
proof -
  assume i: "i < 256"
  then have "unat (ucast (of_nat i :: u16) :: u8) = unat (of_nat i :: u8)"
    using of_nat_index [OF i] by (simp add: unsigned_ucast_eq take_bit_nat_eq_self)
  then show ?thesis by (simp add: word_unat_eq_iff)
qed

lemma of_nat_Suc_word: "(of_nat i :: u16) + 1 = of_nat (Suc i)"
  by simp

lemma retry_loop_stops:
  "i \<le> k \<Longrightarrow> k \<le> unat retries \<Longrightarrow> attempt_stops (io (of_nat k)) \<Longrightarrow> (\<And>j. i \<le> j \<Longrightarrow> j < k \<Longrightarrow> \<not> attempt_stops (io (of_nat j))) \<Longrightarrow>
     retry_loop io retries (of_nat i) html err t = (stop_result io k (left_by io i k (html, t)),
       full_attempts [i..<k] @ Renewal (of_nat k) # (if at_renew (io (of_nat k)) = None then [Request (of_nat k)] else []))"
proof (induction "k - i" arbitrary: i html err t)
  case 0
  then have "i = k" by simp
  with 0 unat_small_u8 [of retries] show ?case
    by (subst retry_loop.simps) (auto simp: index_le ucast_index attempt_stops_def stop_result_def left_by_def full_attempts_def Let_def
        split: option.splits)
next
  case (Suc d)
  then have lt: "i < k" by simp
  have small: "i < 256" using lt Suc.prems(2) unat_small_u8 [of retries] by linarith
  have go: "(of_nat i :: u16) \<le> ucast retries" using index_le [OF small] lt Suc.prems(2) by simp
  obtain e where a: "at_renew (io (of_nat i)) = None" "at_err (io (of_nat i)) = Some e"
    using Suc.prems(4) [of i] lt by (auto simp: attempt_stops_def)
  have "retry_loop io retries (of_nat (Suc i)) (at_html (io (of_nat i))) (Some (RequestFailed e)) (at_elapsed (io (of_nat i))) =
      (stop_result io k (left_by io (Suc i) k (at_html (io (of_nat i)), at_elapsed (io (of_nat i)))),
       full_attempts [Suc i..<k] @ Renewal (of_nat k) # (if at_renew (io (of_nat k)) = None then [Request (of_nat k)] else []))"
    by (rule Suc.hyps(1)) (use Suc.hyps(2) Suc.prems lt in auto)
  moreover have "left_by io (Suc i) k (at_html (io (of_nat i)), at_elapsed (io (of_nat i))) = left_by io i k (html, t)"
    using lt by (auto simp: left_by_def)
  ultimately show ?case
    by (subst retry_loop.simps) (simp only: go a full_attempts_Cons [OF lt] of_nat_Suc_word if_True option.case prod.case append_Cons)
qed

lemma retry_loop_exhausted:
  "n = unat retries \<Longrightarrow> i \<le> n + 1 \<Longrightarrow> (\<And>j. i \<le> j \<Longrightarrow> j \<le> n \<Longrightarrow> \<not> attempt_stops (io (of_nat j))) \<Longrightarrow>
     retry_loop io retries (of_nat i) html err t =
       (if i = n + 1 then \<lparr>cr_html = html, cr_err = err, cr_time = t, cr_attempt = retries\<rparr>
        else \<lparr>cr_html = at_html (io (of_nat n)), cr_err = Some (RequestFailed (the (at_err (io (of_nat n))))),
               cr_time = at_elapsed (io (of_nat n)), cr_attempt = retries\<rparr>,
        full_attempts [i..<n + 1])"
proof (induction "n + 1 - i" arbitrary: i html err t)
  case 0
  then have i: "i = n + 1" by simp
  have "i < 65536" using i 0 unat_small_u8 [of retries] by linarith
  then have "unat (of_nat i :: u16) = i" by (simp add: unsigned_of_nat take_bit_nat_eq_self)
  moreover have "unat (ucast retries :: u16) = n"
    using 0(2) unat_small_u8 [of retries] by (simp add: unsigned_ucast_eq take_bit_nat_eq_self)
  ultimately have "\<not> (of_nat i :: u16) \<le> ucast retries" using i unfolding word_le_nat_alt by linarith
  then show ?case by (subst retry_loop.simps) (simp add: i full_attempts_def)
next
  case (Suc d)
  then have le: "i \<le> n" by simp
  have small: "i < 256" using le Suc.prems(1) unat_small_u8 [of retries] by linarith
  have go: "(of_nat i :: u16) \<le> ucast retries" using index_le [OF small] le Suc.prems(1) by simp
  obtain e where a: "at_renew (io (of_nat i)) = None" "at_err (io (of_nat i)) = Some e"
    using Suc.prems(3) [of i] le by (auto simp: attempt_stops_def)
  have lt: "i < n + 1" using le by simp
  have IH: "retry_loop io retries (of_nat (Suc i)) (at_html (io (of_nat i))) (Some (RequestFailed e)) (at_elapsed (io (of_nat i))) =
       (if Suc i = n + 1 then \<lparr>cr_html = at_html (io (of_nat i)), cr_err = Some (RequestFailed e), cr_time = at_elapsed (io (of_nat i)), cr_attempt = retries\<rparr>
        else \<lparr>cr_html = at_html (io (of_nat n)), cr_err = Some (RequestFailed (the (at_err (io (of_nat n))))),
               cr_time = at_elapsed (io (of_nat n)), cr_attempt = retries\<rparr>,
        full_attempts [Suc i..<n + 1])"
    by (rule Suc.hyps(1)) (use Suc.hyps(2) Suc.prems le in auto)
  have step: "retry_loop io retries (of_nat i) html err t = (case retry_loop io retries (of_nat (Suc i)) (at_html (io (of_nat i)))
      (Some (RequestFailed e)) (at_elapsed (io (of_nat i))) of (run, actions) \<Rightarrow> (run, Renewal (of_nat i) # Request (of_nat i) # actions))"
    by (subst retry_loop.simps) (simp only: go a of_nat_Suc_word if_True option.case)
  have ne: "i \<noteq> n + 1" using le by simp
  show ?case
  proof (cases "i = n")
    case True
    then have "Suc i = n + 1" by simp
    then show ?thesis unfolding step IH full_attempts_Cons [OF lt] using True a by simp
  next
    case False
    with le have "Suc i \<noteq> n + 1" by simp
    then show ?thesis unfolding step IH full_attempts_Cons [OF lt] using ne by simp
  qed
qed

text \<open>The attempt that decides: the first that stops, if the budget has one.\<close>

definition deciding :: "(u16 \<Rightarrow> attempt_io) \<Rightarrow> u8 \<Rightarrow> nat option" where
  "deciding io retries = find (\<lambda>k. attempt_stops (io (of_nat k))) [0..<unat retries + 1]"


lemma CheckProxyWithRetries_exact:
  "CheckProxyWithRetries io retries = (case deciding io retries of
      Some k \<Rightarrow> (stop_result io k (left_by io 0 k ([], 0)),
        full_attempts [0..<k] @ Renewal (of_nat k) # (if at_renew (io (of_nat k)) = None then [Request (of_nat k)] else []))
    | None \<Rightarrow> (\<lparr>cr_html = at_html (io (ucast retries)), cr_err = Some (RequestFailed (the (at_err (io (ucast retries))))),
        cr_time = at_elapsed (io (ucast retries)), cr_attempt = retries\<rparr>, full_attempts [0..<unat retries + 1]))"
proof (cases "deciding io retries")
  case None
  then have "\<not> attempt_stops (io (of_nat j))" if "j \<le> unat retries" for j
    using that by (auto simp: deciding_def find_None_iff simp del: upt_Suc)
  with None show ?thesis
    using retry_loop_exhausted [of "unat retries" retries 0 io "[]" None 0]
    by (simp add: CheckProxyWithRetries_def del: upt_Suc)
next
  case (Some k)
  then have k: "k \<le> unat retries" "attempt_stops (io (of_nat k))" "\<And>j. j < k \<Longrightarrow> \<not> attempt_stops (io (of_nat j))"
    by (auto simp: deciding_def find_Some_iff simp del: upt_Suc)
  with Some show ?thesis
    using retry_loop_stops [of 0 k retries io "[]" None 0] by (simp add: CheckProxyWithRetries_def)
qed

definition is_request :: "check_action \<Rightarrow> bool" where
  "is_request a \<longleftrightarrow> (\<exists>i. a = Request i)"

lemma requests_full_attempts [simp]: "length (filter is_request (full_attempts js)) = length js"
  by (induction js) (simp_all add: full_attempts_def is_request_def)

subsection \<open>The pattern cache\<close>

definition cache_sound :: "'re response_env \<Rightarrow> 're regex_state \<Rightarrow> bool" where
  "cache_sound env st \<longleftrightarrow> (\<forall>p entry. rs_entries st p = Some entry \<longrightarrow>
     rx_re entry = re_compile env p \<and> rx_ok entry = (re_compile env p \<noteq> None))"

lemma compile_sound:
  assumes "cache_sound env st" "compileAndStoreRegex env p st = (re, st')"
  shows "re = re_compile env p \<and> cache_sound env st'"
  using assms by (auto simp: compileAndStoreRegex_def read_clock_def cache_sound_def Let_def split: if_splits)

lemma evict_sound: "cache_sound env st \<Longrightarrow> cache_sound env (st\<lparr>rs_entries := evictExpiredRegexEntriesLocked now (rs_entries st), rs_nextCleanup := c\<rparr>)"
  by (auto simp: cache_sound_def evictExpiredRegexEntriesLocked_def split: option.splits if_splits)

text \<open>The cache is invisible: a lookup returns what compiling the pattern returns.\<close>

lemma getCachedRegex_sound:
  assumes sound: "cache_sound env st" and run: "getCachedRegex env p st = (re, st')"
  shows "re = re_compile env p \<and> cache_sound env st'"
proof -
  obtain now st1 where c: "read_clock env st = (now, st1)" by (metis prod.collapse)
  with sound have s1: "cache_sound env st1" by (auto simp: read_clock_def cache_sound_def)
  define st2 where "st2 = (if rs_nextCleanup st1 < now
      then st1\<lparr>rs_entries := evictExpiredRegexEntriesLocked now (rs_entries st1), rs_nextCleanup := now + regexCacheCleanupInterval\<rparr> else st1)"
  have s2: "cache_sound env st2" using s1 evict_sound [OF s1] by (simp add: st2_def)
  have r: "(case rs_entries st2 p of
      Some entry \<Rightarrow> if rx_expiresAt entry \<le> now then compileAndStoreRegex env p (st2\<lparr>rs_entries := (rs_entries st2)(p := None)\<rparr>)
        else (if rx_ok entry \<and> rx_re entry \<noteq> None then rx_re entry else None, st2)
    | None \<Rightarrow> compileAndStoreRegex env p st2) = (re, st')"
    using run unfolding getCachedRegex_def c Let_def prod.case st2_def [symmetric] .
  show ?thesis
  proof (cases "rs_entries st2 p")
    case None
    with r compile_sound [OF s2] show ?thesis by simp
  next
    case (Some entry)
    have s3: "cache_sound env (st2\<lparr>rs_entries := (rs_entries st2)(p := None)\<rparr>)" using s2 by (simp add: cache_sound_def)
    have e: "rx_re entry = re_compile env p" "rx_ok entry = (re_compile env p \<noteq> None)"
      using s2 Some by (auto simp: cache_sound_def)
    show ?thesis
    proof (cases "rx_expiresAt entry \<le> now")
      case True
      with r Some compile_sound [OF s3] show ?thesis by simp
    next
      case False
      with r Some e s2 show ?thesis by (auto split: if_splits)
    qed
  qed
qed

definition valid_response :: "'re response_env \<Rightarrow> string \<Rightarrow> string \<Rightarrow> string list option \<Rightarrow> bool" where
  "valid_response env html regex headers =
     (if is_default regex
      then list_all (strings_Contains (ToUpper env (map (\<lambda>c. if c = CHR ''_'' then CHR ''-'' else c) html)))
        (case headers of None \<Rightarrow> re_standardHeader env | Some hs \<Rightarrow> hs)
      else (case re_compile env regex of None \<Rightarrow> False | Some re \<Rightarrow> re_match env re html))"


lemma check_response_exact:
  assumes "cache_sound env st" "checkForValidResponseWithHeaders env html regex headers st = (v, st')"
  shows "v = valid_response env html regex headers \<and> cache_sound env st'"
proof (cases "is_default regex")
  case True
  with assms show ?thesis by (simp add: checkForValidResponseWithHeaders_def valid_response_def Let_def)
next
  case False
  obtain re st1 where g: "getCachedRegex env regex st = (re, st1)" by (metis prod.collapse)
  with getCachedRegex_sound [OF assms(1) g] assms(2) False show ?thesis
    by (auto simp: checkForValidResponseWithHeaders_def valid_response_def split: option.splits)
qed


subsection \<open>Bodies that are stored\<close>

text \<open>
  \<open>[]rune\<close> and back: a string as the encodings of its runes, with the encoding of U+FFFD for every byte
  that starts no valid sequence (package \<open>unicode/utf8\<close>).
\<close>

definition byte_in :: "nat \<Rightarrow> nat \<Rightarrow> char \<Rightarrow> bool" where
  "byte_in lo hi c \<longleftrightarrow> lo \<le> of_char c \<and> of_char c \<le> hi"

abbreviation tail_byte :: "char \<Rightarrow> bool" where "tail_byte \<equiv> byte_in 128 191"

definition replacement_rune :: string where
  "replacement_rune = [char_of (239 :: nat), char_of (191 :: nat), char_of (189 :: nat)]"

definition two_bytes :: "char \<Rightarrow> char \<Rightarrow> bool" where
  "two_bytes a b \<longleftrightarrow> byte_in 194 223 a \<and> tail_byte b"

definition three_bytes :: "char \<Rightarrow> char \<Rightarrow> char \<Rightarrow> bool" where
  "three_bytes a b c \<longleftrightarrow> (byte_in 224 224 a \<and> byte_in 160 191 b \<or> byte_in 225 236 a \<and> tail_byte b \<or>
     byte_in 237 237 a \<and> byte_in 128 159 b \<or> byte_in 238 239 a \<and> tail_byte b) \<and> tail_byte c"

definition four_bytes :: "char \<Rightarrow> char \<Rightarrow> char \<Rightarrow> char \<Rightarrow> bool" where
  "four_bytes a b c d \<longleftrightarrow> (byte_in 240 240 a \<and> byte_in 144 191 b \<or> byte_in 241 243 a \<and> tail_byte b \<or>
     byte_in 244 244 a \<and> byte_in 128 143 b) \<and> tail_byte c \<and> tail_byte d"

fun sequence_length :: "string \<Rightarrow> nat option" where
  "sequence_length [] = None"
| "sequence_length [a] = (if byte_in 0 127 a then Some 1 else None)"
| "sequence_length [a, b] = (if byte_in 0 127 a then Some 1 else if two_bytes a b then Some 2 else None)"
| "sequence_length [a, b, c] =
     (if byte_in 0 127 a then Some 1 else if two_bytes a b then Some 2 else if three_bytes a b c then Some 3 else None)"
| "sequence_length (a # b # c # d # s) =
     (if byte_in 0 127 a then Some 1 else if two_bytes a b then Some 2 else if three_bytes a b c then Some 3
      else if four_bytes a b c d then Some 4 else None)"

lemma sequence_length_bounds: "sequence_length s = Some n \<Longrightarrow> 0 < n \<and> n \<le> length s"
  by (induction s rule: sequence_length.induct) (auto split: if_splits)

function runes :: "string \<Rightarrow> string list" where
  "runes [] = []"
| "runes (c # s) = (case sequence_length (c # s) of
      None \<Rightarrow> replacement_rune # runes s
    | Some n \<Rightarrow> take n (c # s) # runes (drop (n - 1) s))"
  by pat_completeness auto
termination by (relation "measure length") auto

definition maxResponseBodyLength :: nat where "maxResponseBodyLength = 512"

definition truncateResponseBody :: "string \<Rightarrow> string" where
  "truncateResponseBody body =
     (if body = [] then []
      else let body = filter (\<lambda>c. c \<noteq> char_of (0 :: nat)) body in
        if body = [] then []
        else let rs = runes body in concat (if maxResponseBodyLength < length rs then take maxResponseBodyLength rs else rs))"

subsection \<open>Verdicts and statistics\<close>

record WorkspaceCheckEvidence =
  ce_WorkspaceID :: u64
  ce_ConfigKey :: string
  ce_Alive :: bool

record ProxyStatistic =
  ps_TransportProtocol :: string
  ps_CheckTimeout :: u16
  ps_CheckRetries :: u8
  ps_CheckEvidence :: "WorkspaceCheckEvidence list"
  ps_Alive :: bool
  ps_ResponseTime :: u16
  ps_Attempt :: u8
  ps_ProxyID :: u64
  ps_ProtocolID :: nat
  ps_JudgeID :: u64
  ps_ResponseBody :: string
  ps_CreatedAt :: instant
  ps_LevelID :: "nat option"

definition validation_key :: "workspaceCheck \<Rightarrow> string" where
  "validation_key check = (if is_default (wc_regex check) then wc_regex check @ wc_configKey check else wc_regex check)"

record 're check_acc =
  ca_memo :: "string \<rightharpoonup> bool"
  ca_alive :: bool
  ca_success :: "u64 \<rightharpoonup> bool"
  ca_evidence :: "WorkspaceCheckEvidence list"
  ca_regex :: "'re regex_state"

definition memoised_verdict :: "'re response_env \<Rightarrow> string \<Rightarrow> bool \<Rightarrow> workspaceCheck \<Rightarrow> 're check_acc \<Rightarrow> bool \<times> 're check_acc" where
  "memoised_verdict env html failed check acc =
     (case ca_memo acc (validation_key check) of
        Some valid \<Rightarrow> (valid, acc)
      | None \<Rightarrow>
          (let (valid, st) = (if failed then (False, ca_regex acc)
                 else checkForValidResponseWithHeaders env html (wc_regex check) (wc_headers check) (ca_regex acc))
           in (valid, acc\<lparr>ca_memo := (ca_memo acc)(validation_key check \<mapsto> valid), ca_regex := st\<rparr>)))"

definition check_step :: "'re response_env \<Rightarrow> string \<Rightarrow> bool \<Rightarrow> workspaceCheck \<Rightarrow> 're check_acc \<Rightarrow> 're check_acc" where
  "check_step env html failed check acc =
     (case memoised_verdict env html failed check acc of (valid, acc) \<Rightarrow>
        let acc = (if wc_configKey check = [] then acc
              else acc\<lparr>ca_evidence := ca_evidence acc @ [\<lparr>ce_WorkspaceID = wc_workspaceID check, ce_ConfigKey = wc_configKey check, ce_Alive = valid\<rparr>]\<rparr>)
        in if valid then acc\<lparr>ca_alive := True, ca_success := (ca_success acc)(wc_workspaceID check \<mapsto> True)\<rparr> else acc)"

definition collectCheckWorkspaceIDs :: "workspaceCheck list \<Rightarrow> u64 list" where
  "collectCheckWorkspaceIDs checks = dedup_onto [] (filter (\<lambda>w. w \<noteq> 0) (map wc_workspaceID checks))"

text \<open>What happens around one request: its attempts, whether the lease's context ended, the clock.\<close>

record request_io =
  io_attempts :: "u16 \<Rightarrow> attempt_io"
  io_ctxErr :: "string option"
  io_createdAt :: instant

datatype cycle_abort = AbortLease string | AbortContext string

record cycle_settings =
  cy_proxyID :: u64
  cy_maxTimeout :: u16
  cy_maxRetries :: u8
  cy_saveResponses :: bool

definition item_budget :: "cycle_settings \<Rightarrow> requestAssignment \<Rightarrow> u16 \<times> u8" where
  "item_budget S a = (if ra_budgetSet a then (ra_timeout a, ra_retries a) else (cy_maxTimeout S, cy_maxRetries S))"

definition statistic_of :: "'re response_env \<Rightarrow> cycle_settings \<Rightarrow> requestAssignment \<Rightarrow> instant \<Rightarrow> check_run \<Rightarrow> bool \<Rightarrow>
    WorkspaceCheckEvidence list \<Rightarrow> ProxyStatistic" where
  "statistic_of env S a createdAt run alive evidence =
     \<lparr>ps_TransportProtocol = ra_transportProtocol a, ps_CheckTimeout = fst (item_budget S a), ps_CheckRetries = snd (item_budget S a),
      ps_CheckEvidence = evidence, ps_Alive = alive, ps_ResponseTime = of_int (cr_time run), ps_Attempt = cr_attempt run,
      ps_ProxyID = cy_proxyID S, ps_ProtocolID = ra_protocolID a, ps_JudgeID = j_ID (ra_judge a),
      ps_ResponseBody = (if cy_saveResponses S then truncateResponseBody (cr_html run) else []),
      ps_CreatedAt = createdAt, ps_LevelID = (if alive then Some (GetProxyLevel env (cr_html run)) else None)\<rparr>"

text \<open>The assignments in the order the map iteration gives; every statistic goes with the owners it is for.\<close>

fun processJudgeAssignments :: "'re response_env \<Rightarrow> cycle_settings \<Rightarrow> (string \<Rightarrow> request_io) \<Rightarrow> requests \<Rightarrow> (u64 \<rightharpoonup> bool) \<Rightarrow> 're regex_state \<Rightarrow>
    cycle_abort option \<times> (u64 \<rightharpoonup> bool) \<times> (ProxyStatistic \<times> u64 list) list \<times> 're regex_state" where
  "processJudgeAssignments env S io [] success st = (None, success, [], st)"
| "processJudgeAssignments env S io ((k, a) # items) success st =
     (let run = fst (CheckProxyWithRetries (io_attempts (io k)) (snd (item_budget S a))) in
      case cr_err run of
        Some (LeaseLost e) \<Rightarrow> (Some (AbortLease e), success, [], st)
      | err \<Rightarrow>
          (case io_ctxErr (io k) of
             Some e \<Rightarrow> (Some (AbortContext e), success, [], st)
           | None \<Rightarrow>
               (let acc = fold (check_step env (cr_html run) (err \<noteq> None)) (ra_checks a)
                      \<lparr>ca_memo = Map.empty, ca_alive = False, ca_success = success, ca_evidence = [], ca_regex = st\<rparr>;
                    statistic = statistic_of env S a (io_createdAt (io k)) run (ca_alive acc) (ca_evidence acc)
                in case processJudgeAssignments env S io items (ca_success acc) (ca_regex acc) of
                     (abort, success, statistics, st) \<Rightarrow>
                       (abort, success, (statistic, collectCheckWorkspaceIDs (ra_checks a)) # statistics, st))))"


subsection \<open>What a cycle reports\<close>

definition run_of :: "cycle_settings \<Rightarrow> (string \<Rightarrow> request_io) \<Rightarrow> string \<times> requestAssignment \<Rightarrow> check_run" where
  "run_of S io = (\<lambda>(k, a). fst (CheckProxyWithRetries (io_attempts (io k)) (snd (item_budget S a))))"

definition abort_of :: "cycle_settings \<Rightarrow> (string \<Rightarrow> request_io) \<Rightarrow> string \<times> requestAssignment \<Rightarrow> cycle_abort option" where
  "abort_of S io item = (case cr_err (run_of S io item) of
      Some (LeaseLost e) \<Rightarrow> Some (AbortLease e)
    | _ \<Rightarrow> map_option AbortContext (io_ctxErr (io (fst item))))"

text \<open>The verdict an owner's check is due: no transport error, and the body passes the owner's own rule.\<close>

definition verdict :: "'re response_env \<Rightarrow> check_run \<Rightarrow> workspaceCheck \<Rightarrow> bool" where
  "verdict env run check \<longleftrightarrow> cr_err run = None \<and> valid_response env (cr_html run) (wc_regex check) (wc_headers check)"

definition evidence_of :: "'re response_env \<Rightarrow> check_run \<Rightarrow> workspaceCheck list \<Rightarrow> WorkspaceCheckEvidence list" where
  "evidence_of env run checks = map (\<lambda>c. \<lparr>ce_WorkspaceID = wc_workspaceID c, ce_ConfigKey = wc_configKey c, ce_Alive = verdict env run c\<rparr>)
     (filter (\<lambda>c. wc_configKey c \<noteq> []) checks)"

definition report_of :: "'re response_env \<Rightarrow> cycle_settings \<Rightarrow> (string \<Rightarrow> request_io) \<Rightarrow> string \<times> requestAssignment \<Rightarrow> ProxyStatistic \<times> u64 list" where
  "report_of env S io item = (let run = run_of S io item; checks = ra_checks (snd item) in
     (statistic_of env S (snd item) (io_createdAt (io (fst item))) run (list_ex (verdict env run) checks) (evidence_of env run checks),
      collectCheckWorkspaceIDs checks))"

text \<open>
  Verdicts are shared between checks with the same key, the pattern or, for the default rule, the
  pattern and the configuration key. That is sound when a configuration key names one list of headers
  and no pattern looks like a default rule's key.
\<close>

definition keys_determine :: "workspaceCheck list \<Rightarrow> bool" where
  "keys_determine checks \<longleftrightarrow> (\<forall>c \<in> set checks. \<forall>d \<in> set checks. validation_key c = validation_key d \<longrightarrow>
     is_default (wc_regex c) = is_default (wc_regex d) \<and> (is_default (wc_regex c) \<longrightarrow> wc_headers c = wc_headers d))"

lemma same_key_verdict:
  assumes "keys_determine checks" "c \<in> set checks" "d \<in> set checks" "validation_key c = validation_key d"
  shows "verdict env run c = verdict env run d"
proof -
  have k: "is_default (wc_regex c) = is_default (wc_regex d)" "is_default (wc_regex c) \<Longrightarrow> wc_headers c = wc_headers d"
    using assms unfolding keys_determine_def by blast+
  show ?thesis
  proof (cases "is_default (wc_regex c)")
    case True
    with k show ?thesis by (simp add: verdict_def valid_response_def)
  next
    case False
    with k assms(4) have "wc_regex c = wc_regex d" by (simp add: validation_key_def)
    with False k show ?thesis by (simp add: verdict_def valid_response_def)
  qed
qed

definition memo_right :: "'re response_env \<Rightarrow> check_run \<Rightarrow> workspaceCheck list \<Rightarrow> (string \<rightharpoonup> bool) \<Rightarrow> bool" where
  "memo_right env run checks memo \<longleftrightarrow> (\<forall>c \<in> set checks. \<forall>v. memo (validation_key c) = Some v \<longrightarrow> v = verdict env run c)"

lemma memoised_verdict_exact:
  assumes keys: "keys_determine checks" and c: "c \<in> set checks"
    and acc: "cache_sound env (ca_regex acc)" "memo_right env run checks (ca_memo acc)"
    and r: "memoised_verdict env (cr_html run) (cr_err run \<noteq> None) c acc = (v, acc')"
  shows "v = verdict env run c \<and> cache_sound env (ca_regex acc') \<and> memo_right env run checks (ca_memo acc') \<and>
    ca_alive acc' = ca_alive acc \<and> ca_success acc' = ca_success acc \<and> ca_evidence acc' = ca_evidence acc"
proof (cases "ca_memo acc (validation_key c)")
  case (Some w)
  with r acc c show ?thesis by (auto simp: memoised_verdict_def memo_right_def)
next
  case None
  obtain valid st where g: "(if cr_err run \<noteq> None then (False, ca_regex acc)
      else checkForValidResponseWithHeaders env (cr_html run) (wc_regex c) (wc_headers c) (ca_regex acc)) = (valid, st)"
    by (metis prod.collapse)
  have v: "valid = verdict env run c \<and> cache_sound env st"
  proof (cases "cr_err run")
    case None
    with g check_response_exact [OF acc(1)] show ?thesis by (simp add: verdict_def)
  next
    case (Some e)
    with g acc show ?thesis by (simp add: verdict_def)
  qed
  from r None g have res: "v = valid" "acc' = acc\<lparr>ca_memo := (ca_memo acc)(validation_key c \<mapsto> valid), ca_regex := st\<rparr>"
    by (auto simp: memoised_verdict_def)
  have "memo_right env run checks ((ca_memo acc)(validation_key c \<mapsto> valid))"
    unfolding memo_right_def
  proof (intro ballI allI impI)
    fix d u
    assume d: "d \<in> set checks" "((ca_memo acc)(validation_key c \<mapsto> valid)) (validation_key d) = Some u"
    show "u = verdict env run d"
    proof (cases "validation_key d = validation_key c")
      case True
      from same_key_verdict [OF keys d(1) c True, of env run] True d(2) v show ?thesis by simp
    next
      case False
      with d acc(2) show ?thesis by (simp add: memo_right_def)
    qed
  qed
  with res v show ?thesis by simp
qed

lemma check_step_exact:
  assumes keys: "keys_determine checks" and c: "c \<in> set checks"
    and acc: "cache_sound env (ca_regex acc)" "memo_right env run checks (ca_memo acc)"
  defines "acc' \<equiv> check_step env (cr_html run) (cr_err run \<noteq> None) c acc"
  shows "cache_sound env (ca_regex acc') \<and> memo_right env run checks (ca_memo acc') \<and>
    ca_alive acc' = (ca_alive acc \<or> verdict env run c) \<and>
    ca_success acc' = (if verdict env run c then (ca_success acc)(wc_workspaceID c \<mapsto> True) else ca_success acc) \<and>
    ca_evidence acc' = ca_evidence acc @ evidence_of env run [c]"
proof -
  obtain v acc1 where r: "memoised_verdict env (cr_html run) (cr_err run \<noteq> None) c acc = (v, acc1)" by (metis prod.collapse)
  note M = memoised_verdict_exact [OF keys c acc r]
  let ?acc2 = "if wc_configKey c = [] then acc1
    else acc1\<lparr>ca_evidence := ca_evidence acc1 @ [\<lparr>ce_WorkspaceID = wc_workspaceID c, ce_ConfigKey = wc_configKey c, ce_Alive = v\<rparr>]\<rparr>"
  have a: "acc' = (if v then ?acc2\<lparr>ca_alive := True, ca_success := (ca_success ?acc2)(wc_workspaceID c \<mapsto> True)\<rparr> else ?acc2)"
    unfolding acc'_def check_step_def r Let_def prod.case by (rule refl)
  have e: "evidence_of env run [c] = (if wc_configKey c = [] then [] else [\<lparr>ce_WorkspaceID = wc_workspaceID c, ce_ConfigKey = wc_configKey c, ce_Alive = v\<rparr>])"
    using M by (simp add: evidence_of_def)
  show ?thesis unfolding a e using M by simp
qed

lemma check_steps_exact:
  "keys_determine checks \<Longrightarrow> set cs \<subseteq> set checks \<Longrightarrow> cache_sound env (ca_regex acc) \<Longrightarrow> memo_right env run checks (ca_memo acc) \<Longrightarrow>
     acc' = fold (check_step env (cr_html run) (cr_err run \<noteq> None)) cs acc \<Longrightarrow>
     cache_sound env (ca_regex acc') \<and> ca_alive acc' = (ca_alive acc \<or> list_ex (verdict env run) cs) \<and>
     ca_success acc' = (\<lambda>w. if \<exists>c \<in> set cs. wc_workspaceID c = w \<and> verdict env run c then Some True else ca_success acc w) \<and>
     ca_evidence acc' = ca_evidence acc @ evidence_of env run cs"
proof (induction cs arbitrary: acc)
  case Nil
  then show ?case by (simp add: evidence_of_def)
next
  case (Cons c cs)
  let ?acc = "check_step env (cr_html run) (cr_err run \<noteq> None) c acc"
  from Cons.prems(2) have c: "c \<in> set checks" "set cs \<subseteq> set checks" by auto
  note S = check_step_exact [OF Cons.prems(1) c(1) Cons.prems(3,4)]
  from Cons.prems(5) have a: "acc' = fold (check_step env (cr_html run) (cr_err run \<noteq> None)) cs ?acc" by simp
  from Cons.IH [OF Cons.prems(1) c(2) _ _ a] S have IH: "cache_sound env (ca_regex acc')"
    "ca_alive acc' = (ca_alive ?acc \<or> list_ex (verdict env run) cs)"
    "ca_success acc' = (\<lambda>w. if \<exists>c \<in> set cs. wc_workspaceID c = w \<and> verdict env run c then Some True else ca_success ?acc w)"
    "ca_evidence acc' = ca_evidence ?acc @ evidence_of env run cs" by blast+
  have e: "evidence_of env run (c # cs) = evidence_of env run [c] @ evidence_of env run cs" by (simp add: evidence_of_def)
  from IH S show ?case unfolding e by (auto simp: fun_eq_iff)
qed


definition completed :: "cycle_settings \<Rightarrow> (string \<Rightarrow> request_io) \<Rightarrow> requests \<Rightarrow> requests" where
  "completed S io items = takeWhile (\<lambda>item. abort_of S io item = None) items"

definition first_abort :: "cycle_settings \<Rightarrow> (string \<Rightarrow> request_io) \<Rightarrow> requests \<Rightarrow> cycle_abort option" where
  "first_abort S io items = (case dropWhile (\<lambda>item. abort_of S io item = None) items of [] \<Rightarrow> None | item # _ \<Rightarrow> abort_of S io item)"

definition passed :: "'re response_env \<Rightarrow> cycle_settings \<Rightarrow> (string \<Rightarrow> request_io) \<Rightarrow> requests \<Rightarrow> u64 \<Rightarrow> bool" where
  "passed env S io items w \<longleftrightarrow> (\<exists>item \<in> set items. \<exists>c \<in> set (ra_checks (snd item)). wc_workspaceID c = w \<and> verdict env (run_of S io item) c)"

lemma process_exact:
  "processJudgeAssignments env S io items success st = (abort, success', statistics, st') \<Longrightarrow> cache_sound env st \<Longrightarrow>
     \<forall>(k, a) \<in> set items. keys_determine (ra_checks a) \<Longrightarrow>
     abort = first_abort S io items \<and> statistics = map (report_of env S io) (completed S io items) \<and> cache_sound env st' \<and>
     success' = (\<lambda>w. if passed env S io (completed S io items) w then Some True else success w)"
proof (induction items arbitrary: success st statistics)
  case Nil
  then show ?case by (simp add: first_abort_def completed_def passed_def)
next
  case (Cons item items)
  obtain k a where item: "item = (k, a)" by (cases item)
  let ?run = "run_of S io item"
  have run: "fst (CheckProxyWithRetries (io_attempts (io k)) (snd (item_budget S a))) = ?run" by (simp add: run_of_def item)
  show ?case
  proof (cases "abort_of S io item")
    case (Some e)
    then have "(abort, success', statistics, st') = (Some e, success, [], st)"
      using Cons.prems(1) by (auto simp: item run abort_of_def Let_def split: option.splits check_error.splits)
    with Some Cons.prems(2) show ?thesis by (simp add: first_abort_def completed_def passed_def)
  next
    case None
    define acc where "acc = fold (check_step env (cr_html ?run) (cr_err ?run \<noteq> None)) (ra_checks a)
      \<lparr>ca_memo = Map.empty, ca_alive = False, ca_success = success, ca_evidence = [], ca_regex = st\<rparr>"
    have keys: "keys_determine (ra_checks a)" using Cons.prems(3) by (simp add: item)
    from check_steps_exact [OF keys subset_refl _ _ acc_def] Cons.prems(2)
    have acc: "cache_sound env (ca_regex acc)" "ca_alive acc = list_ex (verdict env ?run) (ra_checks a)"
      "ca_success acc = (\<lambda>w. if \<exists>c \<in> set (ra_checks a). wc_workspaceID c = w \<and> verdict env ?run c then Some True else success w)"
      "ca_evidence acc = evidence_of env ?run (ra_checks a)" by (simp_all add: memo_right_def cong: if_cong)
    from None Cons.prems(1) obtain rest where rest:
      "processJudgeAssignments env S io items (ca_success acc) (ca_regex acc) = (abort, success', rest, st')"
      "statistics = (statistic_of env S a (io_createdAt (io k)) ?run (ca_alive acc) (ca_evidence acc), collectCheckWorkspaceIDs (ra_checks a)) # rest"
      by (auto simp: item run acc_def abort_of_def Let_def split: option.splits check_error.splits prod.splits)
    from Cons.IH [OF rest(1) acc(1)] Cons.prems(3) have IH: "abort = first_abort S io items"
      "rest = map (report_of env S io) (completed S io items)" "cache_sound env st'"
      "success' = (\<lambda>w. if passed env S io (completed S io items) w then Some True else ca_success acc w)" by simp_all
    have "statistics = map (report_of env S io) (completed S io (item # items))"
      using None by (simp add: rest(2) IH(2) completed_def report_of_def acc item Let_def)
    moreover have "abort = first_abort S io (item # items)" using None IH(1) by (simp add: first_abort_def)
    moreover have "passed env S io (completed S io (item # items)) w \<longleftrightarrow>
        passed env S io (completed S io items) w \<or> (\<exists>c \<in> set (ra_checks a). wc_workspaceID c = w \<and> verdict env ?run c)" for w
      using None by (auto simp: passed_def completed_def item)
    ultimately show ?thesis using IH(3,4) acc(3) by (auto simp: fun_eq_iff)
  qed
qed

text \<open>Keys determine headers when configuration keys do, and no pattern equals a default rule's key.\<close>

lemma keys_determineI:
  assumes "\<And>c d. c \<in> set checks \<Longrightarrow> d \<in> set checks \<Longrightarrow> wc_configKey c = wc_configKey d \<Longrightarrow> wc_headers c = wc_headers d"
    and "\<And>c d. c \<in> set checks \<Longrightarrow> d \<in> set checks \<Longrightarrow> is_default (wc_regex c) \<Longrightarrow> \<not> is_default (wc_regex d) \<Longrightarrow>
      wc_regex d \<noteq> wc_regex c @ wc_configKey c"
  shows "keys_determine checks"
  unfolding keys_determine_def
proof (intro ballI impI)
  fix c d
  assume cd: "c \<in> set checks" "d \<in> set checks" "validation_key c = validation_key d"
  have len: "length (wc_regex x) = 7" if "is_default (wc_regex x)" for x
  proof -
    have "length (ToLower (wc_regex x)) = length ''default''" using that by (simp add: is_default_def)
    then show ?thesis by (simp add: ToLower_def)
  qed
  show "is_default (wc_regex c) = is_default (wc_regex d) \<and> (is_default (wc_regex c) \<longrightarrow> wc_headers c = wc_headers d)"
  proof (cases "is_default (wc_regex c)"; cases "is_default (wc_regex d)")
    assume dd: "is_default (wc_regex c)" "is_default (wc_regex d)"
    with cd(3) have "wc_configKey c = wc_configKey d" using len [of c] len [of d] by (simp add: validation_key_def)
    with assms(1) cd dd show ?thesis by blast
  next
    assume "is_default (wc_regex c)" "\<not> is_default (wc_regex d)"
    with cd assms(2) [of c d] show ?thesis by (simp add: validation_key_def)
  next
    assume "\<not> is_default (wc_regex c)" "is_default (wc_regex d)"
    with cd assms(2) [of d c] show ?thesis by (simp add: validation_key_def)
  qed simp
qed


subsection \<open>Truncated bodies\<close>

definition rune_ok :: "string \<Rightarrow> bool" where
  "rune_ok r \<longleftrightarrow> sequence_length r = Some (length r)"

lemma sequence_length_take: "sequence_length s = Some n \<Longrightarrow> sequence_length (take n s) = Some n"
  by (induction s rule: sequence_length.induct) (auto simp: numeral_eq_Suc split: if_splits)

lemma sequence_length_append: "sequence_length r = Some n \<Longrightarrow> sequence_length (r @ s) = Some n"
proof (induction r rule: sequence_length.induct)
  case (2 a)
  then show ?case by (cases "a # s" rule: sequence_length.cases) (auto split: if_splits)
next
  case (3 a b)
  then show ?case by (cases "a # b # s" rule: sequence_length.cases) (auto split: if_splits)
next
  case (4 a b c)
  then show ?case by (cases s) (auto split: if_splits)
qed auto

lemma replacement_ok [simp]: "rune_ok replacement_rune"
  by (simp add: rune_ok_def replacement_rune_def two_bytes_def three_bytes_def byte_in_def)

lemma runes_ok: "r \<in> set (runes s) \<Longrightarrow> rune_ok r"
proof (induction s rule: runes.induct)
  case (2 c s)
  show ?case
  proof (cases "sequence_length (c # s)")
    case None
    with 2 show ?thesis by auto
  next
    case (Some n)
    from sequence_length_take [OF Some] sequence_length_bounds [OF Some] have "rune_ok (take n (c # s))"
      by (simp add: rune_ok_def min_def)
    with 2 Some show ?thesis by auto
  qed
qed simp

lemma runes_append:
  assumes "rune_ok r"
  shows "runes (r @ s) = r # runes s"
proof -
  from assms have l: "sequence_length r = Some (length r)" by (simp add: rune_ok_def)
  from sequence_length_bounds [OF this] obtain c cs where r: "r = c # cs" by (cases r) auto
  from sequence_length_append [OF l, of s] show ?thesis by (simp add: r)
qed

lemma runes_concat: "\<forall>r \<in> set rs. rune_ok r \<Longrightarrow> runes (concat rs) = rs"
  by (induction rs) (simp_all add: runes_append)

lemma runes_chars: "r \<in> set (runes s) \<Longrightarrow> set r \<subseteq> set s \<union> set replacement_rune"
proof (induction s rule: runes.induct)
  case (2 c s)
  show ?case
  proof (cases "sequence_length (c # s)")
    case None
    with 2 show ?thesis by auto
  next
    case (Some n)
    have "set (take n (c # s)) \<subseteq> set (c # s)" "set (drop (n - 1) s) \<subseteq> set (c # s)"
      using set_take_subset [of n "c # s"] set_drop_subset [of "n - 1" s] by auto
    with 2 Some show ?thesis by fastforce
  qed
qed simp

lemma truncate_eq:
  "truncateResponseBody body = concat (take 512 (runes (filter (\<lambda>c. c \<noteq> char_of (0 :: nat)) body)))"
  by (auto simp: truncateResponseBody_def maxResponseBodyLength_def Let_def)

subsection \<open>Properties\<close>

text \<open>
  C18. A check ends for every retry budget, 255 included: it makes one attempt after another, each request
  after a renewal of the lease, until a request succeeds, a renewal fails or the budget is used up, and
  reports the attempt that decided with the body and time of the last request; it sends at most one
  request more than the budget of retries.
\<close>

theorem check_attempts_exact:
  "CheckProxyWithRetries io retries = (case deciding io retries of
      Some k \<Rightarrow> (stop_result io k (left_by io 0 k ([], 0)),
        full_attempts [0..<k] @ Renewal (of_nat k) # (if at_renew (io (of_nat k)) = None then [Request (of_nat k)] else []))
    | None \<Rightarrow> (\<lparr>cr_html = at_html (io (ucast retries)), cr_err = Some (RequestFailed (the (at_err (io (ucast retries))))),
        cr_time = at_elapsed (io (ucast retries)), cr_attempt = retries\<rparr>, full_attempts [0..<unat retries + 1])) \<and>
   length (filter is_request (snd (CheckProxyWithRetries io retries))) \<le> unat retries + 1"
proof -
  have "k \<le> unat retries" if "deciding io retries = Some k" for k
    using that by (auto simp: deciding_def find_Some_iff simp del: upt_Suc)
  then show ?thesis
    by (auto simp: CheckProxyWithRetries_exact is_request_def simp del: upt_Suc split: option.split)
qed

text \<open>
  C17. When the lease holds to the end of a request, the request is reported once, with the verdict each
  owner's own rule gives its response; a statistic is alive exactly when some owner accepts the
  response, an owner is successful exactly when it accepts the response of some request (or already
  was), and the owners of a statistic are those of its checks, each once. The first lost lease or
  ended context stops the cycle with an error and leaves earlier reports standing. The order of the
  requests does not influence any verdict, nor does the cache of compiled patterns.
\<close>

theorem results_reported_exactly:
  assumes "processJudgeAssignments env S io items success st = (abort, success', statistics, st')"
    and "cache_sound env st" and "\<forall>(k, a) \<in> set items. keys_determine (ra_checks a)"
  shows "abort = first_abort S io items \<and> statistics = map (report_of env S io) (completed S io items) \<and> cache_sound env st' \<and>
    (\<forall>w. success' w = (if passed env S io (completed S io items) w then Some True else success w))"
  using process_exact [OF assms] by simp

text \<open>
  C31. A stored body is text that PostgreSQL accepts: it has no zero byte and is valid UTF-8 (decoding
  and encoding it changes nothing), and it is the first 512 characters of the response without zero
  bytes.
\<close>

theorem stored_body_is_text:
  "char_of (0 :: nat) \<notin> set (truncateResponseBody body) \<and>
   concat (runes (truncateResponseBody body)) = truncateResponseBody body \<and>
   runes (truncateResponseBody body) = take 512 (runes (filter (\<lambda>c. c \<noteq> char_of (0 :: nat)) body))"
proof -
  let ?rs = "take 512 (runes (filter (\<lambda>c. c \<noteq> char_of (0 :: nat)) body))"
  have rs: "r \<in> set (runes (filter (\<lambda>c. c \<noteq> char_of (0 :: nat)) body))" if "r \<in> set ?rs" for r
    using that by (rule in_set_takeD)
  have d: "runes (concat ?rs) = ?rs" using rs runes_ok by (intro runes_concat) blast
  have "char_of (0 :: nat) \<notin> set r" if "r \<in> set ?rs" for r
    using runes_chars [OF rs [OF that]] by (auto simp: replacement_rune_def)
  with d show ?thesis by (auto simp: truncate_eq)
qed


text \<open>
  The level of a proxy is read off the server's own address in the response. Before the first lookup
  of that address has succeeded it is empty, and the empty string is part of every response: until
  then every live proxy is filed as transparent.
\<close>

lemma unknown_address_transparent: "re_currentIp env = [] \<Longrightarrow> GetProxyLevel env html = 3"
proof -
  have "strings_Contains s []" for s by (cases s) (simp_all add: HasPrefix_def)
  then show "re_currentIp env = [] \<Longrightarrow> GetProxyLevel env html = 3" by (simp add: GetProxyLevel_def)
qed

definition demo_response_env :: "string response_env" where
  "demo_response_env = \<lparr>re_compile = (\<lambda>p. if p = ''('' then None else Some p), re_match = (\<lambda>re html. strings_Contains html re),
     re_upper = (\<lambda>s. s), re_standardHeader = [''VIA''], re_proxyHeader = [''VIA''], re_currentIp = ''10.0.0.1'', re_clock = int\<rparr>"

definition demo_regex_state :: "string regex_state" where
  "demo_regex_state = \<lparr>rs_entries = [''x'' \<mapsto> \<lparr>rx_re = Some ''x'', rx_ok = True, rx_expiresAt = 0\<rparr>], rs_nextCleanup = 0, rs_tick = 5\<rparr>"

definition demo_item :: "string \<times> requestAssignment" where
  "demo_item = (''k'', \<lparr>ra_judge = \<lparr>j_ID = 4, j_FullString = ''https://k''\<rparr>, ra_proxyProtocol = ''https'', ra_transportProtocol = ''tcp'',
     ra_protocolID = 2, ra_timeout = 9, ra_retries = 1, ra_budgetSet = True,
     ra_checks = map (\<lambda>(w, r, k). \<lparr>wc_workspaceID = w, wc_regex = r, wc_configKey = k, wc_headers = Some [''VIA'']\<rparr>)
       [(1, ''Default'', ''c1''), (2, ''x'', ''c2''), (3, ''('', ''c3''), (1, ''absent'', [])]\<rparr>)"

definition demo_request_io :: "string \<Rightarrow> request_io" where
  "demo_request_io k = \<lparr>io_attempts = (\<lambda>i. if i = 0 then \<lparr>at_renew = None, at_html = ''Request failed'', at_err = Some ''timeout'', at_elapsed = 9\<rparr>
       else \<lparr>at_renew = None, at_html = ''x-via_1'', at_err = None, at_elapsed = 5\<rparr>), io_ctxErr = None, io_createdAt = 77\<rparr>"

definition demo_cycle :: cycle_settings where
  "demo_cycle = \<lparr>cy_proxyID = 9, cy_maxTimeout = 9, cy_maxRetries = 1, cy_saveResponses = True\<rparr>"

definition demo_results :: "cycle_abort option \<times> (u64 \<rightharpoonup> bool) \<times> (ProxyStatistic \<times> u64 list) list \<times> string regex_state" where
  "demo_results = processJudgeAssignments demo_response_env demo_cycle demo_request_io [demo_item] [1 \<mapsto> False, 2 \<mapsto> False, 3 \<mapsto> False] demo_regex_state"

lemma demo_keys: "keys_determine (ra_checks (snd demo_item))"
  by (rule keys_determineI) (auto simp: demo_item_def is_default_def ToLower_def lower_char_def Let_def)

theorem results_reported_exactly_witness:
  "fst demo_results = None \<and> map (\<lambda>(s, ws). (ps_Alive s, ps_Attempt s, ps_ResponseTime s, map ce_Alive (ps_CheckEvidence s), ps_LevelID s, ws))
      (fst (snd (snd demo_results))) = [(True, 1, 5, [True, True, False], Some 1, [1, 2, 3])] \<and>
   map (fst (snd demo_results)) [1, 2, 3] = [Some True, Some True, Some False] \<and>
   fst (snd (snd demo_results)) = map (report_of demo_response_env demo_cycle demo_request_io) [demo_item]"
proof -
  obtain abort success' statistics st' where r: "demo_results = (abort, success', statistics, st')" by (metis prod.collapse)
  have s: "cache_sound demo_response_env demo_regex_state"
    by (simp add: cache_sound_def demo_response_env_def demo_regex_state_def)
  have k: "\<forall>(k, a) \<in> set [demo_item]. keys_determine (ra_checks a)" using demo_keys by (simp add: case_prod_beta)
  have c: "completed demo_cycle demo_request_io [demo_item] = [demo_item]" by code_simp
  from results_reported_exactly [OF r [unfolded demo_results_def] s k]
  have st: "statistics = map (report_of demo_response_env demo_cycle demo_request_io) [demo_item]" unfolding c by simp
  have run: "fst demo_results = None \<and> map (\<lambda>(s, ws). (ps_Alive s, ps_Attempt s, ps_ResponseTime s, map ce_Alive (ps_CheckEvidence s), ps_LevelID s, ws))
      (fst (snd (snd demo_results))) = [(True, 1, 5, [True, True, False], Some 1, [1, 2, 3])] \<and>
    map (fst (snd demo_results)) [1, 2, 3] = [Some True, Some True, Some False]"
    by code_simp
  from st have "fst (snd (snd demo_results)) = map (report_of demo_response_env demo_cycle demo_request_io) [demo_item]"
    unfolding r by simp
  with run show ?thesis by blast
qed

end
