(* ===== verification/Intervals.thy ===== *)
theory Intervals
  imports Work_Queue
begin

text \<open>
  The configured intervals and how running jobs learn of a new one (\<open>config/time.go\<close>): milliseconds of a
  timer with the widths of the source, and the one-place channels of the listeners. Checks and scrapes
  replace an unread value; the other three intervals send only into an empty channel.
\<close>

subsection \<open>Timers\<close>

record Timer =
  tm_Days :: u32
  tm_Hours :: u32
  tm_Minutes :: u32
  tm_Seconds :: u32

definition CalculateMillisecondsOfCheckingPeriod :: "Timer \<Rightarrow> u64" where
  "CalculateMillisecondsOfCheckingPeriod timer =
     ucast (tm_Days timer) * 24 * 60 * 60 * 1000 + ucast (tm_Hours timer) * 60 * 60 * 1000 +
     ucast (tm_Minutes timer) * 60 * 1000 + ucast (tm_Seconds timer) * 1000"

text \<open>Converting to \<open>time.Duration\<close> and multiplying by a million both wrap at 64 bits.\<close>

definition CalculateBetweenTime :: "Timer \<Rightarrow> duration" where
  "CalculateBetweenTime timer =
     (let intervalMs = CalculateMillisecondsOfCheckingPeriod timer; minInterval = 1000;
          intervalMs = (if intervalMs < minInterval then minInterval else intervalMs)
      in wrap64 (wrap64 (uint intervalMs) * millisecond))"

definition defaultProxyGeoRefreshInterval :: duration where "defaultProxyGeoRefreshInterval = 24 * hour"
definition defaultGeoLiteUpdateInterval :: duration where "defaultGeoLiteUpdateInterval = 24 * hour"
definition defaultBlacklistRefreshInterval :: duration where "defaultBlacklistRefreshInterval = 6 * hour"

definition zero_timer :: "Timer \<Rightarrow> bool" where
  "zero_timer timer \<longleftrightarrow> tm_Days timer = 0 \<and> tm_Hours timer = 0 \<and> tm_Minutes timer = 0 \<and> tm_Seconds timer = 0"

definition calculateBlacklistRefreshInterval :: "Timer \<Rightarrow> duration" where
  "calculateBlacklistRefreshInterval timer = (if zero_timer timer then defaultBlacklistRefreshInterval else CalculateBetweenTime timer)"

definition calculateProxyGeoRefreshInterval :: "Timer \<Rightarrow> duration" where
  "calculateProxyGeoRefreshInterval timer = (if zero_timer timer then defaultProxyGeoRefreshInterval else CalculateBetweenTime timer)"

definition calculateGeoLiteUpdateInterval :: "Timer \<Rightarrow> duration" where
  "calculateGeoLiteUpdateInterval timer = (if zero_timer timer then defaultGeoLiteUpdateInterval else CalculateBetweenTime timer)"

text \<open>The exact number of milliseconds a timer stands for.\<close>

definition timer_ms :: "Timer \<Rightarrow> nat" where
  "timer_ms timer = 86400000 * unat (tm_Days timer) + 3600000 * unat (tm_Hours timer) + 60000 * unat (tm_Minutes timer) + 1000 * unat (tm_Seconds timer)"

lemma unat_u32_less: "unat (x :: u32) < 4294967296"
proof -
  have "unat x < 2 ^ LENGTH(32)" by (rule unsigned_less)
  then show ?thesis by simp
qed

lemma timer_ms_bound: "timer_ms timer < 2 ^ 60"
  using unat_u32_less [of "tm_Days timer"] unat_u32_less [of "tm_Hours timer"] unat_u32_less [of "tm_Minutes timer"]
    unat_u32_less [of "tm_Seconds timer"]
  by (simp add: timer_ms_def)

lemma period_exact: "unat (CalculateMillisecondsOfCheckingPeriod timer) = timer_ms timer"
proof -
  have u: "(ucast (x :: u32) :: u64) = of_nat (unat x)" for x by simp
  have "CalculateMillisecondsOfCheckingPeriod timer = of_nat (timer_ms timer)"
    by (simp add: CalculateMillisecondsOfCheckingPeriod_def timer_ms_def algebra_simps)
  moreover have "unat (of_nat (timer_ms timer) :: u64) = timer_ms timer"
    using timer_ms_bound [of timer] by (simp add: unsigned_of_nat take_bit_nat_eq_self)
  ultimately show ?thesis by simp
qed

lemma between_exact:
  assumes "timer_ms timer \<le> 9223372036854"
  shows "CalculateBetweenTime timer = max 1000 (int (timer_ms timer)) * millisecond"
proof -
  let ?p = "CalculateMillisecondsOfCheckingPeriod timer"
  have u: "uint ?p = int (timer_ms timer)" using period_exact [of timer] by (metis uint_nat)
  have "(?p < 1000) = (timer_ms timer < 1000)" using period_exact [of timer] by (simp add: word_less_nat_alt)
  then have m: "uint (if ?p < 1000 then 1000 else ?p) = max 1000 (int (timer_ms timer))" using u by simp
  have b: "max 1000 (int (timer_ms timer)) \<le> 9223372036854" using assms by simp
  then have "wrap64 (max 1000 (int (timer_ms timer))) = max 1000 (int (timer_ms timer))" by (intro wrap64_id) auto
  moreover have "wrap64 (max 1000 (int (timer_ms timer)) * millisecond) = max 1000 (int (timer_ms timer)) * millisecond"
    using b by (intro wrap64_id) auto
  ultimately show ?thesis by (simp only: CalculateBetweenTime_def Let_def m)
qed

subsection \<open>Topics\<close>

text \<open>
  A topic is a stored interval and its listeners. A listener is a channel with room for one value; the
  value received last is kept beside it to state what a job knows. A listener of the lazy kind is
  registered before its first value is sent, so it can be found registered and not yet handed out.
\<close>

datatype phase = Opening | Ready

record listener =
  ln_phase :: phase
  ln_buffer :: "duration option"
  ln_seen :: "duration option"

record topic =
  tp_value :: duration
  tp_listeners :: "listener list"

definition effective_interval :: "duration \<Rightarrow> duration \<Rightarrow> duration" where
  "effective_interval fallback interval = (if interval \<le> 0 then fallback else interval)"

text \<open>\<open>sendLatestInterval\<close>: drain, then send. The lazy kind sends if there is room.\<close>

definition sendLatestInterval :: "duration \<Rightarrow> listener \<Rightarrow> listener" where
  "sendLatestInterval interval l = l\<lparr>ln_buffer := Some interval\<rparr>"

definition try_send :: "duration \<Rightarrow> listener \<Rightarrow> listener" where
  "try_send interval l = (case ln_buffer l of None \<Rightarrow> l\<lparr>ln_buffer := Some interval\<rparr> | Some _ \<Rightarrow> l)"

definition set_eager :: "duration \<Rightarrow> topic \<Rightarrow> topic" where
  "set_eager interval t =
     (let interval = effective_interval second interval in
      if tp_value t = interval then t
      else t\<lparr>tp_value := interval, tp_listeners := map (sendLatestInterval interval) (tp_listeners t)\<rparr>)"

definition subscribe_eager :: "topic \<Rightarrow> topic" where
  "subscribe_eager t = t\<lparr>tp_listeners := tp_listeners t @ [\<lparr>ln_phase = Ready, ln_buffer = Some (tp_value t), ln_seen = None\<rparr>]\<rparr>"

definition set_lazy :: "duration \<Rightarrow> duration \<Rightarrow> topic \<Rightarrow> topic" where
  "set_lazy fallback interval t =
     (let interval = effective_interval fallback interval in
      if tp_value t = interval then t
      else t\<lparr>tp_value := interval, tp_listeners := map (try_send interval) (tp_listeners t)\<rparr>)"

definition register_lazy :: "topic \<Rightarrow> topic" where
  "register_lazy t = t\<lparr>tp_listeners := tp_listeners t @ [\<lparr>ln_phase = Opening, ln_buffer = None, ln_seen = None\<rparr>]\<rparr>"

text \<open>A receive takes the buffered value; only the job that was handed the channel receives.\<close>

definition receive :: "nat \<Rightarrow> topic \<Rightarrow> topic" where
  "receive i t = t\<lparr>tp_listeners := (tp_listeners t)[i := (tp_listeners t ! i)\<lparr>ln_buffer := None, ln_seen := ln_buffer (tp_listeners t ! i)\<rparr>]\<rparr>"

definition can_receive :: "nat \<Rightarrow> topic \<Rightarrow> bool" where
  "can_receive i t \<longleftrightarrow> i < length (tp_listeners t) \<and> ln_phase (tp_listeners t ! i) = Ready \<and> ln_buffer (tp_listeners t ! i) \<noteq> None"

text \<open>The blocking send that ends a lazy subscription.\<close>

definition can_open :: "nat \<Rightarrow> topic \<Rightarrow> bool" where
  "can_open i t \<longleftrightarrow> i < length (tp_listeners t) \<and> ln_phase (tp_listeners t ! i) = Opening \<and> ln_buffer (tp_listeners t ! i) = None"

definition open_lazy :: "nat \<Rightarrow> topic \<Rightarrow> topic" where
  "open_lazy i t = t\<lparr>tp_listeners := (tp_listeners t)[i := (tp_listeners t ! i)\<lparr>ln_phase := Ready, ln_buffer := Some (tp_value t)\<rparr>]\<rparr>"

text \<open>The five topics of the configuration; a lazy setter is one step here, its store and its sends.\<close>

record intervals =
  iv_checks :: topic
  iv_scrapes :: topic
  iv_blacklist :: topic
  iv_proxyGeo :: topic
  iv_geoLite :: topic

record interval_config =
  ic_CheckerTimer :: Timer
  ic_ScraperTimer :: Timer
  ic_BlacklistTimer :: Timer
  ic_ProxyGeoRefreshTimer :: Timer
  ic_UpdateTimer :: Timer

definition setTimeBetweenChecks :: "duration \<Rightarrow> intervals \<Rightarrow> intervals" where
  "setTimeBetweenChecks interval I = I\<lparr>iv_checks := set_eager interval (iv_checks I)\<rparr>"

definition setTimeBetweenScrapes :: "duration \<Rightarrow> intervals \<Rightarrow> intervals" where
  "setTimeBetweenScrapes interval I = I\<lparr>iv_scrapes := set_eager interval (iv_scrapes I)\<rparr>"

definition setBlacklistRefreshInterval :: "duration \<Rightarrow> intervals \<Rightarrow> intervals" where
  "setBlacklistRefreshInterval interval I = I\<lparr>iv_blacklist := set_lazy second interval (iv_blacklist I)\<rparr>"

definition setProxyGeoRefreshInterval :: "duration \<Rightarrow> intervals \<Rightarrow> intervals" where
  "setProxyGeoRefreshInterval interval I = I\<lparr>iv_proxyGeo := set_lazy defaultProxyGeoRefreshInterval interval (iv_proxyGeo I)\<rparr>"

definition setGeoLiteUpdateInterval :: "duration \<Rightarrow> intervals \<Rightarrow> intervals" where
  "setGeoLiteUpdateInterval interval I = I\<lparr>iv_geoLite := set_lazy defaultGeoLiteUpdateInterval interval (iv_geoLite I)\<rparr>"

definition SetBetweenTime :: "interval_config \<Rightarrow> intervals \<Rightarrow> intervals" where
  "SetBetweenTime cfg I =
     (let I = setTimeBetweenChecks (CalculateBetweenTime (ic_CheckerTimer cfg)) I;
          I = setTimeBetweenScrapes (CalculateBetweenTime (ic_ScraperTimer cfg)) I;
          I = setBlacklistRefreshInterval (calculateBlacklistRefreshInterval (ic_BlacklistTimer cfg)) I;
          I = setProxyGeoRefreshInterval (calculateProxyGeoRefreshInterval (ic_ProxyGeoRefreshTimer cfg)) I
      in setGeoLiteUpdateInterval (calculateGeoLiteUpdateInterval (ic_UpdateTimer cfg)) I)"

definition initial_intervals :: intervals where
  "initial_intervals = (let t = (\<lambda>v. \<lparr>tp_value = v, tp_listeners = []\<rparr>) in
     \<lparr>iv_checks = t second, iv_scrapes = t second, iv_blacklist = t second, iv_proxyGeo = t defaultProxyGeoRefreshInterval,
      iv_geoLite = t defaultGeoLiteUpdateInterval\<rparr>)"

inductive eager_step :: "topic \<Rightarrow> topic \<Rightarrow> bool" where
  setting: "eager_step t (set_eager interval t)"
| subscribing: "eager_step t (subscribe_eager t)"
| receiving: "can_receive i t \<Longrightarrow> eager_step t (receive i t)"

inductive lazy_step :: "duration \<Rightarrow> topic \<Rightarrow> topic \<Rightarrow> bool" for fallback where
  setting: "lazy_step fallback t (set_lazy fallback interval t)"
| registering: "lazy_step fallback t (register_lazy t)"
| handing_out: "can_open i t \<Longrightarrow> lazy_step fallback t (open_lazy i t)"
| receiving: "can_receive i t \<Longrightarrow> lazy_step fallback t (receive i t)"

subsection \<open>Eager topics keep their listeners up to date\<close>

definition up_to_date :: "duration \<Rightarrow> listener \<Rightarrow> bool" where
  "up_to_date v l \<longleftrightarrow> ln_phase l = Ready \<and> (ln_buffer l = Some v \<or> ln_buffer l = None \<and> ln_seen l = Some v)"

definition topic_ok :: "topic \<Rightarrow> bool" where
  "topic_ok t \<longleftrightarrow> list_all (up_to_date (tp_value t)) (tp_listeners t)"

lemma eager_step_ok: "eager_step t t' \<Longrightarrow> topic_ok t \<Longrightarrow> topic_ok t'"
proof (induction rule: eager_step.induct)
  case (setting t interval)
  then show ?case
    by (auto simp: topic_ok_def set_eager_def Let_def list_all_iff up_to_date_def sendLatestInterval_def)
next
  case (subscribing t)
  then show ?case by (simp add: topic_ok_def subscribe_eager_def up_to_date_def)
next
  case (receiving i t)
  then have l: "up_to_date (tp_value t) (tp_listeners t ! i)" by (simp add: topic_ok_def list_all_length can_receive_def)
  with receiving show ?case
    by (auto simp: topic_ok_def list_all_length receive_def can_receive_def up_to_date_def nth_list_update)
qed

text \<open>After a configuration every interval in force is the configured one, at least a second, with the defaults for zero timers.\<close>

lemma set_eager_value [simp]: "0 < interval \<Longrightarrow> tp_value (set_eager interval t) = interval"
  by (simp add: set_eager_def effective_interval_def Let_def)

lemma set_lazy_value [simp]: "0 < interval \<Longrightarrow> tp_value (set_lazy fallback interval t) = interval"
  by (simp add: set_lazy_def effective_interval_def Let_def)

definition timer_fits :: "Timer \<Rightarrow> bool" where
  "timer_fits timer \<longleftrightarrow> timer_ms timer \<le> 9223372036854"

definition configured :: "duration \<Rightarrow> Timer \<Rightarrow> duration" where
  "configured fallback timer = (if timer_ms timer = 0 then fallback else max 1000 (int (timer_ms timer)) * millisecond)"

lemma zero_timer_iff: "zero_timer timer \<longleftrightarrow> timer_ms timer = 0"
  by (simp add: zero_timer_def timer_ms_def unat_eq_zero)

lemma intervals_configured:
  assumes "timer_fits (ic_CheckerTimer cfg)" "timer_fits (ic_ScraperTimer cfg)" "timer_fits (ic_BlacklistTimer cfg)"
    "timer_fits (ic_ProxyGeoRefreshTimer cfg)" "timer_fits (ic_UpdateTimer cfg)"
  shows "tp_value (iv_checks (SetBetweenTime cfg I)) = configured second (ic_CheckerTimer cfg)"
    "tp_value (iv_scrapes (SetBetweenTime cfg I)) = configured second (ic_ScraperTimer cfg)"
    "tp_value (iv_blacklist (SetBetweenTime cfg I)) = configured (6 * hour) (ic_BlacklistTimer cfg)"
    "tp_value (iv_proxyGeo (SetBetweenTime cfg I)) = configured (24 * hour) (ic_ProxyGeoRefreshTimer cfg)"
    "tp_value (iv_geoLite (SetBetweenTime cfg I)) = configured (24 * hour) (ic_UpdateTimer cfg)"
  using assms
  by (simp_all add: SetBetweenTime_def Let_def setTimeBetweenChecks_def setTimeBetweenScrapes_def setBlacklistRefreshInterval_def
      setProxyGeoRefreshInterval_def setGeoLiteUpdateInterval_def calculateBlacklistRefreshInterval_def calculateProxyGeoRefreshInterval_def
      calculateGeoLiteUpdateInterval_def timer_fits_def between_exact configured_def zero_timer_iff
      defaultBlacklistRefreshInterval_def defaultProxyGeoRefreshInterval_def defaultGeoLiteUpdateInterval_def)

lemma eager_steps_ok: "eager_step\<^sup>*\<^sup>* t t' \<Longrightarrow> topic_ok t \<Longrightarrow> topic_ok t'"
  by (induction rule: rtranclp_induct) (simp_all add: eager_step_ok)

subsection \<open>Lazy topics do not\<close>

text \<open>A listener whose buffer was filled while it was being opened is never handed out.\<close>

definition stuck :: "nat \<Rightarrow> topic \<Rightarrow> bool" where
  "stuck i t \<longleftrightarrow> i < length (tp_listeners t) \<and> ln_phase (tp_listeners t ! i) = Opening \<and> ln_buffer (tp_listeners t ! i) \<noteq> None"

lemma stuck_step: "lazy_step fallback t t' \<Longrightarrow> stuck i t \<Longrightarrow> stuck i t'"
proof (induction rule: lazy_step.induct)
  case (setting t interval)
  then show ?case by (auto simp: stuck_def set_lazy_def Let_def try_send_def)
next
  case (registering t)
  then show ?case by (auto simp: stuck_def register_lazy_def nth_append)
next
  case (handing_out j t)
  then show ?case by (auto simp: stuck_def open_lazy_def can_open_def nth_list_update)
next
  case (receiving j t)
  then show ?case by (auto simp: stuck_def receive_def can_receive_def nth_list_update)
qed

lemma stuck_steps: "(lazy_step fallback)\<^sup>*\<^sup>* t t' \<Longrightarrow> stuck i t \<Longrightarrow> stuck i t'"
  by (induction rule: rtranclp_induct) (auto dest: stuck_step)

text \<open>Setting the interval between registration and the first send blocks the subscriber for good.\<close>

lemma subscription_can_deadlock:
  assumes "effective_interval fallback interval \<noteq> tp_value t" and "(lazy_step fallback)\<^sup>*\<^sup>* (set_lazy fallback interval (register_lazy t)) t'"
  shows "\<not> can_open (length (tp_listeners t)) t' \<and> \<not> can_receive (length (tp_listeners t)) t'"
proof -
  have "stuck (length (tp_listeners t)) (set_lazy fallback interval (register_lazy t))"
    using assms(1) by (auto simp: stuck_def set_lazy_def register_lazy_def Let_def try_send_def nth_append)
  from stuck_steps [OF assms(2) this] show ?thesis by (auto simp: stuck_def can_open_def can_receive_def)
qed

text \<open>An unread value is not replaced, so a listener can be left with an interval that is over.\<close>

lemma lazy_listener_misses_update:
  assumes "i < length (tp_listeners t)" "ln_phase (tp_listeners t ! i) = Ready" "ln_buffer (tp_listeners t ! i) = Some old"
    and "effective_interval fallback interval \<noteq> tp_value t" "effective_interval fallback interval \<noteq> old"
  defines "t' \<equiv> receive i (set_lazy fallback interval t)"
  shows "tp_value t' \<noteq> old \<and> ln_seen (tp_listeners t' ! i) = Some old \<and> ln_buffer (tp_listeners t' ! i) = None"
  using assms by (auto simp: receive_def set_lazy_def Let_def try_send_def)


subsection \<open>Property\<close>

text \<open>
  C34. However the check interval is changed, jobs subscribe and jobs read, every subscribed job either
  has the interval in force waiting in its channel or has received it last: no job is left with an
  interval that is over, and no change waits behind an unread one.
\<close>

theorem listeners_know_interval:
  assumes "eager_step\<^sup>*\<^sup>* \<lparr>tp_value = v, tp_listeners = []\<rparr> t" and "l \<in> set (tp_listeners t)"
  shows "ln_phase l = Ready \<and> (ln_buffer l = Some (tp_value t) \<or> ln_buffer l = None \<and> ln_seen l = Some (tp_value t))"
  using eager_steps_ok [OF assms(1)] assms(2) by (simp add: topic_ok_def list_all_iff up_to_date_def)

definition demo_topic0 :: topic where "demo_topic0 = \<lparr>tp_value = second, tp_listeners = []\<rparr>"
definition demo_topic4 :: topic where
  "demo_topic4 = set_eager (- 5) (subscribe_eager (set_eager minute (subscribe_eager demo_topic0)))"
definition demo_topic :: topic where "demo_topic = receive 0 demo_topic4"

theorem listeners_know_interval_witness:
  "tp_value demo_topic = second \<and> ln_seen (tp_listeners demo_topic ! 0) = Some second \<and> ln_buffer (tp_listeners demo_topic ! 1) = Some second"
proof -
  have "eager_step\<^sup>*\<^sup>* demo_topic0 demo_topic4"
    unfolding demo_topic4_def by (meson eager_step.setting eager_step.subscribing rtranclp.rtrancl_into_rtrancl rtranclp.rtrancl_refl)
  moreover have "can_receive 0 demo_topic4" by code_simp
  ultimately have r: "eager_step\<^sup>*\<^sup>* \<lparr>tp_value = second, tp_listeners = []\<rparr> demo_topic"
    unfolding demo_topic_def demo_topic0_def by (meson eager_step.receiving rtranclp.rtrancl_into_rtrancl)
  have e: "length (tp_listeners demo_topic) = 2" "tp_value demo_topic = second"
    "ln_buffer (tp_listeners demo_topic ! 0) = None" "ln_buffer (tp_listeners demo_topic ! 1) \<noteq> None" by code_simp+
  have m: "tp_listeners demo_topic ! 0 \<in> set (tp_listeners demo_topic)" "tp_listeners demo_topic ! 1 \<in> set (tp_listeners demo_topic)"
    using e(1) by (auto intro: nth_mem)
  from listeners_know_interval [OF r m(1)] listeners_know_interval [OF r m(2)] e show ?thesis by auto
qed

end
