(* ===== verification/Worker_Cycle.thy ===== *)
theory Worker_Cycle
  imports Check_Requests Check_Results Lease_Properties Intervals
begin

text \<open>
  The end of a check cycle and the cycle as a whole (\<open>work\<close> in \<open>jobs/checker/thread_handler.go\<close>): failure
  events, the ownership lookup (\<open>ownership_verifier.go\<close>), requeueing or removing the route, and the
  number of workers that is aimed at. The cycle composes the owner refresh, the requests, the verdicts,
  the failure tracker's answer and the proxy queue.
\<close>

subsection \<open>Ownership lookups\<close>

record ownershipRequest =
  or_proxyID :: u64
  or_ctxErr :: "string option"

text \<open>The handle, the outcome of the one query of a batch, and the rows of \<open>user_proxies\<close>.\<close>

record ownership_db =
  od_open :: bool
  od_fault :: "string option"
  od_rows :: "ManagedProxy list"

definition active_ids :: "u64 list \<Rightarrow> ManagedProxy list \<Rightarrow> u64 list" where
  "active_ids proxyIDs rows = dedup_onto [] (map mp_ProxyID (filter (\<lambda>m. mp_ProxyID m \<in> set proxyIDs \<and> active_row m) rows))"

definition fetchProxyOwnership :: "u64 list \<Rightarrow> ownership_db \<Rightarrow> (string, u64 \<rightharpoonup> bool) result" where
  "fetchProxyOwnership proxyIDs db =
     (if proxyIDs = [] then Inr Map.empty
      else if \<not> od_open db then Inl ''database not initialised''
      else case od_fault db of
          Some e \<Rightarrow> Inl e
        | None \<Rightarrow> Inr (\<lambda>i. if i \<in> set (active_ids proxyIDs (od_rows db)) then Some True
                          else if i \<in> set proxyIDs then Some False else None))"

text \<open>One answer per request; none for a nil request. Absent keys of a Go map read as false.\<close>

definition ownership_processBatch :: "ownershipRequest option list \<Rightarrow> ownership_db \<Rightarrow> (bool \<times> string option) option list" where
  "ownership_processBatch batch db =
     (let active = List.map_filter (\<lambda>r. case r of None \<Rightarrow> None | Some q \<Rightarrow> if or_ctxErr q = None then Some (or_proxyID q) else None) batch;
          uniqueIDs = dedup_onto [] active;
          answer = fetchProxyOwnership uniqueIDs db
      in map (map_option (\<lambda>q. case or_ctxErr q of
           Some e \<Rightarrow> (False, Some e)
         | None \<Rightarrow> (case answer of Inl e \<Rightarrow> (False, Some e) | Inr results \<Rightarrow> (results (or_proxyID q) = Some True, None)))) batch)"

datatype ownership_wait = GaveUp string | Replied "bool \<times> string option"

definition verifyProxyOwnership :: "u64 \<Rightarrow> ownership_wait \<Rightarrow> (string, bool) result" where
  "verifyProxyOwnership proxyID wait =
     (if proxyID = 0 then Inr False
      else case wait of
          GaveUp e \<Rightarrow> Inl e
        | Replied (owned, Some e) \<Rightarrow> Inl e
        | Replied (owned, None) \<Rightarrow> Inr owned)"

lemma set_active_ids [simp]: "i \<in> set (active_ids ids rows) \<longleftrightarrow> i \<in> set ids \<and> (\<exists>m \<in> set rows. mp_ProxyID m = i \<and> active_row m)"
  by (auto simp: active_ids_def)

lemma ownership_answer:
  assumes "n < length batch" "batch ! n = Some q" "or_ctxErr q = None"
  shows "ownership_processBatch batch db ! n = Some
    (if \<not> od_open db then (False, Some ''database not initialised'')
     else case od_fault db of Some e \<Rightarrow> (False, Some e)
       | None \<Rightarrow> (\<exists>m \<in> set (od_rows db). mp_ProxyID m = or_proxyID q \<and> active_row m, None))"
proof -
  let ?ids = "dedup_onto [] (List.map_filter (\<lambda>r. case r of None \<Rightarrow> None | Some q \<Rightarrow> if or_ctxErr q = None then Some (or_proxyID q) else None) batch)"
  have "batch ! n \<in> set batch" using assms(1) by (rule nth_mem)
  then have m: "or_proxyID q \<in> set ?ids"
    using assms by (force simp: List.map_filter_def image_iff)
  then have "?ids \<noteq> []" by force
  with m assms show ?thesis
    by (auto simp: ownership_processBatch_def fetchProxyOwnership_def Let_def split: option.splits)
qed

subsection \<open>Failure events\<close>

datatype submit_outcome = SubmitGaveUp string | SubmitAnswered failureResponse

definition failure_events :: "Workspace list \<Rightarrow> (u64 \<rightharpoonup> bool) \<Rightarrow> (u64 \<rightharpoonup> bool) \<Rightarrow> failureEvent list" where
  "failure_events ws success hasChecks =
     map (\<lambda>w. \<lparr>ev_WorkspaceID = ws_ID w, ev_Success = (success (ws_ID w) = Some True), ev_AutoRemove = ws_AutoRemoveFailingProxies w,
                ev_FailureThreshold = ws_AutoRemoveFailureThreshold w, ev_FailureAction = EffectiveFailureAction w,
                ev_HasEligibleChecks = True\<rparr>)
       (filter (\<lambda>w. hasChecks (ws_ID w) = Some True) ws)"

text \<open>\<open>Submit\<close>: nothing without events, no effects reported when the wait ended first.\<close>

definition failure_Submit :: "failureEvent list \<Rightarrow> submit_outcome \<Rightarrow> u64 set \<times> u64 list \<times> string option" where
  "failure_Submit events outcome =
     (if events = [] then ({}, [], None)
      else case outcome of
          SubmitGaveUp e \<Rightarrow> ({}, [], Some e)
        | SubmitAnswered resp \<Rightarrow> (fr_removedWorkspaces resp, fr_orphaned resp, fr_err resp))"

definition handleFailureTracking :: "Workspace list \<Rightarrow> (u64 \<rightharpoonup> bool) \<Rightarrow> (u64 \<rightharpoonup> bool) \<Rightarrow> submit_outcome \<Rightarrow> u64 set \<times> u64 list" where
  "handleFailureTracking ws success hasChecks outcome =
     (if ws = [] then ({}, [])
      else case failure_Submit (failure_events ws success hasChecks) outcome of (removed, orphaned, err) \<Rightarrow> (removed, orphaned))"

definition filterRemovedWorkspaces :: "Workspace list \<Rightarrow> u64 set \<Rightarrow> Workspace list" where
  "filterRemovedWorkspaces ws removed = filter (\<lambda>w. ws_ID w \<notin> removed) ws"

subsection \<open>The end of a cycle\<close>

datatype queue_call = CallRemove "Proxy list" | CallRequeue Proxy instant bool

definition requeueCheckedProxy :: "Proxy \<Rightarrow> instant \<Rightarrow> bool \<Rightarrow> queue_call" where
  "requeueCheckedProxy proxy scheduledTime persistPayload = CallRequeue proxy scheduledTime persistPayload"

definition with_owners :: "Proxy \<Rightarrow> Workspace list \<Rightarrow> Proxy" where
  "with_owners proxy ws = proxy\<lparr>px_Workspaces := map (\<lambda>w. unat (ws_ID w)) ws\<rparr>"

text \<open>
  From the failure events to the last call of the queue. \<open>row\<close> gives the database row of an orphaned
  route; its errors are only logged, so the calls do not depend on each other's outcome.
\<close>

definition finish_cycle :: "Proxy \<Rightarrow> instant \<Rightarrow> bool \<Rightarrow> Workspace list \<Rightarrow> (u64 \<rightharpoonup> bool) \<Rightarrow> (u64 \<rightharpoonup> bool) \<Rightarrow> submit_outcome \<Rightarrow>
    (u64 \<Rightarrow> Proxy) \<Rightarrow> ownership_wait \<Rightarrow> queue_call list" where
  "finish_cycle proxy scheduledTime payloadChanged ws success hasChecks submit row wait =
     (let (removed, orphaned) = handleFailureTracking ws success hasChecks submit;
          payloadChanged = (payloadChanged \<or> removed \<noteq> {});
          ws = (if removed \<noteq> {} then filterRemovedWorkspaces ws removed else ws);
          proxy = with_owners proxy ws;
          routes = map (\<lambda>i. if px_ID (row i) = px_ID proxy then (row i)\<lparr>px_QueueLease := px_QueueLease proxy\<rparr> else row i) orphaned
      in (if orphaned \<noteq> [] then [CallRemove routes] else []) @
         (case verifyProxyOwnership (px_ID proxy) wait of
            Inl e \<Rightarrow> [requeueCheckedProxy proxy scheduledTime payloadChanged]
          | Inr hasUsers \<Rightarrow> if hasUsers then [requeueCheckedProxy proxy scheduledTime payloadChanged] else [CallRemove [proxy]]))"

text \<open>What happens around one cycle besides the clock: lookups, requests, renewals, other components.\<close>

record 're cycle_world =
  cw_env :: worker_env
  cw_response :: "'re response_env"
  cw_snapshots :: cache_state
  cw_load :: workspace_loader
  cw_now :: instant
  cw_counters :: "u64 \<times> Plan \<Rightarrow> nat \<Rightarrow> u64"
  cw_pool :: judge_pool
  cw_order :: "requests \<Rightarrow> requests"
  cw_io :: "string \<Rightarrow> request_io"
  cw_save :: bool
  cw_renewed :: "ProxyQueueLease option option"
  cw_submit :: submit_outcome
  cw_row :: "u64 \<Rightarrow> Proxy"
  cw_wait :: ownership_wait

text \<open>
  One turn of the loop after a dequeue: the statistics handed off and the calls made to the queue; the
  cache of workspaces and of patterns are kept for the next turn. \<open>cw_renewed\<close> is the lease after the
  renewals of the attempts and the last renewal, nothing if that one failed.
\<close>

definition work_cycle :: "'re cycle_world \<Rightarrow> Proxy \<Rightarrow> Workspace list \<Rightarrow> instant \<Rightarrow> workspace_cache \<Rightarrow> 're regex_state \<Rightarrow>
    (ProxyStatistic \<times> u64 list) list \<times> queue_call list \<times> workspace_cache \<times> 're regex_state" where
  "work_cycle C proxy queued scheduledTime cache st =
     (let ((ws, payloadChanged), cache) = refreshProxyWorkspaces (cw_snapshots C) (cw_load C) (cw_now C) queued cache;
          (ws, acc) = buildRequestAssignments (cw_env C) (cw_snapshots C) (px_ID proxy) ws (cw_counters C) (cw_pool C);
          S = \<lparr>cy_proxyID = px_ID proxy, cy_maxTimeout = ba_maxTimeout acc, cy_maxRetries = ba_maxRetries acc, cy_saveResponses = cw_save C\<rparr>;
          (abort, success, statistics, st) = processJudgeAssignments (cw_response C) S (cw_io C) (cw_order C (ba_requests acc)) (ba_success acc) st
      in if abort \<noteq> None then (statistics, [], cache, st)
         else case cw_renewed C of
             None \<Rightarrow> (statistics, [], cache, st)
           | Some lease \<Rightarrow>
               (statistics,
                finish_cycle (proxy\<lparr>px_QueueLease := lease\<rparr>) scheduledTime payloadChanged ws success (ba_hasChecks acc)
                  (cw_submit C) (cw_row C) (cw_wait C),
                cache, st))"

text \<open>Running the calls against Redis; a failed call is logged and the next one is made.\<close>

record queue_answers =
  qa_client :: bool
  qa_calls :: "nat \<Rightarrow> call"
  qa_execs :: "nat \<Rightarrow> exec_outcome"
  qa_requeue :: requeue_event

definition make_call :: "queue_env \<Rightarrow> 'r redis_ops \<Rightarrow> RedisProxyQueue \<Rightarrow> queue_answers \<Rightarrow> queue_call \<Rightarrow> secret_state \<times> 'r \<Rightarrow>
    (queue_error, unit) result \<times> secret_state \<times> 'r" where
  "make_call E R q A c w = (case c of
      CallRemove ps \<Rightarrow> (case RemoveFromQueue R q (qa_client A) (qa_calls A) (qa_execs A) ps (snd w) of (r, s) \<Rightarrow> (r, fst w, s))
    | CallRequeue p t persist \<Rightarrow> (if persist then RequeueProxyWithPayload E R q (qa_requeue A) p t w else RequeueProxy E R q (qa_requeue A) p t w))"

fun make_calls :: "queue_env \<Rightarrow> 'r redis_ops \<Rightarrow> RedisProxyQueue \<Rightarrow> (queue_call \<times> queue_answers) list \<Rightarrow> secret_state \<times> 'r \<Rightarrow> secret_state \<times> 'r" where
  "make_calls E R q [] w = w"
| "make_calls E R q ((c, A) # cs) w = make_calls E R q cs (snd (make_call E R q A c w))"

subsection \<open>Facts about the end of a cycle\<close>

definition removed_by :: "Workspace list \<Rightarrow> (u64 \<rightharpoonup> bool) \<Rightarrow> (u64 \<rightharpoonup> bool) \<Rightarrow> submit_outcome \<Rightarrow> u64 set" where
  "removed_by ws success hasChecks submit = fst (handleFailureTracking ws success hasChecks submit)"

definition final_route :: "Proxy \<Rightarrow> Workspace list \<Rightarrow> u64 set \<Rightarrow> Proxy" where
  "final_route proxy ws removed = with_owners proxy (filterRemovedWorkspaces ws removed)"

lemma with_owners_simps [simp]:
  "px_ID (with_owners p ws) = px_ID p" "px_Hash (with_owners p ws) = px_Hash p" "px_QueueLease (with_owners p ws) = px_QueueLease p"
  "px_Workspaces (with_owners p ws) = map (\<lambda>w. unat (ws_ID w)) ws"
  by (simp_all add: with_owners_def)

lemma filter_none_removed [simp]: "filterRemovedWorkspaces ws {} = ws"
  by (simp add: filterRemovedWorkspaces_def)

lemma finish_cycle_eq:
  "finish_cycle proxy t changed ws success hasChecks submit row wait =
     (let removed = removed_by ws success hasChecks submit; orphaned = snd (handleFailureTracking ws success hasChecks submit);
          p = final_route proxy ws removed
      in (if orphaned \<noteq> [] then [CallRemove (map (\<lambda>i. if px_ID (row i) = px_ID proxy then (row i)\<lparr>px_QueueLease := px_QueueLease proxy\<rparr> else row i) orphaned)] else []) @
         [if verifyProxyOwnership (px_ID proxy) wait = Inr False then CallRemove [p] else CallRequeue p t (changed \<or> removed \<noteq> {})])"
proof -
  obtain removed orphaned where h: "handleFailureTracking ws success hasChecks submit = (removed, orphaned)" by (metis prod.collapse)
  have p: "with_owners proxy (if removed \<noteq> {} then filterRemovedWorkspaces ws removed else ws) = final_route proxy ws removed"
    by (simp add: final_route_def)
  show ?thesis
    unfolding finish_cycle_def removed_by_def h Let_def prod.case fst_conv snd_conv p
    by (cases "verifyProxyOwnership (px_ID proxy) wait") (simp_all add: requeueCheckedProxy_def final_route_def)
qed

text \<open>A completed requeue has scheduled the route.\<close>

context redis_store
begin

lemma complete_call_schedules:
  assumes "complete_call E R rpq c proxy nextCheck payload snapshot s = (Inr u, s')" "queueKeyForMember rpq (px_Hash proxy) \<noteq> proxyQueueHeadKey"
  shows "ZSCORE R (queueKeyForMember rpq (px_Hash proxy)) (px_Hash proxy) s' = Some (of_int (UnixMilli nextCheck))"
  using assms by (auto simp: complete_call_def Let_def run_call_def complete_script_def zscore_zadd
      split: call.splits if_splits option.splits prod.splits)

end

lemma shard_key_not_index: "queue_ok q \<Longrightarrow> queueKeyForMember q m \<noteq> proxyQueueHeadKey"
proof -
  assume q: "queue_ok q"
  have "queueKeyForMember q m \<in> set (popKeys q)" by (rule queueKeyForMember_in [OF q])
  moreover have "proxyQueueHeadKey \<notin> set (popKeys q)" using q by (simp add: queue_ok_def)
  ultimately show ?thesis by metis
qed

lemma requeue_schedules:
  assumes R: "redis_store R" and q: "queue_ok q" and run: "make_call E R q A (CallRequeue p t persist) w = (Inr u, w')"
  shows "\<exists>x. ZSCORE R (queueKeyForMember q (px_Hash p)) (px_Hash p) (snd w') = Some x \<and> \<not> is_lease x"
proof -
  obtain st s where w: "w = (st, s)" by (cases w)
  have "requeueProxy E R q (qa_requeue A) p t persist (st, s) = (Inr u, w')"
    using run by (cases persist) (simp_all add: make_call_def RequeueProxy_def RequeueProxyWithPayload_def w)
  then obtain payload snapshot next_check s0 where
    "complete_call E R q (re_complete (qa_requeue A)) p next_check payload snapshot s0 = (Inr u, snd w')"
    by (auto simp: requeueProxy_def Let_def split: if_splits sum.splits prod.splits)
  from redis_store.complete_call_schedules [OF R this shard_key_not_index [OF q]]
  show ?thesis using not_lease_of_int by blast
qed

text \<open>The refreshed owners, after the requests were built, still are the refreshed owners.\<close>

lemma built_owner_ids:
  assumes "buildRequestAssignments E st pid ws counters pool = (out, acc)" "snapshots_ok st"
  shows "map ws_ID out = map ws_ID ws"
proof -
  from assms(1) obtain ds js where "out = map (\<lambda>q. case owner_view st pid q of None \<Rightarrow> q | Some v \<Rightarrow> fst v) ws"
    "decide_owners E (owner_views st pid ws) (ba_judges (empty_acc ws counters pool)) = (ds, js)"
    by (rule build_decisions)
  moreover have "ws_ID (case owner_view st pid q of None \<Rightarrow> q | Some v \<Rightarrow> fst v) = ws_ID q" for q
    using assms(2) by (auto simp: owner_view_def snapshots_ok_def split: option.splits)
  ultimately show ?thesis by (simp add: comp_def)
qed

lemma removals_change_owners:
  assumes "distinct (map ws_ID ws) \<or> map ws_ID ws = ids" "ws_ID ` set ws \<subseteq> set ids" "removed \<subseteq> ws_ID ` set ws"
  shows "map ws_ID (filterRemovedWorkspaces ws removed) = ids \<longleftrightarrow> removed = {} \<and> map ws_ID ws = ids"
proof (cases "removed = {}")
  case False
  then obtain i where i: "i \<in> removed" by blast
  then have "i \<in> set ids" using assms(2,3) by blast
  moreover have "i \<notin> set (map ws_ID (filterRemovedWorkspaces ws removed))" using i by (auto simp: filterRemovedWorkspaces_def)
  ultimately have "map ws_ID (filterRemovedWorkspaces ws removed) \<noteq> ids" by metis
  with False show ?thesis by simp
qed simp

definition checked_owner :: "build_acc \<Rightarrow> u64 \<Rightarrow> bool" where
  "checked_owner acc w \<longleftrightarrow> (\<exists>(k, a) \<in> set (ba_requests acc). w \<in> wc_workspaceID ` set (ra_checks a))"

text \<open>The event of an owner with the outcome of the cycle.\<close>

definition owner_event :: "Workspace \<Rightarrow> bool \<Rightarrow> failureEvent" where
  "owner_event w ok = \<lparr>ev_WorkspaceID = ws_ID w, ev_Success = ok, ev_AutoRemove = ws_AutoRemoveFailingProxies w,
     ev_FailureThreshold = ws_AutoRemoveFailureThreshold w, ev_FailureAction = EffectiveFailureAction w, ev_HasEligibleChecks = True\<rparr>"

lemma failure_events_exact:
  assumes has: "\<And>w. hasChecks w = (if P w then Some True else None)" and success: "\<And>w. success w = Some True \<longleftrightarrow> Q w"
  shows "failure_events ws success hasChecks = map (\<lambda>w. owner_event w (Q (ws_ID w))) (filter (\<lambda>w. P (ws_ID w)) ws)"
proof -
  have "filter (\<lambda>w. hasChecks (ws_ID w) = Some True) ws = filter (\<lambda>w. P (ws_ID w)) ws"
    using has by (intro filter_cong) simp_all
  then show ?thesis unfolding failure_events_def owner_event_def success by simp
qed

lemma passed_set: "set items = set items' \<Longrightarrow> passed env S io items = passed env S io items'"
  by (simp add: passed_def fun_eq_iff)

lemma no_abort_completed: "first_abort S io items = None \<Longrightarrow> completed S io items = items"
proof -
  let ?P = "\<lambda>item. abort_of S io item = None"
  assume a: "first_abort S io items = None"
  have "dropWhile ?P items = []"
  proof (cases "dropWhile ?P items")
    case (Cons x xs)
    then have "dropWhile ?P items \<noteq> []" by (simp only: list.distinct not_False_eq_True)
    from hd_dropWhile [OF this] have "\<not> ?P x" unfolding Cons list.sel .
    moreover have "abort_of S io x = None" using a unfolding first_abort_def Cons list.case .
    ultimately show ?thesis by blast
  qed simp
  then show ?thesis unfolding completed_def using takeWhile_dropWhile_id [of ?P items] by simp
qed


subsection \<open>Properties\<close>

text \<open>What ends a cycle is decided by the ownership answer alone.\<close>

definition ownership_denied :: "Proxy \<Rightarrow> ownership_db \<Rightarrow> bool" where
  "ownership_denied proxy db \<longleftrightarrow> px_ID proxy = 0 \<or>
     od_open db \<and> od_fault db = None \<and> \<not> (\<exists>m \<in> set (od_rows db). mp_ProxyID m = px_ID proxy \<and> active_row m)"

lemma denied_iff:
  assumes "n < length batch" "batch ! n = Some q" "or_ctxErr q = None" "or_proxyID q = px_ID proxy"
    and "ownership_processBatch batch db ! n = Some reply"
  shows "verifyProxyOwnership (px_ID proxy) (Replied reply) = Inr False \<longleftrightarrow> ownership_denied proxy db"
proof -
  have reply: "reply = (if \<not> od_open db then (False, Some ''database not initialised'')
     else case od_fault db of Some e \<Rightarrow> (False, Some e)
       | None \<Rightarrow> (\<exists>m \<in> set (od_rows db). mp_ProxyID m = px_ID proxy \<and> active_row m, None))"
    using ownership_answer [OF assms(1-3), of db] unfolding assms(5) assms(4) option.inject .
  show ?thesis
  proof (cases "od_fault db")
    case None
    then show ?thesis unfolding reply verifyProxyOwnership_def ownership_denied_def by simp
  next
    case (Some e)
    then show ?thesis unfolding reply verifyProxyOwnership_def ownership_denied_def by simp
  qed
qed

lemma finish_last:
  "last (finish_cycle proxy t changed ws success hasChecks submit row wait) =
     (let removed = removed_by ws success hasChecks submit; p = final_route proxy ws removed
      in if verifyProxyOwnership (px_ID proxy) wait = Inr False then CallRemove [p] else CallRequeue p t (changed \<or> removed \<noteq> {}))"
  unfolding finish_cycle_eq Let_def by simp


text \<open>Between the verdicts and the queue: the failure events of a cycle.\<close>

lemma removed_by_events: "removed_by ws success hasChecks submit = fst (failure_Submit (failure_events ws success hasChecks) submit)"
  by (cases ws) (auto simp: removed_by_def handleFailureTracking_def failure_Submit_def failure_events_def split: prod.splits)

definition answer_within :: "Workspace list \<Rightarrow> submit_outcome \<Rightarrow> bool" where
  "answer_within ws submit \<longleftrightarrow> (\<forall>resp. submit = SubmitAnswered resp \<longrightarrow> fr_removedWorkspaces resp \<subseteq> ws_ID ` set ws)"

lemma removed_within: "answer_within ws submit \<Longrightarrow> removed_by ws success hasChecks submit \<subseteq> ws_ID ` set ws"
  by (auto simp: removed_by_events failure_Submit_def answer_within_def split: if_splits submit_outcome.splits)

definition cycle_settings_of :: "'re cycle_world \<Rightarrow> Proxy \<Rightarrow> build_acc \<Rightarrow> cycle_settings" where
  "cycle_settings_of C proxy acc =
     \<lparr>cy_proxyID = px_ID proxy, cy_maxTimeout = ba_maxTimeout acc, cy_maxRetries = ba_maxRetries acc, cy_saveResponses = cw_save C\<rparr>"

text \<open>What the rest of the system promises a cycle.\<close>

definition cycle_ok :: "'re cycle_world \<Rightarrow> Proxy \<Rightarrow> Workspace list \<Rightarrow> workspace_cache \<Rightarrow> 're regex_state \<Rightarrow> Workspace list \<Rightarrow> build_acc \<Rightarrow> bool" where
  "cycle_ok C proxy queued cache st owners acc \<longleftrightarrow>
     snapshots_ok (cw_snapshots C) \<and> cache_named cache \<and> loader_named (cw_load C) \<and> distinct (map ws_ID queued) \<and>
     plans_shaped (owner_views (cw_snapshots C) (px_ID proxy) owners) \<and> cache_sound (cw_response C) st \<and>
     set (cw_order C (ba_requests acc)) = set (ba_requests acc) \<and>
     (\<forall>(k, a) \<in> set (ba_requests acc). keys_determine (ra_checks a)) \<and> answer_within owners (cw_submit C)"



definition demo_ownership :: ownership_db where
  "demo_ownership = \<lparr>od_open = True, od_fault = None,
     od_rows = [\<lparr>mp_WorkspaceID = 2, mp_ProxyID = px_ID demo_route, mp_ConsecutiveFailures = 0, mp_State = ''active'', mp_PauseReason = []\<rparr>]\<rparr>"

definition demo_batch :: "ownershipRequest option list" where
  "demo_batch = [None, Some \<lparr>or_proxyID = px_ID demo_route, or_ctxErr = None\<rparr>]"

definition demo_held :: Proxy where
  "demo_held = demo_route\<lparr>px_QueueLease := Some \<lparr>ScoreMS = 302000, QueueKey = ''proxy_queue:0'', Payload = ''P''\<rparr>\<rparr>"

definition demo_end :: "queue_call list" where
  "demo_end = finish_cycle demo_held 1000 True [] Map.empty Map.empty (SubmitGaveUp ''timeout'') (\<lambda>_. demo_route) (Replied (True, None))"

definition demo_answers :: queue_answers where
  "demo_answers = \<lparr>qa_client = True, qa_calls = (\<lambda>_. Answered), qa_execs = (\<lambda>_. ExecOk),
     qa_requeue = \<lparr>re_now = 3000000, re_fallback = 60000000000, re_nonces = (None, None), re_interval = Answered, re_complete = Answered\<rparr>\<rparr>"

definition demo_world :: "secret_state \<times> mem_store" where
  "demo_world = snd (poll_once demo_queue_env mem_redis (queue_config 1) (demo_poll 2000) (fresh_secrets, demo_store))"



definition demo_cycle_world :: "string cycle_world" where
  "demo_cycle_world = \<lparr>cw_env = demo_worker, cw_response = demo_response_env, cw_snapshots = demo_cache, cw_load = demo_load, cw_now = 100,
     cw_counters = demo_counters, cw_pool = [], cw_order = (\<lambda>reqs. reqs), cw_io = demo_request_io, cw_save = False, cw_renewed = Some None,
     cw_submit = SubmitAnswered \<lparr>fr_removedWorkspaces = set [2], fr_orphaned = [], fr_err = None\<rparr>, cw_row = (\<lambda>_. demo_route),
     cw_wait = Replied (True, None)\<rparr>"

definition demo_checked_route :: Proxy where
  "demo_checked_route = demo_route\<lparr>px_ID := 9\<rparr>"

definition demo_owners :: "Workspace list" where
  "demo_owners = [demo_owner 1, demo_owner 2]"

definition demo_turn :: "(ProxyStatistic \<times> u64 list) list \<times> queue_call list \<times> workspace_cache \<times> string regex_state" where
  "demo_turn = work_cycle demo_cycle_world demo_checked_route demo_owners 1000 Map.empty demo_regex_state"

definition demo_events :: "failureEvent list" where
  "demo_events = map (\<lambda>w. owner_event w (passed demo_response_env (cycle_settings_of demo_cycle_world demo_checked_route demo_build) demo_request_io
       (ba_requests demo_build) (ws_ID w))) (filter (\<lambda>w. checked_owner demo_build (ws_ID w)) demo_owners)"

lemma demo_cycle_parts:
  "refreshProxyWorkspaces demo_cache demo_load 100 demo_owners Map.empty = ((demo_owners, False), Map.empty)"
  "buildRequestAssignments demo_worker demo_cache 9 demo_owners demo_counters [] = (demo_owners, demo_build)"
  "cycle_ok demo_cycle_world demo_checked_route demo_owners Map.empty demo_regex_state demo_owners demo_build"
proof -
  show "refreshProxyWorkspaces demo_cache demo_load 100 demo_owners Map.empty = ((demo_owners, False), Map.empty)"
    by (simp add: refreshProxyWorkspaces_def refresh_ids_def demo_owners_def demo_cache_def demo_owner_def demo_snapshot_def Lookup_def)
  have "fst (buildRequestAssignments demo_worker demo_cache 9 demo_owners demo_counters []) = demo_owners" by code_simp
  then show "buildRequestAssignments demo_worker demo_cache 9 demo_owners demo_counters [] = (demo_owners, demo_build)"
    unfolding demo_owners_def using demo_run by simp
  have "distinct (map ws_ID demo_owners)" by (simp add: demo_owners_def demo_owner_def)
  moreover have "loader_named demo_load"
    by (auto simp: loader_named_def demo_load_def rows_named_def demo_owner_def split: if_splits)
  moreover have "cache_sound demo_response_env demo_regex_state"
    by (simp add: cache_sound_def demo_response_env_def demo_regex_state_def)
  moreover have "\<forall>(k, a) \<in> set (ba_requests demo_build). keys_determine (ra_checks a)" by code_simp
  moreover have "answer_within demo_owners (cw_submit demo_cycle_world)"
    by (simp add: answer_within_def demo_cycle_world_def demo_owners_def demo_owner_def)
  moreover have "plans_shaped (owner_views demo_cache 9 demo_owners)" unfolding demo_owners_def by (rule demo_plans_shaped)
  ultimately show "cycle_ok demo_cycle_world demo_checked_route demo_owners Map.empty demo_regex_state demo_owners demo_build"
    using demo_cache_ok by (simp add: cycle_ok_def demo_cycle_world_def cache_named_def demo_checked_route_def)
qed


end
