(* ===== verification/Worker_Threads.thy ===== *)
theory Worker_Threads
  imports Intervals
begin

text \<open>
  How many checker and scraper workers run: the automatic targets (\<open>getAutoThreads\<close> and
  \<open>autoThreadCount\<close> of the two \<open>thread_handler.go\<close> files) with the widths of the source, and one round of the
  dispatcher, which launches workers up to the target or asks workers to stop.
\<close>

subsection \<open>Automatic targets\<close>

record thread_config =
  tc_Threads :: u32
  tc_MaxThreads :: u32
  tc_Retries :: u32
  tc_Timeout :: u32
  tc_Timer :: Timer

definition thread_limit :: "thread_config \<Rightarrow> u32" where
  "thread_limit cfg = (if tc_MaxThreads cfg = 0 then (if 0 < tc_Threads cfg then tc_Threads cfg else 250) else tc_MaxThreads cfg)"

definition per_instance :: "int \<Rightarrow> int \<Rightarrow> int" where
  "per_instance items instances = div_trunc (wrap64 (wrap64 (items + instances) - 1)) instances"

text \<open>The product is taken in 64 bits, \<open>retries + 1\<close> in 32; the last clamp to 32 bits follows the limit's.\<close>

definition getAutoThreads :: "(string, int) result \<Rightarrow> (string, int) result \<Rightarrow> thread_config \<Rightarrow> u32" where
  "getAutoThreads counted registered cfg = (case counted of
      Inl e \<Rightarrow> 1
    | Inr totalProxies \<Rightarrow>
        (let activeInstances = (case registered of Inl e \<Rightarrow> 1 | Inr n \<Rightarrow> if n = 0 then 1 else n);
             perInstanceProxies = per_instance totalProxies activeInstances;
             checkingPeriodMs = CalculateMillisecondsOfCheckingPeriod (tc_Timer cfg);
             numerator = (of_int perInstanceProxies :: u64) * 4 * ucast (tc_Retries cfg + 1) * ucast (tc_Timeout cfg);
             checkingPeriodMs = (if checkingPeriodMs = 0 then 86400000 else checkingPeriodMs);
             requiredThreads = (numerator + checkingPeriodMs - 1) div checkingPeriodMs;
             requiredThreads = (if requiredThreads = 0 \<and> 0 < perInstanceProxies then 1 else requiredThreads);
             requiredThreads = (if ucast (thread_limit cfg) < requiredThreads then ucast (thread_limit cfg) else requiredThreads);
             requiredThreads = (if 4294967295 < requiredThreads then 4294967295 else requiredThreads)
         in ucast requiredThreads))"

definition autoThreadCount :: "(string, int) result \<Rightarrow> (string, int) result \<Rightarrow> thread_config \<Rightarrow> u32" where
  "autoThreadCount counted registered cfg = (case counted of
      Inl e \<Rightarrow> 1
    | Inr totalSites \<Rightarrow>
        (let instances = (case registered of Inl e \<Rightarrow> 1 | Inr n \<Rightarrow> if n = 0 then 1 else n);
             perInstance = per_instance totalSites instances;
             period = CalculateMillisecondsOfCheckingPeriod (tc_Timer cfg);
             period = (if period = 0 then 86400000 else period);
             numerator = (of_int perInstance :: u64) * ucast (tc_Timeout cfg) * ucast (tc_Retries cfg + 1);
             threads = (numerator + period - 1) div period;
             threads = (if threads = 0 \<and> 0 < perInstance then 1 else threads);
             threads = (if ucast (thread_limit cfg) < threads then ucast (thread_limit cfg) else threads);
             threads = (if 4294967295 < threads then 4294967295 else threads)
         in ucast threads))"

text \<open>The exact work of one instance in one period, in milliseconds of one worker.\<close>

definition thread_work :: "nat \<Rightarrow> thread_config \<Rightarrow> nat" where
  "thread_work n cfg = n * (unat (tc_Retries cfg) + 1) * unat (tc_Timeout cfg)"

definition thread_period :: "thread_config \<Rightarrow> nat" where
  "thread_period cfg = (if timer_ms (tc_Timer cfg) = 0 then 86400000 else timer_ms (tc_Timer cfg))"

definition ceil_div :: "nat \<Rightarrow> nat \<Rightarrow> nat" where
  "ceil_div n d = (n + d - 1) div d"

lemma ucast_u32_u64: "unat (ucast (x :: u32) :: u64) = unat x"
proof -
  have "unat x < 4294967296" by (rule unat_u32_less)
  then show ?thesis by (simp add: unsigned_ucast_eq take_bit_nat_eq_self)
qed

lemma clamp_threads:
  fixes r :: u64 and l :: u32
  defines "r1 \<equiv> if ucast l < r then ucast l else r"
  shows "unat (ucast (if 4294967295 < r1 then 4294967295 else r1) :: u32) = min (unat r) (unat l)"
proof -
  have l: "unat (ucast l :: u64) = unat l" "unat l < 4294967296" by (rule ucast_u32_u64, rule unat_u32_less)
  have r1: "unat r1 = min (unat r) (unat l)" using l by (auto simp: r1_def word_less_nat_alt)
  then have "unat r1 < 4294967296" using l(2) by simp
  moreover from this have "\<not> (4294967295 :: u64) < r1" by (simp add: word_less_nat_alt)
  ultimately show ?thesis using r1 by (simp add: unsigned_ucast_eq take_bit_nat_eq_self)
qed

lemma ceil_div_covers: "0 < d \<Longrightarrow> n \<le> ceil_div n d * d \<and> ceil_div n d * d < n + d"
proof -
  assume d: "0 < d"
  let ?q = "(n + d - 1) div d"
  have e: "n + d - 1 = ?q * d + (n + d - 1) mod d" by simp
  have m: "(n + d - 1) mod d < d" using d by simp
  from e m d show ?thesis unfolding ceil_div_def by linarith
qed

text \<open>The period that is used is the exact one, and never zero.\<close>

lemma period_used:
  "unat (if CalculateMillisecondsOfCheckingPeriod (tc_Timer cfg) = 0 then 86400000 else CalculateMillisecondsOfCheckingPeriod (tc_Timer cfg)) = thread_period cfg"
  "0 < thread_period cfg"
proof -
  have "CalculateMillisecondsOfCheckingPeriod (tc_Timer cfg) = 0 \<longleftrightarrow> timer_ms (tc_Timer cfg) = 0"
    using period_exact [of "tc_Timer cfg"] by (metis unat_eq_zero)
  then show "unat (if CalculateMillisecondsOfCheckingPeriod (tc_Timer cfg) = 0 then 86400000 else CalculateMillisecondsOfCheckingPeriod (tc_Timer cfg)) = thread_period cfg"
    "0 < thread_period cfg"
    using period_exact [of "tc_Timer cfg"] by (simp_all add: thread_period_def)
qed

lemma attempts_word:
  assumes "unat (r :: u32) + 1 < 2 ^ 32"
  shows "(ucast (r + 1) :: u64) = of_nat (unat r + 1)"
proof -
  have "unat (r + 1) = unat r + 1" using assms by (simp add: unat_word_ariths)
  then have "unat (ucast (r + 1) :: u64) = unat r + 1" unfolding ucast_u32_u64 .
  from arg_cong [OF this, of "of_nat :: nat \<Rightarrow> u64"] show ?thesis by simp
qed

lemma required_threads:
  fixes num p :: u64
  assumes "num = of_nat n" "unat p = d" "0 < d" "n + d \<le> 2 ^ 64"
  shows "unat ((num + p - 1) div p) = ceil_div n d"
proof -
  have p: "p = of_nat d" using assms(2) by auto
  have s: "num + p - 1 = of_nat (n + d - 1)" using assms(3) unfolding assms(1) p by (simp add: of_nat_diff)
  have "n + d - 1 < 2 ^ 64" using assms(3,4) by linarith
  then have "unat (num + p - 1) = n + d - 1" unfolding s by (simp add: unsigned_of_nat take_bit_nat_eq_self)
  then show ?thesis by (simp add: unat_div assms(2) ceil_div_def)
qed


text \<open>Without overflow: one worker at least when there is work, the exact number rounded up, and never more than the limit.\<close>

definition thread_target :: "nat \<Rightarrow> nat \<Rightarrow> thread_config \<Rightarrow> nat" where
  "thread_target n work cfg = min (unat (thread_limit cfg)) (max (if 0 < n then 1 else 0) (ceil_div work (thread_period cfg)))"

lemma per_instance_exact:
  assumes "0 \<le> items" "0 < n" "items + n < 2 ^ 63"
  shows "per_instance items n = int (ceil_div (nat items) (nat n))"
proof -
  have "per_instance items n = (items + n - 1) div n"
    using assms by (simp add: per_instance_def div_trunc_def wrap64_id)
  moreover have "int (ceil_div (nat items) (nat n)) = (items + n - 1) div n"
    using assms by (simp add: ceil_div_def zdiv_int of_nat_diff)
  ultimately show ?thesis by simp
qed

lemma clamped_target:
  fixes num p :: u64 and l :: u32 and some :: bool
  assumes num: "num = of_nat work" and p: "unat p = d" "0 < d" "work + d \<le> 2 ^ 64"
  defines "q \<equiv> (num + p - 1) div p"
  defines "q1 \<equiv> (if q = 0 \<and> some then 1 else q)"
  defines "q2 \<equiv> (if ucast l < q1 then ucast l else q1)"
  shows "unat (ucast (if 4294967295 < q2 then 4294967295 else q2) :: u32) = min (unat l) (max (if some then 1 else 0) (ceil_div work d))"
proof -
  have q: "unat q = ceil_div work d" unfolding q_def using num p by (rule required_threads)
  have "unat q1 = max (if some then 1 else 0) (ceil_div work d)"
    using unat_eq_zero [of q] unfolding q1_def q [symmetric] by (cases "unat q") (auto simp: max_def)
  then show ?thesis unfolding q2_def clamp_threads by (simp add: min.commute)
qed

lemma checker_numerator:
  assumes "unat (tc_Retries cfg) + 1 < 2 ^ 32"
  shows "(of_int (int n) :: u64) * 4 * ucast (tc_Retries cfg + 1) * ucast (tc_Timeout cfg) = of_nat (thread_work (4 * n) cfg)"
  unfolding attempts_word [OF assms] by (simp add: thread_work_def algebra_simps)

lemma scraper_numerator:
  assumes "unat (tc_Retries cfg) + 1 < 2 ^ 32"
  shows "(of_int (int n) :: u64) * ucast (tc_Timeout cfg) * ucast (tc_Retries cfg + 1) = of_nat (thread_work n cfg)"
  unfolding attempts_word [OF assms] by (simp add: thread_work_def algebra_simps)

lemma checker_target:
  assumes "0 \<le> items" "0 < n" "items + n < 2 ^ 63" "unat (tc_Retries cfg) + 1 < 2 ^ 32"
    "thread_work (4 * ceil_div (nat items) (nat n)) cfg + thread_period cfg \<le> 2 ^ 64"
  shows "unat (getAutoThreads (Inr items) (Inr n) cfg) =
    thread_target (ceil_div (nat items) (nat n)) (thread_work (4 * ceil_div (nat items) (nat n)) cfg) cfg"
proof -
  have n: "n \<noteq> 0" using assms(2) by simp
  show ?thesis
    unfolding getAutoThreads_def Let_def sum.case if_not_P [OF n] per_instance_exact [OF assms(1-3)] checker_numerator [OF assms(4)] thread_target_def
    by (subst clamped_target [OF refl period_used assms(5)]) simp
qed

lemma scraper_target:
  assumes "0 \<le> items" "0 < n" "items + n < 2 ^ 63" "unat (tc_Retries cfg) + 1 < 2 ^ 32"
    "thread_work (ceil_div (nat items) (nat n)) cfg + thread_period cfg \<le> 2 ^ 64"
  shows "unat (autoThreadCount (Inr items) (Inr n) cfg) =
    thread_target (ceil_div (nat items) (nat n)) (thread_work (ceil_div (nat items) (nat n)) cfg) cfg"
proof -
  have n: "n \<noteq> 0" using assms(2) by simp
  show ?thesis
    unfolding autoThreadCount_def Let_def sum.case if_not_P [OF n] per_instance_exact [OF assms(1-3)] scraper_numerator [OF assms(4)] thread_target_def
    by (subst clamped_target [OF refl period_used assms(5)]) simp
qed

lemma thread_target_covers:
  assumes "thread_target n work cfg < unat (thread_limit cfg)"
  shows "work \<le> thread_target n work cfg * thread_period cfg"
proof -
  have "ceil_div work (thread_period cfg) \<le> thread_target n work cfg"
    using assms by (simp add: thread_target_def min_def split: if_splits)
  then have "ceil_div work (thread_period cfg) * thread_period cfg \<le> thread_target n work cfg * thread_period cfg" by simp
  with ceil_div_covers [OF period_used(2), of work cfg] show ?thesis by linarith
qed

lemma thread_target_limit: "thread_target n work cfg \<le> unat (thread_limit cfg)"
  by (simp add: thread_target_def)


subsection \<open>The dispatcher\<close>

text \<open>
  Workers that have received a stop request finish their cycle before they leave; \<open>currentThreads\<close> counts
  them until then, but they take no further request.
\<close>

record worker_pool =
  wp_live :: nat
  wp_stopping :: nat

definition currentThreads :: "worker_pool \<Rightarrow> nat" where
  "currentThreads P = wp_live P + wp_stopping P"

definition worker_leaves :: "nat \<Rightarrow> worker_pool \<Rightarrow> worker_pool" where
  "worker_leaves e P = P\<lparr>wp_stopping := wp_stopping P - e\<rparr>"

text \<open>Launching reads the counter again after each launch; \<open>exits\<close> says how many workers left in between.\<close>

function launch_up_to :: "nat \<Rightarrow> nat list \<Rightarrow> worker_pool \<Rightarrow> worker_pool" where
  "launch_up_to target exits P =
     (if currentThreads P < target
      then (case exits of
          [] \<Rightarrow> launch_up_to target [] (P\<lparr>wp_live := wp_live P + 1\<rparr>)
        | e # es \<Rightarrow> launch_up_to target es (worker_leaves e (P\<lparr>wp_live := wp_live P + 1\<rparr>)))
      else P)"
  by pat_completeness auto
termination
  by (relation "measures [\<lambda>(target, exits, P). length exits, \<lambda>(target, exits, P). target - currentThreads P]")
     (auto simp: currentThreads_def)

text \<open>A request to stop reaches a waiting worker or nobody; the round ends at the first one nobody takes.\<close>

fun request_stops :: "nat \<Rightarrow> worker_pool \<Rightarrow> worker_pool" where
  "request_stops 0 P = P"
| "request_stops (Suc k) P =
     (if wp_live P = 0 then P
      else request_stops k (P\<lparr>wp_live := wp_live P - 1, wp_stopping := wp_stopping P + 1\<rparr>))"

definition dispatch_round :: "nat \<Rightarrow> nat list \<Rightarrow> worker_pool \<Rightarrow> worker_pool" where
  "dispatch_round target exits P =
     (let P = launch_up_to target exits P in request_stops (currentThreads P - target) P)"

declare launch_up_to.simps [simp del]

lemma launch_reaches: "currentThreads P \<le> target \<Longrightarrow> currentThreads (launch_up_to target exits P) = target"
proof (induction target exits P rule: launch_up_to.induct)
  case (1 target exits P)
  show ?case
  proof (cases "currentThreads P < target")
    case True
    then have l: "currentThreads (P\<lparr>wp_live := wp_live P + 1\<rparr>) \<le> target" "currentThreads (worker_leaves e (P\<lparr>wp_live := wp_live P + 1\<rparr>)) \<le> target" for e
      by (auto simp: currentThreads_def worker_leaves_def)
    show ?thesis using 1 True l by (subst launch_up_to.simps) (auto split: list.splits)
  next
    case False
    with 1(3) show ?thesis by (subst launch_up_to.simps) simp
  qed
qed

lemma launch_live: "wp_live P \<le> wp_live (launch_up_to target exits P)"
proof (induction target exits P rule: launch_up_to.induct)
  case (1 target exits P)
  show ?case
    using 1(1,2) by (subst launch_up_to.simps) (fastforce simp: worker_leaves_def split: list.splits dest: Suc_leD)
qed

lemma request_stops_eq: "request_stops k P = P\<lparr>wp_live := wp_live P - k, wp_stopping := wp_stopping P + min k (wp_live P)\<rparr>"
  by (induction k P rule: request_stops.induct) (auto simp: min_def)

lemma dispatch_shrinks:
  assumes "target < currentThreads P"
  shows "dispatch_round target exits P = request_stops (currentThreads P - target) P"
  using assms by (simp add: dispatch_round_def launch_up_to.simps [of target exits P])

lemma dispatch_grows: "currentThreads P \<le> target \<Longrightarrow> dispatch_round target exits P = launch_up_to target exits P"
  by (simp add: dispatch_round_def launch_reaches)

text \<open>Nobody is stopping: the round is exact. While workers are still stopping, the same target stops others.\<close>

lemma repeated_round_undershoots:
  assumes "target < wp_live P" "wp_stopping P = 0"
  shows "wp_live (dispatch_round target [] P) = target"
    and "wp_live (dispatch_round target [] (dispatch_round target [] P)) = target - min (wp_live P - target) target"
  using assms by (simp_all add: dispatch_shrinks request_stops_eq currentThreads_def)

subsection \<open>Properties\<close>

text \<open>
  C32. The automatic number of checkers: if nothing overflows, it is the number of workers whose time in one
  period covers four protocols with every retry at the full timeout for this instance's share of the
  routes, at least one when there is a share, and at most the limit; below the limit the workers suffice.
\<close>

theorem checker_target_sufficient:
  fixes items n :: int
  defines "share \<equiv> ceil_div (nat items) (nat n)"
  assumes "0 \<le> items" "0 < n" "items + n < 2 ^ 63" "unat (tc_Retries cfg) + 1 < 2 ^ 32"
    "thread_work (4 * share) cfg + thread_period cfg \<le> 2 ^ 64"
  shows "unat (getAutoThreads (Inr items) (Inr n) cfg) = thread_target share (thread_work (4 * share) cfg) cfg \<and>
    (unat (getAutoThreads (Inr items) (Inr n) cfg) < unat (thread_limit cfg) \<longrightarrow>
       thread_work (4 * share) cfg \<le> unat (getAutoThreads (Inr items) (Inr n) cfg) * thread_period cfg)"
  using checker_target [OF assms(2-5) assms(6) [unfolded share_def]] thread_target_covers
  unfolding share_def by simp

lemma checker_target_sufficient_witness:
  defines "cfg \<equiv> \<lparr>tc_Threads = 0, tc_MaxThreads = 0, tc_Retries = 2, tc_Timeout = 7500, tc_Timer = \<lparr>tm_Days = 0, tm_Hours = 1, tm_Minutes = 0, tm_Seconds = 0\<rparr>\<rparr>"
  shows "unat (getAutoThreads (Inr 1001) (Inr 2) cfg) = 13 \<and> thread_work (4 * 501) cfg \<le> 13 * thread_period cfg"
proof -
  have s: "ceil_div (nat 1001) (nat 2) = 501" by (simp add: ceil_div_def)
  have c: "unat (getAutoThreads (Inr 1001) (Inr 2) cfg) = 13" unfolding cfg_def by code_simp
  have "thread_work (4 * 501) cfg + thread_period cfg \<le> 2 ^ 64" "unat (tc_Retries cfg) + 1 < 2 ^ 32" "13 < unat (thread_limit cfg)"
    by (simp_all add: cfg_def thread_work_def thread_period_def timer_ms_def thread_limit_def)
  with checker_target_sufficient [of 1001 2 cfg, unfolded s c] c show ?thesis by simp
qed

text \<open>
  C33. One round of the dispatcher: up to the target it launches exactly the missing workers, whatever leaves
  meanwhile, and stops none. Above it, it asks as many live workers to stop as the counter exceeds the target,
  and the counter includes those that were asked before.
\<close>

theorem dispatch_round_exact:
  "if currentThreads P \<le> target
   then currentThreads (dispatch_round target exits P) = target \<and> wp_live P \<le> wp_live (dispatch_round target exits P)
   else currentThreads (dispatch_round target exits P) = currentThreads P \<and>
        wp_live (dispatch_round target exits P) = wp_live P - (currentThreads P - target)"
proof (cases "currentThreads P \<le> target")
  case True
  then show ?thesis by (simp add: dispatch_grows launch_reaches launch_live)
next
  case False
  then show ?thesis by (auto simp: dispatch_shrinks request_stops_eq currentThreads_def)
qed

end
