(* ===== verification/Site_Queue.thy ===== *)
theory Site_Queue
  imports Proxy_Queue
begin

text \<open>
  The queue of scrape sources (\<open>jobs/queue/sites\<close>): schedules, the Lua scripts and the methods. A worker that
  pops a source holds a numbered claim, kept in a key of its own with a time to live; completion and renewal
  name the claim. A source's schedule keeps the next attempt of every fetch mode and the deadline a provider
  asked for with \<open>Retry-After\<close>. Redis is the same parameter as for the proxy queue.
\<close>

subsection \<open>Keys and configuration\<close>

definition scrapesiteKeyPrefix :: string where "scrapesiteKeyPrefix = ''scrapesite:''"
definition legacyScrapesiteQueueKey :: string where "legacyScrapesiteQueueKey = ''scrapesite_queue''"
definition scrapesiteQueueHeadKey :: string where "scrapesiteQueueHeadKey = ''scrapesite_queue_heads''"
definition scrapesiteQueueShardPrefix :: string where "scrapesiteQueueShardPrefix = ''scrapesite_queue:''"
definition scrapeQueueRescheduleStateKey :: string where "scrapeQueueRescheduleStateKey = ''magpie:queue:scrape:interval_ms''"
definition scrapeScheduleKeyPrefix :: string where "scrapeScheduleKeyPrefix = ''scrapesite_schedule:''"
definition scrapeLeaseKeyPrefix :: string where "scrapeLeaseKeyPrefix = ''scrapesite_lease:''"
definition scrapeClaimSequenceKey :: string where "scrapeClaimSequenceKey = ''magpie:queue:scrape:claim_sequence''"
definition defaultScrapeQueueShards :: int where "defaultScrapeQueueShards = 8"
definition maxScrapeQueueShards :: int where "maxScrapeQueueShards = 64"

record RedisScrapeSiteQueue =
  siteShardKeys :: "string list"
  sitePopKeys :: "string list"
  siteLease :: duration

definition buildScrapeQueueShardKeys :: "nat \<Rightarrow> string list" where
  "buildScrapeQueueShardKeys shards = map (\<lambda>i. scrapesiteQueueShardPrefix @ FormatInt (int i)) [0..<shards]"

definition buildScrapePopQueueKeys :: "string list \<Rightarrow> string list" where
  "buildScrapePopQueueKeys shardKeys = legacyScrapesiteQueueKey # shardKeys"

text \<open>\<open>envShards\<close> is \<open>SCRAPE_QUEUE_SHARDS\<close> or the default.\<close>

definition site_config :: "int \<Rightarrow> RedisScrapeSiteQueue" where
  "site_config envShards =
     (let shards = (if envShards \<le> 0 then defaultScrapeQueueShards else envShards);
          shards = (if maxScrapeQueueShards < shards then maxScrapeQueueShards else shards);
          shardKeys = buildScrapeQueueShardKeys (nat shards)
      in \<lparr>siteShardKeys = shardKeys, sitePopKeys = buildScrapePopQueueKeys shardKeys, siteLease = 0\<rparr>)"

definition site_popKeys :: "RedisScrapeSiteQueue \<Rightarrow> string list" where
  "site_popKeys q = (if sitePopKeys q = [] then [legacyScrapesiteQueueKey] else sitePopKeys q)"

definition site_queueKey :: "RedisScrapeSiteQueue \<Rightarrow> string \<Rightarrow> string" where
  "site_queueKey q member =
     (if siteShardKeys q = [] then legacyScrapesiteQueueKey
      else siteShardKeys q ! shard_index member (length (siteShardKeys q)))"

definition leasePeriod :: "RedisScrapeSiteQueue \<Rightarrow> duration" where
  "leasePeriod q = (if 0 < siteLease q then siteLease q else processingLease)"

definition lease_period_ms :: "RedisScrapeSiteQueue \<Rightarrow> int" where
  "lease_period_ms q = leasePeriod q div millisecond"

definition refreshSiteHeads :: "'r redis_ops \<Rightarrow> RedisScrapeSiteQueue \<Rightarrow> call \<Rightarrow> 'r \<Rightarrow> (queue_error, unit) result \<times> 'r" where
  "refreshSiteHeads R q c = run_call c (\<lambda>s. ((), RefreshHeads R scrapesiteQueueHeadKey (site_popKeys q) s))"

subsection \<open>Schedules\<close>

record ScrapeModeSchedule =
  NextAttemptMS :: int
  DeferredReason :: string

text \<open>\<open>Modes\<close> is a Go map; a missing mode reads as the zero schedule.\<close>

record ScrapeSchedule =
  Modes :: "(string \<times> ScrapeModeSchedule) list"
  RetryAfterMS :: int
  DeferredUntilMS :: int
  ScheduleReason :: string

definition mode_schedule :: "ScrapeSchedule \<Rightarrow> string \<Rightarrow> ScrapeModeSchedule" where
  "mode_schedule s mode = (case map_of (Modes s) mode of Some m \<Rightarrow> m | None \<Rightarrow> \<lparr>NextAttemptMS = 0, DeferredReason = []\<rparr>)"

definition NextAttempt :: "ScrapeSchedule \<Rightarrow> string \<Rightarrow> (int \<times> string) option" where
  "NextAttempt s mode =
     (let state = mode_schedule s mode;
          nxt = NextAttemptMS state; reason = DeferredReason state;
          reason = (if 0 < nxt \<and> reason = [] then ''Configured scrape interval'' else reason);
          (nxt, reason) = (if nxt < DeferredUntilMS s then (DeferredUntilMS s, ScheduleReason s) else (nxt, reason));
          (nxt, reason) = (if nxt < RetryAfterMS s then (RetryAfterMS s, ''Provider requested a delay with Retry-After'') else (nxt, reason))
      in if nxt \<le> 0 then None else Some (nxt, reason))"

definition earliest_mode :: "(string \<times> ScrapeModeSchedule) list \<Rightarrow> int" where
  "earliest_mode modes = (case modes of [] \<Rightarrow> 0 | (m, x) # rest \<Rightarrow> fold (\<lambda>(m, x) n. min n (NextAttemptMS x)) rest (NextAttemptMS x))"

definition nextDue :: "ScrapeSchedule \<Rightarrow> int" where
  "nextDue s = max (max (earliest_mode (Modes s)) (DeferredUntilMS s)) (RetryAfterMS s)"

text \<open>The fields the queue and the workers read; workspaces by ID.\<close>

record ScrapeSite =
  si_ID :: u64
  si_URL :: string
  si_Workspaces :: "u64 list"

record ScrapeSiteJob =
  job_Site :: ScrapeSite
  job_Interval :: duration
  job_Schedule :: ScrapeSchedule
  job_queueKey :: string
  job_leaseScoreMS :: int
  job_claimID :: int

text \<open>
  A schedule as the scripts see it: the number in \<open>retry_after_ms\<close>, if there is one, and the other fields.
  \<open>encoding/json\<close>, Redis's \<open>cjson\<close> and the website blocklist are parameters.
\<close>

record luaSchedule =
  ls_retry_after :: "int option"
  ls_fields :: string

record site_env =
  site_Marshal :: "ScrapeSite \<Rightarrow> string option"
  site_Unmarshal :: "string \<Rightarrow> ScrapeSite option"
  schedule_Marshal :: "ScrapeSchedule \<Rightarrow> string"
  schedule_Unmarshal :: "string \<Rightarrow> ScrapeSchedule option"
  table_decode :: "string \<Rightarrow> luaSchedule option"
  table_encode :: "luaSchedule \<Rightarrow> string"
  se_blocked :: "string \<Rightarrow> bool"

definition empty_table :: luaSchedule where
  "empty_table = \<lparr>ls_retry_after = None, ls_fields = []\<rparr>"

definition lua_retry :: "luaSchedule \<Rightarrow> int" where
  "lua_retry t = (case ls_retry_after t of None \<Rightarrow> 0 | Some x \<Rightarrow> x)"

subsection \<open>Scripts\<close>

text \<open>\<open>INCR\<close> on a decimal string; nothing when the value is not one or would overflow.\<close>

definition INCR :: "'r redis_ops \<Rightarrow> string \<Rightarrow> 'r \<Rightarrow> int option \<times> 'r" where
  "INCR R k s =
     (case GET R k s of
        None \<Rightarrow> (Some 1, SET R k (FormatInt 1) s)
      | Some raw \<Rightarrow>
          (case ParseInt raw of
             None \<Rightarrow> (None, s)
           | Some v \<Rightarrow> if v = 2 ^ 63 - 1 then (None, s) else (Some (v + 1), SET R k (FormatInt (v + 1)) s)))"

text \<open>A reply is nothing when the script raised an error. After a member was added its shard has a head.\<close>

definition index_shard :: "'r redis_ops \<Rightarrow> string \<Rightarrow> string \<Rightarrow> 'r \<Rightarrow> 'r" where
  "index_shard R heads q s = (case ZHEAD R q s of None \<Rightarrow> s | Some (_, x) \<Rightarrow> ZADD R ZAny heads x q s)"

definition site_pop_miss :: "int \<Rightarrow> go_value" where
  "site_pop_miss nextReady =
     GSlice [GInt64 0, GString [], GString [], GInt64 nextReady, GInt64 (-1), GString [], GString [], GInt64 (-1)]"

definition site_pop_hit :: "string \<Rightarrow> string \<Rightarrow> int \<Rightarrow> int \<Rightarrow> string \<Rightarrow> string \<Rightarrow> int \<Rightarrow> go_value" where
  "site_pop_hit member data score lease schedule queue claim =
     GSlice [GInt64 1, GString member, GString data, GInt64 score, GInt64 lease, GString schedule, GString queue, GInt64 claim]"

definition claim_site :: "'r redis_ops \<Rightarrow> string \<Rightarrow> string \<Rightarrow> string \<Rightarrow> string \<Rightarrow> rat \<Rightarrow> int \<Rightarrow> int \<Rightarrow> 'r \<Rightarrow> go_value option \<times> 'r" where
  "claim_site R heads queue member data score now lease s =
     (case INCR R scrapeClaimSequenceKey s of
        (None, s) \<Rightarrow> (None, s)
      | (Some claim, s) \<Rightarrow>
          (let s = SET R (scrapeLeaseKeyPrefix @ member) (FormatInt claim) s;
               s = ZADD R ZAny queue (of_int (now + lease)) member s;
               s = refresh_head R heads queue s;
               schedule = (case GET R (scrapeScheduleKeyPrefix @ member) s of None \<Rightarrow> ''{}'' | Some v \<Rightarrow> v)
           in (Some (site_pop_hit member data \<lfloor>score\<rfloor> (now + lease) schedule queue claim), s)))"

fun site_pop_loop :: "'r redis_ops \<Rightarrow> string \<Rightarrow> int \<Rightarrow> int \<Rightarrow> nat \<Rightarrow> 'r \<Rightarrow> go_value option \<times> 'r" where
  "site_pop_loop R heads now lease 0 s = (Some (site_pop_miss (-1)), s)"
| "site_pop_loop R heads now lease (Suc n) s =
     (case ZHEAD R heads s of
        None \<Rightarrow> (Some (site_pop_miss (-1)), s)
      | Some (queue, indexed) \<Rightarrow>
          (case ZHEAD R queue s of
             None \<Rightarrow> site_pop_loop R heads now lease n (ZREM R heads queue s)
           | Some (member, score) \<Rightarrow>
               if score \<noteq> indexed then site_pop_loop R heads now lease n (ZADD R ZAny heads score queue s)
               else if of_int now < score then (Some (site_pop_miss \<lfloor>score\<rfloor>), s)
               else (case GET R (scrapesiteKeyPrefix @ member) s of
                       None \<Rightarrow> site_pop_loop R heads now lease n (refresh_head R heads queue (ZREM R queue member s))
                     | Some data \<Rightarrow> claim_site R heads queue member data score now lease s)))"

definition site_pop_script :: "'r redis_ops \<Rightarrow> string \<Rightarrow> int \<Rightarrow> int \<Rightarrow> 'r \<Rightarrow> go_value option \<times> 'r" where
  "site_pop_script R heads now lease s = site_pop_loop R heads now lease 8 s"

definition stored_table :: "site_env \<Rightarrow> 'r redis_ops \<Rightarrow> string \<Rightarrow> 'r \<Rightarrow> luaSchedule option" where
  "stored_table E R schedule_key s = (case GET R schedule_key s of None \<Rightarrow> Some empty_table | Some v \<Rightarrow> table_decode E v)"

definition site_complete_script :: "site_env \<Rightarrow> 'r redis_ops \<Rightarrow> string \<Rightarrow> string \<Rightarrow> string \<Rightarrow> string \<Rightarrow> string \<Rightarrow> string \<Rightarrow>
    string \<Rightarrow> int \<Rightarrow> string \<Rightarrow> int \<Rightarrow> 'r \<Rightarrow> int option \<times> 'r" where
  "site_complete_script E R queue heads site_key schedule_key lease_key own_queue member next_ms payload claimID s =
     (let score = ZSCORE R queue member s;
          (queue, score) = (if score = None \<and> own_queue \<noteq> queue then (own_queue, ZSCORE R own_queue member s) else (queue, score))
      in if GET R site_key s = None then (Some 0, s)
         else case table_decode E payload of
             None \<Rightarrow> (None, s)
           | Some incoming \<Rightarrow>
               (case stored_table E R schedule_key s of
                  None \<Rightarrow> (None, s)
                | Some stored \<Rightarrow>
                    (let retry_after = max (lua_retry stored) (lua_retry incoming); claim = GET R lease_key s
                     in if score = None \<or> claim \<noteq> Some (FormatInt claimID)
                        then (let s1 = (if lua_retry stored < retry_after
                                        then SET R schedule_key (table_encode E (stored\<lparr>ls_retry_after := Some retry_after\<rparr>)) s else s);
                                  s2 = (if score \<noteq> None \<and> claim = None \<and> the score < of_int retry_after
                                        then index_shard R heads queue (ZADD R ZAny queue (of_int retry_after) member s1) else s1)
                              in (Some 0, s2))
                        else (let incoming = (if 0 < retry_after then incoming\<lparr>ls_retry_after := Some retry_after\<rparr> else incoming);
                                  s = SET R schedule_key (table_encode E incoming) s;
                                  s = DEL R lease_key s;
                                  s = ZADD R ZAny queue (of_int (max next_ms retry_after)) member s
                              in (Some 1, index_shard R heads queue s)))))"

definition site_force_script :: "site_env \<Rightarrow> 'r redis_ops \<Rightarrow> string \<Rightarrow> string \<Rightarrow> string \<Rightarrow> string \<Rightarrow> string \<Rightarrow> string \<Rightarrow>
    string \<Rightarrow> int \<Rightarrow> string \<Rightarrow> 'r \<Rightarrow> int option \<times> 'r" where
  "site_force_script E R queue heads site_key schedule_key legacy lease_key member now payload s =
     (if GET R lease_key s \<noteq> None then (Some 1, s)
      else case stored_table E R schedule_key s of
          None \<Rightarrow> (None, s)
        | Some stored \<Rightarrow>
            (let retry_after = lua_retry stored
             in if payload = [] \<and> ZSCORE R queue member s = None then (Some 0, s)
                else let s = (if payload \<noteq> [] then SET R site_key payload s else s);
                         s = (if 0 < retry_after then SET R schedule_key (table_encode E (empty_table\<lparr>ls_retry_after := Some retry_after\<rparr>)) s
                              else DEL R schedule_key s);
                         s = DEL R lease_key s;
                         s = (if queue \<noteq> legacy then ZREM R legacy member s else s);
                         s = ZADD R ZAny queue (of_int (max now retry_after)) member s
                     in (Some 1, index_shard R heads queue s)))"

definition site_renew_script :: "'r redis_ops \<Rightarrow> string \<Rightarrow> string \<Rightarrow> string \<Rightarrow> string \<Rightarrow> string \<Rightarrow> int \<Rightarrow> int \<Rightarrow> 'r \<Rightarrow> int \<times> 'r" where
  "site_renew_script R queue heads site_key lease_key member claimID renewed s =
     (if GET R lease_key s \<noteq> Some (FormatInt claimID) \<or> ZSCORE R queue member s = None \<or> GET R site_key s = None then (0, s)
      else (1, index_shard R heads queue (ZADD R ZAny queue (of_int renewed) member s)))"


subsection \<open>Methods\<close>

datatype site_error = SiteQueue queue_error | SiteMarshalFailed | EmptyURL | ScrapeLeaseLost

definition run_script :: "call \<Rightarrow> ('r \<Rightarrow> 'a option \<times> 'r) \<Rightarrow> 'r \<Rightarrow> (site_error, 'a) result \<times> 'r" where
  "run_script c f s =
     (case run_call c f s of
        (Inl e, s) \<Rightarrow> (Inl (SiteQueue e), s)
      | (Inr None, s) \<Rightarrow> (Inl (SiteQueue ScriptRaised), s)
      | (Inr (Some x), s) \<Rightarrow> (Inr x, s))"

text \<open>Whether the completion was accepted. \<open>now\<close> is the clock in milliseconds.\<close>

definition CompleteScrapeSite :: "site_env \<Rightarrow> 'r redis_ops \<Rightarrow> RedisScrapeSiteQueue \<Rightarrow> call \<Rightarrow> int \<Rightarrow> ScrapeSiteJob \<Rightarrow> 'r \<Rightarrow>
    (site_error, bool) result \<times> 'r" where
  "CompleteScrapeSite E R q c now job s =
     (let payload = schedule_Marshal E (job_Schedule job); nxt = max (nextDue (job_Schedule job)) now; url = si_URL (job_Site job)
      in case run_script c (site_complete_script E R (job_queueKey job) scrapesiteQueueHeadKey (scrapesiteKeyPrefix @ url)
                (scrapeScheduleKeyPrefix @ url) (scrapeLeaseKeyPrefix @ url) (site_queueKey q url) url nxt payload (job_claimID job)) s of
           (Inl e, s) \<Rightarrow> (Inl e, s)
         | (Inr r, s) \<Rightarrow> (Inr (r = 1), s))"

definition GetScrapeSchedule :: "site_env \<Rightarrow> 'r redis_ops \<Rightarrow> call \<Rightarrow> string \<Rightarrow> string \<Rightarrow> 'r \<Rightarrow> (site_error, (int \<times> string) option) result" where
  "GetScrapeSchedule E R c url mode s =
     (case fst (run_call c (\<lambda>s. (GET R (scrapeScheduleKeyPrefix @ url) s, s)) s) of
        Inl e \<Rightarrow> Inl (SiteQueue e)
      | Inr None \<Rightarrow> Inr None
      | Inr (Some raw) \<Rightarrow>
          (case schedule_Unmarshal E raw of None \<Rightarrow> Inl (SiteQueue UnmarshalFailed) | Some schedule \<Rightarrow> Inr (NextAttempt schedule mode)))"

definition force_member :: "site_env \<Rightarrow> 'r redis_ops \<Rightarrow> string \<Rightarrow> string \<Rightarrow> int \<Rightarrow> string \<Rightarrow> 'r \<Rightarrow> int option \<times> 'r" where
  "force_member E R queueKey url =
     site_force_script E R queueKey scrapesiteQueueHeadKey (scrapesiteKeyPrefix @ url) (scrapeScheduleKeyPrefix @ url)
       legacyScrapesiteQueueKey (scrapeLeaseKeyPrefix @ url) url"

definition ForceScrapeSite :: "site_env \<Rightarrow> 'r redis_ops \<Rightarrow> RedisScrapeSiteQueue \<Rightarrow> call \<Rightarrow> int \<Rightarrow> ScrapeSite \<Rightarrow> 'r \<Rightarrow>
    (site_error, unit) result \<times> 'r" where
  "ForceScrapeSite E R q c now site s =
     (if c = NoClient then (Inl (SiteQueue ClientUnavailable), s)
      else if si_URL site = [] then (Inl EmptyURL, s)
      else case site_Marshal E site of
          None \<Rightarrow> (Inl SiteMarshalFailed, s)
        | Some payload \<Rightarrow>
            (case run_script c (force_member E R (site_queueKey q (si_URL site)) (si_URL site) now payload) s of
               (Inl e, s) \<Rightarrow> (Inl e, s)
             | (Inr _, s) \<Rightarrow> (Inr (), s)))"

definition RenewScrapeSiteLease :: "'r redis_ops \<Rightarrow> RedisScrapeSiteQueue \<Rightarrow> call \<Rightarrow> int \<Rightarrow> ScrapeSiteJob \<Rightarrow> 'r \<Rightarrow> (site_error, unit) result \<times> 'r" where
  "RenewScrapeSiteLease R q c now job s =
     (let url = si_URL (job_Site job)
      in case run_call c (site_renew_script R (job_queueKey job) scrapesiteQueueHeadKey (scrapesiteKeyPrefix @ url)
                (scrapeLeaseKeyPrefix @ url) url (job_claimID job) (now + lease_period_ms q)) s of
           (Inl e, s) \<Rightarrow> (Inl (SiteQueue e), s)
         | (Inr renewed, s) \<Rightarrow> if renewed \<noteq> 1 then (Inl ScrapeLeaseLost, s) else (Inr (), s))"

record scrapePopResult =
  sp_Found :: bool
  sp_SiteJSON :: string
  sp_ScoreMs :: int
  sp_NextReadyMs :: int
  sp_LeaseScoreMS :: int
  sp_ScheduleJSON :: string
  sp_QueueKey :: string
  sp_ClaimID :: int

definition parseScrapePopResult :: "go_value \<Rightarrow> (queue_error, scrapePopResult) result" where
  "parseScrapePopResult r =
     (case r of
        GSlice xs \<Rightarrow>
          if length xs \<noteq> 8 then Inl InvalidReply
          else (case coerceLuaInt64 (xs ! 0) of
                  Inl _ \<Rightarrow> Inl InvalidReply
                | Inr foundFlag \<Rightarrow>
                    if foundFlag = 0
                    then (case coerceLuaInt64 (xs ! 3) of
                            Inl _ \<Rightarrow> Inl InvalidReply
                          | Inr n \<Rightarrow> Inr \<lparr>sp_Found = False, sp_SiteJSON = [], sp_ScoreMs = 0, sp_NextReadyMs = n, sp_LeaseScoreMS = 0,
                                       sp_ScheduleJSON = [], sp_QueueKey = [], sp_ClaimID = 0\<rparr>)
                    else (case (coerceLuaString (xs ! 2), coerceLuaInt64 (xs ! 3), coerceLuaInt64 (xs ! 4)) of
                            (Inr siteJSON, Inr score, Inr lease) \<Rightarrow>
                              (case (coerceLuaString (xs ! 5), coerceLuaString (xs ! 6), coerceLuaInt64 (xs ! 7)) of
                                 (Inr schedule, Inr queueKey, Inr claimID) \<Rightarrow>
                                   Inr \<lparr>sp_Found = True, sp_SiteJSON = siteJSON, sp_ScoreMs = score, sp_NextReadyMs = -1, sp_LeaseScoreMS = lease,
                                        sp_ScheduleJSON = schedule, sp_QueueKey = queueKey, sp_ClaimID = claimID\<rparr>
                               | _ \<Rightarrow> Inl InvalidReply)
                          | _ \<Rightarrow> Inl InvalidReply))
      | _ \<Rightarrow> Inl InvalidReply)"

definition getEffectiveScrapeInterval :: "'r redis_ops \<Rightarrow> call \<Rightarrow> duration \<Rightarrow> 'r \<Rightarrow> duration" where
  "getEffectiveScrapeInterval R c fallback s =
     (case fst (run_call c (\<lambda>s. (GET R scrapeQueueRescheduleStateKey s, s)) s) of
        Inr (Some raw) \<Rightarrow> parseIntervalStateMillis raw fallback
      | _ \<Rightarrow> fallback)"

text \<open>One turn of the polling loop.\<close>

record 'r site_poll_event =
  se_ctxDone :: bool
  se_now :: int
  se_pop :: call
  se_interval :: call
  se_fallback :: duration
  se_cancelled :: bool
  se_others :: "'r \<Rightarrow> 'r"

datatype site_poll_result = SiteDone ScrapeSiteJob | SiteFailed site_error | SiteWait duration

definition site_poll_once :: "site_env \<Rightarrow> 'r redis_ops \<Rightarrow> RedisScrapeSiteQueue \<Rightarrow> 'r site_poll_event \<Rightarrow> 'r \<Rightarrow> site_poll_result \<times> 'r" where
  "site_poll_once E R q ev s =
     (if se_ctxDone ev then (SiteFailed (SiteQueue ContextDone), s)
      else case run_script (se_pop ev) (site_pop_script R scrapesiteQueueHeadKey (se_now ev) (lease_period_ms q)) s of
             (Inl e, s) \<Rightarrow> (SiteFailed e, s)
           | (Inr reply, s) \<Rightarrow>
               (case parseScrapePopResult reply of
                  Inl e \<Rightarrow> (SiteFailed (SiteQueue e), s)
                | Inr pop \<Rightarrow>
                    if \<not> sp_Found pop then (SiteWait (dequeueWaitDuration (sp_NextReadyMs pop) (se_now ev)), s)
                    else case site_Unmarshal E (sp_SiteJSON pop) of
                        None \<Rightarrow> (SiteFailed (SiteQueue UnmarshalFailed), s)
                      | Some site \<Rightarrow>
                          (case schedule_Unmarshal E (sp_ScheduleJSON pop) of
                             None \<Rightarrow> (SiteFailed (SiteQueue UnmarshalFailed), s)
                           | Some schedule \<Rightarrow>
                               (SiteDone \<lparr>job_Site = site, job_Interval = getEffectiveScrapeInterval R (se_interval ev) (se_fallback ev) s,
                                  job_Schedule = schedule, job_queueKey = sp_QueueKey pop, job_leaseScoreMS = sp_LeaseScoreMS pop,
                                  job_claimID = sp_ClaimID pop\<rparr>, s))))"

fun GetNextScrapeSiteContext :: "site_env \<Rightarrow> 'r redis_ops \<Rightarrow> RedisScrapeSiteQueue \<Rightarrow> 'r site_poll_event list \<Rightarrow> 'r \<Rightarrow>
    (site_error, ScrapeSiteJob) result option \<times> 'r" where
  "GetNextScrapeSiteContext E R q [] s = (None, s)"
| "GetNextScrapeSiteContext E R q (ev # evs) s =
     (case site_poll_once E R q ev (se_others ev s) of
        (SiteDone job, s) \<Rightarrow> (Some (Inr job), s)
      | (SiteFailed e, s) \<Rightarrow> (Some (Inl e), s)
      | (SiteWait d, s) \<Rightarrow> if snd (waitForNextPoll (se_cancelled ev) d) then GetNextScrapeSiteContext E R q evs s
                           else (Some (Inl (SiteQueue ContextDone)), s))"

subsection \<open>Adding and removing sources\<close>

text \<open>The commands of one source in a pipeline, which Redis runs one by one, not as a transaction.\<close>

definition add_site_commands :: "'r redis_ops \<Rightarrow> RedisScrapeSiteQueue \<Rightarrow> string \<Rightarrow> int \<Rightarrow> string \<Rightarrow> ('r \<Rightarrow> 'r) list" where
  "add_site_commands R q url due payload =
     (let queueKey = site_queueKey q url
      in [SET R (scrapesiteKeyPrefix @ url) payload, ZADD R NX queueKey (of_int due) url] @
         (if queueKey \<noteq> legacyScrapesiteQueueKey then [ZREM R legacyScrapesiteQueueKey url] else []) @
         [ZADD R LT scrapesiteQueueHeadKey (of_int due) queueKey])"

fun add_sites :: "site_env \<Rightarrow> 'r redis_ops \<Rightarrow> RedisScrapeSiteQueue \<Rightarrow> int \<Rightarrow> (nat \<Rightarrow> exec_outcome) \<Rightarrow> nat \<Rightarrow> nat \<Rightarrow> ('r \<Rightarrow> 'r) list \<Rightarrow>
    ScrapeSite list \<Rightarrow> 'r \<Rightarrow> (site_error, unit) result \<times> 'r" where
  "add_sites E R q now execs i b pipe [] s =
     (case pipe_exec (execs b) pipe s of (True, s) \<Rightarrow> (Inr (), s) | (False, s) \<Rightarrow> (Inl (SiteQueue PipelineFailed), s))"
| "add_sites E R q now execs i b pipe (site # rest) s =
     (case site_Marshal E site of
        None \<Rightarrow> (Inl SiteMarshalFailed, s)
      | Some payload \<Rightarrow>
          (let pipe = pipe @ add_site_commands R q (si_URL site) now payload
           in if i mod 50 = 0 \<and> 0 < i
              then (case pipe_exec (execs b) pipe s of
                      (False, s) \<Rightarrow> (Inl (SiteQueue PipelineFailed), s)
                    | (True, s) \<Rightarrow> add_sites E R q now execs (i + 1) (b + 1) [] rest s)
              else add_sites E R q now execs (i + 1) b pipe rest s))"

definition Site_AddToQueue :: "site_env \<Rightarrow> 'r redis_ops \<Rightarrow> RedisScrapeSiteQueue \<Rightarrow> bool \<Rightarrow> int \<Rightarrow> (nat \<Rightarrow> exec_outcome) \<Rightarrow>
    ScrapeSite list \<Rightarrow> 'r \<Rightarrow> (site_error, unit) result \<times> 'r" where
  "Site_AddToQueue E R q haveClient now execs sites s =
     (let filtered = filter (\<lambda>site. si_URL site \<noteq> [] \<and> \<not> se_blocked E (si_URL site)) sites
      in if filtered = [] then (Inr (), s)
         else if \<not> haveClient then (Inl (SiteQueue ClientUnavailable), s)
         else add_sites E R q now execs 0 0 [] filtered s)"

definition remove_site_commands :: "'r redis_ops \<Rightarrow> RedisScrapeSiteQueue \<Rightarrow> string \<Rightarrow> ('r \<Rightarrow> 'r) list" where
  "remove_site_commands R q url =
     (let queueKey = site_queueKey q url
      in [DEL R (scrapesiteKeyPrefix @ url), DEL R (scrapeScheduleKeyPrefix @ url), DEL R (scrapeLeaseKeyPrefix @ url), ZREM R queueKey url] @
         (if queueKey \<noteq> legacyScrapesiteQueueKey then [ZREM R legacyScrapesiteQueueKey url] else []))"

text \<open>Five operations are counted for every source; a batch goes out at 250.\<close>

fun remove_sites :: "'r redis_ops \<Rightarrow> RedisScrapeSiteQueue \<Rightarrow> (nat \<Rightarrow> exec_outcome) \<Rightarrow> nat \<Rightarrow> nat \<Rightarrow> ('r \<Rightarrow> 'r) list \<Rightarrow> ScrapeSite list \<Rightarrow>
    'r \<Rightarrow> (site_error, unit) result \<times> 'r" where
  "remove_sites R q execs b opCount pipe [] s =
     (if opCount = 0 then (Inr (), s)
      else case pipe_exec (execs b) pipe s of (True, s) \<Rightarrow> (Inr (), s) | (False, s) \<Rightarrow> (Inl (SiteQueue PipelineFailed), s))"
| "remove_sites R q execs b opCount pipe (site # rest) s =
     (if si_URL site = [] then remove_sites R q execs b opCount pipe rest s
      else let pipe = pipe @ remove_site_commands R q (si_URL site); opCount = opCount + 5
           in if 250 \<le> opCount
              then (case pipe_exec (execs b) pipe s of
                      (False, s) \<Rightarrow> (Inl (SiteQueue PipelineFailed), s)
                    | (True, s) \<Rightarrow> remove_sites R q execs (b + 1) 0 [] rest s)
              else remove_sites R q execs b opCount pipe rest s)"

definition Site_RemoveFromQueue :: "'r redis_ops \<Rightarrow> RedisScrapeSiteQueue \<Rightarrow> bool \<Rightarrow> (nat \<Rightarrow> exec_outcome) \<Rightarrow> ScrapeSite list \<Rightarrow> 'r \<Rightarrow>
    (site_error, unit) result \<times> 'r" where
  "Site_RemoveFromQueue R q haveClient execs sites s =
     (if sites = [] then (Inr (), s)
      else if \<not> haveClient then (Inl (SiteQueue ClientUnavailable), s)
      else remove_sites R q execs 0 0 [] sites s)"

subsection \<open>Bulk scheduling\<close>

text \<open>A pipeline of scripts fails when a command was not run or a script raised an error.\<close>

fun eval_all :: "('r \<Rightarrow> int option \<times> 'r) list \<Rightarrow> 'r \<Rightarrow> bool \<times> 'r" where
  "eval_all [] s = (True, s)"
| "eval_all (f # fs) s = (case f s of (r, s) \<Rightarrow> (case eval_all fs s of (okay, s) \<Rightarrow> (okay \<and> r \<noteq> None, s)))"

definition pipe_eval :: "exec_outcome \<Rightarrow> ('r \<Rightarrow> int option \<times> 'r) list \<Rightarrow> 'r \<Rightarrow> bool \<times> 'r" where
  "pipe_eval x fs s = (case x of ExecOk \<Rightarrow> eval_all fs s | ExecFailed n \<Rightarrow> (False, snd (eval_all (take n fs) s)))"

definition force_args :: "instant \<Rightarrow> duration \<Rightarrow> nat \<Rightarrow> string list \<Rightarrow> (string \<times> int) list" where
  "force_args now interval n members =
     map (\<lambda>i. (members ! i, UnixMilli (now + check_offset interval i n))) [0..<length members]"

fun force_batches :: "site_env \<Rightarrow> 'r redis_ops \<Rightarrow> string \<Rightarrow> (nat \<Rightarrow> exec_outcome) \<Rightarrow> nat \<Rightarrow> (string \<times> int) list list \<Rightarrow> 'r \<Rightarrow> bool \<times> 'r" where
  "force_batches E R key execs b [] s = (True, s)"
| "force_batches E R key execs b (args # rest) s =
     (case pipe_eval (execs b) (map (\<lambda>(member, due). force_member E R key member due []) args) s of
        (False, s) \<Rightarrow> (False, s)
      | (True, s) \<Rightarrow> force_batches E R key execs (b + 1) rest s)"

record site_requeue_event =
  sr_now :: instant
  sr_fallback :: duration
  sr_interval :: call
  sr_count :: "string \<Rightarrow> call"
  sr_list :: "string \<Rightarrow> call"
  sr_execs :: "string \<Rightarrow> nat \<Rightarrow> exec_outcome"
  sr_refresh :: call

fun force_keys :: "site_env \<Rightarrow> 'r redis_ops \<Rightarrow> site_requeue_event \<Rightarrow> duration \<Rightarrow> string list \<Rightarrow> int \<Rightarrow> 'r \<Rightarrow> site_error option \<times> int \<times> 'r" where
  "force_keys E R ev interval [] acc s = (None, acc, s)"
| "force_keys E R ev interval (key # rest) acc s =
     (case fst (run_call (sr_count ev key) (\<lambda>s. (ZCARD R key s, s)) s) of
        Inl e \<Rightarrow> (Some (SiteQueue e), acc, s)
      | Inr cnt \<Rightarrow>
          if cnt = 0 then force_keys E R ev interval rest acc s
          else let acc = acc + int cnt
               in case fst (run_call (sr_list ev key) (\<lambda>s. (take cnt (ZMEMBERS R key s), s)) s) of
                    Inl e \<Rightarrow> (Some (SiteQueue e), acc, s)
                  | Inr members \<Rightarrow>
                      (case force_batches E R key (sr_execs ev key) 0 (chunks 500 (force_args (sr_now ev) interval cnt members)) s of
                         (False, s) \<Rightarrow> (Some (SiteQueue PipelineFailed), acc, s)
                       | (True, s) \<Rightarrow> force_keys E R ev interval rest acc s))"

definition Site_RequeueAll :: "site_env \<Rightarrow> 'r redis_ops \<Rightarrow> RedisScrapeSiteQueue \<Rightarrow> site_requeue_event \<Rightarrow> 'r \<Rightarrow> site_error option \<times> int \<times> 'r" where
  "Site_RequeueAll E R q ev s =
     (if sr_interval ev = NoClient then (Some (SiteQueue ClientUnavailable), 0, s)
      else let interval = getEffectiveScrapeInterval R (sr_interval ev) (sr_fallback ev) s;
               interval = (if interval \<le> 0 then second else interval)
           in case force_keys E R ev interval (site_popKeys q) 0 s of
                (Some e, acc, s) \<Rightarrow> (Some e, acc, s)
              | (None, acc, s) \<Rightarrow>
                  (case refreshSiteHeads R q (sr_refresh ev) s of
                     (Inl e, s) \<Rightarrow> (Some (SiteQueue e), acc, s)
                   | (Inr _, s) \<Rightarrow> (None, acc, s)))"

definition Site_Reschedule :: "'r redis_ops \<Rightarrow> RedisScrapeSiteQueue \<Rightarrow> call \<Rightarrow> call \<Rightarrow> duration \<Rightarrow> 'r \<Rightarrow> (queue_error, unit) result \<times> 'r" where
  "Site_Reschedule R q cSet cRefresh interval s =
     (let interval = (if interval \<le> 0 then second else interval)
      in case run_call cSet (\<lambda>s. ((), SET R scrapeQueueRescheduleStateKey (FormatInt (interval div millisecond)) s)) s of
           (Inl e, s) \<Rightarrow> (Inl e, s)
         | (Inr _, s) \<Rightarrow> refreshSiteHeads R q cRefresh s)"

fun GetScrapeSiteCount :: "'r redis_ops \<Rightarrow> (string \<Rightarrow> call) \<Rightarrow> string list \<Rightarrow> int \<Rightarrow> 'r \<Rightarrow> (queue_error, int) result" where
  "GetScrapeSiteCount R calls [] acc s = Inr acc"
| "GetScrapeSiteCount R calls (key # rest) acc s =
     (case fst (run_call (calls key) (\<lambda>s. (ZCARD R key s, s)) s) of
        Inl e \<Rightarrow> Inl e
      | Inr cnt \<Rightarrow> GetScrapeSiteCount R calls rest (acc + int cnt) s)"

end
