(* ===== verification/Site_Claims.thy ===== *)
theory Site_Claims
  imports Site_Queue
begin

text \<open>
  What claims and schedules of scrape sources are through any interleaving of queue operations: the string keys
  of the queue are an abstract view, every command and script is a step of that view, and the claim and
  deadline laws are proved on views.
\<close>

subsection \<open>Keys\<close>

abbreviation heads_key :: string where "heads_key \<equiv> scrapesiteQueueHeadKey"
abbreviation site_key :: "string \<Rightarrow> string" where "site_key u \<equiv> scrapesiteKeyPrefix @ u"
abbreviation schedule_key :: "string \<Rightarrow> string" where "schedule_key u \<equiv> scrapeScheduleKeyPrefix @ u"
abbreviation lease_key :: "string \<Rightarrow> string" where "lease_key u \<equiv> scrapeLeaseKeyPrefix @ u"

definition site_ok :: "RedisScrapeSiteQueue \<Rightarrow> bool" where
  "site_ok q \<longleftrightarrow> (\<forall>k \<in> set (site_popKeys q). k = legacyScrapesiteQueueKey \<or> (\<exists>x. k = scrapesiteQueueShardPrefix @ x)) \<and>
     legacyScrapesiteQueueKey \<in> set (site_popKeys q) \<and> set (siteShardKeys q) \<subseteq> set (site_popKeys q) \<and> length (siteShardKeys q) < 2 ^ 32"

lemmas site_key_defs = scrapesiteKeyPrefix_def scrapeScheduleKeyPrefix_def scrapeLeaseKeyPrefix_def scrapeClaimSequenceKey_def
  scrapesiteQueueHeadKey_def legacyScrapesiteQueueKey_def scrapesiteQueueShardPrefix_def scrapeQueueRescheduleStateKey_def

lemma site_keys_differ [simp]:
  "site_key u \<noteq> schedule_key v" "schedule_key v \<noteq> site_key u" "site_key u \<noteq> lease_key v" "lease_key v \<noteq> site_key u"
  "schedule_key u \<noteq> lease_key v" "lease_key v \<noteq> schedule_key u"
  "site_key u \<noteq> scrapeClaimSequenceKey" "scrapeClaimSequenceKey \<noteq> site_key u"
  "schedule_key u \<noteq> scrapeClaimSequenceKey" "scrapeClaimSequenceKey \<noteq> schedule_key u"
  "lease_key u \<noteq> scrapeClaimSequenceKey" "scrapeClaimSequenceKey \<noteq> lease_key u"
  "site_key u \<noteq> scrapeQueueRescheduleStateKey" "scrapeQueueRescheduleStateKey \<noteq> site_key u"
  "schedule_key u \<noteq> scrapeQueueRescheduleStateKey" "scrapeQueueRescheduleStateKey \<noteq> schedule_key u"
  "lease_key u \<noteq> scrapeQueueRescheduleStateKey" "scrapeQueueRescheduleStateKey \<noteq> lease_key u"
  "scrapeQueueRescheduleStateKey \<noteq> scrapeClaimSequenceKey" "scrapeClaimSequenceKey \<noteq> scrapeQueueRescheduleStateKey"
  by (simp_all add: site_key_defs)

lemma site_prefixes_differ [simp]:
  "scrapesiteKeyPrefix \<noteq> scrapeScheduleKeyPrefix" "scrapeScheduleKeyPrefix \<noteq> scrapesiteKeyPrefix"
  "scrapesiteKeyPrefix \<noteq> scrapeLeaseKeyPrefix" "scrapeLeaseKeyPrefix \<noteq> scrapesiteKeyPrefix"
  "scrapeScheduleKeyPrefix \<noteq> scrapeLeaseKeyPrefix" "scrapeLeaseKeyPrefix \<noteq> scrapeScheduleKeyPrefix"
  by (simp_all add: site_key_defs)

text \<open>A string key of the queue: none of its sorted sets.\<close>

definition string_key :: "RedisScrapeSiteQueue \<Rightarrow> string \<Rightarrow> bool" where
  "string_key q k \<longleftrightarrow> k \<notin> set (site_popKeys q) \<and> k \<noteq> heads_key"

lemma queue_key_shape: "site_ok q \<Longrightarrow> k \<in> set (site_popKeys q) \<Longrightarrow> k = legacyScrapesiteQueueKey \<or> (\<exists>x. k = scrapesiteQueueShardPrefix @ x)"
  unfolding site_ok_def by blast

lemma not_queue_key: "site_ok q \<Longrightarrow> k \<noteq> legacyScrapesiteQueueKey \<Longrightarrow> (\<And>x. k \<noteq> scrapesiteQueueShardPrefix @ x) \<Longrightarrow> k \<notin> set (site_popKeys q)"
  using queue_key_shape by blast

lemma string_keys [simp]:
  assumes "site_ok q"
  shows "string_key q (site_key u)" "string_key q (schedule_key u)" "string_key q (lease_key u)" "string_key q scrapeClaimSequenceKey"
    "string_key q scrapeQueueRescheduleStateKey"
  unfolding string_key_def by (intro conjI not_queue_key [OF assms]; simp add: site_key_defs)+

lemma heads_not_queue: "site_ok q \<Longrightarrow> heads_key \<notin> set (site_popKeys q)"
  by (rule not_queue_key) (simp_all add: site_key_defs)

lemma legacy_in: "site_ok q \<Longrightarrow> legacyScrapesiteQueueKey \<in> set (site_popKeys q)"
  by (simp add: site_ok_def)

lemma site_queueKey_in: "site_ok q \<Longrightarrow> site_queueKey q u \<in> set (site_popKeys q)"
proof (cases "siteShardKeys q = []")
  case False
  assume "site_ok q"
  moreover from this False have "shard_index u (length (siteShardKeys q)) < length (siteShardKeys q)"
    by (intro shard_index_less) (auto simp: site_ok_def)
  ultimately show ?thesis using False by (auto simp: site_queueKey_def site_ok_def)
qed (simp add: site_queueKey_def site_ok_def)

lemma site_config_ok: "site_ok (site_config n)"
proof -
  have "length (siteShardKeys (site_config n)) \<le> 64"
    by (auto simp: site_config_def Let_def buildScrapeQueueShardKeys_def maxScrapeQueueShards_def defaultScrapeQueueShards_def)
  then show ?thesis
    by (auto simp: site_ok_def site_config_def Let_def site_popKeys_def buildScrapePopQueueKeys_def buildScrapeQueueShardKeys_def)
qed

subsection \<open>Changes of the sorted sets\<close>

definition index_in :: "'r redis_ops \<Rightarrow> RedisScrapeSiteQueue \<Rightarrow> 'r \<Rightarrow> bool" where
  "index_in R q s \<longleftrightarrow> (\<forall>k x. ZSCORE R heads_key k s = Some x \<longrightarrow> k \<in> set (site_popKeys q))"

definition quiet :: "'r redis_ops \<Rightarrow> RedisScrapeSiteQueue \<Rightarrow> 'r \<Rightarrow> 'r \<Rightarrow> bool" where
  "quiet R q s s' \<longleftrightarrow> (\<forall>k. string_key q k \<longrightarrow> GET R k s' = GET R k s) \<and> (index_in R q s \<longrightarrow> index_in R q s')"

lemma quiet_refl [simp]: "quiet R q s s"
  by (simp add: quiet_def)

lemma quiet_trans: "quiet R q s t \<Longrightarrow> quiet R q t u \<Longrightarrow> quiet R q s u"
  by (simp add: quiet_def)

lemma quiet_get: "quiet R q s s' \<Longrightarrow> string_key q k \<Longrightarrow> GET R k s' = GET R k s"
  by (simp add: quiet_def)

context redis_store
begin

lemma quiet_zrem:
  assumes "site_ok q" "k \<in> set (site_popKeys q) \<or> k = heads_key"
  shows "quiet R q s (ZREM R k m s)"
proof -
  have "GET R k' (ZREM R k m s) = GET R k' s" if "string_key q k'" for k'
    using that assms(2) by (intro get_zrem) (auto simp: string_key_def)
  moreover have "index_in R q s \<longrightarrow> index_in R q (ZREM R k m s)" by (auto simp: index_in_def zset_laws split: if_splits)
  ultimately show ?thesis by (simp add: quiet_def)
qed

lemma quiet_zadd:
  assumes "site_ok q" "k \<in> set (site_popKeys q) \<or> k = heads_key \<and> m \<in> set (site_popKeys q)"
  shows "quiet R q s (ZADD R f k x m s)"
proof -
  have "GET R k' (ZADD R f k x m s) = GET R k' s" if "string_key q k'" for k'
    using that assms(2) by (intro get_zadd) (auto simp: string_key_def)
  moreover have "index_in R q s \<longrightarrow> index_in R q (ZADD R f k x m s)"
    using assms heads_not_queue [OF assms(1)] by (auto simp: index_in_def zset_laws split: if_splits)
  ultimately show ?thesis by (simp add: quiet_def)
qed

lemma quiet_refresh_head: "site_ok q \<Longrightarrow> k \<in> set (site_popKeys q) \<Longrightarrow> quiet R q s (refresh_head R heads_key k s)"
  by (auto simp: refresh_head_def quiet_zrem quiet_zadd split: option.splits)

lemma quiet_index_shard: "site_ok q \<Longrightarrow> k \<in> set (site_popKeys q) \<Longrightarrow> quiet R q s (index_shard R heads_key k s)"
  by (auto simp: index_shard_def quiet_zadd split: option.splits)

lemma quiet_RefreshHeads: "site_ok q \<Longrightarrow> set ks \<subseteq> set (site_popKeys q) \<Longrightarrow> quiet R q s (RefreshHeads R heads_key ks s)"
  unfolding RefreshHeads_def
proof (induction ks arbitrary: s)
  case (Cons k ks)
  then have "quiet R q s (refresh_head R heads_key k s)" by (simp add: quiet_refresh_head)
  from quiet_trans [OF this] Cons show ?case by simp
qed simp

lemma index_in_set: "site_ok q \<Longrightarrow> string_key q k \<Longrightarrow> index_in R q (SET R k v s) = index_in R q s"
  by (simp add: index_in_def zscore_set string_key_def)

lemma index_in_del: "site_ok q \<Longrightarrow> string_key q k \<Longrightarrow> index_in R q (DEL R k s) = index_in R q s"
  by (simp add: index_in_def zscore_del string_key_def)

end

subsection \<open>Views\<close>

record site_view =
  vw_seq :: "string option"
  vw_lease :: "string \<Rightarrow> string option"
  vw_schedule :: "string \<Rightarrow> string option"
  vw_site :: "string \<Rightarrow> string option"

definition view :: "'r redis_ops \<Rightarrow> 'r \<Rightarrow> site_view" where
  "view R s = \<lparr>vw_seq = GET R scrapeClaimSequenceKey s, vw_lease = (\<lambda>u. GET R (lease_key u) s),
     vw_schedule = (\<lambda>u. GET R (schedule_key u) s), vw_site = (\<lambda>u. GET R (site_key u) s)\<rparr>"

lemma view_simps [simp]:
  "vw_seq (view R s) = GET R scrapeClaimSequenceKey s" "vw_lease (view R s) u = GET R (lease_key u) s"
  "vw_schedule (view R s) u = GET R (schedule_key u) s" "vw_site (view R s) u = GET R (site_key u) s"
  by (simp_all add: view_def)

lemma quiet_view: "site_ok q \<Longrightarrow> quiet R q s s' \<Longrightarrow> view R s' = view R s"
  by (simp add: view_def quiet_get)

context redis_store
begin

lemma view_set [simp]:
  "view R (SET R (site_key u) v s) = (view R s)\<lparr>vw_site := (vw_site (view R s))(u := Some v)\<rparr>"
  "view R (SET R (schedule_key u) v s) = (view R s)\<lparr>vw_schedule := (vw_schedule (view R s))(u := Some v)\<rparr>"
  "view R (SET R (lease_key u) v s) = (view R s)\<lparr>vw_lease := (vw_lease (view R s))(u := Some v)\<rparr>"
  "view R (SET R scrapeClaimSequenceKey v s) = (view R s)\<lparr>vw_seq := Some v\<rparr>"
  "view R (SET R scrapeQueueRescheduleStateKey v s) = view R s"
  by (simp_all add: view_def get_set fun_eq_iff)

lemma view_del [simp]:
  "view R (DEL R (site_key u) s) = (view R s)\<lparr>vw_site := (vw_site (view R s))(u := None)\<rparr>"
  "view R (DEL R (schedule_key u) s) = (view R s)\<lparr>vw_schedule := (vw_schedule (view R s))(u := None)\<rparr>"
  "view R (DEL R (lease_key u) s) = (view R s)\<lparr>vw_lease := (vw_lease (view R s))(u := None)\<rparr>"
  by (simp_all add: view_def get_del fun_eq_iff)

end

text \<open>What any command may do to the view; only the schedules of the sources in \<open>D\<close> may be deleted.\<close>

definition view_table :: "site_env \<Rightarrow> site_view \<Rightarrow> string \<Rightarrow> luaSchedule option" where
  "view_table E v u = (case vw_schedule v u of None \<Rightarrow> Some empty_table | Some raw \<Rightarrow> table_decode E raw)"

definition next_claim :: "string option \<Rightarrow> int option" where
  "next_claim raw = (case raw of None \<Rightarrow> Some 1 | Some t \<Rightarrow>
     (case ParseInt t of None \<Rightarrow> None | Some v \<Rightarrow> if v = 2 ^ 63 - 1 then None else Some (v + 1)))"

definition with_deadline :: "luaSchedule \<Rightarrow> int \<Rightarrow> luaSchedule" where
  "with_deadline t r = (if 0 < r then t\<lparr>ls_retry_after := Some r\<rparr> else t)"

definition site_named :: "site_env \<Rightarrow> string \<Rightarrow> string \<Rightarrow> bool" where
  "site_named E u payload \<longleftrightarrow> (\<forall>site. site_Unmarshal E payload = Some site \<longrightarrow> si_URL site = u)"

inductive view_step :: "site_env \<Rightarrow> string set \<Rightarrow> site_view \<Rightarrow> site_view \<Rightarrow> bool" for E and D where
  same: "view_step E D v v"
| put_site: "site_named E u payload \<Longrightarrow> view_step E D v (v\<lparr>vw_site := (vw_site v)(u := Some payload)\<rparr>)"
| drop_site: "view_step E D v (v\<lparr>vw_site := (vw_site v)(u := None)\<rparr>)"
| drop_schedule: "u \<in> D \<Longrightarrow> view_step E D v (v\<lparr>vw_schedule := (vw_schedule v)(u := None)\<rparr>)"
| drop_claim: "view_step E D v (v\<lparr>vw_lease := (vw_lease v)(u := None)\<rparr>)"
| claim: "next_claim (vw_seq v) = Some k \<Longrightarrow>
    view_step E D v (v\<lparr>vw_seq := Some (FormatInt k), vw_lease := (vw_lease v)(u := Some (FormatInt k))\<rparr>)"
| extend: "view_table E v u = Some t \<Longrightarrow> lua_retry t < r \<Longrightarrow>
    view_step E D v (v\<lparr>vw_schedule := (vw_schedule v)(u := Some (table_encode E (t\<lparr>ls_retry_after := Some r\<rparr>)))\<rparr>)"
| commit: "vw_lease v u = Some (FormatInt c) \<Longrightarrow> view_table E v u = Some t \<Longrightarrow> table_decode E payload = Some incoming \<Longrightarrow>
    view_step E D v (v\<lparr>vw_schedule := (vw_schedule v)(u := Some (table_encode E (with_deadline incoming (max (lua_retry t) (lua_retry incoming))))),
                      vw_lease := (vw_lease v)(u := None)\<rparr>)"
| reset: "vw_lease v u = None \<Longrightarrow> view_table E v u = Some t \<Longrightarrow>
    view_step E D v (v\<lparr>vw_schedule := (vw_schedule v)(u := if 0 < lua_retry t
                          then Some (table_encode E (empty_table\<lparr>ls_retry_after := Some (lua_retry t)\<rparr>)) else None)\<rparr>)"

abbreviation view_steps :: "site_env \<Rightarrow> string set \<Rightarrow> site_view \<Rightarrow> site_view \<Rightarrow> bool" where
  "view_steps E D \<equiv> (view_step E D)\<^sup>*\<^sup>*"


subsection \<open>Scripts are steps of the view\<close>

lemma INCR_eq: "INCR R k s = (case next_claim (GET R k s) of None \<Rightarrow> (None, s) | Some v \<Rightarrow> (Some v, SET R k (FormatInt v) s))"
  by (simp add: INCR_def next_claim_def split: option.splits)

definition claimed_view :: "string \<Rightarrow> int \<Rightarrow> site_view \<Rightarrow> site_view" where
  "claimed_view u k v = v\<lparr>vw_seq := Some (FormatInt k), vw_lease := (vw_lease v)(u := Some (FormatInt k))\<rparr>"

text \<open>A pop answers a miss (or raises) and leaves the view, or it claims one source under the next number.\<close>

definition pop_claims :: "'r redis_ops \<Rightarrow> RedisScrapeSiteQueue \<Rightarrow> string \<Rightarrow> go_value option \<Rightarrow> 'r \<Rightarrow> 'r \<Rightarrow> bool" where
  "pop_claims R q u r s s' \<longleftrightarrow> (\<exists>k data score lease sch queue. next_claim (GET R scrapeClaimSequenceKey s) = Some k \<and>
     GET R (site_key u) s = Some data \<and> sch = (case GET R (schedule_key u) s of None \<Rightarrow> ''{}'' | Some v \<Rightarrow> v) \<and>
     r = Some (site_pop_hit u data score lease sch queue k) \<and> queue \<in> set (site_popKeys q) \<and> view R s' = claimed_view u k (view R s))"

definition pop_result :: "'r redis_ops \<Rightarrow> RedisScrapeSiteQueue \<Rightarrow> go_value option \<Rightarrow> 'r \<Rightarrow> 'r \<Rightarrow> bool" where
  "pop_result R q r s s' \<longleftrightarrow> (view R s' = view R s \<and> (r = None \<or> (\<exists>n. r = Some (site_pop_miss n)))) \<or> (\<exists>u. pop_claims R q u r s s')"

lemma pop_result_view:
  assumes "view R t = view R s" "pop_result R q r t s'" shows "pop_result R q r s s'"
proof -
  have "GET R scrapeClaimSequenceKey t = GET R scrapeClaimSequenceKey s" using assms(1) by (metis view_simps(1))
  moreover have "GET R (schedule_key u) t = GET R (schedule_key u) s" for u using assms(1) by (metis view_simps(3))
  moreover have "GET R (site_key u) t = GET R (site_key u) s" for u using assms(1) by (metis view_simps(4))
  ultimately show ?thesis using assms unfolding pop_result_def pop_claims_def by simp
qed

context redis_store
begin

lemma claim_view:
  assumes ok: "site_ok q" "queue \<in> set (site_popKeys q)" and data: "GET R (site_key u) s = Some data"
    and run: "claim_site R heads_key queue u data score now lease s = (r, s')" and ix: "index_in R q s"
  shows "index_in R q s' \<and> pop_result R q r s s'"
proof (cases "next_claim (GET R scrapeClaimSequenceKey s)")
  case None
  then have "r = None" "s' = s" using run by (simp_all add: claim_site_def INCR_eq)
  then show ?thesis using ix by (simp add: pop_result_def)
next
  case (Some k)
  define t where "t = SET R (lease_key u) (FormatInt k) (SET R scrapeClaimSequenceKey (FormatInt k) s)"
  define w where "w = refresh_head R heads_key queue (ZADD R ZAny queue (of_int (now + lease)) u t)"
  have q: "quiet R q t w"
    unfolding w_def by (rule quiet_trans [OF quiet_zadd quiet_refresh_head]) (use ok in simp_all)
  have it: "index_in R q t" using ix ok(1) by (simp add: t_def index_in_set)
  have vt: "view R t = claimed_view u k (view R s)" by (simp add: t_def claimed_view_def)
  have sch: "GET R (schedule_key u) w = GET R (schedule_key u) s"
    using quiet_get [OF q string_keys(2) [OF ok(1)]] by (simp add: t_def get_set)
  have run': "r = Some (site_pop_hit u data \<lfloor>score\<rfloor> (now + lease) (case GET R (schedule_key u) s of None \<Rightarrow> ''{}'' | Some v \<Rightarrow> v) queue k)" "s' = w"
    using run Some sch by (auto simp: claim_site_def INCR_eq Let_def t_def w_def)
  have "view R s' = claimed_view u k (view R s)" using quiet_view [OF ok(1) q] vt run'(2) by simp
  moreover have "index_in R q s'" using q it run'(2) by (simp add: quiet_def)
  ultimately show ?thesis using Some data run'(1) ok(2) unfolding pop_result_def pop_claims_def by blast
qed

lemma quiet_pop:
  assumes "site_ok q" "quiet R q s t" "index_in R q s" "index_in R q t \<Longrightarrow> index_in R q s' \<and> pop_result R q r t s'"
  shows "index_in R q s' \<and> pop_result R q r s s'"
proof -
  have "index_in R q t" using assms(2,3) unfolding quiet_def by blast
  then have x: "index_in R q s'" "pop_result R q r t s'" using assms(4) by blast+
  from pop_result_view [OF quiet_view [OF assms(1,2)] x(2)] x(1) show ?thesis by blast
qed

lemma pop_loop_view:
  assumes ok: "site_ok q"
  shows "index_in R q s \<Longrightarrow> site_pop_loop R heads_key now lease n s = (r, s') \<Longrightarrow> index_in R q s' \<and> pop_result R q r s s'"
proof (induction n arbitrary: s)
  case 0
  then show ?case by (auto simp: pop_result_def)
next
  case (Suc n)
  show ?case
  proof (cases "ZHEAD R heads_key s")
    case None
    then show ?thesis using Suc.prems by (auto simp: pop_result_def)
  next
    case (Some a)
    obtain queue indexed where h: "ZHEAD R heads_key s = Some (queue, indexed)" using Some by (cases a) blast
    have queue: "queue \<in> set (site_popKeys q)" using head_some(1) [OF h] Suc.prems(1) by (auto simp: index_in_def)
    show ?thesis
    proof (cases "ZHEAD R queue s")
      case None
      have qt: "quiet R q s (ZREM R heads_key queue s)" by (rule quiet_zrem [OF ok]) simp
      have run: "site_pop_loop R heads_key now lease n (ZREM R heads_key queue s) = (r, s')" using Suc.prems(2) by (simp add: h None)
          from quiet_pop [OF ok qt Suc.prems(1) Suc.IH [OF _ run]] show ?thesis by blast
    next
      case (Some b)
      obtain member score where b: "ZHEAD R queue s = Some (member, score)" using Some by (cases b) blast
      consider "score \<noteq> indexed" | "score = indexed" "of_int now < score" | "score = indexed" "\<not> of_int now < score" by blast
      then show ?thesis
      proof cases
        case 1
        have qt: "quiet R q s (ZADD R ZAny heads_key score queue s)" by (rule quiet_zadd [OF ok]) (simp add: queue)
        have run: "site_pop_loop R heads_key now lease n (ZADD R ZAny heads_key score queue s) = (r, s')" using Suc.prems(2) by (simp add: h b 1)
          from quiet_pop [OF ok qt Suc.prems(1) Suc.IH [OF _ run]] show ?thesis by blast
      next
        case 2
        then show ?thesis using Suc.prems h b by (auto simp: pop_result_def)
      next
        case 3
        show ?thesis
        proof (cases "GET R (site_key member) s")
          case None
          have qt: "quiet R q s (refresh_head R heads_key queue (ZREM R queue member s))"
            by (rule quiet_trans [OF quiet_zrem quiet_refresh_head]) (simp_all add: ok queue)
          have run: "site_pop_loop R heads_key now lease n (refresh_head R heads_key queue (ZREM R queue member s)) = (r, s')" using Suc.prems(2) 3 by (simp add: h b None)
          from quiet_pop [OF ok qt Suc.prems(1) Suc.IH [OF _ run]] show ?thesis by blast
        next
          case (Some data)
          have "claim_site R heads_key queue member data score now lease s = (r, s')"
            using Suc.prems(2) h b Some 3 by simp
          then show ?thesis by (rule claim_view [OF ok queue Some _ Suc.prems(1)])
        qed
      qed
    qed
  qed
qed

end

lemma pop_result_step: "pop_result R q r s s' \<Longrightarrow> view_step E D (view R s) (view R s')"
  unfolding pop_result_def pop_claims_def claimed_view_def
  using view_step.same view_step.claim [of "view R s"] by (metis view_simps(1))


lemma stored_view: "stored_table E R (schedule_key u) s = view_table E (view R s) u"
  by (simp add: stored_table_def view_table_def)

text \<open>What a completion does to the view, by what it answers.\<close>

abbreviation complete_site :: "site_env \<Rightarrow> 'r redis_ops \<Rightarrow> RedisScrapeSiteQueue \<Rightarrow> string \<Rightarrow> string \<Rightarrow> int \<Rightarrow> string \<Rightarrow> int \<Rightarrow> 'r \<Rightarrow> int option \<times> 'r" where
  "complete_site E R q queue u nxt payload c \<equiv>
     site_complete_script E R queue heads_key (site_key u) (schedule_key u) (lease_key u) (site_queueKey q u) u nxt payload c"

definition extended_view :: "site_env \<Rightarrow> string \<Rightarrow> luaSchedule \<Rightarrow> int \<Rightarrow> site_view \<Rightarrow> site_view" where
  "extended_view E u t r v = v\<lparr>vw_schedule := (vw_schedule v)(u := Some (table_encode E (t\<lparr>ls_retry_after := Some r\<rparr>)))\<rparr>"

definition committed_view :: "site_env \<Rightarrow> string \<Rightarrow> luaSchedule \<Rightarrow> luaSchedule \<Rightarrow> site_view \<Rightarrow> site_view" where
  "committed_view E u t incoming v = v\<lparr>vw_schedule := (vw_schedule v)(u := Some (table_encode E (with_deadline incoming (max (lua_retry t) (lua_retry incoming))))),
     vw_lease := (vw_lease v)(u := None)\<rparr>"

context redis_store
begin

lemma zscore_index_shard: "k' \<noteq> heads \<Longrightarrow> ZSCORE R k' m (index_shard R heads k s) = ZSCORE R k' m s"
  by (simp add: index_shard_def zset_laws split: option.splits)

text \<open>A completion without the claim: the score may only be raised to the deadline, of a source nobody holds.\<close>

lemma stale_complete:
  assumes ok: "site_ok q" "queue \<in> set (site_popKeys q)" and run: "complete_site E R q queue u nxt payload c s = (r, s')"
    and stale: "GET R (lease_key u) s \<noteq> Some (FormatInt c)"
  shows "(r = None \<or> r = Some 0) \<and> (index_in R q s \<longrightarrow> index_in R q s') \<and>
    (view R s' = view R s \<or> (\<exists>t incoming. view_table E (view R s) u = Some t \<and> table_decode E payload = Some incoming \<and>
       lua_retry t < lua_retry incoming \<and> view R s' = extended_view E u t (lua_retry incoming) (view R s))) \<and>
    (\<forall>k \<in> set (site_popKeys q). \<forall>m. ZSCORE R k m s' = ZSCORE R k m s \<or>
       (\<exists>x y. m = u \<and> GET R (lease_key u) s = None \<and> ZSCORE R k m s = Some x \<and> ZSCORE R k m s' = Some y \<and> x < y))"
proof -
  have own: "site_queueKey q u \<in> set (site_popKeys q)" by (rule site_queueKey_in [OF ok(1)])
  obtain k score where k: "(k, score) = (if ZSCORE R queue u s = None \<and> site_queueKey q u \<noteq> queue
      then (site_queueKey q u, ZSCORE R (site_queueKey q u) u s) else (queue, ZSCORE R queue u s))"
    by (metis prod.collapse)
  then have kin: "k \<in> set (site_popKeys q)" and sc: "score = ZSCORE R k u s" using ok(2) own by (auto split: if_splits)
  have trivial: ?thesis if "s' = s" "r = None \<or> r = Some 0" using that by simp
  show ?thesis
  proof (cases "GET R (site_key u) s = None \<or> table_decode E payload = None \<or> view_table E (view R s) u = None")
    case True
    then show ?thesis using run trivial unfolding site_complete_script_def k [symmetric] stored_view Let_def
      by (auto split: option.splits if_splits)
  next
    case False
    then have "table_decode E payload \<noteq> None" "view_table E (view R s) u \<noteq> None" and g: "GET R (site_key u) s \<noteq> None" by (simp_all only: de_Morgan_disj not_False_eq_True)
    then obtain incoming t where d: "table_decode E payload = Some incoming" "view_table E (view R s) u = Some t" by (auto simp del: view_simps)
    define ra where "ra = max (lua_retry t) (lua_retry incoming)"
    define s1 where "s1 = (if lua_retry t < ra then SET R (schedule_key u) (table_encode E (t\<lparr>ls_retry_after := Some ra\<rparr>)) s else s)"
    define s2 where "s2 = (if score \<noteq> None \<and> GET R (lease_key u) s = None \<and> the score < of_int ra
      then index_shard R heads_key k (ZADD R ZAny k (of_int ra) u s1) else s1)"
    have r: "r = Some 0" "s' = s2"
      using run stale d g unfolding site_complete_script_def k [symmetric] stored_view prod.case Let_def
      by (simp_all add: ra_def s1_def s2_def cong: if_cong)
    have q2: "quiet R q s1 s2"
      unfolding s2_def using quiet_trans [OF quiet_zadd quiet_index_shard] ok(1) kin by simp
    have v: "view R s' = (if lua_retry t < lua_retry incoming then extended_view E u t (lua_retry incoming) (view R s) else view R s)"
      unfolding r(2) quiet_view [OF ok(1) q2] by (auto simp: s1_def ra_def extended_view_def)
    have ix: "index_in R q s \<longrightarrow> index_in R q s'"
      using q2 ok(1) unfolding r(2) quiet_def by (simp add: s1_def index_in_set)
    have z: "ZSCORE R k' m s' = ZSCORE R k' m s \<or>
       (\<exists>x y. m = u \<and> GET R (lease_key u) s = None \<and> ZSCORE R k' m s = Some x \<and> ZSCORE R k' m s' = Some y \<and> x < y)"
      if "k' \<in> set (site_popKeys q)" for k' m
    proof -
      have h: "k' \<noteq> heads_key" "schedule_key u \<noteq> k'" "k \<noteq> heads_key"
        using that kin heads_not_queue [OF ok(1)] string_keys(2) [OF ok(1), of u] by (auto simp: string_key_def)
      have s1: "ZSCORE R k' m s1 = ZSCORE R k' m s" using h(2) by (simp add: s1_def zscore_set)
      have s2: "ZSCORE R k' m s2 = (if score \<noteq> None \<and> GET R (lease_key u) s = None \<and> the score < of_int ra \<and> k' = k \<and> m = u
          then Some (of_int ra) else ZSCORE R k' m s)" 
        using s1 h(1,3) by (cases "score \<noteq> None \<and> GET R (lease_key u) s = None \<and> the score < of_int ra") (auto simp: s2_def zscore_index_shard zset_laws)
      show ?thesis unfolding r(2) s2 using sc by (cases "ZSCORE R k u s") auto
    qed
    show ?thesis using r(1) v ix z d by auto
  qed
qed

lemma holder_complete:
  assumes ok: "site_ok q" "queue \<in> set (site_popKeys q)" and run: "complete_site E R q queue u nxt payload c s = (r, s')"
    and held: "GET R (lease_key u) s = Some (FormatInt c)"
  shows "(index_in R q s \<longrightarrow> index_in R q s') \<and>
    ((r = None \<or> r = Some 0) \<and> (view R s' = view R s \<or> (\<exists>t incoming. view_table E (view R s) u = Some t \<and> table_decode E payload = Some incoming \<and>
        lua_retry t < lua_retry incoming \<and> view R s' = extended_view E u t (lua_retry incoming) (view R s))) \<or>
     r = Some 1 \<and> (\<exists>t incoming k. view_table E (view R s) u = Some t \<and> table_decode E payload = Some incoming \<and>
       view R s' = committed_view E u t incoming (view R s) \<and> k \<in> set (site_popKeys q) \<and>
       ZSCORE R k u s' = Some (of_int (max nxt (max (lua_retry t) (lua_retry incoming))))))"
proof -
  have own: "site_queueKey q u \<in> set (site_popKeys q)" by (rule site_queueKey_in [OF ok(1)])
  obtain k score where k: "(k, score) = (if ZSCORE R queue u s = None \<and> site_queueKey q u \<noteq> queue
      then (site_queueKey q u, ZSCORE R (site_queueKey q u) u s) else (queue, ZSCORE R queue u s))"
    by (metis prod.collapse)
  then have kin: "k \<in> set (site_popKeys q)" and sc: "score = ZSCORE R k u s" using ok(2) own by (auto split: if_splits)
  show ?thesis
  proof (cases "GET R (site_key u) s = None \<or> table_decode E payload = None \<or> view_table E (view R s) u = None")
    case True
    then have "(r = None \<or> r = Some 0) \<and> s' = s"
      using run unfolding site_complete_script_def k [symmetric] stored_view Let_def
      by (auto split: option.splits if_splits)
    then show ?thesis by simp
  next
    case False
    then have "table_decode E payload \<noteq> None" "view_table E (view R s) u \<noteq> None" and g: "GET R (site_key u) s \<noteq> None" by (simp_all only: de_Morgan_disj not_False_eq_True)
    then obtain incoming t where d: "table_decode E payload = Some incoming" "view_table E (view R s) u = Some t" by (auto simp del: view_simps)
    define ra where "ra = max (lua_retry t) (lua_retry incoming)"
    show ?thesis
    proof (cases score)
      case None
      define s1 where "s1 = (if lua_retry t < ra then SET R (schedule_key u) (table_encode E (t\<lparr>ls_retry_after := Some ra\<rparr>)) s else s)"
      have r: "r = Some 0" "s' = s1"
        using run d g None unfolding site_complete_script_def k [symmetric] stored_view prod.case Let_def
        by (simp_all add: ra_def s1_def cong: if_cong)
      have v: "view R s' = (if lua_retry t < lua_retry incoming then extended_view E u t (lua_retry incoming) (view R s) else view R s)"
        by (auto simp: r(2) s1_def ra_def extended_view_def)
      have "index_in R q s \<longrightarrow> index_in R q s'" using ok(1) by (simp add: r(2) s1_def index_in_set)
      then show ?thesis using r(1) v d by auto
    next
      case (Some x)
      define s1 where "s1 = DEL R (lease_key u) (SET R (schedule_key u) (table_encode E (with_deadline incoming ra)) s)"
      define s2 where "s2 = index_shard R heads_key k (ZADD R ZAny k (of_int (max nxt ra)) u s1)"
      have r: "r = Some 1" "s' = s2"
        using run d g Some held unfolding site_complete_script_def k [symmetric] stored_view prod.case Let_def
        by (simp_all add: ra_def s1_def with_deadline_def s2_def cong: if_cong)
      have q2: "quiet R q s1 s2" unfolding s2_def by (rule quiet_trans [OF quiet_zadd quiet_index_shard]) (simp_all add: ok(1) kin)
      have v: "view R s' = committed_view E u t incoming (view R s)"
        unfolding r(2) quiet_view [OF ok(1) q2] by (simp add: s1_def ra_def committed_view_def)
      have ix: "index_in R q s \<longrightarrow> index_in R q s'"
        using q2 ok(1) unfolding r(2) quiet_def by (simp add: s1_def index_in_set index_in_del)
      have "k \<noteq> heads_key" using kin heads_not_queue [OF ok(1)] by blast
      then have "ZSCORE R k u s' = Some (of_int (max nxt ra))"
        by (simp add: r(2) s2_def zscore_index_shard zset_laws)
      then show ?thesis using r(1) v ix d kin unfolding ra_def by blast
    qed
  qed
qed

end


subsection \<open>The running queue\<close>

definition marshal_named :: "site_env \<Rightarrow> bool" where
  "marshal_named E \<longleftrightarrow> (\<forall>site payload. site_Marshal E site = Some payload \<longrightarrow> site_named E (si_URL site) payload)"

definition table_law :: "site_env \<Rightarrow> bool" where
  "table_law E \<longleftrightarrow> (\<forall>t. table_decode E (table_encode E t) = Some t)"

text \<open>
  One command or script, of any worker, importer or administrator, or the expiry of a claim. Pipelines are
  sequences of these. Only removals delete schedules: those of the sources in \<open>D\<close>.
\<close>

inductive site_step :: "site_env \<Rightarrow> 'r redis_ops \<Rightarrow> RedisScrapeSiteQueue \<Rightarrow> string set \<Rightarrow> 'r \<Rightarrow> 'r \<Rightarrow> bool" for E R q D where
  store: "site_Marshal E site = Some payload \<Longrightarrow> site_step E R q D s (SET R (site_key (si_URL site)) payload s)"
| enlist: "site_step E R q D s (ZADD R NX (site_queueKey q u) x u s)"
| leave: "k \<in> set (site_popKeys q) \<Longrightarrow> site_step E R q D s (ZREM R k u s)"
| lower: "k \<in> set (site_popKeys q) \<Longrightarrow> site_step E R q D s (ZADD R LT heads_key x k s)"
| drop_site: "site_step E R q D s (DEL R (site_key u) s)"
| drop_schedule: "u \<in> D \<Longrightarrow> site_step E R q D s (DEL R (schedule_key u) s)"
| drop_claim: "site_step E R q D s (DEL R (lease_key u) s)"
| pop: "site_step E R q D s (snd (site_pop_script R heads_key now lease s))"
| complete: "queue \<in> set (site_popKeys q) \<Longrightarrow> site_step E R q D s (snd (complete_site E R q queue u nxt payload c s))"
| force: "queue \<in> set (site_popKeys q) \<Longrightarrow> payload = [] \<or> (\<exists>site. site_Marshal E site = Some payload \<and> si_URL site = u) \<Longrightarrow>
    site_step E R q D s (snd (force_member E R queue u now payload s))"
| renew: "queue \<in> set (site_popKeys q) \<Longrightarrow>
    site_step E R q D s (snd (site_renew_script R queue heads_key (site_key u) (lease_key u) u c renewed s))"
| refresh: "site_step E R q D s (RefreshHeads R heads_key (site_popKeys q) s)"
| interval: "site_step E R q D s (SET R scrapeQueueRescheduleStateKey v s)"

abbreviation site_steps :: "site_env \<Rightarrow> 'r redis_ops \<Rightarrow> RedisScrapeSiteQueue \<Rightarrow> string set \<Rightarrow> 'r \<Rightarrow> 'r \<Rightarrow> bool" where
  "site_steps E R q D \<equiv> (site_step E R q D)\<^sup>*\<^sup>*"

definition site_simulated :: "site_env \<Rightarrow> 'r redis_ops \<Rightarrow> RedisScrapeSiteQueue \<Rightarrow> string set \<Rightarrow> 'r \<Rightarrow> 'r \<Rightarrow> bool" where
  "site_simulated E R q D s s' \<longleftrightarrow> index_in R q s' \<and> view_steps E D (view R s) (view R s')"

lemma simulated_quiet: "site_ok q \<Longrightarrow> quiet R q s s' \<Longrightarrow> index_in R q s \<Longrightarrow> site_simulated E R q D s s'"
  using quiet_view [of q R s s'] by (simp add: site_simulated_def quiet_def)

lemma simulated_step: "index_in R q s' \<Longrightarrow> view_step E D (view R s) (view R s') \<Longrightarrow> site_simulated E R q D s s'"
  by (simp add: site_simulated_def r_into_rtranclp)

lemma extended_step:
  assumes "v' = v \<or> (\<exists>t incoming. view_table E v u = Some t \<and> table_decode E payload = Some incoming \<and>
    lua_retry t < lua_retry incoming \<and> v' = extended_view E u t (lua_retry incoming) v)"
  shows "view_step E D v v'"
  using assms view_step.same view_step.extend unfolding extended_view_def by metis

lemma committed_step:
  assumes "vw_lease v u = Some (FormatInt c)" "view_table E v u = Some t" "table_decode E payload = Some incoming"
  shows "view_step E D v (committed_view E u t incoming v)"
  unfolding committed_view_def by (rule view_step.commit [OF assms])

context redis_store
begin

lemma complete_simulated:
  assumes "site_ok q" "queue \<in> set (site_popKeys q)" "index_in R q s"
  shows "site_simulated E R q D s (snd (complete_site E R q queue u nxt payload c s))"
proof -
  obtain r s' where run: "complete_site E R q queue u nxt payload c s = (r, s')" by (metis prod.collapse)
  show ?thesis
  proof (cases "GET R (lease_key u) s = Some (FormatInt c)")
    case False
    from stale_complete [OF assms(1,2) run False] have "index_in R q s'" "view_step E D (view R s) (view R s')"
      using assms(3) extended_step by blast+
    then show ?thesis unfolding run snd_conv by (rule simulated_step)
  next
    case True
    then have l: "vw_lease (view R s) u = Some (FormatInt c)" by simp
    note h = holder_complete [OF assms(1,2) run True]
    have "view_step E D (view R s) (view R s')"
    proof (cases "\<exists>t incoming. view_table E (view R s) u = Some t \<and> table_decode E payload = Some incoming \<and> view R s' = committed_view E u t incoming (view R s)")
      case True
      then show ?thesis using committed_step [OF l] by metis
    next
      case False
      with h show ?thesis using extended_step by blast
    qed
    moreover have "index_in R q s'" using h assms(3) by blast
    ultimately show ?thesis unfolding run snd_conv by (intro simulated_step)
  qed
qed

lemma force_simulated:
  assumes "site_ok q" "queue \<in> set (site_popKeys q)" "index_in R q s" "marshal_named E"
    "payload = [] \<or> (\<exists>site. site_Marshal E site = Some payload \<and> si_URL site = u)"
  shows "site_simulated E R q D s (snd (force_member E R queue u now payload s))"
proof -
  have skip: "site_simulated E R q D s s" using assms(3) by (simp add: site_simulated_def)
  consider "GET R (lease_key u) s \<noteq> None \<or> view_table E (view R s) u = None \<or> payload = [] \<and> ZSCORE R queue u s = None"
    | t where "GET R (lease_key u) s = None" "view_table E (view R s) u = Some t" "\<not> (payload = [] \<and> ZSCORE R queue u s = None)"
    by (cases "view_table E (view R s) u"; cases "GET R (lease_key u) s = None \<and> \<not> (payload = [] \<and> ZSCORE R queue u s = None)") auto
  then show ?thesis
  proof cases
    case 1
    then have "snd (force_member E R queue u now payload s) = s"
      by (auto simp: force_member_def site_force_script_def stored_view Let_def split: option.splits)
    with skip show ?thesis by simp
  next
    case (2 t)
    define s1 where "s1 = (if payload \<noteq> [] then SET R (site_key u) payload s else s)"
    define s2 where "s2 = (if 0 < lua_retry t then SET R (schedule_key u) (table_encode E (empty_table\<lparr>ls_retry_after := Some (lua_retry t)\<rparr>)) s1
      else DEL R (schedule_key u) s1)"
    define s3 where "s3 = DEL R (lease_key u) s2"
    define s4 where "s4 = (if queue \<noteq> legacyScrapesiteQueueKey then ZREM R legacyScrapesiteQueueKey u s3 else s3)"
    define s5 where "s5 = index_shard R heads_key queue (ZADD R ZAny queue (of_int (max now (lua_retry t))) u s4)"
    have run: "snd (force_member E R queue u now payload s) = s5"
      unfolding force_member_def site_force_script_def stored_view Let_def 2(1,2) option.case if_not_P [OF 2(3)]
      by (simp add: s5_def s4_def s3_def s2_def s1_def)
    have q34: "quiet R q s3 s4" using quiet_zrem [OF assms(1)] legacy_in [OF assms(1)] by (simp add: s4_def)
    have q45: "quiet R q s4 s5" unfolding s5_def by (rule quiet_trans [OF quiet_zadd quiet_index_shard]) (simp_all add: assms(1,2))
    note q = quiet_trans [OF q34 q45]
    have ix: "index_in R q s3" using assms(1,3) by (simp add: s3_def s2_def s1_def index_in_set index_in_del)
    have put: "view_steps E D (view R s) (view R s1)"
      using assms(4,5) view_step.put_site [of E u payload D "view R s"] by (auto simp: s1_def marshal_named_def)
    have tables: "view_table E (view R s1) u = Some t" "vw_lease (view R s1) u = None"
      using 2(1,2) by (simp_all add: s1_def view_table_def get_set)
    have "view R s3 = (view R s1)\<lparr>vw_schedule := (vw_schedule (view R s1))(u := if 0 < lua_retry t
        then Some (table_encode E (empty_table\<lparr>ls_retry_after := Some (lua_retry t)\<rparr>)) else None)\<rparr>"
      using tables(2) by (simp add: s3_def s2_def fun_upd_idem)
    then have "view_step E D (view R s1) (view R s3)" using view_step.reset [OF tables(2,1)] by simp
    with put have "view_steps E D (view R s) (view R s3)" by simp
    moreover have "index_in R q s5" using q ix by (simp add: quiet_def)
    ultimately show ?thesis unfolding run site_simulated_def quiet_view [OF assms(1) q] by simp
  qed
qed

lemma renew_simulated:
  assumes "site_ok q" "queue \<in> set (site_popKeys q)" "index_in R q s"
  shows "site_simulated E R q D s (snd (site_renew_script R queue heads_key (site_key u) (lease_key u) u c renewed s))"
proof -
  have "quiet R q s (index_shard R heads_key queue (ZADD R ZAny queue (of_int renewed) u s))"
    by (rule quiet_trans [OF quiet_zadd quiet_index_shard]) (simp_all add: assms)
  then show ?thesis
    using assms by (auto simp: site_renew_script_def intro: simulated_quiet)
qed

lemma step_simulated:
  assumes ok: "site_ok q" "marshal_named E" and step: "site_step E R q D s s'" and ix: "index_in R q s"
  shows "site_simulated E R q D s s'"
  using step
proof cases
  case (store site payload)
  then have "site_named E (si_URL site) payload" using ok(2) by (simp add: marshal_named_def)
  then show ?thesis unfolding store(1)
    by (intro simulated_step) (simp_all add: index_in_set ok ix view_step.put_site)
next
  case (enlist u x)
  show ?thesis unfolding enlist by (rule simulated_quiet [OF ok(1) quiet_zadd ix]) (simp_all add: ok site_queueKey_in)
next
  case (leave k u)
  show ?thesis unfolding leave(1) by (rule simulated_quiet [OF ok(1) quiet_zrem ix]) (simp_all add: ok leave)
next
  case (lower k x)
  show ?thesis unfolding lower(1) by (rule simulated_quiet [OF ok(1) quiet_zadd ix]) (simp_all add: ok lower)
next
  case (pop now lease)
  obtain r t where run: "site_pop_loop R heads_key now lease 8 s = (r, t)" by (metis prod.collapse)
  then show ?thesis unfolding pop site_pop_script_def run snd_conv
    using pop_loop_view [OF ok(1) ix run] by (intro simulated_step pop_result_step) blast+
next
  case refresh
  show ?thesis unfolding refresh by (rule simulated_quiet [OF ok(1) quiet_RefreshHeads ix]) (simp_all add: ok)
qed (use ok ix in \<open>auto simp: index_in_set index_in_del complete_simulated force_simulated renew_simulated
       intro!: simulated_step intro: view_step.intros\<close>)

lemma steps_simulated:
  assumes "site_ok q" "marshal_named E" "site_steps E R q D s s'" "index_in R q s"
  shows "site_simulated E R q D s s'"
  using assms(3)
proof (induction rule: rtranclp_induct)
  case base
  then show ?case using assms(4) by (simp add: site_simulated_def)
next
  case (step t u)
  then have "site_simulated E R q D t u" using step_simulated [OF assms(1,2) step(2)] by (simp add: site_simulated_def)
  with step.IH show ?case by (auto simp: site_simulated_def intro: rtranclp_trans)
qed

end


subsection \<open>Claims\<close>

lemma ParseInt_FormatInt: "0 \<le> v \<Longrightarrow> v < 2 ^ 63 \<Longrightarrow> ParseInt (FormatInt v) = Some v"
  using ParseInt_format_nat [of "nat v"] by (simp add: FormatInt_def nat_less_iff)

definition seq_of :: "site_view \<Rightarrow> int" where
  "seq_of v = (case vw_seq v of None \<Rightarrow> 0 | Some t \<Rightarrow> (case ParseInt t of None \<Rightarrow> 0 | Some k \<Rightarrow> k))"

definition view_ok :: "site_env \<Rightarrow> site_view \<Rightarrow> bool" where
  "view_ok E v \<longleftrightarrow> 0 \<le> seq_of v \<and> seq_of v < 2 ^ 63 \<and> (vw_seq v = None \<or> vw_seq v = Some (FormatInt (seq_of v))) \<and>
     (\<forall>u c. vw_lease v u = Some c \<longrightarrow> (\<exists>k. 1 \<le> k \<and> k \<le> seq_of v \<and> c = FormatInt k)) \<and>
     (\<forall>u p. vw_site v u = Some p \<longrightarrow> site_named E u p)"

lemma view_okD:
  assumes "view_ok E v"
  shows "0 \<le> seq_of v" "seq_of v < 2 ^ 63" "vw_lease v u = Some c \<Longrightarrow> \<exists>k. 1 \<le> k \<and> k \<le> seq_of v \<and> c = FormatInt k"
    "vw_site v u = Some p \<Longrightarrow> site_named E u p"
  using assms by (simp_all add: view_ok_def)

lemma next_claim_seq:
  assumes "view_ok E v" "next_claim (vw_seq v) = Some k"
  shows "k = seq_of v + 1" "k < 2 ^ 63"
proof -
  have "vw_seq v = None \<or> vw_seq v = Some (FormatInt (seq_of v))" using assms(1) by (simp add: view_ok_def)
  then consider "vw_seq v = None" | "vw_seq v = Some (FormatInt (seq_of v))" by (elim disjE)
  then have "k = seq_of v + 1 \<and> k < 2 ^ 63"
  proof cases
    case 1
    then show ?thesis using assms(2) by (simp add: next_claim_def seq_of_def)
  next
    case 2
    have p: "ParseInt (FormatInt (seq_of v)) = Some (seq_of v)" by (rule ParseInt_FormatInt [OF view_okD(1,2) [OF assms(1)]])
    have "seq_of v \<noteq> 2 ^ 63 - 1" "k = seq_of v + 1" using assms(2) unfolding 2 next_claim_def option.case p by (simp_all split: if_splits)
    then show ?thesis using view_okD(2) [OF assms(1)] by simp
  qed
  then show "k = seq_of v + 1" "k < 2 ^ 63" by blast+
qed

lemma seq_claimed: "0 \<le> k \<Longrightarrow> k < 2 ^ 63 \<Longrightarrow> vw_seq v = Some (FormatInt k) \<Longrightarrow> seq_of v = k"
  by (simp add: seq_of_def ParseInt_FormatInt)

lemma FormatInt_eq: "0 \<le> a \<Longrightarrow> a < 2 ^ 63 \<Longrightarrow> 0 \<le> b \<Longrightarrow> b < 2 ^ 63 \<Longrightarrow> FormatInt a = FormatInt b \<longleftrightarrow> a = b"
  using ParseInt_FormatInt by (metis option.inject)

lemma claim_ok:
  assumes "view_ok E v" "next_claim (vw_seq v) = Some k"
  shows "view_ok E (claimed_view u k v) \<and> seq_of (claimed_view u k v) = k"
proof -
  note k = next_claim_seq [OF assms] and ok = view_okD [OF assms(1)]
  have seq: "seq_of (claimed_view u k v) = k" by (rule seq_claimed) (use k ok in \<open>simp_all add: claimed_view_def\<close>)
  have "\<exists>j. 1 \<le> j \<and> j \<le> k \<and> c = FormatInt j" if "vw_lease (claimed_view u k v) w = Some c" for w c
  proof (cases "w = u")
    case True
    then show ?thesis using that k(1) ok(1) by (intro exI [of _ k]) (auto simp: claimed_view_def)
  next
    case False
    then have "vw_lease v w = Some c" using that by (simp add: claimed_view_def)
    from ok(3) [OF this] obtain j where "1 \<le> j" "j \<le> seq_of v" "c = FormatInt j" by (elim exE conjE)
    then show ?thesis using k(1) by (intro exI [of _ j]) simp
  qed
  moreover have "vw_seq (claimed_view u k v) = Some (FormatInt k)" "vw_site (claimed_view u k v) = vw_site v" by (simp_all add: claimed_view_def)
  ultimately have "view_ok E (claimed_view u k v)" unfolding view_ok_def seq using k ok(1,4) by simp
  with seq show ?thesis by blast
qed

text \<open>A number that was handed out and is not the claim of \<open>u\<close> will never be again.\<close>

definition retired :: "string \<Rightarrow> int \<Rightarrow> site_view \<Rightarrow> bool" where
  "retired u c v \<longleftrightarrow> 0 \<le> c \<and> c \<le> seq_of v \<and> vw_lease v u \<noteq> Some (FormatInt c)"

definition keeps_claims :: "site_env \<Rightarrow> site_view \<Rightarrow> site_view \<Rightarrow> bool" where
  "keeps_claims E v v' \<longleftrightarrow> view_ok E v' \<and> seq_of v \<le> seq_of v' \<and> (\<forall>u c. retired u c v \<longrightarrow> retired u c v')"

lemma keeps_claims_same_seq:
  assumes "view_ok E v" "vw_seq v' = vw_seq v" "\<And>u. vw_lease v' u = vw_lease v u \<or> vw_lease v' u = None"
    and "\<And>u p. vw_site v' u = Some p \<Longrightarrow> site_named E u p"
  shows "keeps_claims E v v'"
proof -
  have s: "seq_of v' = seq_of v" by (simp add: seq_of_def assms(2))
  have "view_ok E v'"
    using assms(1,4) unfolding view_ok_def s assms(2) by (metis assms(3) option.distinct(1))
  moreover have "retired u c v'" if "retired u c v" for u c
    using that assms(3) [of u] unfolding retired_def s by auto
  ultimately show ?thesis by (simp add: keeps_claims_def s)
qed

lemma view_step_claims:
  assumes "view_step E D v v'" "view_ok E v"
  shows "keeps_claims E v v'"
  using assms(1)
proof cases
  case (claim k u)
  have v': "v' = claimed_view u k v" using claim(1) by (simp add: claimed_view_def)
  note k = next_claim_seq [OF assms(2) claim(2)]
  have "retired w c v'" if r: "retired w c v" for w c
  proof -
    have c: "0 \<le> c" "c \<le> seq_of v" "vw_lease v w \<noteq> Some (FormatInt c)" using r unfolding retired_def by blast+
    then have "FormatInt k \<noteq> FormatInt c" using k FormatInt_eq [of k c] by simp
    then show ?thesis using c k(1) claim_ok [OF assms(2) claim(2), of u] unfolding v' retired_def by (simp add: claimed_view_def)
  qed
  then show ?thesis using claim_ok [OF assms(2) claim(2), of u] k(1) unfolding keeps_claims_def v' by simp
next
  case (put_site u payload)
  then show ?thesis using assms(2) by (intro keeps_claims_same_seq) (auto simp: view_okD(4) split: if_splits)
qed (use assms(2) in \<open>auto intro!: keeps_claims_same_seq simp: view_okD(4) split: if_splits\<close>)

lemma view_steps_claims:
  assumes "view_steps E D v v'" "view_ok E v"
  shows "keeps_claims E v v'"
  using assms
proof (induction rule: rtranclp_induct)
  case base
  then show ?case by (simp add: keeps_claims_def)
next
  case (step w x)
  then have "keeps_claims E w x" using view_step_claims [of E D w x] by (simp add: keeps_claims_def)
  with step show ?case by (simp add: keeps_claims_def)
qed

subsection \<open>Deadlines\<close>

definition deadline :: "site_env \<Rightarrow> site_view \<Rightarrow> string \<Rightarrow> int" where
  "deadline E v u = (case view_table E v u of None \<Rightarrow> 0 | Some t \<Rightarrow> max 0 (lua_retry t))"

lemma retry_with: "lua_retry (t\<lparr>ls_retry_after := Some r\<rparr>) = r" "0 < r \<Longrightarrow> lua_retry (with_deadline t r) = r"
  "\<not> 0 < r \<Longrightarrow> with_deadline t r = t"
  by (simp_all add: lua_retry_def with_deadline_def)

lemma view_step_deadline:
  assumes "view_step E D v v'" "table_law E" "u \<notin> D"
  shows "deadline E v u \<le> deadline E v' u"
  using assms(1)
proof cases
  case (drop_schedule w)
  then have "w \<noteq> u" using assms(3) by blast
  then show ?thesis using drop_schedule by (simp add: deadline_def view_table_def)
next
  case (extend w t r)
  then show ?thesis using assms(2) by (cases "w = u") (simp_all add: deadline_def view_table_def table_law_def retry_with)
next
  case (commit w c t payload incoming)
  show ?thesis
  proof (cases "w = u")
    case True
    have "deadline E v' u = max 0 (lua_retry (with_deadline incoming (max (lua_retry t) (lua_retry incoming))))"
      using commit(1) True assms(2) by (simp add: deadline_def view_table_def table_law_def)
    moreover have "deadline E v u = max 0 (lua_retry t)" using commit(3) True by (simp add: deadline_def)
    ultimately show ?thesis
      by (cases "0 < max (lua_retry t) (lua_retry incoming)") (simp_all add: retry_with)
  next
    case False
    then show ?thesis using commit(1) by (simp add: deadline_def view_table_def)
  qed
next
  case (reset w t)
  then show ?thesis using assms(2)
    by (cases "w = u") (auto simp: deadline_def view_table_def table_law_def retry_with)
qed (simp_all add: deadline_def view_table_def)

lemma view_steps_deadline:
  assumes "view_steps E D v v'" "table_law E" "u \<notin> D"
  shows "deadline E v u \<le> deadline E v' u"
  using assms(1)
proof (induction rule: rtranclp_induct)
  case (step w x)
  from step.IH view_step_deadline [OF step(2) assms(2,3)] show ?case by (rule order_trans)
qed simp


subsection \<open>Jobs\<close>

definition site_inv :: "site_env \<Rightarrow> 'r redis_ops \<Rightarrow> RedisScrapeSiteQueue \<Rightarrow> 'r \<Rightarrow> bool" where
  "site_inv E R q s \<longleftrightarrow> index_in R q s \<and> view_ok E (view R s)"

lemma parse_hit: "parseScrapePopResult (site_pop_hit u data score lease sch queue k) =
    Inr \<lparr>sp_Found = True, sp_SiteJSON = data, sp_ScoreMs = score, sp_NextReadyMs = -1, sp_LeaseScoreMS = lease,
         sp_ScheduleJSON = sch, sp_QueueKey = queue, sp_ClaimID = k\<rparr>"
  by (simp add: parseScrapePopResult_def site_pop_hit_def)

lemma parse_miss: "parseScrapePopResult (site_pop_miss n) = Inr \<lparr>sp_Found = False, sp_SiteJSON = [], sp_ScoreMs = 0, sp_NextReadyMs = n,
    sp_LeaseScoreMS = 0, sp_ScheduleJSON = [], sp_QueueKey = [], sp_ClaimID = 0\<rparr>"
  by (simp add: parseScrapePopResult_def site_pop_miss_def)

definition job_raw :: "'r redis_ops \<Rightarrow> string \<Rightarrow> 'r \<Rightarrow> string" where
  "job_raw R u s = (case GET R (schedule_key u) s of None \<Rightarrow> ''{}'' | Some v \<Rightarrow> v)"

context redis_store
begin

text \<open>A job is the claim of its own source under the next number, with the stored schedule.\<close>

lemma job_claims:
  assumes "site_ok q" "site_inv E R q s" and run: "site_poll_once E R q ev s = (SiteDone job, s')"
  shows "next_claim (vw_seq (view R s)) = Some (job_claimID job) \<and> view R s' = claimed_view (si_URL (job_Site job)) (job_claimID job) (view R s) \<and>
    index_in R q s' \<and> job_queueKey job \<in> set (site_popKeys q) \<and>
    schedule_Unmarshal E (job_raw R (si_URL (job_Site job)) s) = Some (job_Schedule job)"
proof -
  have inv: "index_in R q s" "view_ok E (view R s)" using assms(2) unfolding site_inv_def by blast+
  obtain r t where p: "site_pop_script R heads_key (se_now ev) (lease_period_ms q) s = (r, t)" by (metis prod.collapse)
  have P: "index_in R q t" "pop_result R q r s t" using pop_loop_view [OF assms(1) inv(1) p [unfolded site_pop_script_def]] by blast+
  have nd: "\<not> se_ctxDone ev" using run by (auto simp: site_poll_once_def split: if_splits)
  have ans: "run_script (se_pop ev) (site_pop_script R heads_key (se_now ev) (lease_period_ms q)) s = (Inr (the r), t) \<and> r \<noteq> None"
    using run nd by (cases "se_pop ev"; cases r) (auto simp: site_poll_once_def run_script_def run_call_def p)
  have "\<nexists>n. r = Some (site_pop_miss n)" using run nd ans by (auto simp: site_poll_once_def parse_miss)
  then obtain u where "pop_claims R q u r s t" using P(2) ans unfolding pop_result_def by blast
  then obtain k data score lease sch queue where c: "next_claim (GET R scrapeClaimSequenceKey s) = Some k"
    "GET R (site_key u) s = Some data" "sch = job_raw R u s" "r = Some (site_pop_hit u data score lease sch queue k)"
    "queue \<in> set (site_popKeys q)" "view R t = claimed_view u k (view R s)" unfolding pop_claims_def job_raw_def by blast
  have named: "site_named E u data" using view_okD(4) [OF inv(2), of u data] c(2) by simp
  obtain site where site: "site_Unmarshal E data = Some site"
    using run nd ans by (cases "site_Unmarshal E data") (auto simp: site_poll_once_def c(4) parse_hit)
  obtain schedule where sched: "schedule_Unmarshal E sch = Some schedule"
    using run nd ans site by (cases "schedule_Unmarshal E sch") (auto simp: site_poll_once_def c(4) parse_hit)
  have j: "s' = t" "job_Site job = site" "job_claimID job = k" "job_queueKey job = queue" "job_Schedule job = schedule"
    using run nd ans site sched by (auto simp: site_poll_once_def c(4) parse_hit)
  have "si_URL site = u" using named site by (simp add: site_named_def)
  then show ?thesis using c P(1) sched unfolding j by simp
qed

lemma job_inv:
  assumes "site_ok q" "site_inv E R q s" "site_poll_once E R q ev s = (SiteDone job, s')"
  shows "site_inv E R q s' \<and> job_claimID job = seq_of (view R s) + 1 \<and> seq_of (view R s') = job_claimID job \<and> job_claimID job < 2 ^ 63"
proof -
  note j = job_claims [OF assms]
  have v: "view_ok E (view R s)" using assms(2) by (simp add: site_inv_def)
  have n: "next_claim (vw_seq (view R s)) = Some (job_claimID job)" using j by blast
  show ?thesis using claim_ok [OF v n, of "si_URL (job_Site job)"] next_claim_seq [OF v n] j by (simp add: site_inv_def)
qed

lemma steps_inv:
  assumes "site_ok q" "marshal_named E" "site_steps E R q D s s'" "site_inv E R q s"
  shows "site_inv E R q s' \<and> keeps_claims E (view R s) (view R s')"
  using steps_simulated [OF assms(1-3)] assms(4) view_steps_claims [of E D "view R s" "view R s'"]
  by (simp add: site_inv_def site_simulated_def keeps_claims_def)

lemma complete_run:
  assumes "CompleteScrapeSite E R q c now job s = (Inr b, s')"
  obtains r where "complete_site E R q (job_queueKey job) (si_URL (job_Site job)) (max (nextDue (job_Schedule job)) now)
      (schedule_Marshal E (job_Schedule job)) (job_claimID job) s = (Some r, s')" "b = (r = 1)"
proof -
  obtain x t where p: "complete_site E R q (job_queueKey job) (si_URL (job_Site job)) (max (nextDue (job_Schedule job)) now)
      (schedule_Marshal E (job_Schedule job)) (job_claimID job) s = (x, t)" by (metis prod.collapse)
  show ?thesis using assms p that
    by (cases c; cases x) (simp_all add: CompleteScrapeSite_def run_script_def run_call_def Let_def)
qed

lemma retired_completion:
  assumes "site_ok q" "job_queueKey job \<in> set (site_popKeys q)" "GET R (lease_key (si_URL (job_Site job))) s \<noteq> Some (FormatInt (job_claimID job))"
  shows "fst (CompleteScrapeSite E R q c now job s) \<noteq> Inr True" "fst (RenewScrapeSiteLease R q c now job s) \<noteq> Inr ()"
proof -
  show "fst (CompleteScrapeSite E R q c now job s) \<noteq> Inr True"
  proof
    assume "fst (CompleteScrapeSite E R q c now job s) = Inr True"
    then obtain s' where "CompleteScrapeSite E R q c now job s = (Inr True, s')" by (metis prod.collapse)
    then obtain r where "complete_site E R q (job_queueKey job) (si_URL (job_Site job)) (max (nextDue (job_Schedule job)) now)
      (schedule_Marshal E (job_Schedule job)) (job_claimID job) s = (Some r, s')" "True = (r = 1)" by (rule complete_run)
    with stale_complete [OF assms(1,2) this(1) assms(3)] show False by simp
  qed
  show "fst (RenewScrapeSiteLease R q c now job s) \<noteq> Inr ()"
    using assms(3) by (cases c) (auto simp: RenewScrapeSiteLease_def run_call_def site_renew_script_def Let_def)
qed

end

end
