(* ===== verification/Site_Properties.thy ===== *)
theory Site_Properties
  imports Site_Claims Proxy_Leases
begin

text \<open>The guarantees of the scrape queue over any Redis, with a concrete queue for the witnesses.\<close>

subsection \<open>Assumptions on the encodings\<close>

definition schedule_law :: "site_env \<Rightarrow> bool" where
  "schedule_law E \<longleftrightarrow> table_decode E ''{}'' = Some empty_table \<and>
     (\<forall>raw schedule t. schedule_Unmarshal E raw = Some schedule \<and> table_decode E raw = Some t \<longrightarrow> RetryAfterMS schedule = lua_retry t) \<and>
     (\<forall>schedule. \<exists>t. table_decode E (schedule_Marshal E schedule) = Some t \<and> lua_retry t = RetryAfterMS schedule)"

lemma job_deadline:
  assumes "schedule_law E" "schedule_Unmarshal E (job_raw R u s) = Some schedule"
  shows "deadline E (view R s) u \<le> max 0 (RetryAfterMS schedule)"
proof (cases "table_decode E (job_raw R u s)")
  case None
  then show ?thesis using assms(1)
    by (cases "GET R (schedule_key u) s") (auto simp: deadline_def view_table_def job_raw_def schedule_law_def)
next
  case (Some t)
  then have r: "RetryAfterMS schedule = lua_retry t" using assms unfolding schedule_law_def by blast
  have "view_table E (view R s) u = Some t"
    using Some assms(1) by (cases "GET R (schedule_key u) s") (auto simp: view_table_def job_raw_def schedule_law_def)
  then show ?thesis by (simp add: deadline_def r)
qed

subsection \<open>A concrete queue\<close>

text \<open>Numbers as runs of digits, so that decoding inverts encoding for every table.\<close>

definition enc_int :: "int \<Rightarrow> string" where
  "enc_int x = (if x < 0 then CHR ''-'' # replicate (nat (- x)) CHR ''1'' else replicate (nat x) CHR ''1'') @ ''|''"

definition dec_int :: "string \<Rightarrow> int \<times> string" where
  "dec_int s = (let (neg, t) = (case s of c # t \<Rightarrow> if c = CHR ''-'' then (True, t) else (False, s) | [] \<Rightarrow> (False, s));
     n = int (length (takeWhile (\<lambda>c. c = CHR ''1'') t)); rest = drop 1 (dropWhile (\<lambda>c. c = CHR ''1'') t)
   in (if neg then - n else n, rest))"

lemma dec_enc: "dec_int (enc_int x @ rest) = (x, rest)"
proof -
  have t: "takeWhile (\<lambda>c. c = CHR ''1'') (replicate n CHR ''1'' @ CHR ''|'' # rest) = replicate n CHR ''1''"
    "dropWhile (\<lambda>c. c = CHR ''1'') (replicate n CHR ''1'' @ CHR ''|'' # rest) = CHR ''|'' # rest" for n
    by (induction n) simp_all
  show ?thesis
  proof (cases "x < 0")
    case True
    then show ?thesis by (simp add: enc_int_def dec_int_def t Let_def)
  next
    case False
    have "(case replicate (nat x) CHR ''1'' @ CHR ''|'' # rest of c # u \<Rightarrow> if c = CHR ''-'' then (True, u) else (False, replicate (nat x) CHR ''1'' @ CHR ''|'' # rest)
        | [] \<Rightarrow> (False, replicate (nat x) CHR ''1'' @ CHR ''|'' # rest)) = (False, replicate (nat x) CHR ''1'' @ CHR ''|'' # rest)"
      by (cases "nat x") simp_all
    with False show ?thesis by (simp add: enc_int_def dec_int_def t Let_def)
  qed
qed

definition demo_encode :: "luaSchedule \<Rightarrow> string" where
  "demo_encode t = (case ls_retry_after t of None \<Rightarrow> ''n'' | Some x \<Rightarrow> ''s'' @ enc_int x) @ ls_fields t"

definition demo_decode :: "string \<Rightarrow> luaSchedule option" where
  "demo_decode s = (case s of
      [] \<Rightarrow> None
    | c # t \<Rightarrow> if s = ''{}'' then Some empty_table
        else if c = CHR ''n'' then Some \<lparr>ls_retry_after = None, ls_fields = t\<rparr>
        else if c = CHR ''s'' then (case dec_int t of (x, rest) \<Rightarrow> Some \<lparr>ls_retry_after = Some x, ls_fields = rest\<rparr>)
        else None)"

definition demo_sites :: site_env where
  "demo_sites = \<lparr>site_Marshal = (\<lambda>site. Some (si_URL site)), site_Unmarshal = (\<lambda>raw. Some \<lparr>si_ID = 1, si_URL = raw, si_Workspaces = []\<rparr>),
     schedule_Marshal = (\<lambda>sch. demo_encode \<lparr>ls_retry_after = Some (RetryAfterMS sch), ls_fields = ''m''\<rparr>),
     schedule_Unmarshal = (\<lambda>raw. map_option (\<lambda>t. \<lparr>Modes = [], RetryAfterMS = lua_retry t, DeferredUntilMS = 0, ScheduleReason = []\<rparr>) (demo_decode raw)),
     table_decode = demo_decode, table_encode = demo_encode, se_blocked = (\<lambda>u. u = ''bad'')\<rparr>"

lemma demo_decode_encode: "demo_decode (demo_encode t) = Some t"
  by (cases t; cases "ls_retry_after t") (simp_all add: demo_encode_def demo_decode_def dec_enc)

lemma demo_sites_laws: "table_law demo_sites" "marshal_named demo_sites" "schedule_law demo_sites"
proof -
  show "table_law demo_sites" by (simp add: table_law_def demo_sites_def demo_decode_encode)
  show "marshal_named demo_sites" by (simp add: marshal_named_def site_named_def demo_sites_def)
  have "demo_decode ''{}'' = Some empty_table" by (simp add: demo_decode_def)
  then show "schedule_law demo_sites"
    by (auto simp: schedule_law_def demo_sites_def demo_decode_encode lua_retry_def)
qed

abbreviation demo_queue :: RedisScrapeSiteQueue where "demo_queue \<equiv> site_config 1"

definition demo_site_poll :: "int \<Rightarrow> mem_store site_poll_event" where
  "demo_site_poll now = \<lparr>se_ctxDone = False, se_now = now, se_pop = Answered, se_interval = Answered, se_fallback = 60000000000,
     se_cancelled = False, se_others = (\<lambda>s. s)\<rparr>"

definition demo_added :: mem_store where
  "demo_added = \<lparr>ms_zsets = (\<lambda>k. if k = ''scrapesite_queue:0'' then [(''u'', 10)] else if k = ''scrapesite_queue_heads'' then [(''scrapesite_queue:0'', 10)] else []),
     ms_strings = (\<lambda>k. if k = ''scrapesite:u'' then Some ''u'' else None)\<rparr>"

text \<open>The first worker claims the source, loses its lease after five minutes, and a second one claims it.\<close>

definition demo_claimed :: mem_store where
  "demo_claimed = \<lparr>ms_zsets = (\<lambda>k. if k = ''scrapesite_queue:0'' then [(''u'', 300020)] else if k = ''scrapesite_queue_heads'' then [(''scrapesite_queue:0'', 300020)] else []),
     ms_strings = (\<lambda>k. if k = ''scrapesite:u'' then Some ''u'' else if k = ''magpie:queue:scrape:claim_sequence'' then Some ''1''
       else if k = ''scrapesite_lease:u'' then Some ''1'' else None)\<rparr>"

definition demo_job :: "int \<Rightarrow> ScrapeSiteJob" where
  "demo_job k = \<lparr>job_Site = \<lparr>si_ID = 1, si_URL = ''u'', si_Workspaces = []\<rparr>, job_Interval = 60000000000,
     job_Schedule = \<lparr>Modes = [], RetryAfterMS = 0, DeferredUntilMS = 0, ScheduleReason = []\<rparr>, job_queueKey = ''scrapesite_queue:0'',
     job_leaseScoreMS = (if k = 1 then 300020 else 700000), job_claimID = k\<rparr>"

lemma demo_queue_keys: "site_popKeys demo_queue = [''scrapesite_queue'', ''scrapesite_queue:0'']"
  by code_simp

lemma demo_first_state: "snd (site_poll_once demo_sites mem_redis demo_queue (demo_site_poll 20) demo_added) = demo_claimed"
proof -
  let ?q = "''scrapesite_queue:0''"
  let ?s2 = "SET mem_redis (lease_key ''u'') ''1'' (SET mem_redis scrapeClaimSequenceKey ''1'' demo_added)"
  let ?s3 = "ZADD mem_redis ZAny ?q 300020 ''u'' ?s2"
  have h: "ZHEAD mem_redis heads_key demo_added = Some (?q, 10)" by code_simp
  have e: "ZHEAD mem_redis ?q demo_added = Some (''u'', 10)" by code_simp
  have g: "GET mem_redis (site_key ''u'') demo_added = Some ''u''" by code_simp
  have n: "next_claim (GET mem_redis scrapeClaimSequenceKey demo_added) = Some 1" by code_simp
  have f1: "FormatInt 1 = ''1''" by code_simp
  have h3: "ZHEAD mem_redis ?q ?s3 = Some (''u'', 300020)" by code_simp
  have st: "refresh_head mem_redis heads_key ?q ?s3 = demo_claimed"
    unfolding refresh_head_def h3 option.case prod.case
    by (simp add: mem_redis_def demo_added_def demo_claimed_def site_key_defs zset_put_def zset_delete_def fun_eq_iff)
  have claim: "claim_site mem_redis heads_key ?q ''u'' ''u'' 10 20 300000 demo_added = (Some (site_pop_hit ''u'' ''u'' 10 300020 (job_raw mem_redis ''u'' demo_claimed) ?q 1), demo_claimed)"
    unfolding claim_site_def INCR_eq n option.case prod.case Let_def f1 job_raw_def
    by (simp add: st)
  have pop: "site_pop_script mem_redis heads_key 20 300000 demo_added = (Some (site_pop_hit ''u'' ''u'' 10 300020 (job_raw mem_redis ''u'' demo_claimed) ?q 1), demo_claimed)"
    unfolding site_pop_script_def
    by (simp add: eval_nat_numeral h e g claim)
  have lease: "lease_period_ms demo_queue = 300000" by code_simp
  have sch: "job_raw mem_redis ''u'' demo_claimed = ''{}''" by code_simp
  have dec: "demo_decode ''{}'' = Some empty_table" by (simp add: demo_decode_def)
  show ?thesis
    unfolding site_poll_once_def lease
    by (simp add: demo_site_poll_def run_script_def run_call_def pop parse_hit sch dec demo_sites_def)
qed

lemma demo_first: "site_poll_once demo_sites mem_redis demo_queue (demo_site_poll 20) demo_added = (SiteDone (demo_job 1), demo_claimed)"
proof -
  have "fst (site_poll_once demo_sites mem_redis demo_queue (demo_site_poll 20) demo_added) = SiteDone (demo_job 1)" by code_simp
  with demo_first_state show ?thesis by (metis prod.collapse)
qed

lemma demo_second:
  obtains job s' where "site_poll_once demo_sites mem_redis demo_queue (demo_site_poll 400000) demo_claimed = (SiteDone job, s')"
    "job_Site job = job_Site (demo_job 1)" "job_claimID job = 2"
proof -
  let ?q = "''scrapesite_queue:0''"
  have h: "ZHEAD mem_redis heads_key demo_claimed = Some (?q, 300020)" by code_simp
  have e: "ZHEAD mem_redis ?q demo_claimed = Some (''u'', 300020)" by code_simp
  have g: "GET mem_redis (site_key ''u'') demo_claimed = Some ''u''" by code_simp
  have "FormatInt 1 = ''1''" by code_simp
  then have p: "ParseInt ''1'' = Some 1" using ParseInt_FormatInt [of 1] by simp
  have "GET mem_redis scrapeClaimSequenceKey demo_claimed = Some ''1''" by code_simp
  then have n: "next_claim (GET mem_redis scrapeClaimSequenceKey demo_claimed) = Some 2" by (simp add: next_claim_def p)
  define s' where "s' = refresh_head mem_redis heads_key ?q (ZADD mem_redis ZAny ?q 700000 ''u''
    (SET mem_redis (lease_key ''u'') (FormatInt 2) (SET mem_redis scrapeClaimSequenceKey (FormatInt 2) demo_claimed)))"
  have s': "job_raw mem_redis ''u'' s' = ''{}''"
  proof -
    have "quiet mem_redis demo_queue (SET mem_redis (lease_key ''u'') (FormatInt 2) (SET mem_redis scrapeClaimSequenceKey (FormatInt 2) demo_claimed)) s'"
      unfolding s'_def by (rule quiet_trans [OF mem.quiet_zadd mem.quiet_refresh_head]) (simp_all add: site_config_ok demo_queue_keys)
    from quiet_get [OF this string_keys(2) [OF site_config_ok]]
    have "GET mem_redis (schedule_key ''u'') s' = GET mem_redis (schedule_key ''u'') demo_claimed" by (simp add: mem.get_set)
    moreover have "GET mem_redis (schedule_key ''u'') demo_claimed = None" by code_simp
    ultimately show ?thesis by (simp add: job_raw_def)
  qed
  have claim: "claim_site mem_redis heads_key ?q ''u'' ''u'' 300020 400000 300000 demo_claimed = (Some (site_pop_hit ''u'' ''u'' 300020 700000 ''{}'' ?q 2), s')"
    unfolding claim_site_def INCR_eq n option.case prod.case Let_def using s' by (simp add: s'_def job_raw_def)
  have pop: "site_pop_script mem_redis heads_key 400000 300000 demo_claimed = (Some (site_pop_hit ''u'' ''u'' 300020 700000 ''{}'' ?q 2), s')"
    unfolding site_pop_script_def by (simp add: eval_nat_numeral h e g claim)
  have lease: "lease_period_ms demo_queue = 300000" by code_simp
  have dec: "demo_decode ''{}'' = Some empty_table" by (simp add: demo_decode_def)
  obtain job where "site_poll_once demo_sites mem_redis demo_queue (demo_site_poll 400000) demo_claimed = (SiteDone job, s')"
    "job_Site job = job_Site (demo_job 1)" "job_claimID job = 2"
    unfolding site_poll_once_def lease
    by (simp add: demo_site_poll_def run_script_def run_call_def pop parse_hit dec demo_sites_def demo_job_def)
  then show ?thesis by (rule that)
qed

lemma demo_added_inv: "site_inv demo_sites mem_redis demo_queue demo_added"
  by (auto simp: site_inv_def index_in_def demo_queue_keys view_ok_def seq_of_def demo_added_def mem_redis_def view_def site_key_defs site_named_def
      demo_sites_def split: if_splits)


subsection \<open>Properties\<close>

text \<open>
  C9. Only the latest claim of a source counts: once another worker has popped the source, whatever any number of
  other commands, scripts and expiries do in between and afterwards, the earlier worker's completion is not
  accepted and its lease is not renewed. Claims are numbered upwards.
\<close>

theorem latest_claim_commits:
  assumes "redis_store R" "site_ok q" "marshal_named E" "site_inv E R q s0"
    and "site_poll_once E R q ev s0 = (SiteDone job, s1)" "site_steps E R q D s1 s2"
    and "site_poll_once E R q ev' s2 = (SiteDone job', s3)" "si_URL (job_Site job') = si_URL (job_Site job)" "site_steps E R q D s3 s4"
  shows "job_claimID job < job_claimID job' \<and> fst (CompleteScrapeSite E R q c now job s4) \<noteq> Inr True \<and>
    fst (RenewScrapeSiteLease R q c' now' job s4) \<noteq> Inr ()"
proof -
  let ?u = "si_URL (job_Site job)"
  note j = redis_store.job_inv [OF assms(1,2,4,5)]
  note s2 = redis_store.steps_inv [OF assms(1,2,3,6) conjunct1 [OF j]]
  note j' = redis_store.job_inv [OF assms(1,2) conjunct1 [OF s2] assms(7)]
  note s4 = redis_store.steps_inv [OF assms(1,2,3,9) conjunct1 [OF j']]
  have lt: "job_claimID job < job_claimID job'" using j s2 j' by (simp add: keeps_claims_def)
  have pos: "0 < job_claimID job" using j assms(4) view_okD(1) by (simp add: site_inv_def) fastforce
  have "view R s3 = claimed_view ?u (job_claimID job') (view R s2)" using redis_store.job_claims [OF assms(1,2) conjunct1 [OF s2] assms(7)] assms(8) by simp
  moreover have "FormatInt (job_claimID job') \<noteq> FormatInt (job_claimID job)" using FormatInt_eq lt pos j j' by simp
  ultimately have "retired ?u (job_claimID job) (view R s3)" using lt pos j' by (simp add: retired_def claimed_view_def)
  then have "retired ?u (job_claimID job) (view R s4)" using s4 by (simp add: keeps_claims_def)
  then have g: "GET R (lease_key ?u) s4 \<noteq> Some (FormatInt (job_claimID job))" by (simp add: retired_def)
  have "job_queueKey job \<in> set (site_popKeys q)" using redis_store.job_claims [OF assms(1,2,4,5)] by blast
  from lt redis_store.retired_completion [OF assms(1,2) this g] show ?thesis by blast
qed

theorem latest_claim_commits_witness:
  "fst (CompleteScrapeSite demo_sites mem_redis demo_queue Answered 400001 (demo_job 1)
     (snd (site_poll_once demo_sites mem_redis demo_queue (demo_site_poll 400000) demo_claimed))) \<noteq> Inr True"
proof -
  obtain job s' where p: "site_poll_once demo_sites mem_redis demo_queue (demo_site_poll 400000) demo_claimed = (SiteDone job, s')"
    "job_Site job = job_Site (demo_job 1)" "job_claimID job = 2" by (rule demo_second)
  show ?thesis
    using latest_claim_commits [OF mem.redis_store_axioms site_config_ok demo_sites_laws(2) demo_added_inv demo_first rtranclp.rtrancl_refl p(1) _ rtranclp.rtrancl_refl,
        where c = Answered and now = 400001] p(2) unfolding p(1) by simp
qed


lemma extended_tables:
  assumes "v' = v \<or> (\<exists>t incoming. view_table E v w = Some t \<and> lua_retry t < lua_retry incoming \<and> v' = extended_view E w t (lua_retry incoming) v)"
    and "table_law E" "view_table E v u = Some t"
  shows "\<exists>t'. view_table E v' u = Some t' \<and> ls_fields t' = ls_fields t \<and> lua_retry t \<le> lua_retry t'"
  using assms by (cases "u = w") (auto simp: extended_view_def view_table_def table_law_def retry_with)

text \<open>
  C11. A completion by a worker that does not hold the claim is harmless: it is not accepted, every claim and
  every stored source stay as they are, no source enters or leaves the queue, the progress of the fetch modes
  in a stored schedule is untouched and its deadline is at most extended, and no due time moves forward or
  belongs to a source somebody holds.
\<close>

theorem stale_completion_harmless:
  assumes "redis_store R" "site_ok q" "job_queueKey job \<in> set (site_popKeys q)" "table_law E"
    and "GET R (lease_key (si_URL (job_Site job))) s \<noteq> Some (FormatInt (job_claimID job))"
    and "CompleteScrapeSite E R q c now job s = (r, s')"
  shows "r \<noteq> Inr True \<and>
    (\<forall>u. GET R (lease_key u) s' = GET R (lease_key u) s \<and> GET R (site_key u) s' = GET R (site_key u) s) \<and>
    (\<forall>u t. stored_table E R (schedule_key u) s = Some t \<longrightarrow>
       (\<exists>t'. stored_table E R (schedule_key u) s' = Some t' \<and> ls_fields t' = ls_fields t \<and> lua_retry t \<le> lua_retry t')) \<and>
    (\<forall>k \<in> set (site_popKeys q). \<forall>m. (ZSCORE R k m s' = None) = (ZSCORE R k m s = None) \<and>
       (\<forall>x y. ZSCORE R k m s = Some x \<and> ZSCORE R k m s' = Some y \<longrightarrow> x \<le> y) \<and>
       (GET R (lease_key m) s \<noteq> None \<longrightarrow> ZSCORE R k m s' = ZSCORE R k m s))"
proof -
  let ?u = "si_URL (job_Site job)"
  have r: "r \<noteq> Inr True" using redis_store.retired_completion(1) [OF assms(1,2,3,5), of E c now] assms(6) by simp
  obtain x w where p: "complete_site E R q (job_queueKey job) ?u (max (nextDue (job_Schedule job)) now)
      (schedule_Marshal E (job_Schedule job)) (job_claimID job) s = (x, w)" by (metis prod.collapse)
  have w: "s' = s \<or> s' = w"
    using assms(6) p by (cases c; cases x) (auto simp: CompleteScrapeSite_def run_script_def run_call_def Let_def)
  note st = redis_store.stale_complete [OF assms(1,2,3) p assms(5)]
  have v: "view R s' = view R s \<or> (\<exists>t incoming. view_table E (view R s) ?u = Some t \<and> lua_retry t < lua_retry incoming \<and>
      view R s' = extended_view E ?u t (lua_retry incoming) (view R s))" using st w by blast
  have z: "ZSCORE R k m s' = ZSCORE R k m s \<or> (\<exists>x y. m = ?u \<and> GET R (lease_key ?u) s = None \<and> ZSCORE R k m s = Some x \<and> ZSCORE R k m s' = Some y \<and> x < y)"
    if "k \<in> set (site_popKeys q)" for k m using st w that by blast
  have a: "vw_lease (view R s') = vw_lease (view R s) \<and> vw_site (view R s') = vw_site (view R s)"
    using v by (auto simp: extended_view_def)
  have same: "GET R (lease_key u) s' = GET R (lease_key u) s \<and> GET R (site_key u) s' = GET R (site_key u) s" for u
    using fun_cong [OF conjunct1 [OF a], of u] fun_cong [OF conjunct2 [OF a], of u] unfolding view_simps by (rule conjI)
  have tables: "\<exists>t'. stored_table E R (schedule_key u) s' = Some t' \<and> ls_fields t' = ls_fields t \<and> lua_retry t \<le> lua_retry t'"
    if "stored_table E R (schedule_key u) s = Some t" for u t
    using extended_tables [OF v assms(4)] that unfolding stored_view by blast
  have scores: "(ZSCORE R k m s' = None) = (ZSCORE R k m s = None) \<and> (\<forall>x y. ZSCORE R k m s = Some x \<and> ZSCORE R k m s' = Some y \<longrightarrow> x \<le> y) \<and>
      (GET R (lease_key m) s \<noteq> None \<longrightarrow> ZSCORE R k m s' = ZSCORE R k m s)" if "k \<in> set (site_popKeys q)" for k m
    using z [OF that, of m] by auto
  show ?thesis using r same tables scores by blast
qed

definition demo_late :: ScrapeSiteJob where
  "demo_late = (demo_job 0)\<lparr>job_Schedule := \<lparr>Modes = [], RetryAfterMS = 5, DeferredUntilMS = 0, ScheduleReason = []\<rparr>\<rparr>"

theorem stale_completion_harmless_witness:
  "fst (CompleteScrapeSite demo_sites mem_redis demo_queue Answered 50 demo_late demo_claimed) = Inr False \<and>
   GET mem_redis (lease_key ''u'') (snd (CompleteScrapeSite demo_sites mem_redis demo_queue Answered 50 demo_late demo_claimed)) = Some ''1''"
proof -
  let ?c = "CompleteScrapeSite demo_sites mem_redis demo_queue Answered 50 demo_late demo_claimed"
  obtain r s' where c: "?c = (r, s')" by (metis prod.collapse)
  have "fst ?c = Inr False" by code_simp
  moreover have l: "GET mem_redis (lease_key ''u'') demo_claimed = Some ''1''" by code_simp
  moreover have "FormatInt (job_claimID demo_late) \<noteq> ''1''" by code_simp
  then have "GET mem_redis (lease_key (si_URL (job_Site demo_late))) demo_claimed \<noteq> Some (FormatInt (job_claimID demo_late))"
    using l by (simp add: demo_late_def demo_job_def)
  from stale_completion_harmless [OF mem.redis_store_axioms site_config_ok _ demo_sites_laws(1) this c]
  have "GET mem_redis (lease_key ''u'') s' = GET mem_redis (lease_key ''u'') demo_claimed"
    by (simp add: demo_late_def demo_job_def demo_queue_keys)
  ultimately show ?thesis unfolding c by simp
qed

text \<open>
  C10. A deadline a provider asked for is never forgotten while the source is in the queue: through any commands and
  scripts that do not remove the source's schedule, the stored deadline only grows, and every later worker is
  handed a schedule with at least that deadline.
\<close>

theorem provider_deadline_kept:
  assumes "redis_store R" "site_ok q" "marshal_named E" "table_law E" "schedule_law E" "site_inv E R q s"
    and "site_steps E R q D s s'" "u \<notin> D"
  shows "deadline E (view R s) u \<le> deadline E (view R s') u \<and>
    (\<forall>ev job s''. site_poll_once E R q ev s' = (SiteDone job, s'') \<and> si_URL (job_Site job) = u \<longrightarrow>
       deadline E (view R s) u \<le> max 0 (RetryAfterMS (job_Schedule job)))"
proof -
  have inv: "index_in R q s" using assms(6) by (simp add: site_inv_def)
  have sim: "site_simulated E R q D s s'" by (rule redis_store.steps_simulated [OF assms(1-3,7) inv])
  then have le: "deadline E (view R s) u \<le> deadline E (view R s') u"
    unfolding site_simulated_def using view_steps_deadline [OF _ assms(4,8)] by blast
  have inv': "site_inv E R q s'" using redis_store.steps_inv [OF assms(1-3,7,6)] by blast
  have "deadline E (view R s) u \<le> max 0 (RetryAfterMS (job_Schedule job))"
    if j: "site_poll_once E R q ev s' = (SiteDone job, s'')" "si_URL (job_Site job) = u" for ev job s''
  proof -
    have "schedule_Unmarshal E (job_raw R u s') = Some (job_Schedule job)"
      using redis_store.job_claims [OF assms(1,2) inv' j(1)] j(2) by blast
    from job_deadline [OF assms(5) this] le show ?thesis by (rule order_trans [rotated])
  qed
  with le show ?thesis by blast
qed

theorem provider_deadline_kept_witness:
  "deadline demo_sites (view mem_redis demo_added) ''u'' \<le>
     deadline demo_sites (view mem_redis (SET mem_redis scrapeQueueRescheduleStateKey ''60000'' demo_added)) ''u''"
proof -
  have "site_steps demo_sites mem_redis demo_queue {} demo_added (SET mem_redis scrapeQueueRescheduleStateKey ''60000'' demo_added)"
    by (intro r_into_rtranclp site_step.interval)
  from provider_deadline_kept [OF mem.redis_store_axioms site_config_ok demo_sites_laws(2,1,3) demo_added_inv this, of "''u''"]
  show ?thesis by blast
qed

text \<open>
  C12. An accepted completion comes from the holder of the claim, releases it, stores the larger of the known
  deadlines, and schedules the source at the latest of the clock, the due time of its schedule and that
  deadline: never earlier, and never not at all.
\<close>

theorem completion_schedules_source:
  assumes "redis_store R" "site_ok q" "job_queueKey job \<in> set (site_popKeys q)" "table_law E" "schedule_law E"
    and "CompleteScrapeSite E R q c now job s = (Inr True, s')" "u = si_URL (job_Site job)"
  shows "GET R (lease_key u) s = Some (FormatInt (job_claimID job)) \<and> GET R (lease_key u) s' = None \<and>
    deadline E (view R s') u = max (deadline E (view R s) u) (RetryAfterMS (job_Schedule job)) \<and>
    (\<exists>k \<in> set (site_popKeys q). \<exists>x. ZSCORE R k u s' = Some (of_int x) \<and> max 0 x = max (max 0 (max now (nextDue (job_Schedule job)))) (deadline E (view R s') u))"
proof -
  have held: "GET R (lease_key u) s = Some (FormatInt (job_claimID job))"
    using redis_store.retired_completion(1) [OF assms(1-3), of s E c now] assms(6,7) by (cases "GET R (lease_key u) s = Some (FormatInt (job_claimID job))") auto
  obtain r where p: "complete_site E R q (job_queueKey job) (si_URL (job_Site job)) (max (nextDue (job_Schedule job)) now)
      (schedule_Marshal E (job_Schedule job)) (job_claimID job) s = (Some r, s')" "True = (r = 1)"
    by (rule redis_store.complete_run [OF assms(1,6)])
  have r: "r = 1" using p(2) by simp
  from redis_store.holder_complete [OF assms(1,2,3) p(1) held [unfolded assms(7)]] r
  obtain t incoming k where h: "view_table E (view R s) u = Some t" "table_decode E (schedule_Marshal E (job_Schedule job)) = Some incoming"
    "view R s' = committed_view E u t incoming (view R s)" "k \<in> set (site_popKeys q)"
    "ZSCORE R k u s' = Some (of_int (max (max (nextDue (job_Schedule job)) now) (max (lua_retry t) (lua_retry incoming))))"
    unfolding assms(7) by auto
  have "\<exists>t. table_decode E (schedule_Marshal E (job_Schedule job)) = Some t \<and> lua_retry t = RetryAfterMS (job_Schedule job)"
    using assms(5) unfolding schedule_law_def by blast
  then have inc: "lua_retry incoming = RetryAfterMS (job_Schedule job)" unfolding h(2) by auto
  have rel: "GET R (lease_key u) s' = None" using view_simps(2) [of R s' u] unfolding h(3) by (simp add: committed_view_def)
  have d: "deadline E (view R s) u = max 0 (lua_retry t)" using h(1) by (simp add: deadline_def)
  have d': "deadline E (view R s') u = max 0 (lua_retry (with_deadline incoming (max (lua_retry t) (lua_retry incoming))))"
    using assms(4) by (simp add: h(3) committed_view_def deadline_def view_table_def table_law_def)
  have e: "deadline E (view R s') u = max (deadline E (view R s) u) (RetryAfterMS (job_Schedule job))"
    unfolding d d' inc [symmetric] by (cases "0 < max (lua_retry t) (lua_retry incoming)") (simp_all add: retry_with)
  have "max 0 (max (max (nextDue (job_Schedule job)) now) (max (lua_retry t) (lua_retry incoming))) =
      max (max 0 (max now (nextDue (job_Schedule job)))) (deadline E (view R s') u)"
    unfolding e d inc by (simp add: max_def)
  with held rel e h(4,5) show ?thesis by blast
qed

theorem completion_schedules_source_witness:
  "GET mem_redis (lease_key ''u'') (snd (CompleteScrapeSite demo_sites mem_redis demo_queue Answered 50 ((demo_job 1)\<lparr>job_Schedule := job_Schedule demo_late\<rparr>) demo_claimed)) = None \<and>
   ZSCORE mem_redis ''scrapesite_queue:0'' ''u''
     (snd (CompleteScrapeSite demo_sites mem_redis demo_queue Answered 50 ((demo_job 1)\<lparr>job_Schedule := job_Schedule demo_late\<rparr>) demo_claimed)) = Some 50"
proof -
  let ?j = "(demo_job 1)\<lparr>job_Schedule := job_Schedule demo_late\<rparr>"
  let ?c = "CompleteScrapeSite demo_sites mem_redis demo_queue Answered 50 ?j demo_claimed"
  have "fst ?c = Inr True" by code_simp
  then obtain s' where c: "?c = (Inr True, s')" by (metis prod.collapse)
  have "job_queueKey ?j \<in> set (site_popKeys demo_queue)" by (simp add: demo_job_def demo_queue_keys)
  from completion_schedules_source [OF mem.redis_store_axioms site_config_ok this demo_sites_laws(1,3) c]
  have "GET mem_redis (lease_key ''u'') (snd ?c) = None" unfolding c by (simp add: demo_job_def)
  moreover have "ZSCORE mem_redis ''scrapesite_queue:0'' ''u'' (snd ?c) = Some 50" by code_simp
  ultimately show ?thesis by blast
qed

end
