(* ===== verification/Site_Methods.thy ===== *)
theory Site_Methods
  imports Site_Properties
begin

text \<open>
  The methods of the scrape queue are sequences of its atomic steps, failures included, so every law of claims
  and deadlines holds for them.
\<close>

datatype 'r site_op =
    SiteAdd bool int "nat \<Rightarrow> exec_outcome" "ScrapeSite list"
  | SiteRemove bool "nat \<Rightarrow> exec_outcome" "ScrapeSite list"
  | SitePoll "'r site_poll_event"
  | SiteComplete call int ScrapeSiteJob
  | SiteRenew call int ScrapeSiteJob
  | SiteForce call int ScrapeSite
  | SiteRequeueAll site_requeue_event
  | SiteReschedule call call duration

fun do_site_op :: "site_env \<Rightarrow> 'r redis_ops \<Rightarrow> RedisScrapeSiteQueue \<Rightarrow> 'r site_op \<Rightarrow> 'r \<Rightarrow> 'r" where
  "do_site_op E R q (SiteAdd haveClient now execs sites) s = snd (Site_AddToQueue E R q haveClient now execs sites s)"
| "do_site_op E R q (SiteRemove haveClient execs sites) s = snd (Site_RemoveFromQueue R q haveClient execs sites s)"
| "do_site_op E R q (SitePoll ev) s = snd (site_poll_once E R q ev s)"
| "do_site_op E R q (SiteComplete c now job) s = snd (CompleteScrapeSite E R q c now job s)"
| "do_site_op E R q (SiteRenew c now job) s = snd (RenewScrapeSiteLease R q c now job s)"
| "do_site_op E R q (SiteForce c now site) s = snd (ForceScrapeSite E R q c now site s)"
| "do_site_op E R q (SiteRequeueAll ev) s = snd (snd (Site_RequeueAll E R q ev s))"
| "do_site_op E R q (SiteReschedule c c' interval) s = snd (Site_Reschedule R q c c' interval s)"

text \<open>Jobs name a queue they were popped from; removals delete the schedules of their sources.\<close>

fun site_op_ok :: "RedisScrapeSiteQueue \<Rightarrow> string set \<Rightarrow> 'r site_op \<Rightarrow> bool" where
  "site_op_ok q D (SiteRemove _ _ sites) \<longleftrightarrow> si_URL ` set sites \<subseteq> D"
| "site_op_ok q D (SiteComplete _ _ job) \<longleftrightarrow> job_queueKey job \<in> set (site_popKeys q)"
| "site_op_ok q D (SiteRenew _ _ job) \<longleftrightarrow> job_queueKey job \<in> set (site_popKeys q)"
| "site_op_ok q D _ \<longleftrightarrow> True"

lemma run_script_steps:
  assumes "step s (snd (f s))" shows "step\<^sup>*\<^sup>* s (snd (run_script c f s))"
proof -
  obtain r s' where x: "run_call c f s = (r, s')" by (metis prod.collapse)
  have "snd (run_script c f s) = s'" by (auto simp: run_script_def x split: sum.splits option.splits)
  with run_call_steps [OF x, of step] assms show ?thesis by simp
qed

lemma run_call_snd_steps:
  assumes "step s (snd (f s))" shows "step\<^sup>*\<^sup>* s (snd (run_call c f s))"
  using run_call_steps [of c f s "fst (run_call c f s)" "snd (run_call c f s)" step] assms by simp

lemma add_commands_step:
  assumes "site_ok q" "site_Marshal E site = Some payload"
  shows "step_cmds (site_step E R q D) (add_site_commands R q (si_URL site) now payload)"
  using assms(2) legacy_in [OF assms(1)] site_queueKey_in [OF assms(1)]
  by (auto simp: step_cmds_def add_site_commands_def Let_def intro: site_step.intros)

lemma remove_commands_step:
  assumes "site_ok q" "u \<in> D"
  shows "step_cmds (site_step E R q D) (remove_site_commands R q u)"
  using assms(2) legacy_in [OF assms(1)] site_queueKey_in [OF assms(1)]
  by (auto simp: step_cmds_def remove_site_commands_def Let_def intro: site_step.intros)

lemma step_cmds_append: "step_cmds step xs \<Longrightarrow> step_cmds step ys \<Longrightarrow> step_cmds step (xs @ ys)"
  by (auto simp: step_cmds_def)

lemma add_sites_steps:
  assumes "site_ok q"
  shows "step_cmds (site_step E R q D) pipe \<Longrightarrow> site_steps E R q D s (snd (add_sites E R q now execs i b pipe sites s))"
proof (induction sites arbitrary: i b pipe s)
  case Nil
  obtain okay u where x: "pipe_exec (execs b) pipe s = (okay, u)" by (metis prod.collapse)
  show ?case using pipe_exec_steps [OF Nil x] by (cases okay) (simp_all add: x)
next
  case (Cons site sites)
  show ?case
  proof (cases "site_Marshal E site")
    case (Some payload)
    let ?pipe = "pipe @ add_site_commands R q (si_URL site) now payload"
    have p: "step_cmds (site_step E R q D) ?pipe" by (rule step_cmds_append [OF Cons.prems add_commands_step [OF assms Some]])
    have nil: "step_cmds (site_step E R q D) []" by (simp add: step_cmds_def)
    obtain okay u where x: "pipe_exec (execs b) ?pipe s = (okay, u)" by (metis prod.collapse)
    have su: "site_steps E R q D s u" by (rule pipe_exec_steps [OF p x])
    show ?thesis
    proof (cases "i mod 50 = 0 \<and> 0 < i")
      case True
      then show ?thesis using su Cons.IH [OF nil, of u "i + 1" "b + 1"]
        by (cases okay) (simp_all add: Some x Let_def rtranclp_trans [OF su])
    next
      case False
      have "add_sites E R q now execs i b pipe (site # sites) s = add_sites E R q now execs (i + 1) b ?pipe sites s"
        using False by (simp only: add_sites.simps Some option.case Let_def if_False)
      then show ?thesis using Cons.IH [OF p, of s "i + 1" b] by simp
    qed
  qed simp
qed

lemma remove_sites_steps:
  assumes "site_ok q"
  shows "step_cmds (site_step E R q D) pipe \<Longrightarrow> si_URL ` set sites \<subseteq> D \<Longrightarrow>
    site_steps E R q D s (snd (remove_sites R q execs b n pipe sites s))"
proof (induction sites arbitrary: b n pipe s)
  case Nil
  obtain okay u where x: "pipe_exec (execs b) pipe s = (okay, u)" by (metis prod.collapse)
  show ?case using pipe_exec_steps [OF Nil(1) x] by (cases okay) (simp_all add: x)
next
  case (Cons site sites)
  have rest: "si_URL ` set sites \<subseteq> D" using Cons.prems(2) by simp
  show ?case
  proof (cases "si_URL site = []")
    case True
    then show ?thesis using Cons.IH [OF Cons.prems(1) rest] by simp
  next
    case named: False
    let ?pipe = "pipe @ remove_site_commands R q (si_URL site)"
    have p: "step_cmds (site_step E R q D) ?pipe"
      by (rule step_cmds_append [OF Cons.prems(1) remove_commands_step [OF assms]]) (use Cons.prems(2) in simp)
    have nil: "step_cmds (site_step E R q D) []" by (simp add: step_cmds_def)
    obtain okay u where x: "pipe_exec (execs b) ?pipe s = (okay, u)" by (metis prod.collapse)
    have su: "site_steps E R q D s u" by (rule pipe_exec_steps [OF p x])
    show ?thesis
    proof (cases "250 \<le> n + 5")
      case True
      then show ?thesis using su rtranclp_trans [OF su Cons.IH [OF nil rest]] named
        by (cases okay) (simp_all add: x Let_def)
    next
      case False
      have "remove_sites R q execs b n pipe (site # sites) s = remove_sites R q execs b (n + 5) ?pipe sites s"
        using False named by (simp only: remove_sites.simps Let_def if_False)
      then show ?thesis using Cons.IH [OF p rest, of s b "n + 5"] by simp
    qed
  qed
qed

lemma eval_all_steps:
  assumes "\<And>f s. f \<in> set fs \<Longrightarrow> step s (snd (f s))"
  shows "step\<^sup>*\<^sup>* s (snd (eval_all fs s))"
  using assms
proof (induction fs arbitrary: s)
  case (Cons f fs)
  have "step s (snd (f s))" "step\<^sup>*\<^sup>* (snd (f s)) (snd (eval_all fs (snd (f s))))" using Cons by simp_all
  then show ?case by (simp add: case_prod_beta converse_rtranclp_into_rtranclp)
qed simp

lemma force_batches_steps:
  assumes "key \<in> set (site_popKeys q)"
  shows "site_steps E R q D s (snd (force_batches E R key execs b batches s))"
proof (induction batches arbitrary: b s)
  case (Cons args batches)
  let ?fs = "map (\<lambda>(member, due). force_member E R key member due []) args"
  have step: "site_step E R q D s (snd (f s))" if "f \<in> set ?fs" for f s
    using that by (auto intro: site_step.force [OF assms])
  obtain okay u where x: "pipe_eval (execs b) ?fs s = (okay, u)" by (metis prod.collapse)
  have "site_steps E R q D s (snd (pipe_eval (execs b) ?fs s))"
    using step by (cases "execs b") (auto simp: pipe_eval_def intro!: eval_all_steps dest: in_set_takeD)
  then have su: "site_steps E R q D s u" by (simp add: x)
  show ?case using su rtranclp_trans [OF su Cons.IH] by (cases okay) (simp_all add: x)
qed simp

lemma force_keys_steps:
  "set keys \<subseteq> set (site_popKeys q) \<Longrightarrow> site_steps E R q D s (snd (snd (force_keys E R ev interval keys acc s)))"
proof (induction keys arbitrary: acc s)
  case (Cons key keys)
  have key: "key \<in> set (site_popKeys q)" "set keys \<subseteq> set (site_popKeys q)" using Cons.prems by simp_all
  show ?case
  proof (cases "fst (run_call (sr_count ev key) (\<lambda>s. (ZCARD R key s, s)) s)")
    case (Inr cnt)
    show ?thesis
    proof (cases "cnt = 0")
      case True
      then show ?thesis using Cons.IH [OF key(2)] Inr by simp
    next
      case nz: False
      show ?thesis
      proof (cases "fst (run_call (sr_list ev key) (\<lambda>s. (take cnt (ZMEMBERS R key s), s)) s)")
        case (Inl e)
        then show ?thesis using Inr nz by (simp add: Let_def)
      next
        case members: (Inr members)
        let ?b = "chunks 500 (force_args (sr_now ev) interval cnt members)"
        obtain okay u where x: "force_batches E R key (sr_execs ev key) 0 ?b s = (okay, u)" by (metis prod.collapse)
        have su: "site_steps E R q D s u" using force_batches_steps [OF key(1), of E R D s "sr_execs ev key" 0 ?b] by (simp add: x)
        show ?thesis using su rtranclp_trans [OF su Cons.IH [OF key(2)]] Inr nz members
          by (cases okay) (simp_all add: x Let_def)
      qed
    qed
  qed simp
qed simp

lemma refreshSiteHeads_steps: "site_steps E R q D s (snd (refreshSiteHeads R q c s))"
  unfolding refreshSiteHeads_def by (rule run_call_snd_steps) (simp add: site_step.refresh)

lemma requeue_all_steps: "site_steps E R q D s (snd (snd (Site_RequeueAll E R q ev s)))"
proof (cases "sr_interval ev = NoClient")
  case False
  let ?i = "let i = getEffectiveScrapeInterval R (sr_interval ev) (sr_fallback ev) s in if i \<le> 0 then second else i"
  obtain e acc u where x: "force_keys E R ev ?i (site_popKeys q) 0 s = (e, acc, u)" by (metis prod_cases3)
  have su: "site_steps E R q D s u" using force_keys_steps [of "site_popKeys q" q E R D s ev ?i 0] by (simp add: x)
  obtain r v where y: "refreshSiteHeads R q (sr_refresh ev) u = (r, v)" by (metis prod.collapse)
  have uv: "site_steps E R q D u v" using refreshSiteHeads_steps [of E R q D u "sr_refresh ev"] by (simp add: y)
  have "snd (snd (Site_RequeueAll E R q ev s)) = u \<or> snd (snd (Site_RequeueAll E R q ev s)) = v"
    using False x y by (cases e; cases r) (simp_all add: Site_RequeueAll_def Let_def)
  with su rtranclp_trans [OF su uv] show ?thesis by metis
qed (simp add: Site_RequeueAll_def)

lemma reschedule_steps: "site_steps E R q D s (snd (Site_Reschedule R q c c' interval s))"
proof -
  let ?f = "\<lambda>s. ((), SET R scrapeQueueRescheduleStateKey (FormatInt ((if interval \<le> 0 then second else interval) div millisecond)) s)"
  obtain r u where x: "run_call c ?f s = (r, u)" by (metis prod.collapse)
  have su: "site_steps E R q D s u"
    using run_call_snd_steps [of "site_step E R q D" s ?f c] by (simp add: x site_step.interval)
  show ?thesis using su rtranclp_trans [OF su refreshSiteHeads_steps]
    by (cases r) (simp_all add: Site_Reschedule_def Let_def x)
qed

lemma poll_steps: "site_steps E R q D s (snd (site_poll_once E R q ev s))"
proof (cases "se_ctxDone ev")
  case False
  let ?f = "site_pop_script R heads_key (se_now ev) (lease_period_ms q)"
  obtain r u where x: "run_script (se_pop ev) ?f s = (r, u)" by (metis prod.collapse)
  have "snd (site_poll_once E R q ev s) = u"
    using False by (auto simp: site_poll_once_def x split: sum.splits option.splits)
  with run_script_steps [of "site_step E R q D" s ?f "se_pop ev", OF site_step.pop] show ?thesis by (simp add: x)
qed (simp add: site_poll_once_def)

lemma complete_steps: "job_queueKey job \<in> set (site_popKeys q) \<Longrightarrow> site_steps E R q D s (snd (CompleteScrapeSite E R q c now job s))"
proof -
  assume k: "job_queueKey job \<in> set (site_popKeys q)"
  let ?f = "complete_site E R q (job_queueKey job) (si_URL (job_Site job)) (max (nextDue (job_Schedule job)) now)
      (schedule_Marshal E (job_Schedule job)) (job_claimID job)"
  obtain r u where x: "run_script c ?f s = (r, u)" by (metis prod.collapse)
  have "snd (CompleteScrapeSite E R q c now job s) = u"
    by (cases r) (simp_all add: CompleteScrapeSite_def Let_def x)
  with run_script_steps [of "site_step E R q D" s ?f c, OF site_step.complete [OF k]] show ?thesis by (simp add: x)
qed

lemma force_steps: "site_ok q \<Longrightarrow> site_steps E R q D s (snd (ForceScrapeSite E R q c now site s))"
proof (cases "c = NoClient \<or> si_URL site = [] \<or> site_Marshal E site = None")
  case False
  assume ok: "site_ok q"
  from False obtain payload where p: "c \<noteq> NoClient" "si_URL site \<noteq> []" "site_Marshal E site = Some payload" by auto
  let ?f = "force_member E R (site_queueKey q (si_URL site)) (si_URL site) now payload"
  obtain r u where x: "run_script c ?f s = (r, u)" by (metis prod.collapse)
  have "snd (ForceScrapeSite E R q c now site s) = u" using p by (cases r) (simp_all add: ForceScrapeSite_def x)
  moreover have "site_step E R q D s (snd (?f s))" using p(3) by (intro site_step.force [OF site_queueKey_in [OF ok]]) blast
  ultimately show ?thesis using run_script_steps [of "site_step E R q D" s ?f c] by (simp add: x)
qed (auto simp: ForceScrapeSite_def)

lemma renew_steps: "job_queueKey job \<in> set (site_popKeys q) \<Longrightarrow> site_steps E R q D s (snd (RenewScrapeSiteLease R q c now job s))"
proof -
  assume k: "job_queueKey job \<in> set (site_popKeys q)"
  let ?f = "site_renew_script R (job_queueKey job) heads_key (site_key (si_URL (job_Site job))) (lease_key (si_URL (job_Site job)))
      (si_URL (job_Site job)) (job_claimID job) (now + lease_period_ms q)"
  obtain r u where x: "run_call c ?f s = (r, u)" by (metis prod.collapse)
  have "snd (RenewScrapeSiteLease R q c now job s) = u"
    by (cases r) (simp_all add: RenewScrapeSiteLease_def Let_def x)
  with run_call_snd_steps [of "site_step E R q D" s ?f c, OF site_step.renew [OF k]] show ?thesis by (simp add: x)
qed



end
