(* ===== verification/Spec2Isabelle.thy ===== *)
theory Spec2Isabelle
  imports Checker_Settings Reputation Blacklist Robots_Guard Checker_Plans Rate_Limit Lease_Properties Failure_Tracker Check_Requests Check_Results Worker_Cycle Worker_Threads Site_Methods
begin

text \<open>
  Magpie backend: a verification library of its core logic.

  Magpie checks proxies for many workspaces. Routes are imported and scraped from web sites, filtered against IP
  blacklists, stored with encrypted credentials, queued in Redis by due time, taken by checker workers that send
  requests through them with settings chosen by tags, scored by reputation, and offered to users through an HTTP
  server with rate limits. The Go sources are under \<open>src/\<close>; paths below are relative to \<open>src/internal\<close>.

  Theories, in import order, and what they model.

  \<open>Magpie_Prelude\<close>: words, results, the parts of packages strings and time that are used, list lemmas.
  \<open>Checker_Settings\<close>: validation and resolution of tag rules (\<open>domain/checker_settings.go\<close>, \<open>api/dto/checker_settings.go\<close>).
  \<open>Reputation\<close>: the scorer (\<open>support/reputation/scorer.go\<close>) over rationals, with the 16-bit overflow of its median.
  \<open>Expiry_Cache\<close>: the LRU cache with expiry (\<open>support/expiry_cache.go\<close>), refined to a reference LRU.
  \<open>Net_Addr\<close>, \<open>Blacklist\<close>: \<open>net/netip\<close> addresses and prefixes; the range cache, filters and refresh (\<open>blacklist/manager.go\<close>).
  \<open>Egress_Guard\<close>: website blocklist and outbound guard (\<open>config/website_blocklist.go\<close>, \<open>support/outbound_guard.go\<close>).
  \<open>Robots_Guard\<close>: robots.txt checks with a cache (\<open>jobs/scraper/robots_guard.go\<close>), a client of the cache's interface.
  \<open>Checker_Plans\<close>: route plans, their merge and cache (\<open>checkerconfig/proxy_plans.go\<close>, \<open>checkerconfig/cache.go\<close>).
  \<open>Expiry_Heap\<close>, \<open>Rate_Limit\<close>: the heap of expiries and the authentication limiters (\<open>app/server/auth_rate_limit.go\<close>).
  \<open>Proxy_Route\<close>: a route's host, hash and encrypted credentials (\<open>domain/proxy_model.go\<close>, \<open>security/proxy_secret.go\<close>).
  \<open>Redis_Store\<close>, \<open>Work_Queue\<close>: the Redis interface, and what the sharded queues share (\<open>jobs/queue/heads.go\<close> and helpers).
  \<open>Proxy_Queue\<close>: payloads, Lua scripts and methods of the proxy queue (\<open>jobs/queue/proxy\<close>); \<open>Proxy_Leases\<close>: their invariant,
    step relation and lease laws; \<open>Lease_Properties\<close>: the properties over any Redis.
  \<open>Failure_Tracker\<close>: failure streaks, their batches and the pause or deletion they trigger (\<open>jobs/checker/failure_tracker.go\<close>).
  \<open>Judge_Pool\<close>: the judges of a workspace by scheme and their synchronisation (\<open>jobs/checker/judges\<close>).
  \<open>Checker_Worker\<close>, \<open>Check_Requests\<close>: refreshing queued owners and building the requests of a check cycle
    (\<open>jobs/checker/thread_handler.go\<close>), and what those requests guarantee.
  \<open>Check_Results\<close>: attempts under a lease, response validation with its pattern cache, verdicts, statistics and stored
    bodies (\<open>jobs/checker/thread_handler.go\<close>, \<open>request_handler.go\<close>).
  \<open>Intervals\<close>, \<open>Worker_Threads\<close>: configured intervals and their listeners (\<open>config/time.go\<close>); how many workers run (\<open>getAutoThreads\<close>,
    \<open>autoThreadCount\<close> and the dispatchers of \<open>jobs/checker/thread_handler.go\<close> and \<open>jobs/scraper/thread_handler.go\<close>).
  \<open>Worker_Cycle\<close>: ownership lookups, failure events and the end of a cycle, and the cycle as a whole (\<open>work\<close>).
  \<open>Site_Queue\<close>, \<open>Site_Claims\<close>: the queue of scrape sources, its Lua scripts and methods (\<open>jobs/queue/sites\<close>); the step
    relation of claims and provider deadlines. \<open>Site_Properties\<close>, \<open>Site_Methods\<close>: the properties over any Redis.

  Correspondence. A Go struct is a record with its fields, a method a function that takes the receiver's state and
  returns it updated, \<open>(T, error)\<close> a sum of an error datatype and the value, a map an association list or a function, a
  loop a recursive function. Unsigned integers keep their width as words where arithmetic can wrap; other integers are
  unbounded with the wrap-around written out (\<open>wrap64\<close>). Clocks, random numbers, environment variables and the outcomes
  of network calls are arguments, so the theorems hold for every value of them. Code outside the repository is a
  parameter: Redis (\<open>redis_ops\<close>, laws \<open>redis_store\<close>, with an in-memory instance), resolvers and dialers, JSON and Lua's
  cjson, SHA-256, HMAC, AES-GCM and base64 (\<open>crypto_laws\<close>), \<open>netip\<close>, \<open>net/url\<close> and IDNA parsing, the database functions a
  component calls. Mutexes make the guarded operations atomic; what goroutines interleave is a step relation or an
  argument that says what others did in between.

  Interfaces. \<open>redis_store\<close> (the commands a queue uses), \<open>expiring_cache\<close> (interpreted on the LRU cache, used by the robots guard),
  \<open>expiry_queue\<close> (interpreted on the binary heap of \<open>container/heap\<close>, used by the rate limiter).

  Lemma groups. Each component theory proves its invariant preserved by every operation, then the behaviour of each
  operation on every branch. Numbered text blocks state the properties (C1 to C40) with a witness on concrete input.

  Bounds and fuel. The pop script of the proxy queue tries eight rounds, as in the source; \<open>pop_finds_earliest\<close> says when they
  are enough. \<open>GetNextProxyContext\<close> and other endless loops run over the list of their turns' events and return nothing
  while they would still wait. Bisections and heaps terminate by measures on index differences. Scores in Redis are
  rationals; the doubles of Redis hold them exactly below 2^52 milliseconds.

  Not modelled, and why: HTTP routes, GraphQL schema and bootstrap (wiring and I/O around the modelled parts); SQL
  handlers (their meaning is that of the database); the scraper's browser and request plumbing, e-mail, geolocation and
  AbuseIPDB clients (network I/O); statistics aggregation and retention (SQL and channels); the JSON decoding of old
  payload formats; metrics and logging. The manifest lists them one by one.
\<close>

end
